(* ===== verification/Pono_Prelude.thy ===== *)
theory Pono_Prelude
  imports Main "HOL-Library.AList"
begin

section \<open>Shared vocabulary: exceptions, results, association lists\<close>

text \<open>
  What every component of the model shares.  A C++ exception is a value of \<open>exn\<close>; an
  operation that may throw returns \<open>exn + 'a\<close>, with \<open>Inl\<close> for the exception.
  \<open>bindE\<close> sequences two such operations, as two statements of a function body are
  sequenced: the first exception leaves the function.  Hash sets of terms are lists, in the
  order in which one run would iterate over them; hash maps are association lists, updated and
  looked up with \<open>AList.update\<close> and \<open>map_of\<close>.  \<open>OutOfRange\<close> is what
  \<open>std::unordered_map::at\<close> throws, \<open>InvalidArgument\<close> what \<open>std::stoull\<close> throws; \<open>UndefinedBehaviour\<close> marks an execution the
  C++ standard gives no meaning to; \<open>OutOfFuel\<close> is the model's own, for a loop that has not
  ended within the rounds it was given.
\<close>

datatype exn =
    PonoException string
  | SmtException string
  | InternalSolverException
  | OutOfRange
  | InvalidArgument
  | UndefinedBehaviour string
  | OutOfFuel

type_synonym 'a result = "exn + 'a"

definition bindE :: "'a result \<Rightarrow> ('a \<Rightarrow> 'b result) \<Rightarrow> 'b result" where
  "bindE m f = (case m of Inl e \<Rightarrow> Inl e | Inr x \<Rightarrow> f x)"

definition guardE :: "bool \<Rightarrow> exn \<Rightarrow> 'a result \<Rightarrow> 'a result" where
  "guardE ok e k = (if ok then k else Inl e)"

definition lookupE :: "('k \<times> 'v) list \<Rightarrow> 'k \<Rightarrow> 'v result" where
  "lookupE m k = (case map_of m k of Some v \<Rightarrow> Inr v | None \<Rightarrow> Inl OutOfRange)"

fun foldE :: "('a \<Rightarrow> 's \<Rightarrow> 's result) \<Rightarrow> 'a list \<Rightarrow> 's \<Rightarrow> 's result" where
  "foldE f [] s = Inr s"
| "foldE f (x # xs) s = bindE (f x s) (foldE f xs)"

lemma bindE_simps [simp]:
  "bindE (Inl e) f = Inl e"
  "bindE (Inr x) f = f x"
  by (simp_all add: bindE_def)

lemma bindE_Inr_iff: "bindE m f = Inr y \<longleftrightarrow> (\<exists>x. m = Inr x \<and> f x = Inr y)"
  by (cases m) auto

lemma bindE_Inl_iff: "bindE m f = Inl e \<longleftrightarrow> m = Inl e \<or> (\<exists>x. m = Inr x \<and> f x = Inl e)"
  by (cases m) auto

lemma bindE_InrE:
  assumes "bindE m f = Inr y"
  obtains x where "m = Inr x" and "f x = Inr y"
  using assms by (auto simp: bindE_Inr_iff)

lemma lookupE_Inr_iff [simp]: "lookupE m k = Inr v \<longleftrightarrow> map_of m k = Some v"
  by (simp add: lookupE_def split: option.splits)

lemma guardE_Inr_iff [simp]: "guardE ok e k = Inr y \<longleftrightarrow> ok \<and> k = Inr y"
  by (simp add: guardE_def)

lemma guardE_Inl_iff: "guardE ok e k = Inl e' \<longleftrightarrow> (\<not> ok \<and> e' = e) \<or> (ok \<and> k = Inl e')"
  by (auto simp: guardE_def)

lemma guardE_True [simp]: "guardE True e k = k"
  by (simp add: guardE_def)

lemma guardE_False [simp]: "guardE False e k = Inl e"
  by (simp add: guardE_def)

text \<open>An invariant of one step is an invariant of the loop.\<close>

lemma foldE_invariant:
  assumes "foldE f xs s = Inr t" and "P s"
    and "\<And>x s t. x \<in> set xs \<Longrightarrow> P s \<Longrightarrow> f x s = Inr t \<Longrightarrow> P t"
  shows "P t"
  using assms
proof (induction xs arbitrary: s)
  case Nil
  then show ?case by simp
next
  case (Cons x xs)
  from Cons.prems(1) obtain u where u: "f x s = Inr u" "foldE f xs u = Inr t"
    by (auto simp: bindE_Inr_iff)
  from Cons.prems(2,3) u(1) have "P u" by (metis list.set_intros(1))
  with Cons.IH [OF u(2)] Cons.prems(3) show ?case by (meson list.set_intros(2))
qed

subsection \<open>Association lists\<close>

lemmas alist_simps [simp] = update_conv' dom_update

lemma map_of_None_iff: "map_of m k = None \<longleftrightarrow> k \<notin> fst ` set m"
  by (rule map_of_eq_None_iff)

lemma map_of_Some_in: "map_of m k = Some v \<Longrightarrow> k \<in> fst ` set m"
  by (force dest: map_of_SomeD)

lemma ran_map_of_in: "map_of m k = Some v \<Longrightarrow> v \<in> snd ` set m"
  by (force dest: map_of_SomeD)

lemma set_update_subset: "set (AList.update k v m) \<subseteq> insert (k, v) (set m)"
  by (induction m) auto

lemma snd_update_subset: "snd ` set (AList.update k v m) \<subseteq> insert v (snd ` set m)"
  using set_update_subset by fastforce

end
