(* ===== verification/Smt_Switch.thy ===== *)
theory Smt_Switch
  imports Pono_Prelude
begin

section \<open>The smt-switch interface: sorts, terms, models, solvers\<close>

text \<open>
  The repository is written against smt-switch, which is not part of it.  This theory states
  what the code sees of that library.

  The data the code inspects is a datatype: sorts with the sort kinds the code names, operators,
  and terms as \<open>Term\<close> exposes them (\<open>get_op\<close>, \<open>get_sort\<close>, iteration over the
  children, \<open>is_symbolic_const\<close>, \<open>is_value\<close>).

  The operations are fields of two records that every definition of the model takes as an
  argument: \<open>smt_builder\<close> (building terms) and \<open>smt_solver\<close> (the assertion stack,
  satisfiability, values).  What the code relies on is stated in the locales \<open>smt_terms\<close>
  and \<open>smt_engine\<close>; the last section gives concrete instances and interprets both locales
  on them.
\<close>

subsection \<open>Sorts, operators, terms\<close>

datatype smt_sort =
    BOOL
  | BV nat
  | INTSORT
  | REAL
  | ARRAY smt_sort smt_sort
  | FUNCTION "smt_sort list" smt_sort
  | UNINTERPRETED string

datatype primop =
    And | Or | Xor | NotOp | Implies | Ite | Equal | Distinct | Apply
  | Plus | Minus | Negate | Mult | Div | Lt | Le | Gt | Ge | Mod | Abs | Pow | IntDiv
  | To_Real | To_Int | Is_Int
  | Concat | Extract | BVNot | BVNeg | BVAnd | BVOr | BVXor | BVNand | BVNor | BVXnor
  | BVAdd | BVSub | BVMul | BVUdiv | BVSdiv | BVUrem | BVSrem | BVSmod | BVShl | BVAshr | BVLshr
  | BVComp | BVUlt | BVUle | BVUgt | BVUge | BVSlt | BVSle | BVSgt | BVSge
  | Zero_Extend | Sign_Extend | Repeat | Rotate_Left | Rotate_Right | BV_To_Nat | Int_To_BV
  | Select | Store

text \<open>An operator is a primitive operator with its indices (the bounds of an extract, say).\<close>

datatype op = Op (prim_op: primop) (op_idx: "nat list")

abbreviation op0 :: "primop \<Rightarrow> op" where
  "op0 p \<equiv> Op p []"

datatype val =
    BoolVal bool
  | BVVal nat nat
  | IntVal int
  | OtherVal string "nat list"

datatype tm =
    Sym string smt_sort
  | Param string smt_sort
  | Val val smt_sort
  | ConstArr tm smt_sort
  | Node op smt_sort "tm list"

type_synonym sym = "string \<times> smt_sort"

primrec get_sort :: "tm \<Rightarrow> smt_sort" where
  "get_sort (Sym n s) = s"
| "get_sort (Param n s) = s"
| "get_sort (Val v s) = s"
| "get_sort (ConstArr t s) = s"
| "get_sort (Node op s ts) = s"

primrec get_op :: "tm \<Rightarrow> op option" where
  "get_op (Sym n s) = None"
| "get_op (Param n s) = None"
| "get_op (Val v s) = None"
| "get_op (ConstArr t s) = None"
| "get_op (Node op s ts) = Some op"

primrec children :: "tm \<Rightarrow> tm list" where
  "children (Sym n s) = []"
| "children (Param n s) = []"
| "children (Val v s) = []"
| "children (ConstArr t s) = [t]"
| "children (Node op s ts) = ts"

fun is_fun_sort :: "smt_sort \<Rightarrow> bool" where
  "is_fun_sort (FUNCTION _ _) = True"
| "is_fun_sort _ = False"

fun is_symbolic_const :: "tm \<Rightarrow> bool" where
  "is_symbolic_const (Sym n s) = (\<not> is_fun_sort s)"
| "is_symbolic_const _ = False"

fun is_symbol :: "tm \<Rightarrow> bool" where
  "is_symbol (Sym n s) = True"
| "is_symbol _ = False"

fun is_value :: "tm \<Rightarrow> bool" where
  "is_value (Val v s) = True"
| "is_value _ = False"

abbreviation tm_true :: tm where
  "tm_true \<equiv> Val (BoolVal True) BOOL"

abbreviation tm_false :: tm where
  "tm_false \<equiv> Val (BoolVal False) BOOL"

text \<open>The symbol of a variable, as a key of an assignment.\<close>

fun sym_of :: "tm \<Rightarrow> sym" where
  "sym_of (Sym n s) = (n, s)"
| "sym_of _ = ('''', BOOL)"

abbreviation tm_of :: "sym \<Rightarrow> tm" where
  "tm_of x \<equiv> Sym (fst x) (snd x)"

primrec syms :: "tm \<Rightarrow> sym set" where
  "syms (Sym n s) = {(n, s)}"
| "syms (Param n s) = {}"
| "syms (Val v s) = {}"
| "syms (ConstArr t s) = syms t"
| "syms (Node op s ts) = \<Union> (set (map syms ts))"

primrec subterms :: "tm \<Rightarrow> tm set" where
  "subterms (Sym n s) = {Sym n s}"
| "subterms (Param n s) = {Param n s}"
| "subterms (Val v s) = {Val v s}"
| "subterms (ConstArr t s) = insert (ConstArr t s) (subterms t)"
| "subterms (Node op s ts) = insert (Node op s ts) (\<Union> (set (map subterms ts)))"

lemma subterms_refl [simp]: "t \<in> subterms t"
  by (cases t) auto

lemma subterms_unfold: "subterms t = insert t (\<Union>c \<in> set (children t). subterms c)"
  by (cases t) auto

lemma syms_unfold: "\<not> is_symbol t \<Longrightarrow> syms t = (\<Union>c \<in> set (children t). syms c)"
  by (cases t) auto

lemma syms_iff_subterm: "(n, s) \<in> syms t \<longleftrightarrow> Sym n s \<in> subterms t"
  by (induction t) auto

lemma finite_subterms [simp]: "finite (subterms t)"
  by (induction t) auto

lemma is_symbolic_constE:
  assumes "is_symbolic_const t"
  obtains n s where "t = Sym n s" and "\<not> is_fun_sort s"
  using assms by (cases t) auto

lemma tm_of_sym_of [simp]: "is_symbol t \<Longrightarrow> tm_of (sym_of t) = t"
  by (cases t) auto

lemma symbolic_is_symbol [simp]: "is_symbolic_const t \<Longrightarrow> is_symbol t"
  by (cases t) auto

text \<open>Every loop over a stack of terms of the code ends because children are smaller.\<close>

primrec tm_weight :: "tm \<Rightarrow> nat" where
  "tm_weight (Sym n s) = 1"
| "tm_weight (Param n s) = 1"
| "tm_weight (Val v s) = 1"
| "tm_weight (ConstArr t s) = Suc (tm_weight t)"
| "tm_weight (Node op s ts) = Suc (sum_list (map tm_weight ts))"

lemma weight_children: "tm_weight t = Suc (sum_list (map tm_weight (children t)))"
  by (cases t) auto

lemma weight_children_less [simp]: "sum_list (map tm_weight (children t)) < tm_weight t"
  by (simp add: weight_children)

subsection \<open>Meaning of terms\<close>

text \<open>
  An assignment gives every symbol a value.  The Boolean core, equality and if-then-else mean
  what SMT-LIB says; the other operators (bit-vectors, arrays, arithmetic, uninterpreted
  functions) mean what the parameter \<open>F\<close> says.
\<close>

type_synonym assignment = "sym \<Rightarrow> val"
type_synonym theory_ops = "op \<Rightarrow> val list \<Rightarrow> val"

abbreviation is_tt :: "val \<Rightarrow> bool" where
  "is_tt v \<equiv> v = BoolVal True"

fun core_sem :: "primop \<Rightarrow> val list \<Rightarrow> val option" where
  "core_sem And vs = Some (BoolVal (list_all is_tt vs))"
| "core_sem Or vs = Some (BoolVal (list_ex is_tt vs))"
| "core_sem Xor [a, b] = Some (BoolVal (is_tt a \<noteq> is_tt b))"
| "core_sem NotOp [a] = Some (BoolVal (\<not> is_tt a))"
| "core_sem Implies [a, b] = Some (BoolVal (is_tt a \<longrightarrow> is_tt b))"
| "core_sem Ite [c, a, b] = Some (if is_tt c then a else b)"
| "core_sem Equal [a, b] = Some (BoolVal (a = b))"
| "core_sem Distinct vs = Some (BoolVal (distinct vs))"
| "core_sem _ _ = None"

definition sem_op :: "theory_ops \<Rightarrow> op \<Rightarrow> val list \<Rightarrow> val" where
  "sem_op F op vs = (case core_sem (prim_op op) vs of Some v \<Rightarrow> v | None \<Rightarrow> F op vs)"

primrec eval :: "theory_ops \<Rightarrow> assignment \<Rightarrow> tm \<Rightarrow> val" where
  "eval F \<sigma> (Sym n s) = \<sigma> (n, s)"
| "eval F \<sigma> (Param n s) = OtherVal n []"
| "eval F \<sigma> (Val v s) = v"
| "eval F \<sigma> (ConstArr t s) = F (op0 Store) [eval F \<sigma> t]"
| "eval F \<sigma> (Node op s ts) = sem_op F op (map (eval F \<sigma>) ts)"

abbreviation holds :: "theory_ops \<Rightarrow> assignment \<Rightarrow> tm \<Rightarrow> bool" where
  "holds F \<sigma> t \<equiv> is_tt (eval F \<sigma> t)"

abbreviation all_hold :: "theory_ops \<Rightarrow> assignment \<Rightarrow> tm list \<Rightarrow> bool" where
  "all_hold F \<sigma> ts \<equiv> (\<forall>t \<in> set ts. holds F \<sigma> t)"

lemma eval_cong: "(\<And>x. x \<in> syms t \<Longrightarrow> \<sigma> x = \<tau> x) \<Longrightarrow> eval F \<sigma> t = eval F \<tau> t"
proof (induction t)
  case (Node op s ts)
  then have "map (eval F \<sigma>) ts = map (eval F \<tau>) ts" by (intro map_cong) auto
  then show ?case by (simp only: eval.simps)
qed auto

text \<open>The values of a sort; an assignment a solver can return respects the sorts.\<close>

fun carrier :: "smt_sort \<Rightarrow> val set" where
  "carrier BOOL = range BoolVal"
| "carrier (BV w) = {BVVal w n | n. n < 2 ^ w}"
| "carrier INTSORT = range IntVal"
| "carrier _ = UNIV"

definition wsorted :: "assignment \<Rightarrow> bool" where
  "wsorted \<sigma> \<longleftrightarrow> (\<forall>n s. \<sigma> (n, s) \<in> carrier s)"

lemma carrier_nonempty [simp]: "carrier s \<noteq> {}"
  by (induction s rule: carrier.induct) (auto intro: exI [of _ 0])

lemma wsorted_Bool: "wsorted \<sigma> \<Longrightarrow> \<exists>b. \<sigma> (n, BOOL) = BoolVal b"
  unfolding wsorted_def by (metis (no_types) carrier.simps(1) imageE)


subsection \<open>Building terms\<close>

text \<open>
  The term-building side of an \<open>SmtSolver\<close>: \<open>make_term\<close>, \<open>substitute\<close>,
  \<open>get_free_symbolic_consts\<close> and \<open>to_string\<close>, and the \<open>SubstitutionWalker\<close>,
  which replaces arbitrary subterms; also the order of terms (by their unique identifiers) that
  sorts a vector of terms, and their hash values.
\<close>

record smt_builder =
  mk_term :: "op \<Rightarrow> tm list \<Rightarrow> tm"
  substitute :: "tm \<Rightarrow> (tm \<times> tm) list \<Rightarrow> tm"
  subst_walk :: "tm \<Rightarrow> (tm \<times> tm) list \<Rightarrow> tm"
  free_consts :: "tm \<Rightarrow> tm list"
  term_str :: "tm \<Rightarrow> string"
  term_less :: "tm \<Rightarrow> tm \<Rightarrow> bool"
  term_hash :: "tm \<Rightarrow> nat"

text \<open>
  \<open>make_symbol\<close> adds a name to the solver's symbol table and throws for a name that is
  there already; the table is part of the state of whoever holds the solver.
\<close>

definition make_symbol :: "string \<Rightarrow> smt_sort \<Rightarrow> string list \<Rightarrow> (tm \<times> string list) result" where
  "make_symbol n s tab =
     guardE (n \<notin> set tab) (SmtException ''symbol has already been used'') (Inr (Sym n s, n # tab))"

text \<open>The assignment under which \<open>t\<close> means what its substituted version means.\<close>

definition subst_env :: "theory_ops \<Rightarrow> assignment \<Rightarrow> (tm \<times> tm) list \<Rightarrow> assignment" where
  "subst_env F \<sigma> m x = (case map_of m (tm_of x) of None \<Rightarrow> \<sigma> x | Some u \<Rightarrow> eval F \<sigma> u)"

definition subst_syms :: "(tm \<times> tm) list \<Rightarrow> sym set \<Rightarrow> sym set" where
  "subst_syms m X = (\<Union>x \<in> X. case map_of m (tm_of x) of None \<Rightarrow> {x} | Some u \<Rightarrow> syms u)"

definition sym_map :: "(tm \<times> tm) list \<Rightarrow> bool" where
  "sym_map m \<longleftrightarrow> list_all (\<lambda>p. is_symbol (fst p)) m"

definition bool_ops :: "primop set" where
  "bool_ops = {And, Or, Xor, NotOp, Implies, Equal, Distinct}"

locale smt_terms =
  fixes B :: smt_builder
    and F :: theory_ops
  assumes eval_mk: "eval F \<sigma> (mk_term B p ts) = sem_op F p (map (eval F \<sigma>) ts)"
    and syms_mk: "syms (mk_term B p ts) \<subseteq> (\<Union>t \<in> set ts. syms t)"
    and sort_mk_bool: "prim_op p \<in> bool_ops \<Longrightarrow> get_sort (mk_term B p ts) = BOOL"
    and eval_substitute: "sym_map m \<Longrightarrow> eval F \<sigma> (substitute B t m) = eval F (subst_env F \<sigma> m) t"
    and syms_substitute: "sym_map m \<Longrightarrow> syms (substitute B t m) \<subseteq> subst_syms m (syms t)"
    and sort_substitute: "sym_map m \<Longrightarrow> (\<And>k u. (k, u) \<in> set m \<Longrightarrow> get_sort u = get_sort k) \<Longrightarrow>
      get_sort (substitute B t m) = get_sort t"
    and eval_subst_walk: "(\<And>k u. (k, u) \<in> set m \<Longrightarrow> eval F \<sigma> k = eval F \<sigma> u) \<Longrightarrow>
      eval F \<sigma> (subst_walk B t m) = eval F \<sigma> t"
    and set_free_consts: "set (free_consts B t) = {tm_of x | x. x \<in> syms t \<and> \<not> is_fun_sort (snd x)}"
    and term_str_sym: "term_str B (Sym n s) = n"
    and term_less_irrefl: "\<not> term_less B t t"
    and term_less_trans: "term_less B t u \<Longrightarrow> term_less B u v \<Longrightarrow> term_less B t v"
    and term_less_total: "t = u \<or> term_less B t u \<or> term_less B u t"
begin

lemma holds_And [simp]: "holds F \<sigma> (mk_term B (op0 And) [a, b]) \<longleftrightarrow> holds F \<sigma> a \<and> holds F \<sigma> b"
  by (simp add: eval_mk sem_op_def)

lemma holds_Or [simp]: "holds F \<sigma> (mk_term B (op0 Or) [a, b]) \<longleftrightarrow> holds F \<sigma> a \<or> holds F \<sigma> b"
  by (simp add: eval_mk sem_op_def)

lemma holds_Not [simp]: "holds F \<sigma> (mk_term B (op0 NotOp) [a]) \<longleftrightarrow> \<not> holds F \<sigma> a"
  by (simp add: eval_mk sem_op_def)

lemma holds_Implies [simp]:
  "holds F \<sigma> (mk_term B (op0 Implies) [a, b]) \<longleftrightarrow> (holds F \<sigma> a \<longrightarrow> holds F \<sigma> b)"
  by (simp add: eval_mk sem_op_def)

lemma holds_Equal [simp]:
  "holds F \<sigma> (mk_term B (op0 Equal) [a, b]) \<longleftrightarrow> eval F \<sigma> a = eval F \<sigma> b"
  by (simp add: eval_mk sem_op_def)

lemma eval_Ite [simp]:
  "eval F \<sigma> (mk_term B (op0 Ite) [c, a, b]) = (if holds F \<sigma> c then eval F \<sigma> a else eval F \<sigma> b)"
  by (simp add: eval_mk sem_op_def)

lemma syms_mk1: "syms (mk_term B p [a]) \<subseteq> syms a"
  using syms_mk [of p "[a]"] by simp

lemma syms_mk2: "syms (mk_term B p [a, b]) \<subseteq> syms a \<union> syms b"
  using syms_mk [of p "[a, b]"] by simp

lemma syms_mk3: "syms (mk_term B p [a, b, c]) \<subseteq> syms a \<union> syms b \<union> syms c"
  using syms_mk [of p "[a, b, c]"] by auto

end

subsection \<open>Solving\<close>

datatype smt_result = SAT | UNSAT | UNKNOWN

text \<open>
  The solving side: \<open>push\<close>, \<open>pop\<close>, \<open>assert_formula\<close>,
  \<open>reset_assertions\<close>, \<open>check_sat_assuming\<close> (\<open>check_sat\<close> is the case of no
  assumptions), \<open>get_value\<close> and \<open>get_unsat_assumptions\<close>.  The type \<open>'s\<close> is
  the solver's own state.
\<close>

record 's smt_solver =
  builder :: smt_builder
  s_push :: "'s \<Rightarrow> 's"
  s_pop :: "'s \<Rightarrow> 's"
  s_assert :: "tm \<Rightarrow> 's \<Rightarrow> 's"
  s_reset_assertions :: "'s \<Rightarrow> 's"
  s_check_assuming :: "tm list \<Rightarrow> 's \<Rightarrow> smt_result \<times> 's"
  s_get_value :: "'s \<Rightarrow> tm \<Rightarrow> tm"
  s_unsat_core :: "'s \<Rightarrow> tm list"

abbreviation s_check :: "'s smt_solver \<Rightarrow> 's \<Rightarrow> smt_result \<times> 's" where
  "s_check S \<equiv> s_check_assuming S []"

definition satisfiable :: "theory_ops \<Rightarrow> tm list \<Rightarrow> bool" where
  "satisfiable F ts \<longleftrightarrow> (\<exists>\<sigma>. wsorted \<sigma> \<and> all_hold F \<sigma> ts)"

text \<open>
  The laws.  \<open>frames\<close> reads the assertion stack off the solver's state, innermost level
  first.  A \<open>SAT\<close> answer comes with a model that \<open>get_value\<close> reads; an
  \<open>UNSAT\<close> answer means that no assignment satisfies the assertions, and the unsatisfiable
  core is a list of assumptions that is enough for that.  Nothing is said of
  \<open>UNKNOWN\<close>.
\<close>

locale smt_engine = smt_terms "builder S" F
  for S :: "'s smt_solver" and F :: theory_ops +
  fixes frames :: "'s \<Rightarrow> tm list list"
  assumes frames_push: "frames (s_push S s) = [] # frames s"
    and frames_pop: "frames (s_pop S s) = tl (frames s)"
    and frames_assert: "frames (s_assert S t s)
      = (case frames s of [] \<Rightarrow> [[t]] | f # fs \<Rightarrow> (t # f) # fs)"
    and frames_reset: "frames (s_reset_assertions S s) = [[]]"
    and frames_check: "s_check_assuming S as s = (r, s') \<Longrightarrow> frames s' = frames s"
    and check_SAT: "s_check_assuming S as s = (SAT, s') \<Longrightarrow>
      \<exists>\<sigma>. wsorted \<sigma> \<and> all_hold F \<sigma> (concat (frames s)) \<and> all_hold F \<sigma> as
        \<and> (\<forall>t. s_get_value S s' t = Val (eval F \<sigma> t) (get_sort t))"
    and check_UNSAT: "s_check_assuming S as s = (UNSAT, s') \<Longrightarrow>
      \<not> satisfiable F (concat (frames s) @ as)"
    and core_UNSAT: "s_check_assuming S as s = (UNSAT, s') \<Longrightarrow>
      set (s_unsat_core S s') \<subseteq> set as
        \<and> \<not> satisfiable F (concat (frames s) @ s_unsat_core S s')"
begin

text \<open>The assertions in force, as a set: what the proofs about the engines track.\<close>

definition asserted :: "'s \<Rightarrow> tm set" where
  "asserted s = set (concat (frames s))"

lemma asserted_push [simp]: "asserted (s_push S s) = asserted s"
  by (simp add: asserted_def frames_push)

lemma asserted_assert [simp]: "asserted (s_assert S t s) = insert t (asserted s)"
  by (cases "frames s") (auto simp: asserted_def frames_assert)

lemma asserted_reset [simp]: "asserted (s_reset_assertions S s) = {}"
  by (simp add: asserted_def frames_reset)

lemma asserted_check: "s_check_assuming S as s = (r, s') \<Longrightarrow> asserted s' = asserted s"
  by (simp add: asserted_def frames_check)

lemma check_SAT_model:
  assumes "s_check_assuming S as s = (SAT, s')"
  obtains \<sigma> where "wsorted \<sigma>" and "\<And>t. t \<in> asserted s \<Longrightarrow> holds F \<sigma> t"
    and "\<And>t. t \<in> set as \<Longrightarrow> holds F \<sigma> t"
    and "\<And>t. s_get_value S s' t = Val (eval F \<sigma> t) (get_sort t)"
  using check_SAT [OF assms] unfolding asserted_def by blast

lemma check_UNSAT_no_model:
  assumes "s_check_assuming S as s = (UNSAT, s')" and "wsorted \<sigma>"
    and "\<And>t. t \<in> asserted s \<Longrightarrow> holds F \<sigma> t" and "\<And>t. t \<in> set as \<Longrightarrow> holds F \<sigma> t"
  shows False
  using check_UNSAT [OF assms(1)] assms(2-4) unfolding satisfiable_def asserted_def
  by (metis Un_iff set_append)

end

subsection \<open>A concrete builder and a concrete solver\<close>

text \<open>
  The builder that keeps the structure of a term, as the logging solver of smt-switch does.
\<close>

fun op_sort :: "primop \<Rightarrow> smt_sort list \<Rightarrow> smt_sort" where
  "op_sort p ss =
     (if p \<in> {And, Or, Xor, NotOp, Implies, Equal, Distinct, Lt, Le, Gt, Ge, Is_Int, BVUlt,
        BVUle, BVUgt, BVUge, BVSlt, BVSle, BVSgt, BVSge} then BOOL
      else if p = Ite then (case ss of [_, s, _] \<Rightarrow> s | _ \<Rightarrow> BOOL)
      else if p = Select then (case ss of ARRAY _ e # _ \<Rightarrow> e | _ \<Rightarrow> BOOL)
      else if p = Apply then (case ss of FUNCTION _ r # _ \<Rightarrow> r | _ \<Rightarrow> BOOL)
      else if p = BVComp then BV 1
      else (case ss of s # _ \<Rightarrow> s | [] \<Rightarrow> BOOL))"

definition plain_mk_term :: "op \<Rightarrow> tm list \<Rightarrow> tm" where
  "plain_mk_term p ts = Node p (op_sort (prim_op p) (map get_sort ts)) ts"

primrec plain_substitute :: "tm \<Rightarrow> (tm \<times> tm) list \<Rightarrow> tm" where
  "plain_substitute (Sym n s) m = (case map_of m (Sym n s) of Some u \<Rightarrow> u | None \<Rightarrow> Sym n s)"
| "plain_substitute (Param n s) m = (case map_of m (Param n s) of Some u \<Rightarrow> u | None \<Rightarrow> Param n s)"
| "plain_substitute (Val v s) m = (case map_of m (Val v s) of Some u \<Rightarrow> u | None \<Rightarrow> Val v s)"
| "plain_substitute (ConstArr t s) m =
     (case map_of m (ConstArr t s) of Some u \<Rightarrow> u | None \<Rightarrow> ConstArr (plain_substitute t m) s)"
| "plain_substitute (Node p s ts) m =
     (case map_of m (Node p s ts) of Some u \<Rightarrow> u
      | None \<Rightarrow> Node p s (map (\<lambda>t. plain_substitute t m) ts))"

primrec sym_list :: "tm \<Rightarrow> sym list" where
  "sym_list (Sym n s) = [(n, s)]"
| "sym_list (Param n s) = []"
| "sym_list (Val v s) = []"
| "sym_list (ConstArr t s) = sym_list t"
| "sym_list (Node p s ts) = concat (map sym_list ts)"

definition plain_free_consts :: "tm \<Rightarrow> tm list" where
  "plain_free_consts t = map tm_of (remdups (filter (\<lambda>x. \<not> is_fun_sort (snd x)) (sym_list t)))"

fun plain_str :: "tm \<Rightarrow> string" where
  "plain_str (Sym n s) = n"
| "plain_str (Param n s) = n"
| "plain_str (Val (BoolVal b) s) = (if b then ''true'' else ''false'')"
| "plain_str _ = ''term''"

text \<open>Terms in the order of their codes; a code can be read back from the front of a list.\<close>

definition primops :: "primop list" where
  "primops = [And, Or, Xor, NotOp, Implies, Ite, Equal, Distinct, Apply, Plus, Minus, Negate, Mult, Div,
     Lt, Le, Gt, Ge, Mod, Abs, Pow, IntDiv, To_Real, To_Int, Is_Int, Concat, Extract, BVNot, BVNeg, BVAnd,
     BVOr, BVXor, BVNand, BVNor, BVXnor, BVAdd, BVSub, BVMul, BVUdiv, BVSdiv, BVUrem, BVSrem, BVSmod, BVShl,
     BVAshr, BVLshr, BVComp, BVUlt, BVUle, BVUgt, BVUge, BVSlt, BVSle, BVSgt, BVSge, Zero_Extend,
     Sign_Extend, Repeat, Rotate_Left, Rotate_Right, BV_To_Nat, Int_To_BV, Select, Store]"

definition nats_code :: "nat list \<Rightarrow> nat list" where
  "nats_code ns = length ns # ns"

definition str_code :: "string \<Rightarrow> nat list" where
  "str_code s = nats_code (map of_char s)"

definition op_code :: "op \<Rightarrow> nat list" where
  "op_code p = length (takeWhile (\<lambda>q. q \<noteq> prim_op p) primops) # nats_code (op_idx p)"

primrec sort_code :: "smt_sort \<Rightarrow> nat list" where
  "sort_code BOOL = [0]"
| "sort_code (BV w) = [1, w]"
| "sort_code INTSORT = [2]"
| "sort_code REAL = [3]"
| "sort_code (ARRAY i e) = 4 # sort_code i @ sort_code e"
| "sort_code (FUNCTION ss r) = 5 # length ss # concat (map sort_code ss) @ sort_code r"
| "sort_code (UNINTERPRETED n) = 6 # str_code n"

primrec val_code :: "val \<Rightarrow> nat list" where
  "val_code (BoolVal b) = [0, if b then 1 else 0]"
| "val_code (BVVal w n) = [1, w, n]"
| "val_code (IntVal i) = [2, if 0 \<le> i then 1 else 0, nat \<bar>i\<bar>]"
| "val_code (OtherVal n ns) = 3 # str_code n @ nats_code ns"

primrec tm_code :: "tm \<Rightarrow> nat list" where
  "tm_code (Sym n s) = 0 # str_code n @ sort_code s"
| "tm_code (Param n s) = 1 # str_code n @ sort_code s"
| "tm_code (Val v s) = 2 # val_code v @ sort_code s"
| "tm_code (ConstArr t s) = 3 # sort_code s @ tm_code t"
| "tm_code (Node p s ts) = 4 # op_code p @ sort_code s @ length ts # concat (map tm_code ts)"

fun lex_less :: "nat list \<Rightarrow> nat list \<Rightarrow> bool" where
  "lex_less xs [] = False"
| "lex_less [] (y # ys) = True"
| "lex_less (x # xs) (y # ys) = (x < y \<or> x = y \<and> lex_less xs ys)"

definition plain_less :: "tm \<Rightarrow> tm \<Rightarrow> bool" where
  "plain_less t u = lex_less (tm_code t) (tm_code u)"

definition plain_builder :: smt_builder where
  "plain_builder = \<lparr>mk_term = plain_mk_term, substitute = plain_substitute,
     subst_walk = plain_substitute, free_consts = plain_free_consts, term_str = plain_str,
     term_less = plain_less, term_hash = (\<lambda>t. sum_list (tm_code t))\<rparr>"

lemma nats_code_inj: "nats_code xs @ zs = nats_code ys @ zs' \<longleftrightarrow> xs = ys \<and> zs = zs'"
  by (auto simp: nats_code_def)

lemma str_code_inj: "str_code s @ zs = str_code t @ zs' \<longleftrightarrow> s = t \<and> zs = zs'"
proof -
  have "inj (map (of_char :: char \<Rightarrow> nat))" by (intro inj_mapI injI) simp
  then show ?thesis by (auto simp: str_code_def nats_code_inj dest: injD)
qed

lemma primops_all: "p \<in> set primops"
  by (cases p) (simp_all add: primops_def)

lemma index_inj:
  assumes "x \<in> set xs" and "length (takeWhile (\<lambda>q. q \<noteq> x) xs) = length (takeWhile (\<lambda>q. q \<noteq> y) xs)"
  shows "x = y"
  using assms by (induction xs) (auto split: if_splits)

lemma op_code_inj: "op_code p @ zs = op_code q @ zs' \<longleftrightarrow> p = q \<and> zs = zs'"
proof
  assume "op_code p @ zs = op_code q @ zs'"
  then have "length (takeWhile (\<lambda>r. r \<noteq> prim_op p) primops) = length (takeWhile (\<lambda>r. r \<noteq> prim_op q) primops)"
    and c: "nats_code (op_idx p) @ zs = nats_code (op_idx q) @ zs'" by (simp_all add: op_code_def)
  from index_inj [OF primops_all this(1)] have "prim_op p = prim_op q" .
  with c show "p = q \<and> zs = zs'" by (simp add: nats_code_inj op.expand)
qed simp

lemma concat_code_inj:
  assumes "\<And>x y zs zs'. x \<in> set xs \<Longrightarrow> code x @ zs = code y @ zs' \<Longrightarrow> x = y \<and> zs = zs'"
    and "length xs = length ys" and "concat (map code xs) @ zs = concat (map code ys) @ zs'"
  shows "xs = ys \<and> zs = zs'"
  using assms(2,3,1)
proof (induction xs ys arbitrary: zs zs' rule: list_induct2)
  case (Cons x xs y ys)
  from Cons.prems(1) have "code x @ (concat (map code xs) @ zs) = code y @ (concat (map code ys) @ zs')" by simp
  then have "x = y \<and> concat (map code xs) @ zs = concat (map code ys) @ zs'"
    by (intro Cons.prems(2)) simp_all
  with Cons.IH [of zs zs'] Cons.prems(2) show ?case by (metis list.set_intros(2))
qed simp

lemma sort_code_inj: "sort_code s @ zs = sort_code t @ zs' \<Longrightarrow> s = t \<and> zs = zs'"
proof (induction s arbitrary: t zs zs')
  case (ARRAY i e)
  show ?case
  proof (cases t)
    case (ARRAY i' e')
    with ARRAY.prems have "sort_code i @ (sort_code e @ zs) = sort_code i' @ (sort_code e' @ zs')" by simp
    from ARRAY.IH(1) [OF this] ARRAY.IH(2) [of zs e' zs'] ARRAY show ?thesis by simp
  qed (use ARRAY.prems in simp_all)
next
  case (FUNCTION ss r)
  show ?case
  proof (cases t)
    case (FUNCTION ss' r')
    with FUNCTION.prems have l: "length ss = length ss'"
      and e: "concat (map sort_code ss) @ (sort_code r @ zs) = concat (map sort_code ss') @ (sort_code r' @ zs')" by simp_all
    from concat_code_inj [of ss sort_code, OF FUNCTION.IH(1) l e] have "ss = ss' \<and> sort_code r @ zs = sort_code r' @ zs'" .
    with FUNCTION.IH(2) [of zs r' zs'] FUNCTION show ?thesis by simp
  qed (use FUNCTION.prems in simp_all)
next
  case (UNINTERPRETED n)
  then show ?case by (cases t) (simp_all add: str_code_inj)
qed (case_tac t; simp)+

lemma val_code_inj: "val_code v @ zs = val_code w @ zs' \<Longrightarrow> v = w \<and> zs = zs'"
proof (cases v)
  case (IntVal i)
  assume "val_code v @ zs = val_code w @ zs'"
  with IntVal show ?thesis by (cases w) (auto split: if_splits)
qed (cases w; simp add: str_code_inj nats_code_inj split: if_splits)+

lemma tm_code_inj: "tm_code t @ zs = tm_code u @ zs' \<Longrightarrow> t = u \<and> zs = zs'"
proof (induction t arbitrary: u zs zs')
  case (Sym n s)
  then show ?case using sort_code_inj [of s zs _ zs'] by (cases u) (simp_all add: str_code_inj)
next
  case (Param n s)
  then show ?case using sort_code_inj [of s zs _ zs'] by (cases u) (simp_all add: str_code_inj)
next
  case (Val v s)
  show ?case
  proof (cases u)
    case (Val w s')
    with Val.prems have "val_code v @ (sort_code s @ zs) = val_code w @ (sort_code s' @ zs')" by simp
    from val_code_inj [OF this] sort_code_inj [of s zs s' zs'] Val show ?thesis by simp
  qed (use Val.prems in simp_all)
next
  case (ConstArr t s)
  show ?case
  proof (cases u)
    case (ConstArr t' s')
    with ConstArr.prems have "sort_code s @ (tm_code t @ zs) = sort_code s' @ (tm_code t' @ zs')" by simp
    from sort_code_inj [OF this] ConstArr.IH [of zs t' zs'] ConstArr show ?thesis by simp
  qed (use ConstArr.prems in simp_all)
next
  case (Node p s ts)
  show ?case
  proof (cases u)
    case (Node q s' us)
    with Node.prems have e: "op_code p @ sort_code s @ length ts # concat (map tm_code ts) @ zs
      = op_code q @ sort_code s' @ length us # concat (map tm_code us) @ zs'" by simp
    then have "sort_code s @ length ts # concat (map tm_code ts) @ zs
        = sort_code s' @ length us # concat (map tm_code us) @ zs'" and p: "p = q" by (simp_all add: op_code_inj)
    from sort_code_inj [OF this(1)] have s: "s = s'" and l: "length ts = length us"
      and c: "concat (map tm_code ts) @ zs = concat (map tm_code us) @ zs'" by simp_all
    from concat_code_inj [of ts tm_code, OF Node.IH l c] p s Node show ?thesis by simp
  qed (use Node.prems in simp_all)
qed

lemma lex_less_trans: "lex_less xs ys \<Longrightarrow> lex_less ys zs \<Longrightarrow> lex_less xs zs"
proof (induction xs ys arbitrary: zs rule: lex_less.induct)
  case (3 x xs y ys)
  then show ?case by (cases zs) auto
qed (auto elim: lex_less.elims)

lemma lex_less_irrefl: "\<not> lex_less xs xs"
  by (induction xs) auto

lemma lex_less_total: "xs = ys \<or> lex_less xs ys \<or> lex_less ys xs"
proof (induction xs ys rule: lex_less.induct)
  case (1 xs)
  show ?case by (cases xs) simp_all
qed auto

lemma plain_less_order:
  "\<not> plain_less t t"
  "plain_less t u \<Longrightarrow> plain_less u v \<Longrightarrow> plain_less t v"
  "t = u \<or> plain_less t u \<or> plain_less u t"
proof -
  show "\<not> plain_less t t" by (simp add: plain_less_def lex_less_irrefl)
  show "plain_less t u \<Longrightarrow> plain_less u v \<Longrightarrow> plain_less t v" unfolding plain_less_def by (rule lex_less_trans)
  have "tm_code t = tm_code u \<Longrightarrow> t = u" using tm_code_inj [of t "[]" u "[]"] by simp
  then show "t = u \<or> plain_less t u \<or> plain_less u t"
    using lex_less_total [of "tm_code t" "tm_code u"] by (auto simp: plain_less_def)
qed

lemma set_sym_list: "set (sym_list t) = syms t"
  by (induction t) auto

lemma sym_map_no_key: "sym_map m \<Longrightarrow> \<not> is_symbol t \<Longrightarrow> map_of m t = None"
  by (auto simp: sym_map_def list_all_iff map_of_eq_None_iff)

lemma eval_plain_substitute:
  "sym_map m \<Longrightarrow> eval F \<sigma> (plain_substitute t m) = eval F (subst_env F \<sigma> m) t"
proof (induction t)
  case (Node p s ts)
  then have "map (\<lambda>t. eval F \<sigma> (plain_substitute t m)) ts = map (eval F (subst_env F \<sigma> m)) ts"
    by (intro map_cong) auto
  with Node.prems show ?case by (simp add: sym_map_no_key comp_def del: map_eq_conv)
qed (auto simp: subst_env_def sym_map_no_key split: option.splits)

lemma eval_plain_walk:
  "(\<And>k u. (k, u) \<in> set m \<Longrightarrow> eval F \<sigma> k = eval F \<sigma> u) \<Longrightarrow> eval F \<sigma> (plain_substitute t m) = eval F \<sigma> t"
proof (induction t)
  case (Node p s ts)
  have *: "map (\<lambda>t. eval F \<sigma> (plain_substitute t m)) ts = map (eval F \<sigma>) ts"
    by (intro map_cong refl Node.IH) (auto simp: Node.prems)
  show ?case
  proof (cases "map_of m (Node p s ts)")
    case None
    with * show ?thesis by (simp add: comp_def del: map_eq_conv)
  next
    case (Some u)
    with Node.prems [OF map_of_SomeD [OF Some]] show ?thesis by simp
  qed
qed (auto dest!: map_of_SomeD split: option.splits, (metis eval.simps)+)

lemma syms_plain_substitute:
  "sym_map m \<Longrightarrow> syms (plain_substitute t m) \<subseteq> subst_syms m (syms t)"
proof (induction t)
  case (Node p s ts)
  then have "\<And>t. t \<in> set ts \<Longrightarrow> syms (plain_substitute t m) \<subseteq> subst_syms m (syms t)" by blast
  with Node.prems show ?case by (fastforce simp: sym_map_no_key subst_syms_def)
qed (auto simp: subst_syms_def sym_map_no_key split: option.splits)

lemma sort_plain_substitute:
  "(\<And>k u. (k, u) \<in> set m \<Longrightarrow> get_sort u = get_sort k) \<Longrightarrow> get_sort (plain_substitute t m) = get_sort t"
  by (cases t) (auto split: option.splits dest!: map_of_SomeD)

interpretation plain: smt_terms plain_builder F for F
proof
  fix p :: op and ts :: "tm list"
  assume "prim_op p \<in> bool_ops"
  then show "get_sort (mk_term plain_builder p ts) = BOOL"
    by (auto simp: plain_builder_def plain_mk_term_def bool_ops_def)
next
  fix m :: "(tm \<times> tm) list" and t :: tm
  assume "\<And>k u. (k, u) \<in> set m \<Longrightarrow> get_sort u = get_sort k"
  then show "get_sort (substitute plain_builder t m) = get_sort t"
    by (simp add: plain_builder_def sort_plain_substitute)
qed (auto simp: plain_builder_def plain_mk_term_def eval_plain_substitute plain_free_consts_def
    eval_plain_walk set_sym_list image_iff Bex_def plain_less_order(1,3)
    dest: subsetD [OF syms_plain_substitute] plain_less_order(2))

text \<open>
  A solver that decides formulas over Boolean symbols by trying their assignments, and asks a
  decision procedure \<open>D\<close> where a symbol has another sort: \<open>no_decider\<close> answers
  \<open>UNKNOWN\<close>, \<open>full_decider\<close> decides every formula.
\<close>

type_synonym decider = "tm list \<Rightarrow> smt_result \<times> assignment"

record enum_state =
  e_frames :: "tm list list"
  e_model :: assignment
  e_core :: "tm list"

fun bool_rows :: "sym list \<Rightarrow> (sym \<times> bool) list list" where
  "bool_rows [] = [[]]"
| "bool_rows (x # xs) =
     (let rs = bool_rows xs in map ((#) (x, False)) rs @ map ((#) (x, True)) rs)"

fun default_val :: "smt_sort \<Rightarrow> val" where
  "default_val BOOL = BoolVal False"
| "default_val (BV w) = BVVal w 0"
| "default_val INTSORT = IntVal 0"
| "default_val _ = OtherVal '''' []"

definition row_env :: "(sym \<times> bool) list \<Rightarrow> assignment" where
  "row_env r x = (case map_of r x of Some b \<Rightarrow> BoolVal b | None \<Rightarrow> default_val (snd x))"

definition enum_search :: "theory_ops \<Rightarrow> tm list \<Rightarrow> (sym \<times> bool) list option" where
  "enum_search F ts = find (\<lambda>r. list_all (holds F (row_env r)) ts)
     (bool_rows (remdups (concat (map sym_list ts))))"

definition bool_decide :: "theory_ops \<Rightarrow> decider" where
  "bool_decide F ts =
     (case enum_search F ts of Some r \<Rightarrow> (SAT, row_env r) | None \<Rightarrow> (UNSAT, row_env []))"

definition no_decider :: decider where
  "no_decider ts = (UNKNOWN, row_env [])"

definition full_decider :: "theory_ops \<Rightarrow> decider" where
  "full_decider F ts =
     (if satisfiable F ts then (SAT, SOME \<sigma>. wsorted \<sigma> \<and> all_hold F \<sigma> ts) else (UNSAT, row_env []))"

definition enum_check :: "theory_ops \<Rightarrow> decider \<Rightarrow> tm list \<Rightarrow> enum_state \<Rightarrow> smt_result \<times> enum_state" where
  "enum_check F D as s =
     (let ts = concat (e_frames s) @ as;
          (r, \<sigma>) = (if list_all (\<lambda>x. snd x = BOOL) (concat (map sym_list ts))
            then bool_decide F ts else D ts)
      in (r, s\<lparr>e_model := \<sigma>, e_core := as\<rparr>))"

definition enum_solver :: "theory_ops \<Rightarrow> decider \<Rightarrow> enum_state smt_solver" where
  "enum_solver F D =
     \<lparr>builder = plain_builder,
      s_push = (\<lambda>s. s\<lparr>e_frames := [] # e_frames s\<rparr>),
      s_pop = (\<lambda>s. s\<lparr>e_frames := tl (e_frames s)\<rparr>),
      s_assert = (\<lambda>t s. s\<lparr>e_frames := (case e_frames s of [] \<Rightarrow> [[t]] | f # fs \<Rightarrow> (t # f) # fs)\<rparr>),
      s_reset_assertions = (\<lambda>s. s\<lparr>e_frames := [[]]\<rparr>),
      s_check_assuming = enum_check F D,
      s_get_value = (\<lambda>s t. Val (eval F (e_model s) t) (get_sort t)),
      s_unsat_core = e_core\<rparr>"

definition enum_init :: enum_state where
  "enum_init = \<lparr>e_frames = [[]], e_model = row_env [], e_core = []\<rparr>"

lemma default_val_carrier: "default_val s \<in> carrier s"
  by (cases s) auto

lemma wsorted_row_env:
  assumes "\<And>x. x \<in> fst ` set r \<Longrightarrow> snd x = BOOL"
  shows "wsorted (row_env r)"
proof -
  have "row_env r (n, s) \<in> carrier s" for n s
  proof (cases "map_of r (n, s)")
    case None
    then show ?thesis using default_val_carrier [of s] by (simp add: row_env_def)
  next
    case (Some b)
    from assms [OF map_of_Some_in [OF Some]] Some show ?thesis by (simp add: row_env_def)
  qed
  then show ?thesis by (simp add: wsorted_def)
qed

lemma bool_rows_keys: "r \<in> set (bool_rows xs) \<Longrightarrow> map fst r = xs"
  by (induction xs arbitrary: r) (auto simp: Let_def)

lemma bool_rows_all:
  assumes "wsorted \<sigma>" and "list_all (\<lambda>x. snd x = BOOL) xs"
  shows "\<exists>r \<in> set (bool_rows xs). \<forall>x \<in> set xs. row_env r x = \<sigma> x"
  using assms(2)
proof (induction xs)
  case Nil
  then show ?case by simp
next
  case (Cons x xs)
  then obtain r where r: "r \<in> set (bool_rows xs)" "\<forall>y \<in> set xs. row_env r y = \<sigma> y" by auto
  from Cons.prems wsorted_Bool [OF assms(1), of "fst x"] obtain b where b: "\<sigma> x = BoolVal b"
    by (cases x) auto
  have "(x, b) # r \<in> set (bool_rows (x # xs))" using r(1) by (cases b) (auto simp: Let_def)
  moreover have "\<forall>y \<in> set (x # xs). row_env ((x, b) # r) y = \<sigma> y"
    using r(2) b by (auto simp: row_env_def)
  ultimately show ?case by blast
qed

lemma enum_search_None:
  assumes "enum_search F ts = None" and "list_all (\<lambda>x. snd x = BOOL) (concat (map sym_list ts))"
  shows "\<not> satisfiable F ts"
proof
  let ?xs = "remdups (concat (map sym_list ts))"
  assume "satisfiable F ts"
  then obtain \<sigma> where s: "wsorted \<sigma>" "all_hold F \<sigma> ts" by (auto simp: satisfiable_def)
  have "list_all (\<lambda>x. snd x = BOOL) ?xs" using assms(2) by (auto simp: list_all_iff)
  then obtain r where r: "r \<in> set (bool_rows ?xs)" "\<forall>x \<in> set ?xs. row_env r x = \<sigma> x"
    using bool_rows_all [OF s(1)] by blast
  have "holds F (row_env r) t" if "t \<in> set ts" for t
  proof -
    have "\<forall>x \<in> syms t. row_env r x = \<sigma> x" using r(2) that by (auto simp flip: set_sym_list)
    then have "eval F (row_env r) t = eval F \<sigma> t" by (intro eval_cong) auto
    with s(2) that show ?thesis by simp
  qed
  with r(1) assms(1) show False by (auto simp: enum_search_def find_None_iff list_all_iff)
qed

lemma enum_search_Some:
  assumes "enum_search F ts = Some r" and "list_all (\<lambda>x. snd x = BOOL) (concat (map sym_list ts))"
  shows "wsorted (row_env r)" and "all_hold F (row_env r) ts"
proof -
  have r: "r \<in> set (bool_rows (remdups (concat (map sym_list ts))))"
    "list_all (holds F (row_env r)) ts"
    using assms(1) by (auto simp: enum_search_def find_Some_iff)
  from bool_rows_keys [OF r(1)] have "fst ` set r = set (concat (map sym_list ts))"
    by (metis set_map set_remdups)
  with assms(2) show "wsorted (row_env r)" by (intro wsorted_row_env) (auto simp: list_all_iff)
  from r(2) show "all_hold F (row_env r) ts" by (simp add: list_all_iff)
qed

text \<open>What an answer of a decision procedure must mean.\<close>

definition decider_ok :: "theory_ops \<Rightarrow> decider \<Rightarrow> bool" where
  "decider_ok F D \<longleftrightarrow> (\<forall>ts \<sigma>. D ts = (SAT, \<sigma>) \<longrightarrow> wsorted \<sigma> \<and> all_hold F \<sigma> ts)
     \<and> (\<forall>ts \<sigma>. D ts = (UNSAT, \<sigma>) \<longrightarrow> \<not> satisfiable F ts)"

lemma no_decider_ok: "decider_ok F no_decider"
  by (simp add: decider_ok_def no_decider_def)

lemma full_decider_ok: "decider_ok F (full_decider F)"
proof -
  have "wsorted (SOME \<sigma>. wsorted \<sigma> \<and> all_hold F \<sigma> ts) \<and> all_hold F (SOME \<sigma>. wsorted \<sigma> \<and> all_hold F \<sigma> ts) ts"
    if "satisfiable F ts" for ts
    using that unfolding satisfiable_def by (rule someI_ex)
  then show ?thesis by (auto simp: decider_ok_def full_decider_def split: if_splits)
qed

lemma full_decider_decides: "full_decider F ts \<noteq> (UNKNOWN, \<sigma>)"
  by (simp add: full_decider_def)

lemma bool_decide_ok:
  assumes "list_all (\<lambda>x. snd x = BOOL) (concat (map sym_list ts))"
  shows "bool_decide F ts = (SAT, \<sigma>) \<Longrightarrow> wsorted \<sigma> \<and> all_hold F \<sigma> ts"
    and "bool_decide F ts = (UNSAT, \<sigma>) \<Longrightarrow> \<not> satisfiable F ts"
    and "bool_decide F ts \<noteq> (UNKNOWN, \<sigma>)"
proof -
  show "bool_decide F ts = (SAT, \<sigma>) \<Longrightarrow> wsorted \<sigma> \<and> all_hold F \<sigma> ts"
    using enum_search_Some [OF _ assms] by (auto simp: bool_decide_def split: option.splits)
  show "bool_decide F ts = (UNSAT, \<sigma>) \<Longrightarrow> \<not> satisfiable F ts"
    using enum_search_None [OF _ assms] by (auto simp: bool_decide_def split: option.splits)
  show "bool_decide F ts \<noteq> (UNKNOWN, \<sigma>)" by (simp add: bool_decide_def split: option.splits)
qed

lemma enum_check_spec:
  assumes "decider_ok F D" and "enum_check F D as s = (r, s')"
  shows "e_frames s' = e_frames s" and "e_core s' = as"
    and "r = SAT \<Longrightarrow> wsorted (e_model s') \<and> all_hold F (e_model s') (concat (e_frames s) @ as)"
    and "r = UNSAT \<Longrightarrow> \<not> satisfiable F (concat (e_frames s) @ as)"
proof -
  let ?ts = "concat (e_frames s) @ as"
  let ?b = "list_all (\<lambda>x. snd x = BOOL) (concat (map sym_list ?ts))"
  obtain \<sigma> where d: "(if ?b then bool_decide F ?ts else D ?ts) = (r, \<sigma>)"
    and s': "s' = s\<lparr>e_model := \<sigma>, e_core := as\<rparr>"
    using assms(2) unfolding enum_check_def Let_def
    by (cases "if ?b then bool_decide F ?ts else D ?ts") simp
  show "e_frames s' = e_frames s" "e_core s' = as" by (simp_all add: s')
  have m: "e_model s' = \<sigma>" by (simp add: s')
  show "wsorted (e_model s') \<and> all_hold F (e_model s') ?ts" if "r = SAT"
  proof (cases ?b)
    case True
    with d that bool_decide_ok(1) [OF True] m show ?thesis by simp
  next
    case False
    with d that assms(1) m show ?thesis by (simp only: decider_ok_def if_False) blast
  qed
  show "\<not> satisfiable F ?ts" if "r = UNSAT"
  proof (cases ?b)
    case True
    with d that bool_decide_ok(2) [OF True] show ?thesis by simp
  next
    case False
    with d that assms(1) show ?thesis by (simp only: decider_ok_def if_False) blast
  qed
qed

lemma enum_full_decides: "s_check_assuming (enum_solver F (full_decider F)) as s \<noteq> (UNKNOWN, s')"
proof -
  let ?ts = "concat (e_frames s) @ as"
  let ?b = "list_all (\<lambda>x. snd x = BOOL) (concat (map sym_list ?ts))"
  obtain r \<sigma> where d: "(if ?b then bool_decide F ?ts else full_decider F ?ts) = (r, \<sigma>)"
    by (rule prod.exhaust)
  have "r \<noteq> UNKNOWN"
  proof (cases ?b)
    case True
    with d bool_decide_ok(3) [OF True, of F \<sigma>] show ?thesis by auto
  next
    case False
    with d full_decider_decides [of F ?ts \<sigma>] show ?thesis by auto
  qed
  then show ?thesis unfolding enum_solver_def enum_check_def Let_def using d by simp
qed

lemma enum_solver_fields [simp]:
  "builder (enum_solver F D) = plain_builder"
  "s_push (enum_solver F D) = (\<lambda>s. s\<lparr>e_frames := [] # e_frames s\<rparr>)"
  "s_pop (enum_solver F D) = (\<lambda>s. s\<lparr>e_frames := tl (e_frames s)\<rparr>)"
  "s_assert (enum_solver F D) =
    (\<lambda>t s. s\<lparr>e_frames := (case e_frames s of [] \<Rightarrow> [[t]] | f # fs \<Rightarrow> (t # f) # fs)\<rparr>)"
  "s_reset_assertions (enum_solver F D) = (\<lambda>s. s\<lparr>e_frames := [[]]\<rparr>)"
  "s_check_assuming (enum_solver F D) = enum_check F D"
  "s_get_value (enum_solver F D) = (\<lambda>s t. Val (eval F (e_model s) t) (get_sort t))"
  "s_unsat_core (enum_solver F D) = e_core"
  by (simp_all add: enum_solver_def)

lemma enum_engine:
  assumes D: "decider_ok F D"
  shows "smt_engine (enum_solver F D) F e_frames"
proof -
  have "smt_engine_axioms (enum_solver F D) F e_frames"
  proof
    fix as s s' r
    assume "s_check_assuming (enum_solver F D) as s = (r, s')"
    then show "e_frames s' = e_frames s" using enum_check_spec(1) [OF D] by simp
  next
    fix as s s'
    assume "s_check_assuming (enum_solver F D) as s = (SAT, s')"
    then have "wsorted (e_model s') \<and> all_hold F (e_model s') (concat (e_frames s) @ as)"
      using enum_check_spec(3) [OF D] by simp
    then show "\<exists>\<sigma>. wsorted \<sigma> \<and> all_hold F \<sigma> (concat (e_frames s)) \<and> all_hold F \<sigma> as
        \<and> (\<forall>t. s_get_value (enum_solver F D) s' t = Val (eval F \<sigma> t) (get_sort t))"
      by (intro exI [of _ "e_model s'"]) auto
  next
    fix as s s'
    assume "s_check_assuming (enum_solver F D) as s = (UNSAT, s')"
    then have c: "enum_check F D as s = (UNSAT, s')" by simp
    from enum_check_spec(4) [OF D c] show u: "\<not> satisfiable F (concat (e_frames s) @ as)" by simp
    from enum_check_spec(2) [OF D c] u show "set (s_unsat_core (enum_solver F D) s') \<subseteq> set as
        \<and> \<not> satisfiable F (concat (e_frames s) @ s_unsat_core (enum_solver F D) s')" by simp
  qed simp_all
  then show "smt_engine (enum_solver F D) F e_frames"
    unfolding smt_engine_def enum_solver_fields(1) using plain.smt_terms_axioms by blast
qed

interpretation enum: smt_engine "enum_solver F no_decider" F e_frames for F
  by (rule enum_engine [OF no_decider_ok])

interpretation full: smt_engine "enum_solver F (full_decider F)" F e_frames for F
  by (rule enum_engine [OF full_decider_ok])

end
