(* ===== verification/Ts.thy ===== *)
theory Ts
  imports Smt_Switch
begin

section \<open>Transition systems (core/ts, core/rts, core/fts)\<close>

text \<open>
  The class \<open>TransitionSystem\<close> with its two subclasses.  The record \<open>ts\<close> has one
  field per data member of the class; \<open>ts_declared\<close> is the symbol table of the member
  \<open>solver_\<close>.  Each method is a function that takes the term builder of that solver, its
  arguments and the system, and returns the new system, or the exception it throws.
\<close>

record ts =
  ts_init :: tm
  ts_trans :: tm
  ts_statevars :: "tm list"
  ts_next_statevars :: "tm list"
  ts_inputvars :: "tm list"
  ts_named_terms :: "(string \<times> tm) list"
  ts_term_to_name :: "(tm \<times> string) list"
  ts_state_updates :: "(tm \<times> tm) list"
  ts_no_state_updates :: "tm list"
  ts_next_map :: "(tm \<times> tm) list"
  ts_curr_map :: "(tm \<times> tm) list"
  ts_next_suffix :: string
  ts_functional :: bool
  ts_deterministic :: bool
  ts_constraints :: "(tm \<times> bool) list"
  ts_declared :: "string list"

definition default_next_suffix :: string where
  "default_next_suffix = ''.pono_generated__next''"

definition empty_ts :: "string list \<Rightarrow> string \<Rightarrow> ts" where
  "empty_ts tab suffix =
     \<lparr>ts_init = tm_true, ts_trans = tm_true, ts_statevars = [], ts_next_statevars = [],
      ts_inputvars = [], ts_named_terms = [], ts_term_to_name = [], ts_state_updates = [],
      ts_no_state_updates = [], ts_next_map = [], ts_curr_map = [], ts_next_suffix = suffix,
      ts_functional = False, ts_deterministic = False, ts_constraints = [], ts_declared = tab\<rparr>"

definition empty_rts :: "string list \<Rightarrow> ts" where
  "empty_rts tab = empty_ts tab default_next_suffix"

definition empty_fts :: "string list \<Rightarrow> ts" where
  "empty_fts tab = (empty_ts tab default_next_suffix)\<lparr>ts_functional := True\<rparr>"

subsection \<open>Symbol containment\<close>

text \<open>
  \<open>contains\<close> is a depth-first walk with an explicit stack and a visited set; the head of
  the list is the back of the vector \<open>to_visit\<close>.
\<close>

function contains_loop :: "tm list list \<Rightarrow> tm set \<Rightarrow> tm list \<Rightarrow> bool" where
  "contains_loop sets visited [] = True"
| "contains_loop sets visited (t # stk) =
     (if t \<in> visited then contains_loop sets visited stk
      else if is_symbolic_const t \<and> \<not> list_ex (\<lambda>s. t \<in> set s) sets then False
      else contains_loop sets (insert t visited) (rev (children t) @ stk))"
  by pat_completeness auto
termination
proof (relation "measure (\<lambda>(sets, visited, stk). sum_list (map tm_weight stk))", goal_cases)
  case (2 sets visited t stk)
  then show ?case by (cases t) auto
next
  case (3 sets visited t stk)
  have "sum_list (map tm_weight (rev (children t))) = sum_list (map tm_weight (children t))"
    by (simp add: sum_list_rev flip: rev_map)
  then show ?case using weight_children_less [of t] by simp
qed simp

declare contains_loop.simps(2) [simp del]

lemma contains_loop_visited: "t \<in> visited \<Longrightarrow>
    contains_loop sets visited (t # stk) = contains_loop sets visited stk"
  by (subst contains_loop.simps(2)) simp

lemma contains_loop_fresh: "t \<notin> visited \<Longrightarrow>
    contains_loop sets visited (t # stk) \<longleftrightarrow>
      (is_symbolic_const t \<longrightarrow> list_ex (\<lambda>s. t \<in> set s) sets)
      \<and> contains_loop sets (insert t visited) (rev (children t) @ stk)"
  by (subst contains_loop.simps(2)) auto

definition contains :: "tm \<Rightarrow> tm list list \<Rightarrow> bool" where
  "contains t sets = contains_loop sets {} [t]"

definition only_curr :: "ts \<Rightarrow> tm \<Rightarrow> bool" where
  "only_curr ts t = contains t [ts_statevars ts]"

definition no_next :: "ts \<Rightarrow> tm \<Rightarrow> bool" where
  "no_next ts t = contains t [ts_statevars ts, ts_inputvars ts]"

text \<open>\<open>known_symbols\<close> is virtual: the functional subclass does not know next variables.\<close>

definition known_symbols :: "ts \<Rightarrow> tm \<Rightarrow> bool" where
  "known_symbols ts t = contains t [ts_statevars ts, ts_inputvars ts, ts_next_statevars ts]"

definition fts_known_symbols :: "ts \<Rightarrow> tm \<Rightarrow> bool" where
  "fts_known_symbols ts t = contains t [ts_statevars ts, ts_inputvars ts]"

subsection \<open>Initial states, updates, constraints\<close>

abbreviation init_msg :: exn where
  "init_msg \<equiv>
     PonoException ''Initial state constraints should only use current state variables''"

definition set_init :: "tm \<Rightarrow> ts \<Rightarrow> ts result" where
  "set_init t ts = guardE (only_curr ts t) init_msg (Inr (ts\<lparr>ts_init := t\<rparr>))"

definition constrain_init :: "smt_builder \<Rightarrow> tm \<Rightarrow> ts \<Rightarrow> ts result" where
  "constrain_init B c ts =
     guardE (only_curr ts c) init_msg
       (Inr (ts\<lparr>ts_init := mk_term B (op0 And) [ts_init ts, c]\<rparr>))"

definition assign_next :: "smt_builder \<Rightarrow> tm \<Rightarrow> tm \<Rightarrow> ts \<Rightarrow> ts result" where
  "assign_next B state val ts =
     guardE (state \<in> set (ts_statevars ts)) (PonoException ''Unknown state variable'')
      (guardE (no_next ts val)
        (PonoException (''Got a symbolic that is not a current state or input variable in RHS ''
          @ ''of functional assignment''))
       (guardE (map_of (ts_state_updates ts) state = None)
         (PonoException (''State variable '' @ term_str B state
           @ '' already has next-state logic assigned.''))
        (bindE (lookupE (ts_next_map ts) state) (\<lambda>nv.
          let ups = AList.update state val (ts_state_updates ts);
              ts1 = ts\<lparr>ts_state_updates := ups,
                ts_no_state_updates := removeAll state (ts_no_state_updates ts),
                ts_trans := mk_term B (op0 And)
                  [ts_trans ts, mk_term B (op0 Equal) [nv, val]]\<rparr>
          in Inr (if ts_functional ts \<and> ts_constraints ts = []
                  then ts1\<lparr>ts_deterministic := (length ups = length (ts_statevars ts))\<rparr>
                  else ts1)))))"

definition add_invar :: "smt_builder \<Rightarrow> tm \<Rightarrow> ts \<Rightarrow> ts result" where
  "add_invar B c ts =
     guardE (only_curr ts c)
       (PonoException ''Invariants should be over current states only.'')
       (let tr1 = mk_term B (op0 And) [ts_trans ts, c];
            nc = substitute B c (ts_next_map ts)
        in Inr (ts\<lparr>ts_deterministic := False,
             ts_init := mk_term B (op0 And) [ts_init ts, c],
             ts_trans := mk_term B (op0 And) [tr1, nc],
             ts_constraints := ts_constraints ts @ [(c, True)]\<rparr>))"

definition constrain_inputs :: "smt_builder \<Rightarrow> tm \<Rightarrow> ts \<Rightarrow> ts result" where
  "constrain_inputs B c ts =
     guardE (no_next ts c)
       (PonoException ''Cannot have next-states in an input constraint.'')
       (Inr (ts\<lparr>ts_deterministic := False,
          ts_trans := mk_term B (op0 And) [ts_trans ts, c],
          ts_constraints := ts_constraints ts @ [(c, True)]\<rparr>))"

definition add_constraint :: "smt_builder \<Rightarrow> tm \<Rightarrow> bool \<Rightarrow> ts \<Rightarrow> ts result" where
  "add_constraint B c to_init_and_next ts =
     (let ts0 = ts\<lparr>ts_deterministic := False\<rparr>;
          ts1 = ts0\<lparr>ts_trans := mk_term B (op0 And) [ts_trans ts, c]\<rparr>
      in if only_curr ts c then
           (let ts2 = (if to_init_and_next
                       then ts1\<lparr>ts_init := mk_term B (op0 And) [ts_init ts, c],
                              ts_trans := mk_term B (op0 And)
                                [ts_trans ts1, substitute B c (ts_next_map ts)]\<rparr>
                       else ts1)
            in Inr (ts2\<lparr>ts_constraints := ts_constraints ts @ [(c, to_init_and_next)]\<rparr>))
         else if no_next ts c then
           Inr (ts1\<lparr>ts_constraints := ts_constraints ts @ [(c, to_init_and_next)]\<rparr>)
         else Inl (PonoException ''Constraint cannot have next states''))"

subsection \<open>Names, variables\<close>

definition name_term :: "string \<Rightarrow> tm \<Rightarrow> ts \<Rightarrow> ts result" where
  "name_term n t ts =
     guardE (case map_of (ts_named_terms ts) n of Some u \<Rightarrow> t = u | None \<Rightarrow> True)
       (PonoException (''Name '' @ n @ '' has already been used.''))
       (Inr (ts\<lparr>ts_named_terms := AList.update n t (ts_named_terms ts),
          ts_term_to_name := AList.update t n (ts_term_to_name ts)\<rparr>))"

definition add_statevar :: "smt_builder \<Rightarrow> tm \<Rightarrow> tm \<Rightarrow> ts \<Rightarrow> ts result" where
  "add_statevar B cv nv ts =
     guardE (cv \<notin> set (ts_statevars ts)) (PonoException ''Cannot redeclare a state variable'')
      (guardE (nv \<notin> set (ts_next_statevars ts))
        (PonoException ''Cannot redeclare a state variable'')
       (guardE (cv \<notin> set (ts_next_statevars ts))
         (PonoException ''Cannot use an existing next state variable as a current state var'')
        (guardE (nv \<notin> set (ts_statevars ts))
          (PonoException ''Cannot use an existing state variable as a next state var'')
         (let ts1 = ts\<lparr>ts_inputvars := removeAll nv (removeAll cv (ts_inputvars ts)),
                ts_statevars := List.insert cv (ts_statevars ts),
                ts_no_state_updates := List.insert cv (ts_no_state_updates ts),
                ts_next_statevars := List.insert nv (ts_next_statevars ts),
                ts_next_map := AList.update cv nv (ts_next_map ts),
                ts_curr_map := AList.update nv cv (ts_curr_map ts)\<rparr>
          in bindE (name_term (term_str B cv) cv ts1) (name_term (term_str B nv) nv)))))"

definition add_inputvar :: "smt_builder \<Rightarrow> tm \<Rightarrow> ts \<Rightarrow> ts result" where
  "add_inputvar B v ts =
     guardE (v \<notin> set (ts_statevars ts) \<and> v \<notin> set (ts_next_statevars ts)
         \<and> v \<notin> set (ts_inputvars ts))
       (PonoException ''Cannot reuse an existing variable as an input variable'')
       (name_term (term_str B v) v (ts\<lparr>ts_inputvars := List.insert v (ts_inputvars ts)\<rparr>))"

definition make_inputvar :: "smt_builder \<Rightarrow> string \<Rightarrow> smt_sort \<Rightarrow> ts \<Rightarrow> (tm \<times> ts) result" where
  "make_inputvar B name s ts =
     bindE (make_symbol name s (ts_declared ts)) (\<lambda>(input, tab).
     bindE (add_inputvar B input (ts\<lparr>ts_declared := tab\<rparr>)) (\<lambda>ts1.
       Inr (input, ts1)))"

definition make_statevar :: "smt_builder \<Rightarrow> string \<Rightarrow> smt_sort \<Rightarrow> ts \<Rightarrow> (tm \<times> ts) result" where
  "make_statevar B name s ts =
     (let ts0 = ts\<lparr>ts_deterministic := False\<rparr> in
      bindE (make_symbol name s (ts_declared ts0)) (\<lambda>(state, tab1).
      bindE (make_symbol (name @ ts_next_suffix ts) s tab1) (\<lambda>(next_state, tab2).
      bindE (add_statevar B state next_state (ts0\<lparr>ts_declared := tab2\<rparr>)) (\<lambda>ts1.
        Inr (state, ts1)))))"

definition curr :: "smt_builder \<Rightarrow> ts \<Rightarrow> tm \<Rightarrow> tm" where
  "curr B ts t = substitute B t (ts_curr_map ts)"

definition next_tm :: "smt_builder \<Rightarrow> ts \<Rightarrow> tm \<Rightarrow> tm" where
  "next_tm B ts t =
     (case map_of (ts_next_map ts) t of
        Some nv \<Rightarrow> nv
      | None \<Rightarrow> substitute B t (ts_next_map ts))"

definition is_curr_var :: "ts \<Rightarrow> tm \<Rightarrow> bool" where
  "is_curr_var ts t \<longleftrightarrow> t \<in> set (ts_statevars ts)"

definition is_next_var :: "ts \<Rightarrow> tm \<Rightarrow> bool" where
  "is_next_var ts t \<longleftrightarrow> t \<in> set (ts_next_statevars ts)"

definition is_input_var :: "ts \<Rightarrow> tm \<Rightarrow> bool" where
  "is_input_var ts t \<longleftrightarrow> t \<in> set (ts_inputvars ts)"

definition get_name :: "smt_builder \<Rightarrow> ts \<Rightarrow> tm \<Rightarrow> string" where
  "get_name B ts t =
     (case map_of (ts_term_to_name ts) t of Some n \<Rightarrow> n | None \<Rightarrow> term_str B t)"

definition lookup_name :: "ts \<Rightarrow> string \<Rightarrow> tm result" where
  "lookup_name ts n =
     (case map_of (ts_named_terms ts) n of
        Some t \<Rightarrow> Inr t
      | None \<Rightarrow> Inl (PonoException (''Could not find term named: '' @ n)))"

fun finite_index :: "smt_sort \<Rightarrow> bool" where
  "finite_index (ARRAY (BV w) e) = True"
| "finite_index (ARRAY BOOL e) = True"
| "finite_index _ = False"

definition has_finite_index_sort :: "ts \<Rightarrow> bool" where
  "has_finite_index_sort ts \<longleftrightarrow>
     list_ex (\<lambda>v. finite_index (get_sort v)) (ts_statevars ts)
     \<or> list_ex (\<lambda>v. finite_index (get_sort v)) (ts_inputvars ts)"

subsection \<open>Changing the set of variables\<close>

definition promote_inputvar :: "smt_builder \<Rightarrow> tm \<Rightarrow> ts \<Rightarrow> ts result" where
  "promote_inputvar B iv ts =
     guardE (iv \<in> set (ts_inputvars ts))
       (PonoException (''Tried to promote non-input to state variable: '' @ term_str B iv))
       (let ts1 = ts\<lparr>ts_inputvars := removeAll iv (ts_inputvars ts), ts_deterministic := False\<rparr> in
        bindE (make_symbol (term_str B iv @ ts_next_suffix ts) (get_sort iv) (ts_declared ts1))
          (\<lambda>(nv, tab). add_statevar B iv nv (ts1\<lparr>ts_declared := tab\<rparr>)))"

definition promote_inputvars_in :: "smt_builder \<Rightarrow> tm \<Rightarrow> ts \<Rightarrow> ts result" where
  "promote_inputvars_in B t ts =
     foldE (\<lambda>v ts. if is_input_var ts v then promote_inputvar B v ts else Inr ts)
       (free_consts B t) ts"

definition update_conjunct :: "smt_builder \<Rightarrow> ts \<Rightarrow> tm \<times> tm \<Rightarrow> tm \<Rightarrow> tm result" where
  "update_conjunct B ts elem tr =
     bindE (lookupE (ts_next_map ts) (fst elem)) (\<lambda>nv.
       Inr (mk_term B (op0 And) [tr, mk_term B (op0 Equal) [nv, snd elem]]))"

text \<open>
  The loop at the end of \<open>drop_state_updates\<close> ranges over \<open>constraints_\<close> while
  \<open>add_constraint\<close> appends to that vector, which invalidates the end iterator the loop
  holds: with any constraint in the system the behaviour is undefined.
\<close>

definition drop_state_updates :: "smt_builder \<Rightarrow> tm list \<Rightarrow> ts \<Rightarrow> ts result" where
  "drop_state_updates B svs ts =
     bindE (foldE (\<lambda>sv ts. guardE (is_curr_var ts sv)
         (PonoException ''Got non-state var in drop_state_updates'')
         (Inr (ts\<lparr>ts_state_updates := AList.delete sv (ts_state_updates ts),
            ts_no_state_updates := List.insert sv (ts_no_state_updates ts)\<rparr>))) svs ts) (\<lambda>ts1.
     bindE (foldE (update_conjunct B ts1) (ts_state_updates ts1) tm_true) (\<lambda>tr.
     guardE (ts_constraints ts1 = [])
       (UndefinedBehaviour ''constraints_ is modified while it is iterated over'')
       (Inr (ts1\<lparr>ts_trans := tr\<rparr>))))"

definition in_system :: "smt_builder \<Rightarrow> ts \<Rightarrow> tm \<Rightarrow> bool" where
  "in_system B ts t = list_all (\<lambda>v.
     let cv = (case map_of (ts_curr_map ts) v of Some c \<Rightarrow> c | None \<Rightarrow> v)
     in cv \<in> set (ts_statevars ts) \<or> cv \<in> set (ts_inputvars ts)) (free_consts B t)"

definition reduce_names :: "smt_builder \<Rightarrow> ts \<Rightarrow> ts result" where
  "reduce_names B ts =
     bindE (foldE (\<lambda>(n, t) (names, reprs).
         if in_system B ts t then
           bindE (lookupE (ts_term_to_name ts) t) (\<lambda>r.
             Inr (AList.update n t names, AList.update t r reprs))
         else Inr (names, reprs)) (ts_named_terms ts) ([], [])) (\<lambda>(names, reprs).
       Inr (ts\<lparr>ts_named_terms := names, ts_term_to_name := reprs\<rparr>))"

definition rebuild_trans_based_on_coi :: "smt_builder \<Rightarrow> tm list \<Rightarrow> tm list \<Rightarrow> ts \<Rightarrow> ts result" where
  "rebuild_trans_based_on_coi B svs ivs ts =
     bindE (foldE (\<lambda>sv tr. case map_of (ts_state_updates ts) sv of
           Some f \<Rightarrow> update_conjunct B ts (sv, f) tr
         | None \<Rightarrow> Inr tr) svs tm_true) (\<lambda>tr.
     bindE (foldE (\<lambda>(c, b) ts. add_constraint B c b ts) (ts_constraints ts)
         (ts\<lparr>ts_trans := tr, ts_constraints := []\<rparr>)) (\<lambda>ts1.
     reduce_names B (ts1\<lparr>ts_statevars := fold List.insert svs (remdups (free_consts B (ts_init ts1))),
       ts_inputvars := remdups ivs,
       ts_no_state_updates :=
         remdups (filter (\<lambda>v. map_of (ts_state_updates ts) v = None) svs),
       ts_state_updates :=
         filter (\<lambda>(v, f). v \<in> set svs) (ts_state_updates ts)\<rparr>)))"

definition replace_terms :: "smt_builder \<Rightarrow> (tm \<times> tm) list \<Rightarrow> ts \<Rightarrow> ts result" where
  "replace_terms B m ts =
     (let all = [ts_statevars ts, ts_inputvars ts, ts_next_statevars ts]; w = (\<lambda>t. subst_walk B t m) in
      guardE (list_all (\<lambda>(k, u). contains k all \<and> contains u all) m)
        (PonoException ''Got an unknown symbol in replace_terms map'')
       (guardE (only_curr ts (w (ts_init ts)))
         (PonoException (''Replaced a state variable appearing in init with an input in ''
           @ ''replace_terms''))
        (bindE (foldE (\<lambda>(n, t) (names, reprs).
            bindE (lookupE (ts_term_to_name ts) t) (\<lambda>r.
              Inr (AList.update n (w t) names, AList.update (w t) r reprs)))
            (ts_named_terms ts) ([], [])) (\<lambda>(names, reprs).
         bindE (foldE (\<lambda>(v, f) ups.
            guardE (\<not> (ts_functional ts \<and> \<not> no_next ts (w f)))
              (PonoException (''Got a next state variable in a state update for a functional ''
                @ ''TransitionSystem in replace_terms''))
              (Inr (AList.update (w v) (w f) ups)))
            (ts_state_updates ts) []) (\<lambda>ups.
         Inr (ts\<lparr>ts_init := w (ts_init ts), ts_trans := w (ts_trans ts),
           ts_named_terms := names, ts_term_to_name := reprs, ts_state_updates := ups,
           ts_next_map := fold (\<lambda>(c, n). AList.update (w c) (w n)) (ts_next_map ts) [],
           ts_curr_map := fold (\<lambda>(c, n). AList.update (w n) (w c)) (ts_next_map ts) [],
           ts_constraints := ts_constraints ts\<rparr>))))))"

subsection \<open>The relational subclass\<close>

definition set_updated_states :: "smt_builder \<Rightarrow> tm \<Rightarrow> ts \<Rightarrow> ts" where
  "set_updated_states B t ts =
     fold (\<lambda>v ts. if v \<in> set (ts_next_statevars ts)
                  then (case map_of (ts_curr_map ts) v of
                          Some cv \<Rightarrow> ts\<lparr>ts_no_state_updates := removeAll cv (ts_no_state_updates ts)\<rparr>
                        | None \<Rightarrow> ts)
                  else ts) (free_consts B t) ts"

definition set_trans :: "smt_builder \<Rightarrow> tm \<Rightarrow> ts \<Rightarrow> ts result" where
  "set_trans B t ts =
     guardE (known_symbols ts t) (PonoException ''Unknown symbols'')
       (Inr (set_updated_states B t (ts\<lparr>ts_trans := t\<rparr>)))"

definition set_behavior :: "smt_builder \<Rightarrow> tm \<Rightarrow> tm \<Rightarrow> ts \<Rightarrow> ts result" where
  "set_behavior B i t ts =
     guardE (known_symbols ts i) (PonoException ''Unknown symbols'')
       (set_trans B t (ts\<lparr>ts_init := i\<rparr>))"

definition constrain_trans :: "smt_builder \<Rightarrow> tm \<Rightarrow> ts \<Rightarrow> ts result" where
  "constrain_trans B c ts =
     guardE (known_symbols ts c) (PonoException ''Unknown symbols'')
       (Inr (set_updated_states B c (ts\<lparr>ts_trans := mk_term B (op0 And) [ts_trans ts, c]\<rparr>)))"

subsection \<open>The functional subclass\<close>

definition to_next_func :: "smt_builder \<Rightarrow> ts \<Rightarrow> tm \<Rightarrow> tm" where
  "to_next_func B ts t = substitute B t (ts_state_updates ts)"

definition rts_of_ts :: "ts \<Rightarrow> ts" where
  "rts_of_ts ts = ts\<lparr>ts_functional := False, ts_deterministic := False\<rparr>"

definition fts_of_ts :: "ts \<Rightarrow> ts result" where
  "fts_of_ts ts =
     guardE (ts_functional ts) (PonoException ''Copied relational system to functional one'') (Inr ts)"

end
