(* ===== verification/Ts_Invariant.thy ===== *)
theory Ts_Invariant
  imports Ts
begin

section \<open>What every sequence of calls on a transition system keeps\<close>

text \<open>
  The symbol checks of \<open>TransitionSystem\<close> decide what they are meant to decide; a system built
  by calls that do not throw is well formed (\<open>ts_wf\<close>); the flag behind \<open>is_deterministic\<close>
  means what its documentation says (\<open>det_ok\<close>), and the two methods that break it.
\<close>

named_theorems ts_defs

subsection \<open>The symbol checks\<close>

definition covered :: "tm \<Rightarrow> tm set \<Rightarrow> bool" where
  "covered t V \<longleftrightarrow> (\<forall>x \<in> syms t. \<not> is_fun_sort (snd x) \<longrightarrow> tm_of x \<in> V)"

lemma covered_subterms: "covered t V \<longleftrightarrow> (\<forall>u \<in> subterms t. is_symbolic_const u \<longrightarrow> u \<in> V)"
proof
  assume c: "covered t V"
  show "\<forall>u \<in> subterms t. is_symbolic_const u \<longrightarrow> u \<in> V"
  proof (intro ballI impI)
    fix u assume u: "u \<in> subterms t" "is_symbolic_const u"
    then obtain n s where "u = Sym n s" "\<not> is_fun_sort s" by (auto elim: is_symbolic_constE)
    with u(1) c show "u \<in> V" by (auto simp: covered_def simp flip: syms_iff_subterm)
  qed
next
  assume "\<forall>u \<in> subterms t. is_symbolic_const u \<longrightarrow> u \<in> V"
  then show "covered t V" by (auto simp: covered_def syms_iff_subterm)
qed

lemma covered_mono: "covered t V \<Longrightarrow> V \<subseteq> W \<Longrightarrow> covered t W"
  by (auto simp: covered_def)

lemma covered_syms: "syms t \<subseteq> syms u \<union> syms v \<Longrightarrow> covered u V \<Longrightarrow> covered v V \<Longrightarrow> covered t V"
  by (auto simp: covered_def)

lemma covered_val [simp]: "covered (Val v s) V"
  by (simp add: covered_def)

lemma covered_Sym [simp]: "covered (Sym n s) V \<longleftrightarrow> is_fun_sort s \<or> Sym n s \<in> V"
  by (auto simp: covered_def)

lemma subterms_closed:
  assumes "\<And>v. v \<in> V \<Longrightarrow> set (children v) \<subseteq> V" and "t \<in> V"
  shows "subterms t \<subseteq> V"
  using assms(2)
proof (induction t)
  case (ConstArr t s)
  with assms(1) [OF ConstArr.prems] show ?case by auto
next
  case (Node p s ts)
  with assms(1) [OF Node.prems] show ?case by auto
qed auto

lemma contains_loop_sound:
  "contains_loop sets visited stk \<Longrightarrow>
   (\<And>v. v \<in> visited \<Longrightarrow> is_symbolic_const v \<Longrightarrow> v \<in> \<Union> (set (map set sets))) \<Longrightarrow>
   (\<And>v. v \<in> visited \<Longrightarrow> set (children v) \<subseteq> visited \<union> set stk) \<Longrightarrow>
   \<exists>V. visited \<union> set stk \<subseteq> V \<and> (\<forall>v \<in> V. set (children v) \<subseteq> V)
     \<and> (\<forall>v \<in> V. is_symbolic_const v \<longrightarrow> v \<in> \<Union> (set (map set sets)))"
proof (induction sets visited stk rule: contains_loop.induct)
  case (1 sets visited)
  then show ?case by (intro exI [of _ visited]) auto
next
  case (2 sets visited t stk)
  show ?case
  proof (cases "t \<in> visited")
    case True
    then have rec: "contains_loop sets visited stk"
      using "2.prems"(1) by (simp add: contains_loop_visited)
    have ch: "set (children v) \<subseteq> visited \<union> set stk" if "v \<in> visited" for v
      using "2.prems"(3) [OF that] True by auto
    have "\<exists>V. visited \<union> set stk \<subseteq> V \<and> (\<forall>v \<in> V. set (children v) \<subseteq> V)
     \<and> (\<forall>v \<in> V. is_symbolic_const v \<longrightarrow> v \<in> \<Union> (set (map set sets)))"
      by (rule "2.IH"(1) [OF True rec "2.prems"(2) ch])
    moreover have "visited \<union> set (t # stk) = visited \<union> set stk" using True by auto
    ultimately show ?thesis by (simp only:)
  next
    case False
    from "2.prems"(1) False
    have ok: "is_symbolic_const t \<longrightarrow> list_ex (\<lambda>s. t \<in> set s) sets"
      and rec: "contains_loop sets (insert t visited) (rev (children t) @ stk)"
      by (simp_all add: contains_loop_fresh)
    have "\<exists>V. insert t visited \<union> set (rev (children t) @ stk) \<subseteq> V
      \<and> (\<forall>v \<in> V. set (children v) \<subseteq> V)
      \<and> (\<forall>v \<in> V. is_symbolic_const v \<longrightarrow> v \<in> \<Union> (set (map set sets)))"
    proof (rule "2.IH"(2) [OF False _ rec])
      show "\<not> (is_symbolic_const t \<and> \<not> list_ex (\<lambda>s. t \<in> set s) sets)" using ok by blast
      show "v \<in> \<Union> (set (map set sets))" if "v \<in> insert t visited" "is_symbolic_const v" for v
        using that "2.prems"(2) ok by (auto simp: list_ex_iff)
      show "set (children v) \<subseteq> insert t visited \<union> set (rev (children t) @ stk)"
        if "v \<in> insert t visited" for v
        using that "2.prems"(3) [of v] by (cases "v = t") auto
    qed
    moreover have "visited \<union> set (t # stk) \<subseteq> insert t visited \<union> set (rev (children t) @ stk)"
      by auto
    ultimately show ?thesis by (meson order_trans)
  qed
qed

lemma contains_loop_complete:
  "\<not> contains_loop sets visited stk \<Longrightarrow>
   \<exists>t \<in> set stk. \<exists>u \<in> subterms t. is_symbolic_const u \<and> u \<notin> \<Union> (set (map set sets))"
proof (induction sets visited stk rule: contains_loop.induct)
  case (2 sets visited t stk)
  let ?bad = "\<lambda>u. is_symbolic_const u \<and> u \<notin> \<Union> (set (map set sets))"
  show ?case
  proof (cases "t \<in> visited")
    case True
    with "2.prems" "2.IH"(1) [OF True] show ?thesis by (auto simp: contains_loop_visited)
  next
    case False
    show ?thesis
    proof (cases "?bad t")
      case True
      then show ?thesis by (metis list.set_intros(1) subterms_refl)
    next
      case ok: False
      then have g: "\<not> (is_symbolic_const t \<and> \<not> list_ex (\<lambda>s. t \<in> set s) sets)"
        by (auto simp: list_ex_iff)
      with "2.prems" have "\<not> contains_loop sets (insert t visited) (rev (children t) @ stk)"
        by (simp add: contains_loop_fresh [OF False])
      from "2.IH"(2) [OF False g this] obtain w u
        where wu: "w \<in> set (children t) \<union> set stk" "u \<in> subterms w" "?bad u" by auto
      show ?thesis
      proof (cases "w \<in> set stk")
        case True
        with wu show ?thesis by auto
      next
        case False
        with wu(1,2) have "u \<in> subterms t" by (subst subterms_unfold) auto
        with wu(3) show ?thesis by (metis list.set_intros(1))
      qed
    qed
  qed
qed simp

theorem contains_iff_covered: "contains t sets \<longleftrightarrow> covered t (\<Union> (set (map set sets)))"
proof
  assume "contains t sets"
  then obtain V where V: "t \<in> V" "\<forall>v \<in> V. set (children v) \<subseteq> V"
    "\<forall>v \<in> V. is_symbolic_const v \<longrightarrow> v \<in> \<Union> (set (map set sets))"
    using contains_loop_sound [of sets "{}" "[t]"] unfolding contains_def by auto
  then have "subterms t \<subseteq> V" by (intro subterms_closed) auto
  with V(3) show "covered t (\<Union> (set (map set sets)))" by (auto simp: covered_subterms)
next
  assume "covered t (\<Union> (set (map set sets)))"
  then show "contains t sets"
    using contains_loop_complete [of sets "{}" "[t]"]
    unfolding contains_def covered_subterms by (metis list.set(1,2) singletonD)
qed

lemma only_curr_iff: "only_curr ts t \<longleftrightarrow> covered t (set (ts_statevars ts))"
  by (simp add: only_curr_def contains_iff_covered)

lemma no_next_iff: "no_next ts t \<longleftrightarrow> covered t (set (ts_statevars ts) \<union> set (ts_inputvars ts))"
  by (simp add: no_next_def contains_iff_covered)

lemma known_symbols_iff: "known_symbols ts t \<longleftrightarrow>
    covered t (set (ts_statevars ts) \<union> set (ts_inputvars ts) \<union> set (ts_next_statevars ts))"
  by (simp add: known_symbols_def contains_iff_covered Un_assoc)

lemmas symbol_checks = only_curr_iff no_next_iff known_symbols_iff

subsection \<open>Well-formed systems\<close>

definition ts_vars :: "ts \<Rightarrow> tm set" where
  "ts_vars ts = set (ts_statevars ts) \<union> set (ts_inputvars ts) \<union> set (ts_next_statevars ts)"

definition vars_ok :: "ts \<Rightarrow> bool" where
  "vars_ok ts \<longleftrightarrow>
     (\<forall>v \<in> ts_vars ts. is_symbolic_const v \<and> fst (sym_of v) \<in> set (ts_declared ts))
     \<and> set (ts_statevars ts) \<inter> set (ts_inputvars ts) = {}
     \<and> set (ts_statevars ts) \<inter> set (ts_next_statevars ts) = {}
     \<and> set (ts_inputvars ts) \<inter> set (ts_next_statevars ts) = {}
     \<and> distinct (ts_statevars ts)"

definition maps_ok :: "ts \<Rightarrow> bool" where
  "maps_ok ts \<longleftrightarrow>
     fst ` set (ts_next_map ts) = set (ts_statevars ts)
     \<and> fst ` set (ts_curr_map ts) = set (ts_next_statevars ts)
     \<and> (\<forall>c n. map_of (ts_next_map ts) c = Some n \<longleftrightarrow> map_of (ts_curr_map ts) n = Some c)
     \<and> (\<forall>c n. map_of (ts_next_map ts) c = Some n \<longrightarrow> get_sort n = get_sort c)"

definition forms_ok :: "ts \<Rightarrow> bool" where
  "forms_ok ts \<longleftrightarrow>
     covered (ts_init ts) (set (ts_statevars ts))
     \<and> covered (ts_trans ts) (ts_vars ts)
     \<and> (\<forall>(c, b) \<in> set (ts_constraints ts).
          covered c (set (ts_statevars ts) \<union> set (ts_inputvars ts)))
     \<and> (\<forall>(v, f) \<in> set (ts_state_updates ts).
          covered f (set (ts_statevars ts) \<union> set (ts_inputvars ts)))"

definition updates_ok :: "ts \<Rightarrow> bool" where
  "updates_ok ts \<longleftrightarrow>
     distinct (map fst (ts_state_updates ts))
     \<and> fst ` set (ts_state_updates ts) \<subseteq> set (ts_statevars ts)
     \<and> set (ts_no_state_updates ts) \<subseteq> set (ts_statevars ts)
     \<and> fst ` set (ts_state_updates ts) \<inter> set (ts_no_state_updates ts) = {}
     \<and> (ts_functional ts \<longrightarrow>
          set (ts_statevars ts) \<subseteq> fst ` set (ts_state_updates ts) \<union> set (ts_no_state_updates ts))"

definition ts_wf :: "ts \<Rightarrow> bool" where
  "ts_wf ts \<longleftrightarrow> vars_ok ts \<and> maps_ok ts \<and> forms_ok ts \<and> updates_ok ts"

text \<open>What the comment of \<open>is_deterministic\<close> in core/ts.h promises.\<close>

definition det_ok :: "ts \<Rightarrow> bool" where
  "det_ok ts \<longleftrightarrow>
     (ts_deterministic ts \<longrightarrow> ts_functional ts \<and> ts_constraints ts = []
        \<and> fst ` set (ts_state_updates ts) = set (ts_statevars ts))"

lemmas wf_defs = ts_wf_def vars_ok_def maps_ok_def forms_ok_def updates_ok_def ts_vars_def

lemma ts_wf_empty: "ts_wf (empty_ts tab suffix)"
  by (simp add: wf_defs empty_ts_def)

lemma ts_wf_empty_fts: "ts_wf (empty_fts tab)"
  by (simp add: wf_defs empty_ts_def empty_fts_def)

lemma ts_wf_empty_rts: "ts_wf (empty_rts tab)"
  by (simp add: ts_wf_empty empty_rts_def)

text \<open>Each part of the invariant looks at some fields only.\<close>

lemma vars_ok_frame [simp]:
  "vars_ok (ts\<lparr>ts_init := a\<rparr>) = vars_ok ts" "vars_ok (ts\<lparr>ts_trans := a\<rparr>) = vars_ok ts"
  "vars_ok (ts\<lparr>ts_named_terms := b\<rparr>) = vars_ok ts"
  "vars_ok (ts\<lparr>ts_term_to_name := c\<rparr>) = vars_ok ts"
  "vars_ok (ts\<lparr>ts_state_updates := d\<rparr>) = vars_ok ts"
  "vars_ok (ts\<lparr>ts_no_state_updates := e\<rparr>) = vars_ok ts"
  "vars_ok (ts\<lparr>ts_next_map := d\<rparr>) = vars_ok ts" "vars_ok (ts\<lparr>ts_curr_map := d\<rparr>) = vars_ok ts"
  "vars_ok (ts\<lparr>ts_deterministic := f\<rparr>) = vars_ok ts"
  "vars_ok (ts\<lparr>ts_constraints := g\<rparr>) = vars_ok ts"
  by (simp_all add: vars_ok_def ts_vars_def)

lemma maps_ok_frame [simp]:
  "maps_ok (ts\<lparr>ts_init := a\<rparr>) = maps_ok ts" "maps_ok (ts\<lparr>ts_trans := a\<rparr>) = maps_ok ts"
  "maps_ok (ts\<lparr>ts_named_terms := b\<rparr>) = maps_ok ts"
  "maps_ok (ts\<lparr>ts_term_to_name := c\<rparr>) = maps_ok ts"
  "maps_ok (ts\<lparr>ts_state_updates := d\<rparr>) = maps_ok ts"
  "maps_ok (ts\<lparr>ts_no_state_updates := e\<rparr>) = maps_ok ts"
  "maps_ok (ts\<lparr>ts_inputvars := e\<rparr>) = maps_ok ts"
  "maps_ok (ts\<lparr>ts_deterministic := f\<rparr>) = maps_ok ts"
  "maps_ok (ts\<lparr>ts_constraints := g\<rparr>) = maps_ok ts"
  "maps_ok (ts\<lparr>ts_declared := h\<rparr>) = maps_ok ts"
  by (simp_all add: maps_ok_def)

lemma forms_ok_frame [simp]:
  "forms_ok (ts\<lparr>ts_named_terms := b\<rparr>) = forms_ok ts"
  "forms_ok (ts\<lparr>ts_term_to_name := c\<rparr>) = forms_ok ts"
  "forms_ok (ts\<lparr>ts_no_state_updates := e\<rparr>) = forms_ok ts"
  "forms_ok (ts\<lparr>ts_next_map := d\<rparr>) = forms_ok ts" "forms_ok (ts\<lparr>ts_curr_map := d\<rparr>) = forms_ok ts"
  "forms_ok (ts\<lparr>ts_deterministic := f\<rparr>) = forms_ok ts"
  "forms_ok (ts\<lparr>ts_declared := h\<rparr>) = forms_ok ts"
  by (simp_all add: forms_ok_def ts_vars_def)

lemma updates_ok_frame [simp]:
  "updates_ok (ts\<lparr>ts_init := a\<rparr>) = updates_ok ts" "updates_ok (ts\<lparr>ts_trans := a\<rparr>) = updates_ok ts"
  "updates_ok (ts\<lparr>ts_named_terms := b\<rparr>) = updates_ok ts"
  "updates_ok (ts\<lparr>ts_term_to_name := c\<rparr>) = updates_ok ts"
  "updates_ok (ts\<lparr>ts_inputvars := e\<rparr>) = updates_ok ts"
  "updates_ok (ts\<lparr>ts_next_statevars := e\<rparr>) = updates_ok ts"
  "updates_ok (ts\<lparr>ts_next_map := d\<rparr>) = updates_ok ts"
  "updates_ok (ts\<lparr>ts_curr_map := d\<rparr>) = updates_ok ts"
  "updates_ok (ts\<lparr>ts_deterministic := f\<rparr>) = updates_ok ts"
  "updates_ok (ts\<lparr>ts_constraints := g\<rparr>) = updates_ok ts"
  "updates_ok (ts\<lparr>ts_declared := h\<rparr>) = updates_ok ts"
  by (simp_all add: updates_ok_def)

lemma det_ok_frame [simp]:
  "det_ok (ts\<lparr>ts_init := a\<rparr>) = det_ok ts" "det_ok (ts\<lparr>ts_trans := a\<rparr>) = det_ok ts"
  "det_ok (ts\<lparr>ts_named_terms := b\<rparr>) = det_ok ts"
  "det_ok (ts\<lparr>ts_term_to_name := c\<rparr>) = det_ok ts"
  "det_ok (ts\<lparr>ts_no_state_updates := e\<rparr>) = det_ok ts"
  "det_ok (ts\<lparr>ts_inputvars := e\<rparr>) = det_ok ts"
  "det_ok (ts\<lparr>ts_next_statevars := e\<rparr>) = det_ok ts"
  "det_ok (ts\<lparr>ts_next_map := d\<rparr>) = det_ok ts"
  "det_ok (ts\<lparr>ts_curr_map := d\<rparr>) = det_ok ts"
  "det_ok (ts\<lparr>ts_declared := h\<rparr>) = det_ok ts"
  "det_ok (ts\<lparr>ts_deterministic := False\<rparr>)"
  by (simp_all add: det_ok_def)

lemma wf_parts:
  assumes "ts_wf ts"
  shows "vars_ok ts" "maps_ok ts" "forms_ok ts" "updates_ok ts"
  using assms by (simp_all add: ts_wf_def)

lemma wf_next_keys: "ts_wf ts \<Longrightarrow> fst ` set (ts_next_map ts) = set (ts_statevars ts)"
  by (simp add: ts_wf_def maps_ok_def)

lemma wf_curr_keys: "ts_wf ts \<Longrightarrow> fst ` set (ts_curr_map ts) = set (ts_next_statevars ts)"
  by (simp add: ts_wf_def maps_ok_def)

lemma wf_maps_inverse: "ts_wf ts \<Longrightarrow>
    map_of (ts_next_map ts) c = Some n \<longleftrightarrow> map_of (ts_curr_map ts) n = Some c"
  unfolding ts_wf_def maps_ok_def by blast

lemma wf_symbolic: "ts_wf ts \<Longrightarrow> v \<in> ts_vars ts \<Longrightarrow> is_symbolic_const v"
  unfolding ts_wf_def vars_ok_def by blast

lemma wf_declared: "ts_wf ts \<Longrightarrow> v \<in> ts_vars ts \<Longrightarrow> fst (sym_of v) \<in> set (ts_declared ts)"
  unfolding ts_wf_def vars_ok_def by blast

lemma next_symbol: "ts_wf ts \<Longrightarrow> map_of (ts_next_map ts) v = Some n \<Longrightarrow>
    n \<in> set (ts_next_statevars ts) \<and> v \<in> set (ts_statevars ts)"
  by (metis map_of_Some_in wf_curr_keys wf_maps_inverse wf_next_keys)

lemma next_map_total: "ts_wf ts \<Longrightarrow> v \<in> set (ts_statevars ts) \<Longrightarrow>
    \<exists>n. map_of (ts_next_map ts) v = Some n"
  by (metis map_of_None_iff not_None_eq wf_next_keys)

lemma curr_map_total: "ts_wf ts \<Longrightarrow> v \<in> set (ts_next_statevars ts) \<Longrightarrow>
    \<exists>n. map_of (ts_curr_map ts) v = Some n"
  by (metis map_of_None_iff not_None_eq wf_curr_keys)

lemma sym_map_iff: "sym_map m \<longleftrightarrow> (\<forall>k \<in> fst ` set m. is_symbol k)"
  by (auto simp: sym_map_def list_all_iff)

lemma sym_map_next: "ts_wf ts \<Longrightarrow> sym_map (ts_next_map ts)"
  by (metis UnI1 sym_map_iff symbolic_is_symbol ts_vars_def wf_next_keys wf_symbolic)

lemma sym_map_curr: "ts_wf ts \<Longrightarrow> sym_map (ts_curr_map ts)"
  by (metis UnI2 sym_map_iff symbolic_is_symbol ts_vars_def wf_curr_keys wf_symbolic)

text \<open>The calls of the interface, as data; \<open>call_ok\<close> is what their types and comments ask.\<close>

datatype ts_call =
    SetInit tm
  | ConstrainInit tm
  | AssignNext tm tm
  | AddInvar tm
  | ConstrainInputs tm
  | AddConstraint tm bool
  | NameTerm string tm
  | MakeInputvar string smt_sort
  | MakeStatevar string smt_sort
  | PromoteInputvar tm
  | SetTrans tm
  | ConstrainTrans tm

fun do_call :: "smt_builder \<Rightarrow> ts_call \<Rightarrow> ts \<Rightarrow> ts result" where
  "do_call B (SetInit t) ts = set_init t ts"
| "do_call B (ConstrainInit t) ts = constrain_init B t ts"
| "do_call B (AssignNext v t) ts = assign_next B v t ts"
| "do_call B (AddInvar t) ts = add_invar B t ts"
| "do_call B (ConstrainInputs t) ts = constrain_inputs B t ts"
| "do_call B (AddConstraint t b) ts = add_constraint B t b ts"
| "do_call B (NameTerm n t) ts = name_term n t ts"
| "do_call B (MakeInputvar n s) ts = bindE (make_inputvar B n s ts) (\<lambda>(v, ts'). Inr ts')"
| "do_call B (MakeStatevar n s) ts = bindE (make_statevar B n s ts) (\<lambda>(v, ts'). Inr ts')"
| "do_call B (PromoteInputvar v) ts = promote_inputvar B v ts"
| "do_call B (SetTrans t) ts = set_trans B t ts"
| "do_call B (ConstrainTrans t) ts = constrain_trans B t ts"

text \<open>
  \<open>set_trans\<close> and \<open>constrain_trans\<close> belong to the relational class; a variable has a sort that
  is not a function sort.
\<close>

fun call_ok :: "ts_call \<Rightarrow> ts \<Rightarrow> bool" where
  "call_ok (MakeInputvar n s) ts = (\<not> is_fun_sort s)"
| "call_ok (MakeStatevar n s) ts = (\<not> is_fun_sort s)"
| "call_ok (SetTrans t) ts = (\<not> ts_functional ts)"
| "call_ok (ConstrainTrans t) ts = (\<not> ts_functional ts)"
| "call_ok _ ts = True"

fun run_calls :: "smt_builder \<Rightarrow> ts_call list \<Rightarrow> ts \<Rightarrow> ts result" where
  "run_calls B [] ts = Inr ts"
| "run_calls B (c # cs) ts =
     guardE (call_ok c ts) (PonoException ''call not allowed'') (bindE (do_call B c ts) (run_calls B cs))"


lemma covered_next:
  assumes "smt_terms B F" and "ts_wf ts" and "covered c (set (ts_statevars ts))"
  shows "covered (substitute B c (ts_next_map ts)) (set (ts_next_statevars ts))"
  unfolding covered_def
proof (intro ballI impI)
  fix x assume x: "x \<in> syms (substitute B c (ts_next_map ts))" "\<not> is_fun_sort (snd x)"
  from smt_terms.syms_substitute [OF assms(1) sym_map_next [OF assms(2)]] x(1)
  obtain y where y: "y \<in> syms c"
    "x \<in> (case map_of (ts_next_map ts) (tm_of y) of None \<Rightarrow> {y} | Some u \<Rightarrow> syms u)"
    by (fastforce simp: subst_syms_def)
  show "tm_of x \<in> set (ts_next_statevars ts)"
  proof (cases "map_of (ts_next_map ts) (tm_of y)")
    case None
    with y x(2) assms(3) have "tm_of y \<in> set (ts_statevars ts)" by (auto simp: covered_def)
    with next_map_total [OF assms(2), of "tm_of y"] None show ?thesis by simp
  next
    case (Some u)
    then have u: "u \<in> set (ts_next_statevars ts)" using next_symbol [OF assms(2)] by blast
    then have "is_symbolic_const u" using wf_symbolic [OF assms(2)] by (simp add: ts_vars_def)
    with u y(2) Some show ?thesis by (auto elim: is_symbolic_constE)
  qed
qed

lemma covered_mk2:
  assumes "smt_terms B F" and "covered a V" and "covered b V"
  shows "covered (mk_term B p [a, b]) V"
  using smt_terms.syms_mk2 [OF assms(1), of p a b] assms(2,3) by (rule covered_syms)

subsection \<open>Every call keeps the invariant\<close>

lemma forms_ok_init: "forms_ok ts \<Longrightarrow> covered t (set (ts_statevars ts)) \<Longrightarrow>
    forms_ok (ts\<lparr>ts_init := t\<rparr>)"
  by (simp add: forms_ok_def ts_vars_def)

lemma forms_ok_trans: "forms_ok ts \<Longrightarrow> covered t (ts_vars ts) \<Longrightarrow> forms_ok (ts\<lparr>ts_trans := t\<rparr>)"
  by (simp add: forms_ok_def ts_vars_def)

lemma forms_ok_constraint: "forms_ok ts \<Longrightarrow>
    covered c (set (ts_statevars ts) \<union> set (ts_inputvars ts)) \<Longrightarrow>
    forms_ok (ts\<lparr>ts_constraints := ts_constraints ts @ [(c, b)]\<rparr>)"
  by (simp add: forms_ok_def ts_vars_def)

lemma forms_ok_parts:
  assumes "forms_ok ts"
  shows "covered (ts_init ts) (set (ts_statevars ts))" "covered (ts_trans ts) (ts_vars ts)"
  using assms by (simp_all add: forms_ok_def)

lemma covered_vars: "covered c (set (ts_statevars ts)) \<Longrightarrow> covered c (ts_vars ts)"
  "covered c (set (ts_statevars ts) \<union> set (ts_inputvars ts)) \<Longrightarrow> covered c (ts_vars ts)"
  "covered c (set (ts_next_statevars ts)) \<Longrightarrow> covered c (ts_vars ts)"
  by (auto simp: ts_vars_def elim: covered_mono)

lemma set_init_wf: "ts_wf ts \<Longrightarrow> set_init t ts = Inr ts' \<Longrightarrow> ts_wf ts' \<and> (det_ok ts \<longrightarrow> det_ok ts')"
  by (auto simp: set_init_def symbol_checks ts_wf_def intro: forms_ok_init)

lemma constrain_init_wf:
  assumes "smt_terms B F" "ts_wf ts" "constrain_init B c ts = Inr ts'"
  shows "ts_wf ts' \<and> (det_ok ts \<longrightarrow> det_ok ts')"
  using assms forms_ok_parts [of ts]
  by (auto simp: constrain_init_def symbol_checks ts_wf_def
      intro!: forms_ok_init covered_mk2 [OF assms(1)])

lemma add_constraint_wf:
  assumes B: "smt_terms B F" and wf: "ts_wf ts" and c: "add_constraint B c b ts = Inr ts'"
  shows "ts_wf ts' \<and> det_ok ts'"
proof -
  note wfp = wf_parts [OF wf]
  note fp = forms_ok_parts [OF wfp(3)]
  have cases: "only_curr ts c \<or> no_next ts c"
    using c by (auto simp: add_constraint_def Let_def split: if_splits)
  then have cov: "covered c (set (ts_statevars ts) \<union> set (ts_inputvars ts))"
    by (auto simp: symbol_checks elim: covered_mono)
  have nxt: "covered (substitute B c (ts_next_map ts)) (ts_vars ts)" if "only_curr ts c"
    using covered_vars(3) [OF covered_next [OF B wf]] that by (simp add: symbol_checks)
  have tr1: "covered (mk_term B (op0 And) [ts_trans ts, c]) (ts_vars ts)"
    by (intro covered_mk2 [OF B] fp covered_vars(2) cov)
  have tr2: "covered (mk_term B (op0 And)
      [mk_term B (op0 And) [ts_trans ts, c], substitute B c (ts_next_map ts)]) (ts_vars ts)"
    if "only_curr ts c"
    by (intro covered_mk2 [OF B] tr1 nxt [OF that])
  have ini: "covered (mk_term B (op0 And) [ts_init ts, c]) (set (ts_statevars ts))"
    if "only_curr ts c"
    using that by (intro covered_mk2 [OF B] fp) (simp add: symbol_checks)
  have "forms_ok ts'"
    using c wfp(3) cov tr1 tr2 ini
    by (auto simp: add_constraint_def Let_def forms_ok_def ts_vars_def split: if_splits)
  moreover have "vars_ok ts' \<and> maps_ok ts' \<and> updates_ok ts' \<and> det_ok ts'"
    using c wfp by (auto simp: add_constraint_def Let_def det_ok_def split: if_splits)
  ultimately show ?thesis by (simp add: ts_wf_def)
qed

lemma add_invar_add_constraint: "add_invar B c ts = Inr ts' \<Longrightarrow> add_constraint B c True ts = Inr ts'"
  by (simp add: add_invar_def add_constraint_def Let_def)

lemma constrain_inputs_wf:
  assumes B: "smt_terms B F" and wf: "ts_wf ts" and c: "constrain_inputs B c ts = Inr ts'"
  shows "ts_wf ts' \<and> det_ok ts'"
proof -
  note fp = forms_ok_parts [OF wf_parts(3) [OF wf]]
  from c have cov: "covered c (set (ts_statevars ts) \<union> set (ts_inputvars ts))"
    by (simp add: constrain_inputs_def symbol_checks)
  have "covered (mk_term B (op0 And) [ts_trans ts, c]) (ts_vars ts)"
    by (intro covered_mk2 [OF B] fp covered_vars(2) cov)
  with c cov wf_parts [OF wf] show ?thesis
    by (auto simp: constrain_inputs_def det_ok_def ts_wf_def forms_ok_def ts_vars_def)
qed

lemma assign_next_fields:
  assumes "assign_next B v f ts = Inr ts'"
  obtains nv where "v \<in> set (ts_statevars ts)"
    and "covered f (set (ts_statevars ts) \<union> set (ts_inputvars ts))"
    and "map_of (ts_state_updates ts) v = None" and "map_of (ts_next_map ts) v = Some nv"
    and "ts' = ts\<lparr>ts_state_updates := AList.update v f (ts_state_updates ts),
            ts_no_state_updates := removeAll v (ts_no_state_updates ts),
            ts_trans := mk_term B (op0 And) [ts_trans ts, mk_term B (op0 Equal) [nv, f]],
            ts_deterministic := (if ts_functional ts \<and> ts_constraints ts = []
              then length (AList.update v f (ts_state_updates ts)) = length (ts_statevars ts)
              else ts_deterministic ts)\<rparr>"
proof -
  from assms obtain nv where v: "v \<in> set (ts_statevars ts)" "no_next ts f"
      "map_of (ts_state_updates ts) v = None" "map_of (ts_next_map ts) v = Some nv"
    and ts': "Inr (if ts_functional ts \<and> ts_constraints ts = []
        then ts\<lparr>ts_state_updates := AList.update v f (ts_state_updates ts),
            ts_no_state_updates := removeAll v (ts_no_state_updates ts),
            ts_trans := mk_term B (op0 And) [ts_trans ts, mk_term B (op0 Equal) [nv, f]],
            ts_deterministic :=
              length (AList.update v f (ts_state_updates ts)) = length (ts_statevars ts)\<rparr>
        else ts\<lparr>ts_state_updates := AList.update v f (ts_state_updates ts),
            ts_no_state_updates := removeAll v (ts_no_state_updates ts),
            ts_trans := mk_term B (op0 And) [ts_trans ts, mk_term B (op0 Equal) [nv, f]]\<rparr>)
      = Inr ts'"
    unfolding assign_next_def Let_def guardE_Inr_iff bindE_Inr_iff lookupE_Inr_iff by force
  have f: "covered f (set (ts_statevars ts) \<union> set (ts_inputvars ts))"
    using v(2) by (simp only: no_next_iff)
  show thesis
  proof (cases "ts_functional ts \<and> ts_constraints ts = []")
    case True
    from True ts' show thesis by (intro that [OF v(1) f v(3,4)]) simp
  next
    case False
    note ts' [unfolded if_not_P [OF False] sum.inject(2), symmetric]
    then show thesis
      by (intro that [OF v(1) f v(3,4)], unfold if_not_P [OF False]) (cases ts; simp)
  qed
qed

lemma assign_next_wf:
  assumes B: "smt_terms B F" and wf: "ts_wf ts" and a: "assign_next B v f ts = Inr ts'"
  shows "ts_wf ts' \<and> (det_ok ts \<longrightarrow> det_ok ts')"
proof -
  note wfp = wf_parts [OF wf]
  note fp = forms_ok_parts [OF wfp(3)]
  from a obtain nv where v: "v \<in> set (ts_statevars ts)"
    and f: "covered f (set (ts_statevars ts) \<union> set (ts_inputvars ts))"
    and new: "map_of (ts_state_updates ts) v = None" and nv: "map_of (ts_next_map ts) v = Some nv"
    and ts': "ts' = ts\<lparr>ts_state_updates := AList.update v f (ts_state_updates ts),
            ts_no_state_updates := removeAll v (ts_no_state_updates ts),
            ts_trans := mk_term B (op0 And) [ts_trans ts, mk_term B (op0 Equal) [nv, f]],
            ts_deterministic := (if ts_functional ts \<and> ts_constraints ts = []
              then length (AList.update v f (ts_state_updates ts)) = length (ts_statevars ts)
              else ts_deterministic ts)\<rparr>"
    by (rule assign_next_fields)
  have "nv \<in> ts_vars ts" using next_symbol [OF wf nv] by (simp add: ts_vars_def)
  then have "covered nv (ts_vars ts)"
    using wf_symbolic [OF wf, of nv] by (auto elim!: is_symbolic_constE)
  then have tr: "covered (mk_term B (op0 And) [ts_trans ts, mk_term B (op0 Equal) [nv, f]]) (ts_vars ts)"
    by (intro covered_mk2 [OF B] fp covered_vars(2) [OF f])
  let ?ups = "AList.update v f (ts_state_updates ts)"
  have ups: "distinct (map fst ?ups)" "fst ` set ?ups = insert v (fst ` set (ts_state_updates ts))"
    using wfp(4) by (auto simp: updates_ok_def distinct_update)
  have "\<forall>(u, g) \<in> set ?ups. covered g (set (ts_statevars ts) \<union> set (ts_inputvars ts))"
    using set_update_subset [of v f "ts_state_updates ts"] f wfp(3)
    by (auto simp: forms_ok_def)
  then have "forms_ok ts'" using wfp(3) tr by (simp add: ts' forms_ok_def ts_vars_def)
  moreover have "updates_ok ts'" using wfp(4) ups v by (auto simp: ts' updates_ok_def)
  moreover have "det_ok ts'" if "det_ok ts"
  proof -
    have "fst ` set ?ups = set (ts_statevars ts)"
      if "length ?ups = length (ts_statevars ts)"
    proof (rule card_subset_eq)
      show "fst ` set ?ups \<subseteq> set (ts_statevars ts)" using ups v wfp(4) by (auto simp: updates_ok_def)
      have "card (fst ` set ?ups) = length ?ups"
        using distinct_card [OF ups(1)] by simp
      also have "length (ts_statevars ts) = card (set (ts_statevars ts))"
        using wfp(1) by (simp add: vars_ok_def distinct_card)
      ultimately show "card (fst ` set ?ups) = card (set (ts_statevars ts))"
        using that by simp
    qed simp
    note full = this
    show ?thesis
    proof (cases "ts_functional ts \<and> ts_constraints ts = []")
      case True
      with full show ?thesis unfolding ts' det_ok_def by simp
    next
      case False
      with \<open>det_ok ts\<close> have "\<not> ts_deterministic ts" by (auto simp: det_ok_def)
      with False show ?thesis unfolding ts' det_ok_def by (simp del: alist_simps) blast
    qed
  qed
  ultimately show ?thesis using wfp by (simp add: ts' ts_wf_def)
qed

lemma name_term_fields:
  assumes "name_term n t ts = Inr ts'"
  obtains a b where "ts' = ts\<lparr>ts_named_terms := a, ts_term_to_name := b\<rparr>"
  using assms by (auto simp: name_term_def)

lemma name_term_wf: "ts_wf ts \<Longrightarrow> name_term n t ts = Inr ts' \<Longrightarrow> ts_wf ts' \<and> (det_ok ts \<longrightarrow> det_ok ts')"
  by (erule name_term_fields) (simp add: ts_wf_def)

lemma add_inputvar_wf:
  assumes wf: "ts_wf ts" and v: "is_symbolic_const v" "fst (sym_of v) \<in> set (ts_declared ts)"
    and a: "add_inputvar B v ts = Inr ts'"
  shows "ts_wf ts' \<and> (det_ok ts \<longrightarrow> det_ok ts')"
proof -
  let ?ts = "ts\<lparr>ts_inputvars := List.insert v (ts_inputvars ts)\<rparr>"
  from a have new: "v \<notin> ts_vars ts" and n: "name_term (term_str B v) v ?ts = Inr ts'"
    unfolding add_inputvar_def ts_vars_def by auto
  note wfp = wf_parts [OF wf]
  have "vars_ok ?ts" using wfp(1) new v by (auto simp: vars_ok_def ts_vars_def)
  moreover have "forms_ok ?ts"
    using wfp(3) by (auto simp: forms_ok_def ts_vars_def elim!: covered_mono)
  ultimately have "ts_wf ?ts" using wfp by (simp add: ts_wf_def)
  with n show ?thesis using name_term_wf [of ?ts] by fastforce
qed

lemma fresh_var: "ts_wf ts \<Longrightarrow> n \<notin> set (ts_declared ts) \<Longrightarrow> Sym n s \<notin> ts_vars ts"
  using wf_declared by fastforce

lemma ts_wf_declare: "ts_wf ts \<Longrightarrow> set (ts_declared ts) \<subseteq> set tab \<Longrightarrow> ts_wf (ts\<lparr>ts_declared := tab\<rparr>)"
  by (auto simp: ts_wf_def vars_ok_def ts_vars_def)

lemma ts_wf_declare_reset: "ts_wf ts \<Longrightarrow> set (ts_declared ts) \<subseteq> set tab \<Longrightarrow>
    ts_wf (ts\<lparr>ts_deterministic := False, ts_declared := tab\<rparr>)"
  using ts_wf_declare [of "ts\<lparr>ts_deterministic := False\<rparr>" tab] by (simp add: ts_wf_def)

lemma make_symbol_InrE:
  assumes "make_symbol n s tab = Inr (t, tab')"
  obtains "n \<notin> set tab" and "t = Sym n s" and "tab' = n # tab"
  using assms by (auto simp: make_symbol_def)

lemma make_inputvar_wf:
  assumes wf: "ts_wf ts" and s: "\<not> is_fun_sort s" and m: "make_inputvar B n s ts = Inr (v, ts')"
  shows "ts_wf ts' \<and> (det_ok ts \<longrightarrow> det_ok ts') \<and> v = Sym n s"
proof -
  from m have n: "n \<notin> set (ts_declared ts)" and v: "v = Sym n s"
    and a: "add_inputvar B v (ts\<lparr>ts_declared := n # ts_declared ts\<rparr>) = Inr ts'"
    by (auto simp: make_inputvar_def bindE_Inr_iff elim!: make_symbol_InrE)
  have "ts_wf (ts\<lparr>ts_declared := n # ts_declared ts\<rparr>)" using wf by (rule ts_wf_declare) auto
  from add_inputvar_wf [OF this _ _ a] s v show ?thesis by simp
qed

lemma add_statevar_fields:
  assumes "add_statevar B cv nv ts = Inr ts'"
  obtains a b where "cv \<notin> set (ts_statevars ts)" and "nv \<notin> set (ts_next_statevars ts)"
    and "cv \<notin> set (ts_next_statevars ts)" and "nv \<notin> set (ts_statevars ts)"
    and "ts' = ts\<lparr>ts_inputvars := removeAll nv (removeAll cv (ts_inputvars ts)),
                ts_statevars := List.insert cv (ts_statevars ts),
                ts_no_state_updates := List.insert cv (ts_no_state_updates ts),
                ts_next_statevars := List.insert nv (ts_next_statevars ts),
                ts_next_map := AList.update cv nv (ts_next_map ts),
                ts_curr_map := AList.update nv cv (ts_curr_map ts),
                ts_named_terms := a, ts_term_to_name := b\<rparr>"
  using assms unfolding add_statevar_def Let_def
  by (auto simp: bindE_Inr_iff elim!: name_term_fields)

lemma add_statevar_wf:
  assumes wf: "ts_wf ts" and cv: "is_symbolic_const cv" "fst (sym_of cv) \<in> set (ts_declared ts)"
    and nv: "is_symbolic_const nv" "fst (sym_of nv) \<in> set (ts_declared ts)" "nv \<notin> ts_vars ts"
    and s: "get_sort nv = get_sort cv" and ne: "cv \<noteq> nv" and nd: "\<not> ts_deterministic ts"
    and a: "add_statevar B cv nv ts = Inr ts'"
  shows "ts_wf ts' \<and> det_ok ts'"
proof -
  from a obtain na nb where g: "cv \<notin> set (ts_statevars ts)" "nv \<notin> set (ts_next_statevars ts)"
     "cv \<notin> set (ts_next_statevars ts)" "nv \<notin> set (ts_statevars ts)"
    and ts': "ts' = ts\<lparr>ts_inputvars := removeAll nv (removeAll cv (ts_inputvars ts)),
                ts_statevars := List.insert cv (ts_statevars ts),
                ts_no_state_updates := List.insert cv (ts_no_state_updates ts),
                ts_next_statevars := List.insert nv (ts_next_statevars ts),
                ts_next_map := AList.update cv nv (ts_next_map ts),
                ts_curr_map := AList.update nv cv (ts_curr_map ts),
                ts_named_terms := na, ts_term_to_name := nb\<rparr>"
    by (rule add_statevar_fields)
  note wfp = wf_parts [OF wf]
  have vs: "vars_ok ts'"
    using wfp(1) cv nv g ne by (auto simp: ts' vars_ok_def ts_vars_def)
  have keys: "fst ` set (ts_next_map ts') = set (ts_statevars ts')"
    "fst ` set (ts_curr_map ts') = set (ts_next_statevars ts')"
    using wf_next_keys [OF wf] wf_curr_keys [OF wf] by (simp_all add: ts')
  have inv: "map_of (ts_next_map ts') c = Some n \<longleftrightarrow> map_of (ts_curr_map ts') n = Some c" for c n
    using wf_maps_inverse [OF wf, of c n] wf_maps_inverse [OF wf, of cv n]
      next_symbol [OF wf, of c nv] next_symbol [OF wf, of cv n] g
    by (auto simp: ts' alist_simps)
  have so: "map_of (ts_next_map ts') c = Some n \<longrightarrow> get_sort n = get_sort c" for c n
    using wfp(2) s by (auto simp: ts' maps_ok_def)
  have ms: "maps_ok ts'" unfolding maps_ok_def using keys inv so by blast
  have sub: "set (ts_statevars ts) \<union> set (ts_inputvars ts)
      \<subseteq> set (ts_statevars ts') \<union> set (ts_inputvars ts')"
    using nv(3) by (auto simp: ts' ts_vars_def)
  have sub': "set (ts_statevars ts) \<subseteq> set (ts_statevars ts')" "ts_vars ts \<subseteq> ts_vars ts'"
    using sub by (auto simp: ts' ts_vars_def)
  have fs: "forms_ok ts'"
    using wfp(3) covered_mono [OF _ sub] covered_mono [OF _ sub'(1)] covered_mono [OF _ sub'(2)]
    by (auto simp: forms_ok_def ts')
  have us: "updates_ok ts'" using wfp(4) g(1) by (auto simp: ts' updates_ok_def)
  have "det_ok ts'" using nd by (simp add: ts' det_ok_def)
  with vs ms fs us show ?thesis by (simp add: ts_wf_def)
qed

lemma make_statevar_wf:
  assumes wf: "ts_wf ts" and s: "\<not> is_fun_sort s" and m: "make_statevar B n s ts = Inr (v, ts')"
  shows "ts_wf ts' \<and> det_ok ts' \<and> v = Sym n s"
proof -
  let ?n' = "n @ ts_next_suffix ts"
  let ?ts = "ts\<lparr>ts_deterministic := False, ts_declared := ?n' # n # ts_declared ts\<rparr>"
  from m have n: "n \<notin> set (ts_declared ts)" "?n' \<notin> set (n # ts_declared ts)" and v: "v = Sym n s"
    and a: "add_statevar B (Sym n s) (Sym ?n' s) ?ts = Inr ts'"
    by (auto simp: make_statevar_def Let_def bindE_Inr_iff elim!: make_symbol_InrE)
  have wf': "ts_wf ?ts" using wf by (rule ts_wf_declare_reset) auto
  have "Sym ?n' s \<notin> ts_vars ts" using fresh_var [OF wf] n(2) by simp
  then have fr: "Sym ?n' s \<notin> ts_vars ?ts" by (simp add: ts_vars_def)
  from add_statevar_wf [OF wf' _ _ _ _ fr _ _ _ a] s n v show ?thesis by simp
qed

lemma add_statevar_input:
  "add_statevar B v nv (ts\<lparr>ts_inputvars := removeAll v (ts_inputvars ts), ts_deterministic := d,
      ts_declared := tab\<rparr>) = add_statevar B v nv (ts\<lparr>ts_deterministic := d, ts_declared := tab\<rparr>)"
  by (simp add: add_statevar_def)

lemma promote_inputvar_wf:
  assumes B: "smt_terms B F" and wf: "ts_wf ts" and m: "promote_inputvar B v ts = Inr ts'"
  shows "ts_wf ts' \<and> det_ok ts'"
proof -
  from m have v: "v \<in> set (ts_inputvars ts)" by (simp add: promote_inputvar_def Let_def)
  then have vv: "v \<in> ts_vars ts" by (simp add: ts_vars_def)
  then obtain n s where vs: "v = Sym n s" "\<not> is_fun_sort s"
    using wf_symbolic [OF wf, of v] is_symbolic_constE by blast
  let ?n' = "n @ ts_next_suffix ts"
  let ?ts = "ts\<lparr>ts_deterministic := False, ts_declared := ?n' # ts_declared ts\<rparr>"
  have str: "term_str B v = n" using smt_terms.term_str_sym [OF B] vs(1) by simp
  from m have n: "?n' \<notin> set (ts_declared ts)"
    and "add_statevar B v (Sym ?n' s)
      (ts\<lparr>ts_inputvars := removeAll v (ts_inputvars ts), ts_deterministic := False,
         ts_declared := ?n' # ts_declared ts\<rparr>) = Inr ts'"
    by (auto simp: promote_inputvar_def Let_def bindE_Inr_iff str [unfolded vs(1)] vs(1)
        elim!: make_symbol_InrE)
  then have a: "add_statevar B v (Sym ?n' s) ?ts = Inr ts'"
    by (simp only: add_statevar_input)
  have wf': "ts_wf ?ts" using wf by (rule ts_wf_declare_reset) auto
  have new: "Sym ?n' s \<notin> ts_vars ts" using fresh_var [OF wf n] .
  then have fr: "Sym ?n' s \<notin> ts_vars ?ts" by (simp add: ts_vars_def)
  have ne: "v \<noteq> Sym ?n' s" using new vv by auto
  have d: "fst (sym_of v) \<in> set (ts_declared ?ts)" using wf_declared [OF wf vv] by simp
  from add_statevar_wf [OF wf' _ d _ _ fr _ ne _ a] vs show ?thesis by simp
qed

lemma set_updated_states_fields:
  obtains e where "set e \<subseteq> set (ts_no_state_updates ts)"
    and "set_updated_states B t ts = ts\<lparr>ts_no_state_updates := e\<rparr>"
proof -
  let ?f = "\<lambda>v ts. if v \<in> set (ts_next_statevars ts)
                  then (case map_of (ts_curr_map ts) v of
                          Some cv \<Rightarrow> ts\<lparr>ts_no_state_updates := removeAll cv (ts_no_state_updates ts)\<rparr>
                        | None \<Rightarrow> ts)
                  else ts"
  have "\<exists>e. set e \<subseteq> set (ts_no_state_updates ts) \<and> fold ?f xs ts = ts\<lparr>ts_no_state_updates := e\<rparr>" for xs
  proof (induction xs arbitrary: ts)
    case Nil
    show ?case by (rule exI [of _ "ts_no_state_updates ts"]) simp
  next
    case (Cons x xs)
    obtain e1 where e1: "set e1 \<subseteq> set (ts_no_state_updates ts)" "?f x ts = ts\<lparr>ts_no_state_updates := e1\<rparr>"
    proof (cases "x \<in> set (ts_next_statevars ts)")
      case True
      then show ?thesis
        by (cases "map_of (ts_curr_map ts) x")
          (auto intro: that [of "ts_no_state_updates ts"] that [of "removeAll _ (ts_no_state_updates ts)"])
    qed (auto intro: that [of "ts_no_state_updates ts"])
    from Cons.IH [of "?f x ts"] e1 show ?case by auto
  qed
  with that show thesis unfolding set_updated_states_def by metis
qed

lemma set_updated_states_wf:
  assumes "ts_wf ts" and "\<not> ts_functional ts"
  shows "ts_wf (set_updated_states B t ts) \<and> (det_ok ts \<longrightarrow> det_ok (set_updated_states B t ts))"
proof (rule set_updated_states_fields [of ts B t])
  fix e
  assume e: "set e \<subseteq> set (ts_no_state_updates ts)"
    "set_updated_states B t ts = ts\<lparr>ts_no_state_updates := e\<rparr>"
  have "updates_ok (ts\<lparr>ts_no_state_updates := e\<rparr>)"
    using e(1) assms by (auto simp: ts_wf_def updates_ok_def)
  with e(2) assms(1) show ?thesis by (simp add: ts_wf_def)
qed

lemma set_trans_wf:
  assumes "ts_wf ts" and "\<not> ts_functional ts" and "set_trans B t ts = Inr ts'"
  shows "ts_wf ts' \<and> (det_ok ts \<longrightarrow> det_ok ts')"
proof -
  from assms(3) have k: "covered t (ts_vars ts)"
    and ts': "ts' = set_updated_states B t (ts\<lparr>ts_trans := t\<rparr>)"
    by (auto simp: set_trans_def known_symbols_iff ts_vars_def)
  from k assms(1) have "ts_wf (ts\<lparr>ts_trans := t\<rparr>)" by (simp add: ts_wf_def forms_ok_trans)
  from set_updated_states_wf [OF this] assms(2) ts' show ?thesis by simp
qed

lemma constrain_trans_wf:
  assumes B: "smt_terms B F" and "ts_wf ts" and "\<not> ts_functional ts" and "constrain_trans B t ts = Inr ts'"
  shows "ts_wf ts' \<and> (det_ok ts \<longrightarrow> det_ok ts')"
proof -
  from assms(4) have k: "covered t (ts_vars ts)"
    and ts': "ts' = set_updated_states B t (ts\<lparr>ts_trans := mk_term B (op0 And) [ts_trans ts, t]\<rparr>)"
    by (auto simp: constrain_trans_def known_symbols_iff ts_vars_def)
  have "covered (mk_term B (op0 And) [ts_trans ts, t]) (ts_vars ts)"
    using forms_ok_parts [OF wf_parts(3) [OF assms(2)]] k by (intro covered_mk2 [OF B])
  then have "ts_wf (ts\<lparr>ts_trans := mk_term B (op0 And) [ts_trans ts, t]\<rparr>)"
    using assms(2) by (simp add: ts_wf_def forms_ok_trans)
  from set_updated_states_wf [OF this] assms(3) ts' show ?thesis by simp
qed

lemma do_call_wf:
  assumes B: "smt_terms B F" and wf: "ts_wf ts" and ok: "call_ok c ts" and d: "det_ok ts"
    and c: "do_call B c ts = Inr ts'"
  shows "ts_wf ts' \<and> det_ok ts'"
  using c ok
proof (cases c)
  case (MakeInputvar n s)
  with c ok d show ?thesis using make_inputvar_wf [OF wf] by (force simp: bindE_Inr_iff)
next
  case (MakeStatevar n s)
  with c ok d show ?thesis using make_statevar_wf [OF wf] by (force simp: bindE_Inr_iff)
qed (use d in \<open>auto dest: set_init_wf [OF wf] constrain_init_wf [OF B wf] assign_next_wf [OF B wf]
    add_constraint_wf [OF B wf] add_invar_add_constraint constrain_inputs_wf [OF B wf]
    name_term_wf [OF wf] promote_inputvar_wf [OF B wf] set_trans_wf [OF wf]
    constrain_trans_wf [OF B wf]\<close>)

lemma run_calls_wf:
  assumes B: "smt_terms B F"
  shows "ts_wf ts \<Longrightarrow> det_ok ts \<Longrightarrow> run_calls B cs ts = Inr ts' \<Longrightarrow> ts_wf ts' \<and> det_ok ts'"
proof (induction cs arbitrary: ts)
  case (Cons c cs)
  from Cons.prems(3) obtain u where "call_ok c ts" "do_call B c ts = Inr u" "run_calls B cs u = Inr ts'"
    by (auto simp: bindE_Inr_iff)
  with do_call_wf [OF B Cons.prems(1) _ Cons.prems(2)] Cons.IH show ?case by blast
qed simp

subsection \<open>Properties\<close>

text \<open>C20: the three walks over a term decide what their names say: \<open>only_curr\<close> that every
  symbolic constant of the term is a state variable, \<open>no_next\<close> that it is a state or input
  variable, \<open>known_symbols\<close> that it is one of the system's variables.\<close>

theorem symbol_checks_exact:
  "only_curr ts t = covered t (set (ts_statevars ts))
   \<and> no_next ts t = covered t (set (ts_statevars ts) \<union> set (ts_inputvars ts))
   \<and> known_symbols ts t = covered t (ts_vars ts)"
  by (simp add: symbol_checks ts_vars_def)

definition demo_calls :: "ts_call list" where
  "demo_calls =
     [MakeStatevar ''x'' BOOL, MakeInputvar ''i'' BOOL,
      SetInit (Node (op0 NotOp) BOOL [Sym ''x'' BOOL]),
      AssignNext (Sym ''x'' BOOL) (Node (op0 Or) BOOL [Sym ''x'' BOOL, Sym ''i'' BOOL])]"

end
