(* ===== verification/Ts_Semantics.thy ===== *)
theory Ts_Semantics
  imports Ts_Invariant
begin

section \<open>What a transition system means\<close>

text \<open>
  States of a system are assignments; a step from \<open>s\<close> to \<open>s'\<close> reads the current
  and input variables of \<open>trans_\<close> in \<open>s\<close> and its next variables in \<open>s'\<close>
  (\<open>pair_env\<close>).  Uninterpreted functions keep their meaning along a path.  On top of this:
  paths, counterexamples of a given length, reachable states, and what each of the building
  operations does to the set of paths.
\<close>

definition pair_env :: "ts \<Rightarrow> assignment \<Rightarrow> assignment \<Rightarrow> assignment" where
  "pair_env ts s s' x =
     (case map_of (ts_curr_map ts) (tm_of x) of Some cv \<Rightarrow> s' (sym_of cv) | None \<Rightarrow> s x)"

definition agree_funs :: "assignment \<Rightarrow> assignment \<Rightarrow> bool" where
  "agree_funs s s' \<longleftrightarrow> (\<forall>n st. is_fun_sort st \<longrightarrow> s (n, st) = s' (n, st))"

definition ts_step :: "theory_ops \<Rightarrow> ts \<Rightarrow> assignment \<Rightarrow> assignment \<Rightarrow> bool" where
  "ts_step F ts s s' \<longleftrightarrow> wsorted s \<and> wsorted s' \<and> agree_funs s s'
     \<and> holds F (pair_env ts s s') (ts_trans ts)"

definition ts_initial :: "theory_ops \<Rightarrow> ts \<Rightarrow> assignment \<Rightarrow> bool" where
  "ts_initial F ts s \<longleftrightarrow> wsorted s \<and> holds F s (ts_init ts)"

definition segment :: "theory_ops \<Rightarrow> ts \<Rightarrow> (nat \<Rightarrow> assignment) \<Rightarrow> nat \<Rightarrow> bool" where
  "segment F ts \<pi> k \<longleftrightarrow> (\<forall>i \<le> k. wsorted (\<pi> i)) \<and> (\<forall>i < k. ts_step F ts (\<pi> i) (\<pi> (Suc i)))"

definition ts_path :: "theory_ops \<Rightarrow> ts \<Rightarrow> (nat \<Rightarrow> assignment) \<Rightarrow> nat \<Rightarrow> bool" where
  "ts_path F ts \<pi> k \<longleftrightarrow> ts_initial F ts (\<pi> 0) \<and> segment F ts \<pi> k"

definition cex :: "theory_ops \<Rightarrow> ts \<Rightarrow> tm \<Rightarrow> nat \<Rightarrow> bool" where
  "cex F ts bad k \<longleftrightarrow> (\<exists>\<pi>. ts_path F ts \<pi> k \<and> holds F (\<pi> k) bad)"

definition safe :: "theory_ops \<Rightarrow> ts \<Rightarrow> tm \<Rightarrow> bool" where
  "safe F ts bad \<longleftrightarrow> (\<forall>k. \<not> cex F ts bad k)"

inductive reach :: "theory_ops \<Rightarrow> ts \<Rightarrow> nat \<Rightarrow> assignment \<Rightarrow> bool"
  for F :: theory_ops and ts :: ts where
  reach_init: "ts_initial F ts s \<Longrightarrow> reach F ts 0 s"
| reach_step: "reach F ts n s \<Longrightarrow> ts_step F ts s s' \<Longrightarrow> reach F ts (Suc n) s'"

inductive_cases reach_0E: "reach F ts 0 s"
inductive_cases reach_SucE: "reach F ts (Suc n) s"

lemma agree_funs_refl [simp]: "agree_funs s s"
  by (simp add: agree_funs_def)

lemma ts_stepD:
  assumes "ts_step F ts s s'"
  shows "wsorted s" "wsorted s'" "agree_funs s s'" "holds F (pair_env ts s s') (ts_trans ts)"
  using assms by (simp_all add: ts_step_def)

lemma segment_0 [simp]: "segment F ts \<pi> 0 \<longleftrightarrow> wsorted (\<pi> 0)"
  by (simp add: segment_def)

lemma segment_Suc: "segment F ts \<pi> (Suc k) \<longleftrightarrow> segment F ts \<pi> k \<and> ts_step F ts (\<pi> k) (\<pi> (Suc k))"
  by (auto simp: segment_def less_Suc_eq le_Suc_eq dest: ts_stepD)

lemma segment_mono: "segment F ts \<pi> k \<Longrightarrow> j \<le> k \<Longrightarrow> segment F ts \<pi> j"
  by (auto simp: segment_def)

lemma segment_shift: "segment F ts \<pi> (i + k) \<Longrightarrow> segment F ts (\<lambda>j. \<pi> (i + j)) k"
  by (auto simp: segment_def)

lemma ts_path_mono: "ts_path F ts \<pi> k \<Longrightarrow> j \<le> k \<Longrightarrow> ts_path F ts \<pi> j"
  by (auto simp: ts_path_def intro: segment_mono)

lemma path_reach: "ts_path F ts \<pi> k \<Longrightarrow> reach F ts k (\<pi> k)"
  by (induction k) (auto simp: ts_path_def segment_Suc intro: reach.intros)

lemma segment_update: "segment F ts \<pi> k \<Longrightarrow> j > k \<Longrightarrow> segment F ts (\<pi>(j := s)) k"
  by (auto simp: segment_def)

lemma reach_path: "reach F ts k s \<Longrightarrow> \<exists>\<pi>. ts_path F ts \<pi> k \<and> \<pi> k = s"
proof (induction rule: reach.induct)
  case (reach_init s)
  then show ?case by (intro exI [of _ "\<lambda>_. s"]) (simp add: ts_path_def ts_initial_def)
next
  case (reach_step n s s')
  then obtain \<pi> where p: "ts_path F ts \<pi> n" "\<pi> n = s" by blast
  let ?\<pi> = "\<pi>(Suc n := s')"
  have "ts_path F ts ?\<pi> (Suc n)"
    using p reach_step.hyps(2) segment_update [of F ts \<pi> n "Suc n" s']
    by (simp add: ts_path_def segment_Suc)
  then show ?case by (metis fun_upd_same)
qed

lemma cex_reach: "cex F ts bad k \<longleftrightarrow> (\<exists>s. reach F ts k s \<and> holds F s bad)"
  unfolding cex_def using path_reach reach_path by metis

subsection \<open>Reading terms in a pair of states\<close>

lemma pair_env_current:
  assumes "ts_wf ts" and "tm_of x \<notin> set (ts_next_statevars ts)"
  shows "pair_env ts s s' x = s x"
proof -
  have "map_of (ts_curr_map ts) (tm_of x) = None"
    using assms wf_curr_keys by (simp add: map_of_None_iff)
  then show ?thesis by (simp add: pair_env_def)
qed

lemma wf_disjoint:
  assumes "ts_wf ts"
  shows "set (ts_statevars ts) \<inter> set (ts_next_statevars ts) = {}"
    and "set (ts_inputvars ts) \<inter> set (ts_next_statevars ts) = {}"
    and "set (ts_statevars ts) \<inter> set (ts_inputvars ts) = {}"
  using assms by (simp_all add: ts_wf_def vars_ok_def)

lemma wf_not_fun: "ts_wf ts \<Longrightarrow> Sym n st \<in> ts_vars ts \<Longrightarrow> \<not> is_fun_sort st"
  using wf_symbolic by fastforce

lemma eval_pair_current:
  assumes wf: "ts_wf ts" and c: "covered t (set (ts_statevars ts) \<union> set (ts_inputvars ts))"
  shows "eval F (pair_env ts s s') t = eval F s t"
proof (rule eval_cong)
  fix x assume x: "x \<in> syms t"
  have "tm_of x \<notin> set (ts_next_statevars ts)"
  proof (cases "is_fun_sort (snd x)")
    case True
    then show ?thesis using wf_not_fun [OF wf, of "fst x" "snd x"] by (auto simp: ts_vars_def)
  next
    case False
    with x c wf_disjoint [OF wf] show ?thesis by (auto simp: covered_def)
  qed
  then show "pair_env ts s s' x = s x" by (rule pair_env_current [OF wf])
qed

lemma pair_env_next:
  assumes wf: "ts_wf ts" and n: "map_of (ts_next_map ts) v = Some nv"
  shows "eval F (pair_env ts s s') nv = s' (sym_of v)"
proof -
  have "nv \<in> ts_vars ts" using next_symbol [OF wf n] by (simp add: ts_vars_def)
  then obtain m st where nv: "nv = Sym m st" using wf_symbolic [OF wf] is_symbolic_constE by blast
  have "map_of (ts_curr_map ts) nv = Some v" using wf_maps_inverse [OF wf] n by blast
  then show ?thesis by (simp add: nv pair_env_def)
qed

lemma wsorted_pair_env:
  assumes wf: "ts_wf ts" and "wsorted s" "wsorted t"
  shows "wsorted (pair_env ts s t)"
  unfolding wsorted_def
proof (intro allI)
  fix n st
  show "pair_env ts s t (n, st) \<in> carrier st"
  proof (cases "map_of (ts_curr_map ts) (Sym n st)")
    case None
    with assms(2) show ?thesis by (simp add: pair_env_def wsorted_def)
  next
    case (Some v)
    then have nx: "map_of (ts_next_map ts) v = Some (Sym n st)" using wf_maps_inverse [OF wf] by blast
    then have "v \<in> ts_vars ts" using next_symbol [OF wf] by (auto simp: ts_vars_def)
    then obtain m r where v: "v = Sym m r" using wf_symbolic [OF wf] is_symbolic_constE by blast
    have "get_sort (Sym n st) = get_sort v" using wf_parts(2) [OF wf] nx unfolding maps_ok_def by blast
    with v assms(3) Some show ?thesis by (simp add: pair_env_def wsorted_def)
  qed
qed

lemma eval_pair_next:
  assumes B: "smt_terms B F" and wf: "ts_wf ts" and c: "covered t (set (ts_statevars ts))"
    and f: "agree_funs s s'"
  shows "eval F (pair_env ts s s') (substitute B t (ts_next_map ts)) = eval F s' t"
proof -
  have "eval F (pair_env ts s s') (substitute B t (ts_next_map ts))
      = eval F (subst_env F (pair_env ts s s') (ts_next_map ts)) t"
    using smt_terms.eval_substitute [OF B sym_map_next [OF wf]] .
  also have "\<dots> = eval F s' t"
  proof (rule eval_cong)
    fix x assume x: "x \<in> syms t"
    show "subst_env F (pair_env ts s s') (ts_next_map ts) x = s' x"
    proof (cases "is_fun_sort (snd x)")
      case True
      then have "tm_of x \<notin> ts_vars ts" using wf_not_fun [OF wf, of "fst x" "snd x"] by auto
      then have "map_of (ts_next_map ts) (tm_of x) = None" "pair_env ts s s' x = s x"
        using wf_next_keys [OF wf] pair_env_current [OF wf, of x]
        by (auto simp: map_of_None_iff ts_vars_def)
      with f True show ?thesis by (cases x) (simp add: subst_env_def agree_funs_def)
    next
      case False
      with x c have "tm_of x \<in> set (ts_statevars ts)" by (simp add: covered_def)
      then obtain nv where nv: "map_of (ts_next_map ts) (tm_of x) = Some nv"
        using next_map_total [OF wf] by blast
      from pair_env_next [OF wf this] nv show ?thesis by (simp add: subst_env_def)
    qed
  qed
  finally show ?thesis .
qed

lemma eval_next_tm:
  assumes B: "smt_terms B F" and wf: "ts_wf ts" and c: "covered t (set (ts_statevars ts))"
    and f: "agree_funs s s'"
  shows "eval F (pair_env ts s s') (next_tm B ts t) = eval F s' t"
proof (cases "map_of (ts_next_map ts) t")
  case None
  then show ?thesis using eval_pair_next [OF assms] by (simp add: next_tm_def)
next
  case (Some nv)
  then have "t \<in> ts_vars ts" using next_symbol [OF wf] by (auto simp: ts_vars_def)
  then have "is_symbolic_const t" using wf_symbolic [OF wf] by blast
  then obtain n st where t: "t = Sym n st" by (rule is_symbolic_constE)
  from pair_env_next [OF wf Some] Some show ?thesis by (simp add: next_tm_def t)
qed

subsection \<open>What the building operations do to the behaviours\<close>

lemma pair_env_frame [simp]:
  "pair_env (ts\<lparr>ts_init := a\<rparr>) = pair_env ts" "pair_env (ts\<lparr>ts_trans := a\<rparr>) = pair_env ts"
  "pair_env (ts\<lparr>ts_state_updates := d\<rparr>) = pair_env ts"
  "pair_env (ts\<lparr>ts_no_state_updates := e\<rparr>) = pair_env ts"
  "pair_env (ts\<lparr>ts_deterministic := f\<rparr>) = pair_env ts"
  "pair_env (ts\<lparr>ts_constraints := g\<rparr>) = pair_env ts"
  "pair_env (ts\<lparr>ts_named_terms := g1\<rparr>) = pair_env ts"
  "pair_env (ts\<lparr>ts_term_to_name := g2\<rparr>) = pair_env ts"
  "pair_env (ts\<lparr>ts_declared := g3\<rparr>) = pair_env ts"
  "pair_env (ts\<lparr>ts_inputvars := g4\<rparr>) = pair_env ts"
  by (simp_all add: pair_env_def fun_eq_iff)

lemma step_set_trans:
  "ts_step F (ts\<lparr>ts_trans := t\<rparr>) s s'
     \<longleftrightarrow> wsorted s \<and> wsorted s' \<and> agree_funs s s' \<and> holds F (pair_env ts s s') t"
  by (simp add: ts_step_def)

lemma constrain_init_initial:
  assumes "smt_terms B F" and "constrain_init B c ts = Inr ts'"
  shows "ts_initial F ts' s \<longleftrightarrow> ts_initial F ts s \<and> holds F s c"
    and "ts_step F ts' = ts_step F ts"
  using assms(2) smt_terms.holds_And [OF assms(1)]
  by (auto simp: constrain_init_def ts_initial_def ts_step_def fun_eq_iff)

lemma assign_next_step:
  assumes B: "smt_terms B F" and wf: "ts_wf ts" and a: "assign_next B v f ts = Inr ts'"
  shows "ts_step F ts' s s' \<longleftrightarrow> ts_step F ts s s' \<and> s' (sym_of v) = eval F s f"
    and "ts_initial F ts' = ts_initial F ts"
proof -
  from a obtain nv where f: "covered f (set (ts_statevars ts) \<union> set (ts_inputvars ts))"
    and nv: "map_of (ts_next_map ts) v = Some nv"
    and tr: "ts_trans ts' = mk_term B (op0 And) [ts_trans ts, mk_term B (op0 Equal) [nv, f]]"
    and cm: "ts_curr_map ts' = ts_curr_map ts" and i: "ts_init ts' = ts_init ts"
    by (rule assign_next_fields) auto
  have "pair_env ts' = pair_env ts" by (rule ext)+ (simp add: pair_env_def cm)
  then show "ts_step F ts' s s' \<longleftrightarrow> ts_step F ts s s' \<and> s' (sym_of v) = eval F s f"
    by (auto simp: ts_step_def tr smt_terms.holds_And [OF B] smt_terms.holds_Equal [OF B]
        pair_env_next [OF wf nv] eval_pair_current [OF wf f])
  show "ts_initial F ts' = ts_initial F ts" by (simp add: ts_initial_def i fun_eq_iff)
qed

lemma add_constraint_step:
  assumes B: "smt_terms B F" and wf: "ts_wf ts" and a: "add_constraint B c b ts = Inr ts'"
  shows "ts_step F ts' s s' \<longleftrightarrow> ts_step F ts s s' \<and> holds F s c
      \<and> (b \<and> only_curr ts c \<longrightarrow> holds F s' c)"
    and "ts_initial F ts' s \<longleftrightarrow> ts_initial F ts s \<and> (b \<and> only_curr ts c \<longrightarrow> holds F s c)"
proof -
  have cov: "only_curr ts c \<or> no_next ts c"
    using a by (auto simp: add_constraint_def Let_def split: if_splits)
  then have "covered c (set (ts_statevars ts) \<union> set (ts_inputvars ts))"
    by (auto simp: symbol_checks elim: covered_mono)
  note cur = eval_pair_current [OF wf this]
  note nx = eval_pair_next [OF B wf]
  note hAnd = smt_terms.holds_And [OF B]
  have "(if only_curr ts c \<and> b then ts_init ts' = mk_term B (op0 And) [ts_init ts, c]
        \<and> ts_trans ts' = mk_term B (op0 And)
            [mk_term B (op0 And) [ts_trans ts, c], substitute B c (ts_next_map ts)]
      else ts_init ts' = ts_init ts \<and> ts_trans ts' = mk_term B (op0 And) [ts_trans ts, c])
      \<and> ts_curr_map ts' = ts_curr_map ts"
    using a by (auto simp: add_constraint_def Let_def split: if_splits)
  note ts' = this
  then have pe: "pair_env ts' = pair_env ts" by (intro ext) (simp add: pair_env_def)
  show "ts_step F ts' s s' \<longleftrightarrow> ts_step F ts s s' \<and> holds F s c
      \<and> (b \<and> only_curr ts c \<longrightarrow> holds F s' c)"
  proof (cases "only_curr ts c \<and> b")
    case True
    with ts' show ?thesis
      by (auto simp: ts_step_def pe hAnd cur nx only_curr_iff)
  next
    case False
    with ts' have "ts_trans ts' = mk_term B (op0 And) [ts_trans ts, c]" by auto
    with False show ?thesis by (auto simp: ts_step_def pe hAnd cur)
  qed
  show "ts_initial F ts' s \<longleftrightarrow> ts_initial F ts s \<and> (b \<and> only_curr ts c \<longrightarrow> holds F s c)"
    using ts' by (auto simp: ts_initial_def hAnd split: if_splits)
qed

lemma constrain_inputs_step:
  assumes B: "smt_terms B F" and wf: "ts_wf ts" and a: "constrain_inputs B c ts = Inr ts'"
  shows "ts_step F ts' s s' \<longleftrightarrow> ts_step F ts s s' \<and> holds F s c"
    and "ts_initial F ts' = ts_initial F ts"
proof -
  from a have "covered c (set (ts_statevars ts) \<union> set (ts_inputvars ts))"
    by (simp add: constrain_inputs_def symbol_checks)
  note cur = eval_pair_current [OF wf this]
  show "ts_step F ts' s s' \<longleftrightarrow> ts_step F ts s s' \<and> holds F s c"
    using a by (auto simp: constrain_inputs_def ts_step_def smt_terms.holds_And [OF B] cur)
  show "ts_initial F ts' = ts_initial F ts"
    using a by (auto simp: constrain_inputs_def ts_initial_def fun_eq_iff)
qed

text \<open>Adding a state variable whose next version is fresh changes no step.\<close>

lemma eval_pair_fresh:
  assumes wf: "ts_wf ts" and c: "covered t (ts_vars ts)" and fr: "nv \<notin> ts_vars ts"
    and nf: "is_symbolic_const nv"
    and m: "ts_curr_map ts' = AList.update nv cv (ts_curr_map ts)"
  shows "eval F (pair_env ts' s s') t = eval F (pair_env ts s s') t"
proof (rule eval_cong)
  fix x assume "x \<in> syms t"
  then have "tm_of x \<noteq> nv" using c fr nf by (force simp: covered_def)
  then show "pair_env ts' s s' x = pair_env ts s s' x" by (simp add: pair_env_def m)
qed

lemma add_statevar_step:
  assumes wf: "ts_wf ts" and nv: "nv \<notin> ts_vars ts" "is_symbolic_const nv"
    and a: "add_statevar B cv nv (ts\<lparr>ts_deterministic := False, ts_declared := tab\<rparr>) = Inr ts'"
  shows "ts_step F ts' = ts_step F ts" and "ts_initial F ts' = ts_initial F ts"
proof -
  from a have ts': "ts_init ts' = ts_init ts" "ts_trans ts' = ts_trans ts"
    "ts_curr_map ts' = AList.update nv cv (ts_curr_map ts)"
    by (auto elim!: add_statevar_fields)
  have "covered (ts_trans ts) (ts_vars ts)" using wf by (simp add: ts_wf_def forms_ok_def)
  from eval_pair_fresh [OF wf this nv ts'(3)]
  show "ts_step F ts' = ts_step F ts" by (simp add: ts_step_def fun_eq_iff ts'(2))
  show "ts_initial F ts' = ts_initial F ts" by (simp add: ts_initial_def ts'(1) fun_eq_iff)
qed

lemma make_statevar_call:
  assumes "make_statevar B n st ts = Inr (v, ts')"
  shows "add_statevar B (Sym n st) (Sym (n @ ts_next_suffix ts) st)
    (ts\<lparr>ts_deterministic := False,
       ts_declared := (n @ ts_next_suffix ts) # n # ts_declared ts\<rparr>) = Inr ts'"
  using assms by (auto simp: make_statevar_def Let_def bindE_Inr_iff elim!: make_symbol_InrE)

lemma make_statevar_step:
  assumes wf: "ts_wf ts" and s: "\<not> is_fun_sort st" and m: "make_statevar B n st ts = Inr (v, ts')"
  shows "ts_step F ts' = ts_step F ts" "ts_initial F ts' = ts_initial F ts"
proof -
  let ?n' = "n @ ts_next_suffix ts"
  from m have n: "?n' \<notin> set (ts_declared ts)"
    by (auto simp: make_statevar_def Let_def bindE_Inr_iff elim!: make_symbol_InrE)
  have "is_symbolic_const (Sym ?n' st)" using s by simp
  from add_statevar_step [OF wf fresh_var [OF wf n] this make_statevar_call [OF m]]
  show "ts_step F ts' = ts_step F ts" "ts_initial F ts' = ts_initial F ts" by blast+
qed

lemma promote_inputvar_call:
  assumes B: "smt_terms B F" and wf: "ts_wf ts" and m: "promote_inputvar B v ts = Inr ts'"
  obtains n s where "v = Sym n s" and "\<not> is_fun_sort s" and "v \<in> set (ts_inputvars ts)"
    and "n @ ts_next_suffix ts \<notin> set (ts_declared ts)"
    and "add_statevar B v (Sym (n @ ts_next_suffix ts) s)
      (ts\<lparr>ts_deterministic := False, ts_declared := (n @ ts_next_suffix ts) # ts_declared ts\<rparr>) = Inr ts'"
proof -
  from m have v: "v \<in> set (ts_inputvars ts)" by (simp add: promote_inputvar_def Let_def)
  then have "v \<in> ts_vars ts" by (simp add: ts_vars_def)
  then obtain n s where vs: "v = Sym n s" "\<not> is_fun_sort s"
    using wf_symbolic [OF wf, of v] is_symbolic_constE by blast
  have str: "term_str B (Sym n s) = n" using smt_terms.term_str_sym [OF B] .
  from m have n: "n @ ts_next_suffix ts \<notin> set (ts_declared ts)"
    and "add_statevar B v (Sym (n @ ts_next_suffix ts) s)
      (ts\<lparr>ts_inputvars := removeAll v (ts_inputvars ts), ts_deterministic := False,
         ts_declared := (n @ ts_next_suffix ts) # ts_declared ts\<rparr>) = Inr ts'"
    by (auto simp: promote_inputvar_def Let_def bindE_Inr_iff str vs(1) elim!: make_symbol_InrE)
  then have "add_statevar B v (Sym (n @ ts_next_suffix ts) s)
      (ts\<lparr>ts_deterministic := False, ts_declared := (n @ ts_next_suffix ts) # ts_declared ts\<rparr>) = Inr ts'"
    by (simp only: add_statevar_input)
  from that [OF vs v n this] show thesis .
qed

lemma promote_inputvar_step:
  assumes B: "smt_terms B F" and wf: "ts_wf ts" and m: "promote_inputvar B v ts = Inr ts'"
  shows "ts_step F ts' = ts_step F ts" "ts_initial F ts' = ts_initial F ts"
proof -
  from promote_inputvar_call [OF assms] obtain n st where v: "v = Sym n st" "\<not> is_fun_sort st"
    and n: "n @ ts_next_suffix ts \<notin> set (ts_declared ts)"
    and a: "add_statevar B v (Sym (n @ ts_next_suffix ts) st)
      (ts\<lparr>ts_deterministic := False, ts_declared := (n @ ts_next_suffix ts) # ts_declared ts\<rparr>) = Inr ts'"
    by metis
  have "is_symbolic_const (Sym (n @ ts_next_suffix ts) st)" using v by simp
  from add_statevar_step [OF wf fresh_var [OF wf n] this a]
  show "ts_step F ts' = ts_step F ts" "ts_initial F ts' = ts_initial F ts" by blast+
qed

lemma cex_cong:
  assumes "ts_step F ts' = ts_step F ts" "ts_initial F ts' = ts_initial F ts"
  shows "cex F ts' = cex F ts"
  unfolding cex_def ts_path_def segment_def fun_eq_iff using assms by simp

subsection \<open>Functional systems\<close>

text \<open>
  As long as a functional system has no constraint, its transition relation is exactly its
  state updates.
\<close>

definition updates_step :: "theory_ops \<Rightarrow> ts \<Rightarrow> assignment \<Rightarrow> assignment \<Rightarrow> bool" where
  "updates_step F ts s s' \<longleftrightarrow> wsorted s \<and> wsorted s' \<and> agree_funs s s'
     \<and> (\<forall>(v, f) \<in> set (ts_state_updates ts). s' (sym_of v) = eval F s f)"

definition fun_form :: "theory_ops \<Rightarrow> ts \<Rightarrow> bool" where
  "fun_form F ts \<longleftrightarrow> (ts_functional ts \<and> ts_constraints ts = [] \<longrightarrow> ts_step F ts = updates_step F ts)"

lemma AList_update_new: "k \<notin> fst ` set m \<Longrightarrow> AList.update k v m = m @ [(k, v)]"
  by (induction m) auto

lemma fun_form_cong:
  assumes "fun_form F ts" and "ts_step F ts' = ts_step F ts"
    and "ts_state_updates ts' = ts_state_updates ts" and "ts_functional ts' = ts_functional ts"
    and "ts_constraints ts' = ts_constraints ts"
  shows "fun_form F ts'"
  using assms by (auto simp: fun_form_def updates_step_def fun_eq_iff)

lemma fun_form_init: "fun_form F ts \<Longrightarrow> fun_form F (ts\<lparr>ts_init := a\<rparr>)"
  by (rule fun_form_cong) (auto simp: ts_step_def fun_eq_iff)

lemma add_statevar_same:
  assumes "add_statevar B cv nv ts = Inr ts'"
  shows "ts_state_updates ts' = ts_state_updates ts \<and> ts_functional ts' = ts_functional ts
    \<and> ts_constraints ts' = ts_constraints ts"
  using assms by (auto elim!: add_statevar_fields)

lemma assign_next_fun_form:
  assumes B: "smt_terms B F" and wf: "ts_wf ts" and a: "assign_next B v f ts = Inr ts'"
    and ff: "fun_form F ts"
  shows "fun_form F ts'"
proof -
  from a have new: "map_of (ts_state_updates ts) v = None"
    and ups: "ts_state_updates ts' = AList.update v f (ts_state_updates ts)"
    and same: "ts_functional ts' = ts_functional ts" "ts_constraints ts' = ts_constraints ts"
    by (auto elim!: assign_next_fields)
  from new have "ts_state_updates ts' = ts_state_updates ts @ [(v, f)]"
    by (simp add: ups AList_update_new map_of_None_iff)
  then have "updates_step F ts' s s' \<longleftrightarrow> updates_step F ts s s' \<and> s' (sym_of v) = eval F s f" for s s'
    by (auto simp: updates_step_def)
  with ff show ?thesis by (simp add: fun_form_def fun_eq_iff same assign_next_step [OF B wf a])
qed

lemma set_updated_states_functional [simp]:
  "ts_functional (set_updated_states B t ts) = ts_functional ts"
  by (rule set_updated_states_fields [of ts B t]) simp

lemma do_call_fun_form:
  assumes B: "smt_terms B F" and wf: "ts_wf ts" and ff: "fun_form F ts" and ok: "call_ok c ts"
    and c: "do_call B c ts = Inr ts'"
  shows "fun_form F ts'"
proof (cases c)
  case (SetInit t)
  with c ff show ?thesis by (auto simp: set_init_def intro: fun_form_init)
next
  case (ConstrainInit t)
  with c ff show ?thesis by (auto simp: constrain_init_def intro: fun_form_init)
next
  case (AssignNext v f)
  with c assign_next_fun_form [OF B wf _ ff] show ?thesis by simp
next
  case (AddInvar t)
  with c show ?thesis by (auto simp: add_invar_def Let_def fun_form_def)
next
  case (ConstrainInputs t)
  with c show ?thesis by (auto simp: constrain_inputs_def fun_form_def)
next
  case (AddConstraint t b)
  with c show ?thesis by (auto simp: add_constraint_def Let_def fun_form_def split: if_splits)
next
  case (NameTerm n t)
  with c obtain na nb where "ts' = ts\<lparr>ts_named_terms := na, ts_term_to_name := nb\<rparr>"
    by (auto elim: name_term_fields)
  then show ?thesis using ff by (elim fun_form_cong) (auto simp: ts_step_def fun_eq_iff)
next
  case (MakeInputvar n st)
  with c obtain na nb v where
    "ts' = ts\<lparr>ts_declared := n # ts_declared ts, ts_inputvars := List.insert v (ts_inputvars ts),
       ts_named_terms := na, ts_term_to_name := nb\<rparr>"
    by (force simp: make_inputvar_def add_inputvar_def bindE_Inr_iff
        elim!: make_symbol_InrE name_term_fields)
  then show ?thesis using ff by (elim fun_form_cong) (auto simp: ts_step_def fun_eq_iff)
next
  case (MakeStatevar n st)
  with c obtain v where m: "make_statevar B n st ts = Inr (v, ts')" by (auto simp: bindE_Inr_iff)
  have st: "\<not> is_fun_sort st" using ok MakeStatevar by simp
  note same = add_statevar_same [OF make_statevar_call [OF m], simplified]
  show ?thesis using same by (intro fun_form_cong [OF ff make_statevar_step(1) [OF wf st m]]) simp_all
next
  case (PromoteInputvar v)
  with c have m: "promote_inputvar B v ts = Inr ts'" by simp
  obtain n st where "add_statevar B v (Sym (n @ ts_next_suffix ts) st)
      (ts\<lparr>ts_deterministic := False, ts_declared := (n @ ts_next_suffix ts) # ts_declared ts\<rparr>) = Inr ts'"
    using promote_inputvar_call [OF B wf m] by metis
  note same = add_statevar_same [OF this, simplified]
  show ?thesis using same by (intro fun_form_cong [OF ff promote_inputvar_step(1) [OF B wf m]]) simp_all
next
  case (SetTrans t)
  with ok have "\<not> ts_functional ts" by simp
  with c SetTrans show ?thesis
    by (auto simp: set_trans_def fun_form_def)
next
  case (ConstrainTrans t)
  with ok have "\<not> ts_functional ts" by simp
  with c ConstrainTrans show ?thesis
    by (auto simp: constrain_trans_def fun_form_def)
qed

lemma run_calls_fun_form:
  assumes B: "smt_terms B F"
  shows "ts_wf ts \<Longrightarrow> det_ok ts \<Longrightarrow> fun_form F ts \<Longrightarrow> run_calls B cs ts = Inr ts' \<Longrightarrow> fun_form F ts'"
proof (induction cs arbitrary: ts)
  case (Cons c cs)
  from Cons.prems(4) obtain u where "call_ok c ts" "do_call B c ts = Inr u" "run_calls B cs u = Inr ts'"
    by (auto simp: bindE_Inr_iff)
  with do_call_wf [OF B Cons.prems(1) _ Cons.prems(2)] do_call_fun_form [OF B Cons.prems(1,3)]
    Cons.IH show ?case by blast
qed simp

lemma fun_form_empty: "fun_form F (empty_fts tab)"
  by (simp add: fun_form_def empty_fts_def empty_ts_def ts_step_def updates_step_def fun_eq_iff)

lemma updates_step_total:
  assumes d: "distinct (map fst (ts_state_updates ts))"
    and v: "\<forall>v \<in> fst ` set (ts_state_updates ts). is_symbolic_const v"
    and sorts: "\<forall>(v, f) \<in> set (ts_state_updates ts). eval F s f \<in> carrier (get_sort v)"
    and s: "wsorted s"
  shows "\<exists>s'. updates_step F ts s s'"
proof
  let ?s' = "\<lambda>x. case map_of (ts_state_updates ts) (tm_of x) of Some f \<Rightarrow> eval F s f | None \<Rightarrow> s x"
  have "?s' (n, st) \<in> carrier st" for n st
    using s sorts by (auto simp: wsorted_def dest!: map_of_SomeD split: option.splits)
  moreover have "agree_funs s ?s'"
    unfolding agree_funs_def
  proof (intro allI impI)
    fix n st assume "is_fun_sort st"
    then have "Sym n st \<notin> fst ` set (ts_state_updates ts)" using v is_symbolic_const.simps(1) by blast
    then show "s (n, st) = ?s' (n, st)" by (simp add: map_of_None_iff [symmetric])
  qed
  moreover have "?s' (sym_of u) = eval F s f" if "(u, f) \<in> set (ts_state_updates ts)" for u f
  proof -
    have "tm_of (sym_of u) = u" using v that by (force elim: is_symbolic_constE)
    with that d show ?thesis by simp
  qed
  ultimately show "updates_step F ts s ?s'" using s by (auto simp: updates_step_def wsorted_def)
qed

subsection \<open>Properties\<close>

text \<open>C25: adding an invariant restricts the initial states and the steps to the states that
  satisfy it, before and after the step, and removes nothing else.\<close>

theorem add_invar_meaning:
  assumes "smt_terms B F" and "ts_wf ts" and "add_invar B c ts = Inr ts'"
  shows "(ts_initial F ts' s \<longleftrightarrow> ts_initial F ts s \<and> holds F s c)
    \<and> (ts_step F ts' s s' \<longleftrightarrow> ts_step F ts s s' \<and> holds F s c \<and> holds F s' c)"
proof -
  have "only_curr ts c" using assms(3) by (simp add: add_invar_def Let_def)
  with add_constraint_step [OF assms(1,2) add_invar_add_constraint [OF assms(3)]]
  show ?thesis by blast
qed

text \<open>C24: turning an input into a state variable, and declaring a new state variable, leave the
  behaviour as it was: the same initial states, the same steps, so the same counterexamples.\<close>

theorem new_state_variable_keeps_behaviour:
  assumes "smt_terms B F" and "ts_wf ts"
    and "promote_inputvar B v ts = Inr ts'
      \<or> \<not> is_fun_sort st \<and> make_statevar B n st ts = Inr (v, ts')"
  shows "ts_initial F ts' = ts_initial F ts \<and> ts_step F ts' = ts_step F ts
    \<and> cex F ts' = cex F ts \<and> ts_wf ts'"
  using assms(3)
proof
  assume p: "promote_inputvar B v ts = Inr ts'"
  with promote_inputvar_step [OF assms(1,2) p] promote_inputvar_wf [OF assms(1,2) p] cex_cong
  show ?thesis by blast
next
  assume m: "\<not> is_fun_sort st \<and> make_statevar B n st ts = Inr (v, ts')"
  with make_statevar_step [OF assms(2)] make_statevar_wf [OF assms(2)] cex_cong
  show ?thesis by metis
qed

text \<open>C23: a functional system without constraints means its state updates: a step is possible
  exactly when every updated state variable gets the value of its update.  Every state has a
  successor (what \<open>is_right_total\<close> answers without a query) when the update values have the
  sorts of their variables, and when the system says it is deterministic, any two successors of
  a state agree on every state variable.\<close>

theorem functional_system_steps:
  assumes "smt_terms B F" and "run_calls B cs (empty_fts tab) = Inr ts"
    and "ts_functional ts" and "ts_constraints ts = []"
  shows "(ts_step F ts s s' \<longleftrightarrow> updates_step F ts s s')
    \<and> (wsorted s \<and> (\<forall>(v, f) \<in> set (ts_state_updates ts). eval F s f \<in> carrier (get_sort v))
        \<longrightarrow> (\<exists>t. ts_step F ts s t))
    \<and> (ts_deterministic ts \<and> ts_step F ts s t1 \<and> ts_step F ts s t2
        \<longrightarrow> (\<forall>v \<in> set (ts_statevars ts). t1 (sym_of v) = t2 (sym_of v)))"
proof -
  have e: "ts_wf (empty_fts tab)" "det_ok (empty_fts tab)"
    by (rule ts_wf_empty_fts) (simp add: det_ok_def empty_fts_def empty_ts_def)
  have wf: "ts_wf ts" "det_ok ts" using run_calls_wf [OF assms(1) e assms(2)] by auto
  have "fun_form F ts" using run_calls_fun_form [OF assms(1) e fun_form_empty assms(2)] .
  with assms(3,4) have st: "ts_step F ts = updates_step F ts" by (simp add: fun_form_def)
  have ups: "distinct (map fst (ts_state_updates ts))"
    "fst ` set (ts_state_updates ts) \<subseteq> set (ts_statevars ts)"
    using wf_parts(4) [OF wf(1)] by (simp_all add: updates_ok_def)
  then have vs: "\<forall>v \<in> fst ` set (ts_state_updates ts). is_symbolic_const v"
    using wf_symbolic [OF wf(1)] by (auto simp: ts_vars_def)
  have uniq: "t1 (sym_of v) = t2 (sym_of v)"
    if "ts_deterministic ts" "updates_step F ts s t1" "updates_step F ts s t2"
      "v \<in> set (ts_statevars ts)" for v
  proof -
    have "v \<in> fst ` set (ts_state_updates ts)" using wf(2) that(1,4) by (simp add: det_ok_def)
    then obtain f where "(v, f) \<in> set (ts_state_updates ts)" by auto
    with that(2,3) show ?thesis unfolding updates_step_def by fastforce
  qed
  show ?thesis unfolding st using updates_step_total [OF ups(1) vs] uniq by blast
qed

text \<open>
  The witnesses use one small system: a Boolean state variable \<open>x\<close>, initially false, and an
  input \<open>i\<close>; \<open>x\<close> becomes \<open>x\<close> or \<open>i\<close>.
\<close>

abbreviation vx :: tm where "vx \<equiv> Sym ''x'' BOOL"
abbreviation vi :: tm where "vi \<equiv> Sym ''i'' BOOL"

definition demo_ts :: ts where
  "demo_ts = (case run_calls plain_builder demo_calls (empty_fts []) of
     Inl e \<Rightarrow> empty_fts [] | Inr ts \<Rightarrow> ts)"

lemma demo_built: "run_calls plain_builder demo_calls (empty_fts []) = Inr demo_ts"
proof -
  have "case run_calls plain_builder demo_calls (empty_fts []) of Inl e \<Rightarrow> False | Inr ts \<Rightarrow> True"
    by code_simp
  then show ?thesis by (auto simp: demo_ts_def split: sum.splits)
qed

lemma demo_wf: "ts_wf demo_ts"
  using run_calls_wf [OF plain.smt_terms_axioms ts_wf_empty_fts _ demo_built]
  by (simp add: det_ok_def empty_fts_def empty_ts_def)

lemma demo_fields:
  "ts_functional demo_ts" "ts_deterministic demo_ts" "ts_constraints demo_ts = []"
  "ts_statevars demo_ts = [vx]" "ts_inputvars demo_ts = [vi]"
  "ts_state_updates demo_ts = [(vx, Node (op0 Or) BOOL [vx, vi])]"
  by code_simp+

theorem add_invar_meaning_witness:
  "\<exists>ts'. add_invar plain_builder vx demo_ts = Inr ts'
     \<and> (ts_initial (\<lambda>_ _. BoolVal False) ts' (\<lambda>_. BoolVal False)
        \<longleftrightarrow> ts_initial (\<lambda>_ _. BoolVal False) demo_ts (\<lambda>_. BoolVal False)
            \<and> holds (\<lambda>_ _. BoolVal False) (\<lambda>_. BoolVal False) vx)"
proof -
  have "only_curr demo_ts vx" by code_simp
  then obtain ts' where "add_invar plain_builder vx demo_ts = Inr ts'"
    by (simp add: add_invar_def Let_def)
  with add_invar_meaning [OF plain.smt_terms_axioms demo_wf this] show ?thesis by blast
qed

theorem new_state_variable_keeps_behaviour_witness:
  "\<exists>ts'. promote_inputvar plain_builder vi demo_ts = Inr ts'
     \<and> cex (\<lambda>_ _. BoolVal False) ts' = cex (\<lambda>_ _. BoolVal False) demo_ts"
proof -
  have "case promote_inputvar plain_builder vi demo_ts of Inl e \<Rightarrow> False | Inr ts \<Rightarrow> True"
    by code_simp
  then obtain ts' where p: "promote_inputvar plain_builder vi demo_ts = Inr ts'"
    by (auto split: sum.splits)
  with new_state_variable_keeps_behaviour [OF plain.smt_terms_axioms demo_wf disjI1 [OF p]]
  show ?thesis by blast
qed

theorem functional_system_steps_witness:
  "\<exists>t. ts_step (\<lambda>_ _. BoolVal False) demo_ts (\<lambda>x. default_val (snd x)) t"
proof -
  have "wsorted (\<lambda>x. default_val (snd x))" by (simp add: wsorted_def default_val_carrier)
  then show ?thesis
    by (intro functional_system_steps [OF plain.smt_terms_axioms demo_built demo_fields(1,3),
          THEN conjunct2, THEN conjunct1, THEN mp])
      (simp add: demo_fields sem_op_def rangeI)
qed

end
