(* ===== verification/Unroller.thy ===== *)
theory Unroller
  imports Ts_Semantics
begin

section \<open>The unroller (core/unroller)\<close>

text \<open>
  \<open>Unroller::at_time\<close> replaces the variables of a term by copies of them at a time.  The
  class creates the copies on demand and caches them; the record \<open>unroller\<close> holds its
  members and \<open>un_declared\<close> the symbol table of the solver it shares with the system.  The
  last part gives the specification without a cache, \<open>unroll\<close>, shows that the class
  computes it, and what it means: a model of unrolled formulas is a path.
\<close>

function nat_str :: "nat \<Rightarrow> string" where
  "nat_str n = (if n < 10 then [char_of (48 + n)] else nat_str (n div 10) @ [char_of (48 + n mod 10)])"
  by pat_completeness auto
termination by (relation "measure id") auto

declare nat_str.simps [simp del]

record unroller =
  un_time_id :: string
  un_time_cache :: "(tm \<times> tm) list list"
  un_time_var_map :: "(tm \<times> tm) list list"
  un_untime_cache :: "(tm \<times> tm) list"
  un_var_times :: "(tm \<times> nat) list"
  un_num_vars :: nat
  un_declared :: "string list"

definition init_unroller :: "ts \<Rightarrow> string \<Rightarrow> unroller" where
  "init_unroller ts tid =
     \<lparr>un_time_id = tid, un_time_cache = [], un_time_var_map = [], un_untime_cache = [],
      un_var_times = [], un_num_vars = length (ts_statevars ts) + length (ts_inputvars ts),
      un_declared = ts_declared ts\<rparr>"

definition pad_maps :: "nat \<Rightarrow> 'a list list \<Rightarrow> 'a list list" where
  "pad_maps k m = m @ replicate (Suc k - length m) []"

definition var_at_time :: "smt_builder \<Rightarrow> tm \<Rightarrow> nat \<Rightarrow> 'u unroller_scheme
    \<Rightarrow> (tm \<times> 'u unroller_scheme) result" where
  "var_at_time B v k u =
     (let m = pad_maps k (un_time_var_map u) in
      case map_of (m ! k) v of
        Some w \<Rightarrow> Inr (w, u\<lparr>un_time_var_map := m\<rparr>)
      | None \<Rightarrow>
          bindE (make_symbol (term_str B v @ un_time_id u @ nat_str k) (get_sort v) (un_declared u))
            (\<lambda>(w, tab). Inr (w, u\<lparr>un_time_var_map := m[k := AList.update v w (m ! k)],
               un_untime_cache := AList.update w v (un_untime_cache u),
               un_var_times := AList.update w k (un_var_times u),
               un_declared := tab\<rparr>)))"

text \<open>One level of the cache: a state variable and its next version, an input, all variables.\<close>

definition bind_state :: "smt_builder \<Rightarrow> ts \<Rightarrow> nat \<Rightarrow> tm \<Rightarrow> (tm \<times> tm) list \<times> 'u unroller_scheme
    \<Rightarrow> ((tm \<times> tm) list \<times> 'u unroller_scheme) result" where
  "bind_state B ts t v = (\<lambda>(m, u).
     bindE (var_at_time B v t u) (\<lambda>(w, u1).
     bindE (var_at_time B v (Suc t) u1) (\<lambda>(wn, u2).
       Inr (AList.update (next_tm B ts v) wn (AList.update v w m), u2))))"

definition bind_input :: "smt_builder \<Rightarrow> nat \<Rightarrow> tm \<Rightarrow> (tm \<times> tm) list \<times> 'u unroller_scheme
    \<Rightarrow> ((tm \<times> tm) list \<times> 'u unroller_scheme) result" where
  "bind_input B t v = (\<lambda>(m, u). bindE (var_at_time B v t u) (\<lambda>(w, u1). Inr (AList.update v w m, u1)))"

definition fill_level :: "smt_builder \<Rightarrow> ts \<Rightarrow> nat \<Rightarrow> (tm \<times> tm) list \<times> 'u unroller_scheme
    \<Rightarrow> ((tm \<times> tm) list \<times> 'u unroller_scheme) result" where
  "fill_level B ts t p =
     bindE (foldE (bind_state B ts t) (ts_statevars ts) p) (foldE (bind_input B t) (ts_inputvars ts))"

definition extend_caches :: "smt_builder \<Rightarrow> ts \<Rightarrow> nat \<Rightarrow> 'u unroller_scheme \<Rightarrow> 'u unroller_scheme result" where
  "extend_caches B ts k u =
     foldE (\<lambda>t u. bindE (fill_level B ts t ([], u)) (\<lambda>(m, u1).
         Inr (u1\<lparr>un_time_cache := un_time_cache u1 @ [m]\<rparr>)))
       [length (un_time_cache u)..<Suc k] u"

definition refresh_caches :: "smt_builder \<Rightarrow> ts \<Rightarrow> 'u unroller_scheme \<Rightarrow> 'u unroller_scheme result" where
  "refresh_caches B ts u =
     (let n = length (ts_statevars ts) + length (ts_inputvars ts) in
      if n > un_num_vars u then
        foldE (\<lambda>t u. bindE (fill_level B ts t (un_time_cache u ! t, u)) (\<lambda>(m, u1).
            Inr (u1\<lparr>un_time_cache := (un_time_cache u1)[t := m]\<rparr>)))
          [0..<length (un_time_cache u)] (u\<lparr>un_num_vars := n\<rparr>)
      else Inr u)"

definition var_cache_at_time :: "smt_builder \<Rightarrow> ts \<Rightarrow> nat \<Rightarrow> 'u unroller_scheme
    \<Rightarrow> ((tm \<times> tm) list \<times> 'u unroller_scheme) result" where
  "var_cache_at_time B ts k u =
     bindE (extend_caches B ts k u) (\<lambda>u1.
     bindE (refresh_caches B ts u1) (\<lambda>u2. Inr (un_time_cache u2 ! k, u2)))"

definition use_cache :: "smt_builder \<Rightarrow> (tm \<times> tm) list \<Rightarrow> tm \<Rightarrow> tm" where
  "use_cache B m t = (case map_of m t of Some w \<Rightarrow> w | None \<Rightarrow> substitute B t m)"

definition at_time :: "smt_builder \<Rightarrow> ts \<Rightarrow> tm \<Rightarrow> nat \<Rightarrow> 'u unroller_scheme
    \<Rightarrow> (tm \<times> 'u unroller_scheme) result" where
  "at_time B ts t k u = bindE (var_cache_at_time B ts k u) (\<lambda>(m, u1). Inr (use_cache B m t, u1))"




subsection \<open>The same without a cache\<close>

definition timed :: "smt_builder \<Rightarrow> string \<Rightarrow> tm \<Rightarrow> nat \<Rightarrow> tm" where
  "timed B tid v k = Sym (term_str B v @ tid @ nat_str k) (get_sort v)"

definition level_map :: "smt_builder \<Rightarrow> string \<Rightarrow> ts \<Rightarrow> nat \<Rightarrow> (tm \<times> tm) list" where
  "level_map B tid ts k =
     fold (\<lambda>v. AList.update v (timed B tid v k)) (ts_inputvars ts)
       (fold (\<lambda>v m. AList.update (next_tm B ts v) (timed B tid v (Suc k))
           (AList.update v (timed B tid v k) m)) (ts_statevars ts) [])"

definition unroll :: "smt_builder \<Rightarrow> string \<Rightarrow> ts \<Rightarrow> tm \<Rightarrow> nat \<Rightarrow> tm" where
  "unroll B tid ts t k = use_cache B (level_map B tid ts k) t"

subsection \<open>The class computes the specification\<close>

text \<open>
  \<open>un_le\<close> relates the unroller before and after creating copies; \<open>vm_ok\<close> is the
  invariant of the copies and \<open>registered\<close> says that the unroller can undo a copy.
\<close>

definition registered :: "'u unroller_scheme \<Rightarrow> tm \<Rightarrow> tm \<Rightarrow> nat \<Rightarrow> bool" where
  "registered u w v k \<longleftrightarrow> map_of (un_untime_cache u) w = Some v \<and> map_of (un_var_times u) w = Some k"

definition un_le :: "'u unroller_scheme \<Rightarrow> 'u unroller_scheme \<Rightarrow> bool" where
  "un_le u u' \<longleftrightarrow> un_time_id u' = un_time_id u \<and> un_time_cache u' = un_time_cache u
     \<and> un_num_vars u' = un_num_vars u \<and> (\<forall>w v k. registered u w v k \<longrightarrow> registered u' w v k)"

definition vm_ok :: "smt_builder \<Rightarrow> 'u unroller_scheme \<Rightarrow> bool" where
  "vm_ok B u \<longleftrightarrow>
     (\<forall>k < length (un_time_var_map u). \<forall>v w. map_of (un_time_var_map u ! k) v = Some w \<longrightarrow>
        w = timed B (un_time_id u) v k \<and> registered u w v k)
     \<and> (\<forall>w \<in> fst ` set (un_untime_cache u). is_symbolic_const w \<and> fst (sym_of w) \<in> set (un_declared u))"

lemma un_le_refl [simp]: "un_le u u"
  by (simp add: un_le_def)

lemma un_le_trans: "un_le u v \<Longrightarrow> un_le v w \<Longrightarrow> un_le u w"
  by (simp add: un_le_def)

lemma pad_maps_nth:
  "k < length (pad_maps j m) \<Longrightarrow>
    pad_maps j m ! k = (if k < length m then m ! k else [])"
  by (auto simp: pad_maps_def nth_append)

lemma pad_maps_length: "k < length (pad_maps k m)"
  by (auto simp: pad_maps_def)

lemma vm_ok_entry:
  assumes "vm_ok B u" and "k < length (pad_maps j (un_time_var_map u))"
    and "map_of (pad_maps j (un_time_var_map u) ! k) v = Some w"
  shows "w = timed B (un_time_id u) v k \<and> registered u w v k"
  using assms by (auto simp: vm_ok_def pad_maps_nth split: if_splits)

lemma var_at_time_ok:
  assumes ok: "vm_ok B u" and v: "is_symbolic_const v" and a: "var_at_time B v k u = Inr (w, u')"
  shows "w = timed B (un_time_id u) v k \<and> vm_ok B u' \<and> un_le u u' \<and> registered u' w v k"
proof -
  let ?m = "pad_maps k (un_time_var_map u)"
  note entry = vm_ok_entry [OF ok, of _ k]
  show ?thesis
  proof (cases "map_of (?m ! k) v")
    case (Some w')
    with a have u': "w' = w" "u' = u\<lparr>un_time_var_map := ?m\<rparr>"
      by (auto simp: var_at_time_def Let_def)
    have "vm_ok B u'" unfolding vm_ok_def
      using entry ok by (auto simp: u' registered_def vm_ok_def)
    with entry [OF pad_maps_length Some] show ?thesis
      by (auto simp: u' un_le_def registered_def)
  next
    case None
    let ?n = "term_str B v @ un_time_id u @ nat_str k"
    from a None have n: "?n \<notin> set (un_declared u)" and w: "w = Sym ?n (get_sort v)"
      and u': "u' = u\<lparr>un_time_var_map := ?m[k := AList.update v w (?m ! k)],
               un_untime_cache := AList.update w v (un_untime_cache u),
               un_var_times := AList.update w k (un_var_times u),
               un_declared := ?n # un_declared u\<rparr>"
      by (auto simp: var_at_time_def Let_def bindE_Inr_iff elim!: make_symbol_InrE)
    have fresh: "w \<notin> fst ` set (un_untime_cache u)"
    proof
      assume "w \<in> fst ` set (un_untime_cache u)"
      with ok have "fst (sym_of w) \<in> set (un_declared u)" unfolding vm_ok_def by blast
      with n show False by (simp add: w)
    qed
    have keep: "registered u' x y j" if "registered u x y j" for x y j
    proof -
      have "x \<in> fst ` set (un_untime_cache u)"
        using that map_of_Some_in [of "un_untime_cache u" x y] by (simp add: registered_def)
      then have "x \<noteq> w" using fresh by blast
      with that show ?thesis by (simp add: registered_def u')
    qed
    have new: "registered u' w v k" by (simp add: registered_def u')
    have "vm_ok B u'" unfolding vm_ok_def
    proof (intro conjI allI impI ballI)
      fix j v' w' assume j: "j < length (un_time_var_map u')"
        "map_of (un_time_var_map u' ! j) v' = Some w'"
      have jl: "j < length ?m" using j(1) by (simp add: u')
      have "j = k \<and> v' = v \<and> w' = w \<or> map_of (?m ! j) v' = Some w'"
        using j jl by (cases "j = k") (simp_all add: u' split: if_splits)
      then have "w' = timed B (un_time_id u) v' j \<and> registered u' w' v' j"
      proof
        assume "map_of (?m ! j) v' = Some w'"
        with entry [OF jl] keep show ?thesis by blast
      qed (use new in \<open>simp add: timed_def w\<close>)
      moreover have "un_time_id u' = un_time_id u" by (simp add: u')
      ultimately show "w' = timed B (un_time_id u') v' j" "registered u' w' v' j" by metis+
    next
      fix x assume "x \<in> fst ` set (un_untime_cache u')"
      then have "x = w \<or> x \<in> fst ` set (un_untime_cache u)" by (auto simp: u')
      moreover have "is_symbolic_const w" using v by (auto simp: w elim: is_symbolic_constE)
      ultimately show "is_symbolic_const x" "fst (sym_of x) \<in> set (un_declared u')"
        using ok by (auto simp: u' w vm_ok_def)
    qed
    with new keep show ?thesis by (auto simp: un_le_def u' w timed_def)
  qed
qed

text \<open>A loop that fills one level: the cache it computes, and what it keeps.\<close>

lemma foldE_level:
  assumes step: "\<And>x m u m' u'. x \<in> set xs \<Longrightarrow> vm_ok B u \<Longrightarrow> f x (m, u) = Inr (m', u') \<Longrightarrow>
      m' = g (un_time_id u) x m \<and> vm_ok B u' \<and> un_le u u' \<and> R x u'"
    and mono: "\<And>x u u'. un_le u u' \<Longrightarrow> R x u \<Longrightarrow> R x u'"
  shows "vm_ok B u \<Longrightarrow> foldE f xs (m, u) = Inr (m', u') \<Longrightarrow>
    m' = fold (g (un_time_id u)) xs m \<and> vm_ok B u' \<and> un_le u u' \<and> (\<forall>x \<in> set xs. R x u')"
  using step
proof (induction xs arbitrary: m u)
  case (Cons x xs)
  from Cons.prems(2) obtain m1 u1 where s: "f x (m, u) = Inr (m1, u1)" "foldE f xs (m1, u1) = Inr (m', u')"
    by (auto simp: bindE_Inr_iff)
  from Cons.prems(3) [OF _ Cons.prems(1) s(1)]
  have 1: "m1 = g (un_time_id u) x m" "vm_ok B u1" "un_le u u1" "R x u1" by auto
  have 2: "m' = fold (g (un_time_id u1)) xs m1 \<and> vm_ok B u' \<and> un_le u1 u' \<and> (\<forall>x \<in> set xs. R x u')"
  proof (rule Cons.IH [OF 1(2) s(2)])
    fix y m u m' u'
    assume "y \<in> set xs" "vm_ok B u" "f y (m, u) = Inr (m', u')"
    with Cons.prems(3) [of y] show "m' = g (un_time_id u) y m \<and> vm_ok B u' \<and> un_le u u' \<and> R y u'"
      by simp
  qed
  from 1 2 mono [of u1 u' x] un_le_trans show ?case by (auto simp: un_le_def)
qed simp

definition reg_state :: "smt_builder \<Rightarrow> nat \<Rightarrow> tm \<Rightarrow> 'u unroller_scheme \<Rightarrow> bool" where
  "reg_state B t v u \<longleftrightarrow> registered u (timed B (un_time_id u) v t) v t
     \<and> registered u (timed B (un_time_id u) v (Suc t)) v (Suc t)"

definition reg_input :: "smt_builder \<Rightarrow> nat \<Rightarrow> tm \<Rightarrow> 'u unroller_scheme \<Rightarrow> bool" where
  "reg_input B t v u \<longleftrightarrow> registered u (timed B (un_time_id u) v t) v t"

lemma reg_mono:
  "un_le u u' \<Longrightarrow> reg_state B t v u \<Longrightarrow> reg_state B t v u'"
  "un_le u u' \<Longrightarrow> reg_input B t v u \<Longrightarrow> reg_input B t v u'"
  by (simp_all add: un_le_def reg_state_def reg_input_def)

lemma bind_state_ok:
  assumes "vm_ok B u" and v: "is_symbolic_const v" and "bind_state B ts t v (m, u) = Inr (m', u')"
  shows "m' = AList.update (next_tm B ts v) (timed B (un_time_id u) v (Suc t))
      (AList.update v (timed B (un_time_id u) v t) m) \<and> vm_ok B u' \<and> un_le u u' \<and> reg_state B t v u'"
proof -
  from assms(3) obtain w u1 wn where 1: "var_at_time B v t u = Inr (w, u1)"
    "var_at_time B v (Suc t) u1 = Inr (wn, u')" "m' = AList.update (next_tm B ts v) wn (AList.update v w m)"
    by (auto simp: bind_state_def bindE_Inr_iff)
  from var_at_time_ok [OF assms(1) v 1(1)]
  have 2: "w = timed B (un_time_id u) v t" "vm_ok B u1" "un_le u u1" "registered u1 w v t" by auto
  from var_at_time_ok [OF 2(2) v 1(2)]
  have 3: "wn = timed B (un_time_id u1) v (Suc t)" "vm_ok B u'" "un_le u1 u'" "registered u' wn v (Suc t)"
    by auto
  from 1(3) 2 3 un_le_trans [OF 2(3) 3(3)] show ?thesis by (auto simp: reg_state_def un_le_def)
qed

lemma bind_input_ok:
  assumes "vm_ok B u" and v: "is_symbolic_const v" and "bind_input B t v (m, u) = Inr (m', u')"
  shows "m' = AList.update v (timed B (un_time_id u) v t) m \<and> vm_ok B u' \<and> un_le u u' \<and> reg_input B t v u'"
proof -
  from assms(3) obtain w where 1: "var_at_time B v t u = Inr (w, u')" "m' = AList.update v w m"
    by (auto simp: bind_input_def bindE_Inr_iff)
  from var_at_time_ok [OF assms(1) v 1(1)] 1(2) show ?thesis by (auto simp: reg_input_def un_le_def)
qed

definition level_done :: "smt_builder \<Rightarrow> ts \<Rightarrow> nat \<Rightarrow> 'u unroller_scheme \<Rightarrow> bool" where
  "level_done B ts t u \<longleftrightarrow> (\<forall>v \<in> set (ts_statevars ts). reg_state B t v u)
     \<and> (\<forall>v \<in> set (ts_inputvars ts). reg_input B t v u)"

lemma level_done_mono: "un_le u u' \<Longrightarrow> level_done B ts t u \<Longrightarrow> level_done B ts t u'"
  by (auto simp: level_done_def intro: reg_mono)

lemma fill_level_ok:
  assumes wf: "ts_wf ts" and "vm_ok B u" and "fill_level B ts t ([], u) = Inr (m', u')"
  shows "m' = level_map B (un_time_id u) ts t \<and> vm_ok B u' \<and> un_le u u' \<and> level_done B ts t u'"
proof -
  let ?g = "\<lambda>tid v m. AList.update (next_tm B ts v) (timed B tid v (Suc t)) (AList.update v (timed B tid v t) m)"
  let ?h = "\<lambda>tid v m. AList.update v (timed B tid v t) m"
  have vs: "is_symbolic_const v" if "v \<in> set (ts_statevars ts)" for v
    using wf_symbolic [OF wf] that by (simp add: ts_vars_def)
  have inp: "is_symbolic_const v" if "v \<in> set (ts_inputvars ts)" for v
    using wf_symbolic [OF wf] that by (simp add: ts_vars_def)
  from assms(3) obtain m1 u1 where
    1: "foldE (bind_state B ts t) (ts_statevars ts) ([], u) = Inr (m1, u1)"
      "foldE (bind_input B t) (ts_inputvars ts) (m1, u1) = Inr (m', u')"
    by (auto simp: fill_level_def bindE_Inr_iff)
  have 2: "m1 = fold (?g (un_time_id u)) (ts_statevars ts) [] \<and> vm_ok B u1 \<and> un_le u u1
      \<and> (\<forall>v \<in> set (ts_statevars ts). reg_state B t v u1)"
    by (rule foldE_level [OF _ _ assms(2) 1(1), where g = ?g]) (use bind_state_ok vs reg_mono(1) in blast)+
  have 3: "m' = fold (?h (un_time_id u1)) (ts_inputvars ts) m1 \<and> vm_ok B u' \<and> un_le u1 u'
      \<and> (\<forall>v \<in> set (ts_inputvars ts). reg_input B t v u')"
    by (rule foldE_level [OF _ _ _ 1(2), where g = ?h]) (use bind_input_ok inp reg_mono(2) 2 in blast)+
  from 2 3 un_le_trans have "un_le u u'" by blast
  moreover have "\<forall>v \<in> set (ts_statevars ts). reg_state B t v u'" using 2 3 reg_mono(1) by blast
  ultimately show ?thesis using 2 3 by (auto simp: level_map_def level_done_def un_le_def)
qed

text \<open>The invariant of the unroller between calls, for a system that does not change.\<close>

definition un_ok :: "smt_builder \<Rightarrow> ts \<Rightarrow> 'u unroller_scheme \<Rightarrow> bool" where
  "un_ok B ts u \<longleftrightarrow> vm_ok B u
     \<and> un_time_cache u = map (level_map B (un_time_id u) ts) [0..<length (un_time_cache u)]
     \<and> (\<forall>t < length (un_time_cache u). level_done B ts t u)
     \<and> un_num_vars u = length (ts_statevars ts) + length (ts_inputvars ts)"

lemma un_ok_init: "un_ok B ts (init_unroller ts tid)"
  by (simp add: un_ok_def init_unroller_def vm_ok_def)

lemma extend_step_ok:
  assumes wf: "ts_wf ts" and ok: "un_ok B ts u" and t: "t = length (un_time_cache u)"
    and f: "fill_level B ts t ([], u) = Inr (m, u1)"
  shows "un_ok B ts (u1\<lparr>un_time_cache := un_time_cache u1 @ [m]\<rparr>)
    \<and> un_time_id u1 = un_time_id u \<and> length (un_time_cache u1) = t"
proof -
  from ok have "vm_ok B u" by (simp add: un_ok_def)
  from fill_level_ok [OF wf this f]
  have 1: "m = level_map B (un_time_id u) ts t" "vm_ok B u1" "un_le u u1" "level_done B ts t u1" by auto
  let ?u = "u1\<lparr>un_time_cache := un_time_cache u1 @ [m]\<rparr>"
  have same: "un_time_cache u1 = un_time_cache u" "un_time_id u1 = un_time_id u"
    "un_num_vars u1 = un_num_vars u"
    using 1(3) by (simp_all add: un_le_def)
  have "vm_ok B ?u" using 1(2) by (auto simp: vm_ok_def registered_def)
  moreover have "level_done B ts j ?u = level_done B ts j u1" for j
    by (simp add: level_done_def reg_state_def reg_input_def registered_def)
  moreover have "level_done B ts j u1" if "j < Suc t" for j
  proof (cases "j = t")
    case False
    with that t ok have "level_done B ts j u" by (simp add: un_ok_def)
    with level_done_mono [OF 1(3)] show ?thesis .
  qed (use 1(4) in simp)
  ultimately have "un_ok B ts ?u"
    using ok by (simp add: un_ok_def same 1(1) t)
  with same t show ?thesis by simp
qed

abbreviation extend_step :: "smt_builder \<Rightarrow> ts \<Rightarrow> nat \<Rightarrow> 'u unroller_scheme \<Rightarrow> 'u unroller_scheme result" where
  "extend_step B ts t u \<equiv> bindE (fill_level B ts t ([], u)) (\<lambda>(m, u1).
     Inr (u1\<lparr>un_time_cache := un_time_cache u1 @ [m]\<rparr>))"

lemma extend_steps_ok:
  "ts_wf ts \<Longrightarrow> un_ok B ts u \<Longrightarrow> foldE (extend_step B ts) [length (un_time_cache u)..<n + length (un_time_cache u)] u = Inr u' \<Longrightarrow>
    un_ok B ts u' \<and> un_time_id u' = un_time_id u \<and> length (un_time_cache u') = n + length (un_time_cache u)"
proof (induction n arbitrary: u)
  case (Suc n)
  have "[length (un_time_cache u)..<Suc n + length (un_time_cache u)]
      = length (un_time_cache u) # [Suc (length (un_time_cache u))..<n + Suc (length (un_time_cache u))]"
    by (simp add: upt_rec)
  with Suc.prems(3) obtain m u1 where
    1: "fill_level B ts (length (un_time_cache u)) ([], u) = Inr (m, u1)"
    "foldE (extend_step B ts) [Suc (length (un_time_cache u))..<n + Suc (length (un_time_cache u))]
       (u1\<lparr>un_time_cache := un_time_cache u1 @ [m]\<rparr>) = Inr u'"
    by (auto simp: bindE_Inr_iff)
  from extend_step_ok [OF Suc.prems(1,2) refl 1(1)] Suc.prems(1) Suc.IH [of "u1\<lparr>un_time_cache := un_time_cache u1 @ [m]\<rparr>"] 1(2)
  show ?case by simp
qed simp

lemma extend_caches_ok:
  assumes "ts_wf ts" and "un_ok B ts u" and "extend_caches B ts k u = Inr u'"
  shows "un_ok B ts u' \<and> un_time_id u' = un_time_id u \<and> k < length (un_time_cache u')"
proof (cases "length (un_time_cache u) \<le> Suc k")
  case True
  with extend_steps_ok [OF assms(1,2), of "Suc k - length (un_time_cache u)" u'] assms(3)
  show ?thesis by (simp add: extend_caches_def)
next
  case False
  then have "[length (un_time_cache u)..<Suc k] = []" by simp
  with assms False show ?thesis by (simp add: extend_caches_def)
qed

lemma var_cache_at_time_ok:
  assumes "ts_wf ts" and "un_ok B ts u" and "var_cache_at_time B ts k u = Inr (m, u')"
  shows "m = level_map B (un_time_id u) ts k \<and> un_ok B ts u' \<and> un_time_id u' = un_time_id u
    \<and> level_done B ts k u'"
proof -
  from assms(3) obtain u1 where 1: "extend_caches B ts k u = Inr u1" "refresh_caches B ts u1 = Inr u'"
    "m = un_time_cache u' ! k"
    by (auto simp: var_cache_at_time_def bindE_Inr_iff)
  from extend_caches_ok [OF assms(1,2) 1(1)]
  have 2: "un_ok B ts u1" "un_time_id u1 = un_time_id u" "k < length (un_time_cache u1)" by auto
  then have "u' = u1" using 1(2) by (simp add: refresh_caches_def un_ok_def)
  moreover have "un_time_cache u1 ! k = level_map B (un_time_id u1) ts k"
    using 2(1,3) unfolding un_ok_def by (metis add_0 length_upt minus_nat.diff_0 nth_map nth_upt)
  ultimately show ?thesis using 1(3) 2 by (auto simp: un_ok_def)
qed

lemma at_time_ok:
  assumes "ts_wf ts" and "un_ok B ts u" and "at_time B ts t k u = Inr (w, u')"
  shows "w = unroll B (un_time_id u) ts t k \<and> un_ok B ts u' \<and> un_time_id u' = un_time_id u
    \<and> level_done B ts k u'"
  using assms(3) var_cache_at_time_ok [OF assms(1,2)]
  by (auto simp: at_time_def bindE_Inr_iff unroll_def)

subsection \<open>What an unrolled term means\<close>

lemma map_of_fold_pairs:
  "(\<And>v. v \<in> set xs \<Longrightarrow> c (nx v) = v) \<Longrightarrow> nx ` set xs \<inter> set xs = {} \<Longrightarrow>
    map_of (fold (\<lambda>v m. AList.update (nx v) (b v) (AList.update v (a v) m)) xs m) x
      = (if x \<in> set xs then Some (a x) else if x \<in> nx ` set xs then Some (b (c x)) else map_of m x)"
proof (induction xs arbitrary: m)
  case (Cons v xs)
  have "c (nx v) = v" using Cons.prems(1) by simp
  moreover have "nx v \<notin> set xs" "nx v \<noteq> v" "v \<notin> nx ` set xs" using Cons.prems(2) by auto
  ultimately show ?case using Cons by (auto simp: image_iff)
qed simp

lemma map_of_fold_update:
  "map_of (fold (\<lambda>v. AList.update v (a v)) xs m) x = (if x \<in> set xs then Some (a x) else map_of m x)"
  by (induction xs arbitrary: m) auto

lemma level_map_lookup:
  assumes wf: "ts_wf ts"
  shows "map_of (level_map B tid ts k) x =
    (if x \<in> set (ts_statevars ts) \<union> set (ts_inputvars ts) then Some (timed B tid x k)
     else case map_of (ts_curr_map ts) x of Some v \<Rightarrow> Some (timed B tid v (Suc k)) | None \<Rightarrow> None)"
proof -
  let ?c = "\<lambda>x. the (map_of (ts_curr_map ts) x)"
  have nx: "map_of (ts_next_map ts) v = Some (next_tm B ts v)" if "v \<in> set (ts_statevars ts)" for v
    using next_map_total [OF wf that] by (auto simp: next_tm_def)
  have c: "?c (next_tm B ts v) = v" if "v \<in> set (ts_statevars ts)" for v
    using nx [OF that] wf_maps_inverse [OF wf] by simp
  have img: "next_tm B ts ` set (ts_statevars ts) = set (ts_next_statevars ts)"
  proof (intro equalityI subsetI)
    fix y assume "y \<in> set (ts_next_statevars ts)"
    then obtain v where v: "map_of (ts_next_map ts) v = Some y"
      using curr_map_total [OF wf] wf_maps_inverse [OF wf] by blast
    then show "y \<in> next_tm B ts ` set (ts_statevars ts)"
      using next_symbol [OF wf v] by (intro image_eqI [of _ _ v]) (auto simp: next_tm_def)
  qed (use nx next_symbol [OF wf] in auto)
  have dj: "next_tm B ts ` set (ts_statevars ts) \<inter> set (ts_statevars ts) = {}"
    using img wf_disjoint(1) [OF wf] by auto
  have keys: "x \<in> set (ts_next_statevars ts) \<longleftrightarrow> map_of (ts_curr_map ts) x \<noteq> None"
    using wf_curr_keys [OF wf] by (simp add: map_of_None_iff)
  have inner: "map_of (fold (\<lambda>v m. AList.update (next_tm B ts v) (timed B tid v (Suc k))
        (AList.update v (timed B tid v k) m)) (ts_statevars ts) []) x
      = (if x \<in> set (ts_statevars ts) then Some (timed B tid x k)
         else if x \<in> set (ts_next_statevars ts) then Some (timed B tid (?c x) (Suc k)) else None)"
    using map_of_fold_pairs [of "ts_statevars ts" ?c "next_tm B ts" "\<lambda>v. timed B tid v (Suc k)"
        "\<lambda>v. timed B tid v k" "[]" x] c dj img by simp
  show ?thesis
    unfolding level_map_def map_of_fold_update inner
    using keys by (auto split: option.splits)
qed

definition proj :: "smt_builder \<Rightarrow> string \<Rightarrow> ts \<Rightarrow> assignment \<Rightarrow> nat \<Rightarrow> assignment" where
  "proj B tid ts \<sigma> k x =
     (if tm_of x \<in> set (ts_statevars ts) \<union> set (ts_inputvars ts)
      then \<sigma> (sym_of (timed B tid (tm_of x) k)) else \<sigma> x)"

lemma sym_map_level: "ts_wf ts \<Longrightarrow> sym_map (level_map B tid ts k)"
  unfolding sym_map_iff
proof
  fix x assume wf: "ts_wf ts" and "x \<in> fst ` set (level_map B tid ts k)"
  then have "map_of (level_map B tid ts k) x \<noteq> None" by (simp add: map_of_None_iff)
  then have "x \<in> set (ts_statevars ts) \<union> set (ts_inputvars ts) \<or> map_of (ts_curr_map ts) x \<noteq> None"
    by (auto simp: level_map_lookup [OF wf] split: if_splits option.splits)
  then have "x \<in> ts_vars ts"
    using wf_curr_keys [OF wf] by (auto simp: ts_vars_def map_of_None_iff simp del: not_None_eq)
  then show "is_symbol x" using wf_symbolic [OF wf] by simp
qed

lemma eval_use_cache:
  assumes "smt_terms B F" and "sym_map m"
  shows "eval F \<sigma> (use_cache B m t) = eval F (subst_env F \<sigma> m) t"
proof (cases "map_of m t")
  case None
  then show ?thesis using smt_terms.eval_substitute [OF assms] by (simp add: use_cache_def)
next
  case (Some w)
  then have "is_symbol t" using assms(2) by (auto simp: sym_map_iff dest: map_of_Some_in)
  then obtain n s where "t = Sym n s" by (cases t) auto
  with Some show ?thesis by (simp add: use_cache_def subst_env_def)
qed

lemma eval_unroll:
  assumes B: "smt_terms B F" and wf: "ts_wf ts"
  shows "eval F \<sigma> (unroll B tid ts t k)
    = eval F (pair_env ts (proj B tid ts \<sigma> k) (proj B tid ts \<sigma> (Suc k))) t"
proof -
  have "subst_env F \<sigma> (level_map B tid ts k) x
      = pair_env ts (proj B tid ts \<sigma> k) (proj B tid ts \<sigma> (Suc k)) x" for x
  proof (cases "map_of (ts_curr_map ts) (tm_of x)")
    case None
    then show ?thesis
      by (auto simp: subst_env_def level_map_lookup [OF wf] pair_env_def proj_def timed_def)
  next
    case (Some v)
    then have m: "map_of (ts_next_map ts) v = Some (tm_of x)" using wf_maps_inverse [OF wf] by blast
    from next_symbol [OF wf m]
    have x: "tm_of x \<in> set (ts_next_statevars ts)" and v: "v \<in> set (ts_statevars ts)" by auto
    have nx: "tm_of x \<notin> set (ts_statevars ts) \<union> set (ts_inputvars ts)"
      using x wf_disjoint [OF wf] by auto
    have "v \<in> ts_vars ts" using v by (simp add: ts_vars_def)
    then have tv: "tm_of (sym_of v) = v" using wf_symbolic [OF wf] by simp
    with nx v Some show ?thesis
      by (simp add: subst_env_def level_map_lookup [OF wf] pair_env_def proj_def timed_def)
  qed
  then have "subst_env F \<sigma> (level_map B tid ts k)
      = pair_env ts (proj B tid ts \<sigma> k) (proj B tid ts \<sigma> (Suc k))" by (rule ext)
  then show ?thesis unfolding unroll_def eval_use_cache [OF B sym_map_level [OF wf]] by simp
qed

lemma proj_wsorted: "wsorted \<sigma> \<Longrightarrow> wsorted (proj B tid ts \<sigma> k)"
  by (simp add: wsorted_def proj_def timed_def)

lemma proj_agree: "ts_wf ts \<Longrightarrow> agree_funs (proj B tid ts \<sigma> i) (proj B tid ts \<sigma> j)"
  using wf_not_fun by (fastforce simp: agree_funs_def proj_def ts_vars_def)

text \<open>Copies of different variables or times are different symbols.\<close>

fun is_digit :: "char \<Rightarrow> bool" where
  "is_digit c \<longleftrightarrow> 48 \<le> (of_char c :: nat) \<and> (of_char c :: nat) < 58"

lemma digit_char: "d < 10 \<Longrightarrow> is_digit (char_of (48 + d :: nat))"
  by simp

lemma char_of_inj: "a < 256 \<Longrightarrow> b < 256 \<Longrightarrow> char_of (a :: nat) = char_of b \<Longrightarrow> a = b"
  by (metis mod_less of_char_of)

lemma nat_str_digits: "\<forall>c \<in> set (nat_str n). is_digit c"
proof (induction n rule: nat_str.induct)
  case (1 n)
  show ?case
  proof (cases "n < 10")
    case True
    then show ?thesis using digit_char [of n] by (subst nat_str.simps) (simp del: is_digit.simps)
  next
    case False
    then show ?thesis using 1 digit_char [of "n mod 10"]
      by (subst nat_str.simps) (auto simp del: is_digit.simps)
  qed
qed

lemma nat_str_nonempty: "nat_str n \<noteq> []"
  by (subst nat_str.simps) simp

lemma nat_str_last: "last (nat_str n) = char_of (48 + n mod 10)"
  by (subst nat_str.simps) simp

lemma nat_str_butlast: "butlast (nat_str n) = (if n < 10 then [] else nat_str (n div 10))"
  by (subst nat_str.simps) simp

lemma nat_str_inj: "nat_str m = nat_str n \<Longrightarrow> m = n"
proof (induction m arbitrary: n rule: nat_str.induct)
  case (1 m)
  from 1(2) have "char_of (48 + m mod 10) = (char_of (48 + n mod 10) :: char)"
    by (metis nat_str_last)
  then have md: "m mod 10 = n mod 10"
    using char_of_inj [of "48 + m mod 10" "48 + n mod 10"] by simp
  have bl: "(if m < 10 then [] else nat_str (m div 10)) = (if n < 10 then [] else nat_str (n div 10))"
    using 1(2) nat_str_butlast by metis
  show ?case
  proof (cases "m < 10")
    case True
    with bl nat_str_nonempty [of "n div 10"] have "n < 10" by (auto split: if_splits)
    with True md show ?thesis by simp
  next
    case False
    with bl nat_str_nonempty [of "m div 10"] have "\<not> n < 10" by (auto split: if_splits)
    with False bl 1(1) [OF False, of "n div 10"] have "m div 10 = n div 10" by simp
    with md show ?thesis by (metis div_mult_mod_eq)
  qed
qed

text \<open>The time identifier must end in a character that is not a digit, as \<open>@\<close> does.\<close>

definition tid_ok :: "string \<Rightarrow> bool" where
  "tid_ok tid \<longleftrightarrow> tid \<noteq> [] \<and> \<not> is_digit (last tid)"

lemma split_digits:
  "\<forall>c \<in> set d1. P c \<Longrightarrow> \<forall>c \<in> set d2. P c \<Longrightarrow> \<not> P a \<Longrightarrow> \<not> P b \<Longrightarrow>
    xs @ a # d1 = ys @ b # d2 \<Longrightarrow> xs @ [a] = ys @ [b] \<and> d1 = d2"
proof -
  assume d: "\<forall>c \<in> set d1. P c" "\<forall>c \<in> set d2. P c" "\<not> P a" "\<not> P b" and eq: "xs @ a # d1 = ys @ b # d2"
  have tw: "takeWhile P (rev (zs @ c # d)) = rev d" if "\<forall>x \<in> set d. P x" "\<not> P c" for zs c d
  proof -
    have "takeWhile P (rev d @ c # rev zs) = rev d"
      using takeWhile_append2 [of "rev d" P "c # rev zs"] that by simp
    then show ?thesis by simp
  qed
  have "rev d1 = rev d2" using tw [OF d(1,3)] tw [OF d(2,4)] eq by metis
  with eq show ?thesis by simp
qed

lemma timed_inj:
  assumes B: "smt_terms B F" and t: "tid_ok tid"
    and eq: "timed B tid (Sym n s) i = timed B tid (Sym m r) j"
  shows "n = m \<and> s = r \<and> i = j"
proof -
  note str = smt_terms.term_str_sym [OF B]
  from t obtain p a where tid: "tid = p @ [a]" "\<not> is_digit a"
    by (metis tid_ok_def append_butlast_last_id)
  from eq have s: "s = r" and "(n @ p) @ a # nat_str i = (m @ p) @ a # nat_str j"
    by (simp_all add: timed_def str tid(1))
  from split_digits [OF nat_str_digits nat_str_digits tid(2) tid(2) this(2)] nat_str_inj s
  show ?thesis by auto
qed

subsection \<open>What the engines ask of an unrolling\<close>

text \<open>
  The engines use an unrolling through two laws: every assignment of an unrolled formula is a
  sequence of states, and every sequence of states is an assignment.
\<close>

definition all_states :: "(nat \<Rightarrow> assignment) \<Rightarrow> bool" where
  "all_states \<pi> \<longleftrightarrow> (\<forall>i. wsorted (\<pi> i)) \<and> (\<forall>i j. agree_funs (\<pi> i) (\<pi> j))"

definition unrolls_to :: "theory_ops \<Rightarrow> ts \<Rightarrow> (tm \<Rightarrow> nat \<Rightarrow> tm) \<Rightarrow> assignment \<Rightarrow> (nat \<Rightarrow> assignment) \<Rightarrow> bool"
  where
  "unrolls_to F ts at \<sigma> \<pi> \<longleftrightarrow> (\<forall>t k. covered t (ts_vars ts) \<longrightarrow>
     eval F \<sigma> (at t k) = eval F (pair_env ts (\<pi> k) (\<pi> (Suc k))) t)"

locale unrolling =
  fixes F :: theory_ops and ts :: ts and at :: "tm \<Rightarrow> nat \<Rightarrow> tm"
  assumes system_wf: "ts_wf ts"
    and at_states: "wsorted \<sigma> \<Longrightarrow> \<exists>\<pi>. all_states \<pi> \<and> unrolls_to F ts at \<sigma> \<pi>"
    and at_model: "all_states \<pi> \<Longrightarrow> \<exists>\<sigma>. wsorted \<sigma> \<and> unrolls_to F ts at \<sigma> \<pi>"
    and at_sort: "get_sort (at t k) = get_sort t"
begin

abbreviation current :: "tm \<Rightarrow> bool" where
  "current t \<equiv> covered t (set (ts_statevars ts) \<union> set (ts_inputvars ts))"

lemma unrolls_current:
  "unrolls_to F ts at \<sigma> \<pi> \<Longrightarrow> current t \<Longrightarrow> eval F \<sigma> (at t k) = eval F (\<pi> k) t"
  using eval_pair_current [OF system_wf] covered_vars(2) unfolding unrolls_to_def by fastforce

lemma unrolls_trans:
  assumes "all_states \<pi>" and "unrolls_to F ts at \<sigma> \<pi>"
  shows "holds F \<sigma> (at (ts_trans ts) k) \<longleftrightarrow> ts_step F ts (\<pi> k) (\<pi> (Suc k))"
  using assms forms_ok_parts(2) [OF wf_parts(3) [OF system_wf]]
  by (auto simp: unrolls_to_def all_states_def ts_step_def)

lemma unrolls_init:
  assumes "all_states \<pi>" and "unrolls_to F ts at \<sigma> \<pi>"
  shows "holds F \<sigma> (at (ts_init ts) 0) \<longleftrightarrow> ts_initial F ts (\<pi> 0)"
proof -
  have "current (ts_init ts)"
    using covered_mono [OF forms_ok_parts(1) [OF wf_parts(3) [OF system_wf]]] by blast
  from unrolls_current [OF assms(2) this] assms(1) show ?thesis
    by (simp add: ts_initial_def all_states_def)
qed

text \<open>A model of unrolled transition relations is a segment of a path, and the other way round.\<close>

lemma model_segment:
  assumes "wsorted \<sigma>" and "\<And>i. i < k \<Longrightarrow> holds F \<sigma> (at (ts_trans ts) i)"
  obtains \<pi> where "all_states \<pi>" and "unrolls_to F ts at \<sigma> \<pi>" and "segment F ts \<pi> k"
proof -
  obtain \<pi> where p: "all_states \<pi>" "unrolls_to F ts at \<sigma> \<pi>" using at_states [OF assms(1)] by blast
  have "segment F ts \<pi> k" using p assms(2) unrolls_trans [OF p] by (simp add: segment_def all_states_def)
  with p that show thesis by blast
qed

lemma segment_agree: "segment F ts \<pi> k \<Longrightarrow> i \<le> k \<Longrightarrow> agree_funs (\<pi> 0) (\<pi> i)"
proof (induction i)
  case (Suc i)
  then have "ts_step F ts (\<pi> i) (\<pi> (Suc i))" by (simp add: segment_def)
  with ts_stepD(3) [OF this] Suc show ?case by (auto simp: agree_funs_def)
qed simp

lemma segment_states:
  assumes "segment F ts \<pi> k"
  shows "all_states (\<lambda>i. \<pi> (min i k))" and "segment F ts (\<lambda>i. \<pi> (min i k)) k"
proof -
  have "agree_funs (\<pi> (min i k)) (\<pi> (min j k))" for i j
    using segment_agree [OF assms, of "min i k"] segment_agree [OF assms, of "min j k"]
    by (auto simp: agree_funs_def)
  then show "all_states (\<lambda>i. \<pi> (min i k))"
    using assms by (simp add: all_states_def segment_def)
  show "segment F ts (\<lambda>i. \<pi> (min i k)) k" using assms by (simp add: segment_def min_absorb1)
qed

lemma segment_model:
  assumes "segment F ts \<pi> k"
  obtains \<sigma> \<rho> where "wsorted \<sigma>" and "unrolls_to F ts at \<sigma> \<rho>" and "all_states \<rho>"
    and "\<And>i. i \<le> k \<Longrightarrow> \<rho> i = \<pi> i" and "\<And>i. i < k \<Longrightarrow> holds F \<sigma> (at (ts_trans ts) i)"
proof -
  let ?\<rho> = "\<lambda>i. \<pi> (min i k)"
  note s = segment_states [OF assms]
  obtain \<sigma> where m: "wsorted \<sigma>" "unrolls_to F ts at \<sigma> ?\<rho>" using at_model [OF s(1)] by blast
  have "holds F \<sigma> (at (ts_trans ts) i)" if "i < k" for i
    using unrolls_trans [OF s(1) m(2)] s(2) that by (simp add: segment_def)
  with that [OF m s(1)] show thesis by simp
qed

text \<open>A formula over a path of length \<open>k\<close>: initial state, \<open>k\<close> steps, a bad last state.\<close>

lemma cex_satisfiable:
  assumes "current bad"
  shows "cex F ts bad k \<longleftrightarrow> satisfiable F
    (at (ts_init ts) 0 # map (at (ts_trans ts)) [0..<k] @ [at bad k])"
proof
  assume "cex F ts bad k"
  then obtain \<pi> where p: "ts_initial F ts (\<pi> 0)" "segment F ts \<pi> k" "holds F (\<pi> k) bad"
    by (auto simp: cex_def ts_path_def)
  from p(2) obtain \<sigma> \<rho> where m: "wsorted \<sigma>" "unrolls_to F ts at \<sigma> \<rho>" "all_states \<rho>"
    "\<And>i. i \<le> k \<Longrightarrow> \<rho> i = \<pi> i" "\<And>i. i < k \<Longrightarrow> holds F \<sigma> (at (ts_trans ts) i)"
    using segment_model [OF p(2)] by blast
  from p m unrolls_init [OF m(3,2)] unrolls_current [OF m(2) assms, of k]
  show "satisfiable F (at (ts_init ts) 0 # map (at (ts_trans ts)) [0..<k] @ [at bad k])"
    unfolding satisfiable_def by (intro exI [of _ \<sigma>]) auto
next
  assume "satisfiable F (at (ts_init ts) 0 # map (at (ts_trans ts)) [0..<k] @ [at bad k])"
  then obtain \<sigma> where s: "wsorted \<sigma>" "holds F \<sigma> (at (ts_init ts) 0)"
    "\<And>i. i < k \<Longrightarrow> holds F \<sigma> (at (ts_trans ts) i)" "holds F \<sigma> (at bad k)"
    by (auto simp: satisfiable_def)
  from s(1,3) obtain \<pi> where p: "all_states \<pi>" "unrolls_to F ts at \<sigma> \<pi>" "segment F ts \<pi> k"
    by (rule model_segment)
  from s p unrolls_init [OF p(1,2)] unrolls_current [OF p(2) assms, of k]
  show "cex F ts bad k" unfolding cex_def ts_path_def by (intro exI [of _ \<pi>]) auto
qed

end

lemma timed_symbol: "tm_of (sym_of (timed B tid v k)) = timed B tid v k"
  by (simp add: timed_def)

lemma proj_states: "ts_wf ts \<Longrightarrow> wsorted \<sigma> \<Longrightarrow> all_states (proj B tid ts \<sigma>)"
  by (simp add: all_states_def proj_wsorted proj_agree)

lemma states_model:
  assumes B: "smt_terms B F" and wf: "ts_wf ts" and tid: "tid_ok tid" and p: "all_states \<pi>"
  shows "\<exists>\<sigma>. wsorted \<sigma> \<and> unrolls_to F ts (unroll B tid ts) \<sigma> \<pi>"
proof -
  let ?V = "set (ts_statevars ts) \<union> set (ts_inputvars ts)"
  define copy where "copy y xk \<longleftrightarrow> tm_of (fst xk) \<in> ?V \<and> y = sym_of (timed B tid (tm_of (fst xk)) (snd xk))"
    for y :: sym and xk :: "sym \<times> nat"
  define \<sigma> where "\<sigma> y = (if \<exists>xk. copy y xk then (let xk = SOME xk. copy y xk in \<pi> (snd xk) (fst xk)) else \<pi> 0 y)" for y
  have same: "xk = (x, k)" if "copy (sym_of (timed B tid (tm_of x) k)) xk" for x k xk
  proof -
    have "timed B tid (tm_of x) k = timed B tid (tm_of (fst xk)) (snd xk)"
      using that timed_symbol unfolding copy_def by metis
    with timed_inj [OF B tid] show ?thesis by (metis prod.collapse)
  qed
  have at_copy: "\<sigma> (sym_of (timed B tid (tm_of x) k)) = \<pi> k x" if "tm_of x \<in> ?V" for x k
  proof -
    have c: "copy (sym_of (timed B tid (tm_of x) k)) (x, k)" using that by (simp add: copy_def)
    then have some: "(SOME xk. copy (sym_of (timed B tid (tm_of x) k)) xk) = (x, k)"
      using same by (metis someI)
    from c have "\<exists>xk. copy (sym_of (timed B tid (tm_of x) k)) xk" by blast
    then show ?thesis unfolding \<sigma>_def Let_def some by (simp only: if_P fst_conv snd_conv)
  qed
  have srt: "snd (fst xk) = snd y" if "copy y xk" for y xk
    using that by (auto simp: copy_def timed_def)
  have fun_sym: "\<sigma> x = \<pi> 0 x" if "is_fun_sort (snd x)" for x
  proof -
    have "\<not> copy x xk" for xk
    proof
      assume c: "copy x xk"
      with srt that have "is_fun_sort (snd (fst xk))" by metis
      moreover have "tm_of (fst xk) \<in> ts_vars ts" using c by (auto simp: copy_def ts_vars_def)
      ultimately show False using wf_not_fun [OF wf] by blast
    qed
    then show ?thesis by (simp add: \<sigma>_def)
  qed
  have "wsorted \<sigma>" unfolding wsorted_def
  proof (intro allI)
    fix n s
    show "\<sigma> (n, s) \<in> carrier s"
    proof (cases "\<exists>xk. copy (n, s) xk")
      case True
      then have "copy (n, s) (SOME xk. copy (n, s) xk)" by (rule someI_ex)
      from srt [OF this] have "snd (fst (SOME xk. copy (n, s) xk)) = s" by simp
      moreover have "\<pi> k x \<in> carrier (snd x)" for k x
        using p by (cases x) (simp add: all_states_def wsorted_def)
      ultimately show ?thesis using True by (metis (no_types, lifting) \<sigma>_def)
    next
      case False
      then show ?thesis using p by (simp add: \<sigma>_def all_states_def wsorted_def)
    qed
  qed
  moreover have "unrolls_to F ts (unroll B tid ts) \<sigma> \<pi>"
    unfolding unrolls_to_def
  proof (intro allI impI)
    fix t k assume t: "covered t (ts_vars ts)"
    have *: "proj B tid ts \<sigma> j x = \<pi> j x"
      if "is_fun_sort (snd x) \<or> tm_of x \<in> ?V" for j x
    proof (cases "tm_of x \<in> ?V")
      case True
      then show ?thesis using at_copy [OF True] by (simp add: proj_def)
    next
      case False
      with that fun_sym [of x] p show ?thesis
        by (cases x) (auto simp: proj_def all_states_def agree_funs_def)
    qed
    have "eval F (pair_env ts (proj B tid ts \<sigma> k) (proj B tid ts \<sigma> (Suc k))) t
        = eval F (pair_env ts (\<pi> k) (\<pi> (Suc k))) t"
    proof (rule eval_cong)
      fix x assume x: "x \<in> syms t"
      show "pair_env ts (proj B tid ts \<sigma> k) (proj B tid ts \<sigma> (Suc k)) x = pair_env ts (\<pi> k) (\<pi> (Suc k)) x"
      proof (cases "map_of (ts_curr_map ts) (tm_of x)")
        case None
        have "is_fun_sort (snd x) \<or> tm_of x \<in> ?V"
          using x t None wf_curr_keys [OF wf] by (auto simp: covered_def ts_vars_def map_of_None_iff)
        with * None show ?thesis by (simp add: pair_env_def)
      next
        case (Some v)
        then have "v \<in> set (ts_statevars ts)" using wf_maps_inverse [OF wf] next_symbol [OF wf] by metis
        moreover from this have "tm_of (sym_of v) = v" using wf_symbolic [OF wf] by (simp add: ts_vars_def)
        ultimately show ?thesis using * [of "sym_of v" "Suc k"] Some by (simp add: pair_env_def)
      qed
    qed
    then show "eval F \<sigma> (unroll B tid ts t k) = eval F (pair_env ts (\<pi> k) (\<pi> (Suc k))) t"
      by (simp add: eval_unroll [OF B wf])
  qed
  ultimately show ?thesis by blast
qed

lemma level_map_sorts:
  assumes wf: "ts_wf ts" and m: "map_of (level_map B tid ts k) x = Some w"
  shows "get_sort w = get_sort x"
proof (cases "x \<in> set (ts_statevars ts) \<union> set (ts_inputvars ts)")
  case True
  with m show ?thesis by (auto simp: level_map_lookup [OF wf] timed_def)
next
  case False
  with m obtain v where v: "map_of (ts_curr_map ts) x = Some v" "w = timed B tid v (Suc k)"
    by (auto simp: level_map_lookup [OF wf] split: option.splits)
  then have "map_of (ts_next_map ts) v = Some x" using wf_maps_inverse [OF wf] by blast
  with wf_parts(2) [OF wf] v(2) show ?thesis by (simp add: maps_ok_def timed_def)
qed

lemma keys_distinct_level: "distinct (map fst (level_map B tid ts k))"
proof -
  have *: "distinct (map fst m) \<Longrightarrow> distinct (map fst (fold (\<lambda>v m. AList.update (f v) (g v) (AList.update v (h v) m)) xs m))"
    for f :: "tm \<Rightarrow> tm" and g h :: "tm \<Rightarrow> tm" and xs m
    by (induction xs arbitrary: m) (auto simp: distinct_update)
  have "distinct (map fst m) \<Longrightarrow> distinct (map fst (fold (\<lambda>v. AList.update v (h v)) xs m))"
    for h :: "tm \<Rightarrow> tm" and xs m
    by (induction xs arbitrary: m) (auto simp: distinct_update)
  with * show ?thesis by (simp add: level_map_def)
qed

lemma sort_unroll:
  assumes "smt_terms B F" and "ts_wf ts"
  shows "get_sort (unroll B tid ts t k) = get_sort t"
proof (cases "map_of (level_map B tid ts k) t")
  case None
  have "get_sort u = get_sort x" if "(x, u) \<in> set (level_map B tid ts k)" for x u
    using level_map_sorts [OF assms(2)] that keys_distinct_level by (metis map_of_is_SomeI)
  with smt_terms.sort_substitute [OF assms(1) sym_map_level [OF assms(2)]] None show ?thesis
    by (simp add: unroll_def use_cache_def)
next
  case (Some w)
  with level_map_sorts [OF assms(2) Some] show ?thesis by (simp add: unroll_def use_cache_def)
qed

lemma unroll_unrolling:
  assumes "smt_terms B F" and "ts_wf ts" and "tid_ok tid"
  shows "unrolling F ts (unroll B tid ts)"
proof
  show "ts_wf ts" by (rule assms)
  show "\<exists>\<pi>. all_states \<pi> \<and> unrolls_to F ts (unroll B tid ts) \<sigma> \<pi>" if "wsorted \<sigma>" for \<sigma>
    using proj_states [OF assms(2) that] eval_unroll [OF assms(1,2)] unfolding unrolls_to_def by blast
  show "get_sort (unroll B tid ts t k) = get_sort t" for t k
    by (rule sort_unroll [OF assms(1,2)])
qed (rule states_model [OF assms])

interpretation demo: unrolling F demo_ts "unroll plain_builder ''@'' demo_ts" for F
  by (rule unroll_unrolling [OF plain.smt_terms_axioms demo_wf]) (simp add: tid_ok_def)

subsection \<open>Undoing an unrolling\<close>



lemma level_map_timed:
  assumes "ts_wf ts" and "map_of (level_map B tid ts k) y = Some w"
  obtains v j where "w = timed B tid v j"
  using assms(2) by (auto simp: level_map_lookup [OF assms(1)] split: if_splits option.splits)

lemma syms_unroll_vars:
  assumes B: "smt_terms B F" and wf: "ts_wf ts" and t: "covered t (ts_vars ts)"
    and x: "x \<in> syms (unroll B tid ts t k)" "\<not> is_fun_sort (snd x)"
  obtains y where "tm_of y \<in> ts_vars ts" and "y \<in> syms t"
    and "map_of (level_map B tid ts k) (tm_of y) = Some (tm_of x)"
proof (cases "map_of (level_map B tid ts k) t")
  case (Some w)
  then have w: "unroll B tid ts t k = w" by (simp add: unroll_def use_cache_def)
  have v: "t \<in> ts_vars ts"
    using Some next_symbol [OF wf] wf_maps_inverse [OF wf]
    by (auto simp: level_map_lookup [OF wf] ts_vars_def split: if_splits option.splits)
  then obtain n s where n: "t = Sym n s" using wf_symbolic [OF wf] is_symbolic_constE by blast
  obtain v j where "w = timed B tid v j" using level_map_timed [OF wf Some] .
  with x(1) w have "w = tm_of x" by (simp add: timed_def)
  with v n Some that [of "(n, s)"] show thesis by simp
next
  case None
  then have u: "unroll B tid ts t k = substitute B t (level_map B tid ts k)"
    by (simp add: unroll_def use_cache_def)
  from smt_terms.syms_substitute [OF B sym_map_level [OF wf]] x(1) u
  obtain y where y: "y \<in> syms t"
    "x \<in> (case map_of (level_map B tid ts k) (tm_of y) of None \<Rightarrow> {y} | Some w \<Rightarrow> syms w)"
    by (fastforce simp: subst_syms_def)
  show thesis
  proof (cases "tm_of y \<in> ts_vars ts")
    case True
    then have "map_of (level_map B tid ts k) (tm_of y) \<noteq> None"
      using wf_curr_keys [OF wf] map_of_None_iff [of "ts_curr_map ts" "tm_of y"]
      by (auto simp: level_map_lookup [OF wf] ts_vars_def split: option.splits)
    then obtain w where w: "map_of (level_map B tid ts k) (tm_of y) = Some w" by blast
    obtain v j where "w = timed B tid v j" using level_map_timed [OF wf w] .
    with y(2) w have "w = tm_of x" by (simp add: timed_def)
    with w y(1) True that show thesis by blast
  next
    case False
    with t y(1) have "is_fun_sort (snd y)" by (auto simp: covered_def)
    moreover have "map_of (level_map B tid ts k) (tm_of y) = None"
      using False wf_curr_keys [OF wf] map_of_None_iff [of "ts_curr_map ts" "tm_of y"]
      by (auto simp: level_map_lookup [OF wf] ts_vars_def split: option.splits)
    ultimately show thesis using y(2) x(2) by simp
  qed
qed


text \<open>A symbol whose name has no time identifier does not occur in an unrolled term.\<close>

definition plain_name :: "string \<Rightarrow> bool" where
  "plain_name n \<longleftrightarrow> CHR 0x40 \<notin> set n"

lemma plain_not_timed: "plain_name n \<Longrightarrow> Sym n s \<noteq> timed B ''@'' v k"
  by (auto simp: plain_name_def timed_def)

lemma unroll_fresh:
  assumes B: "smt_terms B F" and wf: "ts_wf ts" and t: "covered t (ts_vars ts)"
    and n: "plain_name n" "\<not> is_fun_sort s"
  shows "(n, s) \<notin> syms (unroll B ''@'' ts t k)"
proof
  assume "(n, s) \<in> syms (unroll B ''@'' ts t k)"
  from syms_unroll_vars [OF B wf t this] n(2) obtain y
    where "map_of (level_map B ''@'' ts k) (tm_of y) = Some (Sym n s)" by (metis fst_conv snd_conv)
  then obtain v j where "Sym n s = timed B ''@'' v j" by (rule level_map_timed [OF wf])
  with plain_not_timed [OF n(1)] show False by blast
qed


subsection \<open>Properties\<close>

fun run_unroller :: "smt_builder \<Rightarrow> ts \<Rightarrow> (tm \<times> nat) list \<Rightarrow> unroller \<Rightarrow> (tm list \<times> unroller) result" where
  "run_unroller B ts [] u = Inr ([], u)"
| "run_unroller B ts ((t, k) # rs) u =
     bindE (at_time B ts t k u) (\<lambda>(w, u1).
     bindE (run_unroller B ts rs u1) (\<lambda>(ws, u2). Inr (w # ws, u2)))"

lemma run_unroller_ok:
  "ts_wf ts \<Longrightarrow> un_ok B ts u \<Longrightarrow> run_unroller B ts rs u = Inr (ws, u') \<Longrightarrow>
    ws = map (\<lambda>(t, k). unroll B (un_time_id u) ts t k) rs \<and> un_ok B ts u'
    \<and> un_time_id u' = un_time_id u"
proof (induction rs arbitrary: u ws)
  case (Cons r rs)
  obtain t k where r: "r = (t, k)" by (cases r)
  with Cons.prems(3) obtain w u1 ws' where 1: "at_time B ts t k u = Inr (w, u1)"
    "run_unroller B ts rs u1 = Inr (ws', u')" "ws = w # ws'"
    by (auto simp: bindE_Inr_iff)
  from at_time_ok [OF Cons.prems(1,2) 1(1)] Cons.IH [of u1 ws'] 1 Cons.prems(1) r show ?case by auto
qed simp

text \<open>C16: whatever calls of \<open>at_time\<close> came before, with whatever times, the caches of the
  class never show: each answer is the term the cache-free specification gives.\<close>

theorem unroller_computes_unroll:
  assumes "ts_wf ts" and "run_unroller B ts rs (init_unroller ts tid) = Inr (ws, u)"
  shows "ws = map (\<lambda>(t, k). unroll B tid ts t k) rs"
  using run_unroller_ok [OF assms(1) un_ok_init assms(2)] by (simp add: init_unroller_def)


text \<open>C11: the formula an engine builds from unrolled terms, an initial state at time 0, the
  transition relation at times below \<open>k\<close> and the negated property at time \<open>k\<close>, is
  satisfiable exactly when the system has a counterexample of length \<open>k\<close>.\<close>

theorem unrolled_formula_iff_counterexample:
  assumes "smt_terms B F" and "ts_wf ts" and "tid_ok tid"
    and "covered bad (set (ts_statevars ts) \<union> set (ts_inputvars ts))"
  shows "satisfiable F (unroll B tid ts (ts_init ts) 0
      # map (unroll B tid ts (ts_trans ts)) [0..<k] @ [unroll B tid ts bad k]) = cex F ts bad k"
  using unrolling.cex_satisfiable [OF unroll_unrolling [OF assms(1-3)] assms(4)] by blast

text \<open>C22: Unrolling keeps types: a term and its copy have the same sort, and every variable of the
  copy is the copy of a variable of the term, of the same sort.\<close>

theorem unrolling_keeps_types:
  assumes "smt_terms B F" and "ts_wf ts" and "run_unroller B ts rs (init_unroller ts tid) = Inr (ws, u)"
  shows "length ws = length rs \<and> (\<forall>i < length rs. get_sort (ws ! i) = get_sort (fst (rs ! i))
    \<and> (covered (fst (rs ! i)) (ts_vars ts) \<longrightarrow> (\<forall>x \<in> syms (ws ! i). is_fun_sort (snd x)
         \<or> (\<exists>y \<in> syms (fst (rs ! i)). tm_of y \<in> ts_vars ts \<and> snd y = snd x))))"
proof -
  have "run_unroller B ts rs (init_unroller ts tid) = Inr (ws, u) \<Longrightarrow> ws = map (\<lambda>(t, k). unroll B tid ts t k) rs"
    using run_unroller_ok [OF assms(2) un_ok_init] by (simp add: init_unroller_def)
  with assms(3) have ws: "ws = map (\<lambda>(t, k). unroll B tid ts t k) rs" by blast
  have var: "is_fun_sort (snd x) \<or> (\<exists>y \<in> syms t. tm_of y \<in> ts_vars ts \<and> snd y = snd x)"
    if t: "covered t (ts_vars ts)" and x: "x \<in> syms (unroll B tid ts t k)" for t k x
  proof (cases "is_fun_sort (snd x)")
    case False
    from syms_unroll_vars [OF assms(1,2) t x False] obtain y where y: "tm_of y \<in> ts_vars ts" "y \<in> syms t"
      "map_of (level_map B tid ts k) (tm_of y) = Some (tm_of x)" by blast
    have "snd y = snd x" using level_map_sorts [OF assms(2) y(3)] by simp
    with y show ?thesis by blast
  qed simp
  show ?thesis using sort_unroll [OF assms(1,2)] var by (auto simp: ws case_prod_unfold)
qed

theorem unroller_computes_unroll_witness:
  "\<exists>ws u. run_unroller plain_builder demo_ts [(vx, 2), (vi, 0), (vx, 1)] (init_unroller demo_ts ''@'') = Inr (ws, u)
     \<and> ws = [Sym ''x@2'' BOOL, Sym ''i@0'' BOOL, Sym ''x@1'' BOOL]"
proof -
  have "case run_unroller plain_builder demo_ts [(vx, 2), (vi, 0), (vx, 1)] (init_unroller demo_ts ''@'') of
      Inl e \<Rightarrow> False | Inr p \<Rightarrow> True" by code_simp
  then obtain ws u where r:
    "run_unroller plain_builder demo_ts [(vx, 2), (vi, 0), (vx, 1)] (init_unroller demo_ts ''@'') = Inr (ws, u)"
    by (auto split: sum.splits)
  have "map (\<lambda>(t, k). unroll plain_builder ''@'' demo_ts t k) [(vx, 2), (vi, 0), (vx, 1)]
      = [Sym ''x@2'' BOOL, Sym ''i@0'' BOOL, Sym ''x@1'' BOOL]" by code_simp
  with unroller_computes_unroll [OF demo_wf r]
  have "ws = [Sym ''x@2'' BOOL, Sym ''i@0'' BOOL, Sym ''x@1'' BOOL]" by (rule trans)
  with r show ?thesis by (intro exI conjI)
qed


theorem unrolled_formula_iff_counterexample_witness:
  "satisfiable (\<lambda>_ _. BoolVal False) (unroll plain_builder ''@'' demo_ts (ts_init demo_ts) 0
      # map (unroll plain_builder ''@'' demo_ts (ts_trans demo_ts)) [0..<1]
        @ [unroll plain_builder ''@'' demo_ts vx 1]) = cex (\<lambda>_ _. BoolVal False) demo_ts vx 1"
  by (rule unrolled_formula_iff_counterexample [OF plain.smt_terms_axioms demo_wf])
    (simp_all add: tid_ok_def covered_def demo_fields)

theorem unrolling_keeps_types_witness:
  "\<exists>w u. run_unroller plain_builder demo_ts [(ts_trans demo_ts, 3)] (init_unroller demo_ts ''@'') = Inr ([w], u)
     \<and> get_sort w = get_sort (ts_trans demo_ts)"
proof -
  have "case run_unroller plain_builder demo_ts [(ts_trans demo_ts, 3)] (init_unroller demo_ts ''@'') of
      Inl e \<Rightarrow> False | Inr p \<Rightarrow> True" by code_simp
  then obtain ws u where r: "run_unroller plain_builder demo_ts [(ts_trans demo_ts, 3)] (init_unroller demo_ts ''@'') = Inr (ws, u)"
    by (auto split: sum.splits)
  from unrolling_keeps_types [OF plain.smt_terms_axioms demo_wf r] r show ?thesis
    by (cases ws) auto
qed

end
