(* ===== verification/Prover.thy ===== *)
theory Prover
  imports Unroller
begin

section \<open>What the safety engines share (engines/prover, core/prop, core/proverresult)\<close>

text \<open>
  \<open>prover_env\<close> holds what an engine is constructed with: its solver, its transition system,
  the unrolling (\<open>unroller_.at_time\<close>, which computes \<open>unroll\<close>, see \<open>Unroller\<close>) and
  the negated property \<open>bad_\<close>.  \<open>prover\<close> holds the data members that change;
  its field \<open>pr_solver\<close> is the solver's own state.  The locale \<open>safety_engine\<close> collects
  what the proofs about the unrolling-based engines use.
\<close>

datatype prover_result = PR_UNKNOWN | PR_FALSE | PR_TRUE | PR_ERROR

fun prover_result_str :: "prover_result \<Rightarrow> string" where
  "prover_result_str PR_TRUE = ''TRUE''"
| "prover_result_str PR_FALSE = ''FALSE''"
| "prover_result_str PR_UNKNOWN = ''UNKNOWN''"
| "prover_result_str PR_ERROR = ''ERROR''"

record 's prover_env =
  en_solver :: "'s smt_solver"
  en_ts :: ts
  en_at :: "tm \<Rightarrow> nat \<Rightarrow> tm"
  en_bad :: tm

record 's prover =
  pr_solver :: 's
  pr_initialized :: bool
  pr_reached_k :: int
  pr_witness :: "(tm \<times> tm) list list"
  pr_invar :: "tm option"

text \<open>The constructor, for an engine that shares its solver with the system.\<close>

definition make_env :: "'s smt_solver \<Rightarrow> ts \<Rightarrow> tm \<Rightarrow> 's prover_env" where
  "make_env S ts prop =
     \<lparr>en_solver = S, en_ts = ts, en_at = unroll (builder S) ''@'' ts,
      en_bad = mk_term (builder S) (op0 NotOp) [prop]\<rparr>"

definition new_prover :: "'s \<Rightarrow> 's prover" where
  "new_prover s = \<lparr>pr_solver = s, pr_initialized = False, pr_reached_k = -1, pr_witness = [],
     pr_invar = None\<rparr>"

definition prover_initialize :: "'s prover_env \<Rightarrow> ('s, 'm) prover_scheme \<Rightarrow> ('s, 'm) prover_scheme result" where
  "prover_initialize E p =
     (if pr_initialized p then Inr p
      else guardE (only_curr (en_ts E) (en_bad E))
        (PonoException ''Property should not contain inputs or next state variables'')
        (Inr (p\<lparr>pr_initialized := True, pr_reached_k := -1\<rparr>)))"

definition witness_length :: "('s, 'm) prover_scheme \<Rightarrow> int" where
  "witness_length p = pr_reached_k p + 1"

definition invar :: "('s, 'm) prover_scheme \<Rightarrow> tm result" where
  "invar p = (case pr_invar p of Some t \<Rightarrow> Inr t | None \<Rightarrow> Inl (PonoException
     (''Failed to return invar. Be sure that the property was proven by an ''
       @ ''engine the supports returning invariants.'')))"

text \<open>One map per time: the values of the variables and of the named terms.\<close>

definition witness_map :: "'s prover_env \<Rightarrow> 's \<Rightarrow> nat \<Rightarrow> (tm \<times> tm) list" where
  "witness_map E s i =
     (let val = (\<lambda>t. s_get_value (en_solver E) s (en_at E t i)); ts = en_ts E in
      fold (\<lambda>(n, t). AList.update t (val t)) (ts_named_terms ts)
       (fold (\<lambda>v. AList.update v (val v)) (ts_inputvars ts)
         (fold (\<lambda>v. AList.update v (val v)) (ts_statevars ts) [])))"

definition compute_witness :: "'s prover_env \<Rightarrow> ('s, 'm) prover_scheme \<Rightarrow> ('s, 'm) prover_scheme" where
  "compute_witness E p =
     p\<lparr>pr_witness := pr_witness p
        @ map (\<lambda>i. witness_map E (pr_solver p) (nat i)) [0..witness_length p]\<rparr>"

text \<open>
  \<open>witness\<close> gives the maps over the terms of the original system.  \<open>to_prover\<close> and
  \<open>to_orig\<close> are the translations between the solvers; \<open>to_orig\<close> may throw.  The flag
  \<open>success\<close> is shared by all maps: after a failure no later map gets its named terms.
\<close>

definition wit_value :: "(tm \<Rightarrow> tm) \<Rightarrow> (tm \<Rightarrow> tm result) \<Rightarrow> (tm \<times> tm) list \<Rightarrow> tm \<Rightarrow> tm result" where
  "wit_value to_prover to_orig w v = bindE (lookupE w (to_prover v)) to_orig"

fun wit_optional :: "(tm \<Rightarrow> tm) \<Rightarrow> (tm \<Rightarrow> tm result) \<Rightarrow> (tm \<times> tm) list \<Rightarrow> tm list
    \<Rightarrow> bool \<times> (tm \<times> tm) list \<Rightarrow> bool \<times> (tm \<times> tm) list" where
  "wit_optional to_prover to_orig w [] r = r"
| "wit_optional to_prover to_orig w (v # vs) (success, m) =
     (case wit_value to_prover to_orig w v of
        Inr x \<Rightarrow> wit_optional to_prover to_orig w vs (success, AList.update v x m)
      | Inl e \<Rightarrow> (False, m))"

definition witness_step :: "ts \<Rightarrow> (tm \<Rightarrow> tm) \<Rightarrow> (tm \<Rightarrow> tm result) \<Rightarrow> (tm \<times> tm) list
    \<Rightarrow> bool \<times> (tm \<times> tm) list list \<Rightarrow> (bool \<times> (tm \<times> tm) list list) result" where
  "witness_step orig to_prover to_orig w = (\<lambda>(success, out).
     bindE (foldE (\<lambda>v m. bindE (wit_value to_prover to_orig w v) (\<lambda>x. Inr (AList.update v x m)))
         (ts_statevars orig) []) (\<lambda>m.
       let (success1, m1) = wit_optional to_prover to_orig w (ts_inputvars orig) (success, m);
           (success2, m2) = (if success1
             then wit_optional to_prover to_orig w (map snd (ts_named_terms orig)) (success1, m1)
             else (success1, m1))
       in Inr (success2, out @ [m2])))"

definition witness :: "ts \<Rightarrow> (tm \<Rightarrow> tm) \<Rightarrow> (tm \<Rightarrow> tm result) \<Rightarrow> ('s, 'm) prover_scheme
    \<Rightarrow> (bool \<times> (tm \<times> tm) list list) result" where
  "witness orig to_prover to_orig p =
     guardE (pr_witness p \<noteq> [])
       (PonoException (''Recovering witness failed. Make sure that there was ''
         @ ''a counterexample and that the engine supports witness generation.''))
       (foldE (witness_step orig to_prover to_orig) (pr_witness p) (True, []))"

subsection \<open>The setting of the proofs\<close>

definition asserts :: "'s smt_solver \<Rightarrow> tm list \<Rightarrow> 's \<Rightarrow> 's" where
  "asserts S ts s = fold (s_assert S) ts s"

locale safety_engine =
  smt_engine "en_solver E" F frames + unrolling F "en_ts E" "en_at E"
  for E :: "'s prover_env" and F :: theory_ops and frames :: "'s \<Rightarrow> tm list list" +
  assumes bad_current: "covered (en_bad E) (set (ts_statevars (en_ts E)))"
    and at_fresh: "covered t (ts_vars (en_ts E)) \<Longrightarrow> plain_name n \<Longrightarrow> \<not> is_fun_sort st \<Longrightarrow>
      (n, st) \<notin> syms (en_at E t k)"
begin

abbreviation "S \<equiv> en_solver E"
abbreviation "B \<equiv> builder S"
abbreviation "at \<equiv> en_at E"
abbreviation "sys \<equiv> en_ts E"
abbreviation "bad \<equiv> en_bad E"
abbreviation "init_at \<equiv> at (ts_init sys)"
abbreviation "trans_at \<equiv> at (ts_trans sys)"

text \<open>What the last satisfiable check left in the solver.\<close>

definition has_model :: "'s \<Rightarrow> assignment \<Rightarrow> bool" where
  "has_model s \<sigma> \<longleftrightarrow> wsorted \<sigma> \<and> (\<forall>t. s_get_value S s t = Val (eval F \<sigma> t) (get_sort t))"

lemma bad_cur: "current bad"
  using bad_current by (rule covered_mono) auto

lemma frames_asserts:
  "frames (asserts S ts s) = (case frames s of [] \<Rightarrow> (if ts = [] then [] else [rev ts])
     | f # fs \<Rightarrow> (rev ts @ f) # fs)"
proof (induction ts arbitrary: s)
  case Nil
  then show ?case by (cases "frames s") (simp_all add: asserts_def)
next
  case (Cons t ts)
  have e: "asserts S (t # ts) s = asserts S ts (s_assert S t s)" by (simp add: asserts_def)
  show ?case unfolding e Cons.IH frames_assert by (cases "frames s") simp_all
qed

lemma asserted_asserts [simp]: "asserted (asserts S ts s) = set ts \<union> asserted s"
  unfolding asserts_def by (induction ts arbitrary: s) auto

lemma check_sat_model:
  assumes "s_check S s = (SAT, s')"
  obtains \<sigma> where "has_model s' \<sigma>" and "\<And>t. t \<in> asserted s \<Longrightarrow> holds F \<sigma> t"
proof (rule check_SAT_model [OF assms])
  fix \<sigma>
  assume "wsorted \<sigma>" "\<And>t. t \<in> asserted s \<Longrightarrow> holds F \<sigma> t"
    "\<And>t. s_get_value S s' t = Val (eval F \<sigma> t) (get_sort t)"
  then show thesis by (intro that [of \<sigma>]) (simp_all add: has_model_def)
qed

lemma value_true: "has_model s \<sigma> \<Longrightarrow> get_sort t = BOOL \<Longrightarrow>
    s_get_value S s t = tm_true \<longleftrightarrow> holds F \<sigma> t"
  by (auto simp: has_model_def)

lemma model_path:
  assumes "has_model s \<sigma>" and "holds F \<sigma> (init_at 0)" and "\<And>i. i < k \<Longrightarrow> holds F \<sigma> (trans_at i)"
  obtains \<pi> where "all_states \<pi>" and "unrolls_to F sys at \<sigma> \<pi>" and "ts_path F sys \<pi> k"
proof -
  from assms(1) have "wsorted \<sigma>" by (simp add: has_model_def)
  from this assms(3) obtain \<pi> where p: "all_states \<pi>" "unrolls_to F sys at \<sigma> \<pi>" "segment F sys \<pi> k"
    by (rule model_segment)
  from assms(2) unrolls_init [OF p(1,2)] p that show thesis by (simp add: ts_path_def)
qed

lemma model_cex:
  assumes "has_model s \<sigma>" and "holds F \<sigma> (init_at 0)" and "\<And>i. i < k \<Longrightarrow> holds F \<sigma> (trans_at i)"
    and "holds F \<sigma> (at bad j)" and "j \<le> k"
  shows "cex F sys bad j"
proof -
  from assms(1-3) obtain \<pi> where p: "all_states \<pi>" "unrolls_to F sys at \<sigma> \<pi>" "ts_path F sys \<pi> k"
    by (rule model_path)
  with assms(4,5) unrolls_current [OF p(2) bad_cur, of j] ts_path_mono [OF p(3)] show ?thesis
    by (auto simp: cex_def)
qed


lemma witness_map_value:
  assumes "has_model s \<sigma>" and "all_states \<pi>" and "unrolls_to F sys at \<sigma> \<pi>"
    and v: "v \<in> set (ts_statevars sys) \<union> set (ts_inputvars sys)"
  shows "map_of (witness_map E s i) v = Some (Val (\<pi> i (sym_of v)) (get_sort v))"
proof -
  let ?val = "\<lambda>t. s_get_value S s (at t i)"
  have "fold (\<lambda>(n, t). AList.update t (?val t)) xs m = fold (\<lambda>t. AList.update t (?val t)) (map snd xs) m"
    for xs :: "(string \<times> tm) list" and m
    by (induction xs arbitrary: m) auto
  then have "map_of (witness_map E s i) v = Some (?val v)"
    using v by (auto simp: witness_map_def Let_def map_of_fold_update)
  moreover have "v \<in> ts_vars sys" using v by (auto simp: ts_vars_def)
  then obtain n st where vs: "v = Sym n st" using wf_symbolic [OF system_wf] is_symbolic_constE by blast
  have "current v" using v by (simp add: vs)
  from unrolls_current [OF assms(3) this, of i] have "eval F \<sigma> (at v i) = \<pi> i (sym_of v)" by (simp add: vs)
  ultimately show ?thesis using assms(1) at_sort by (simp add: has_model_def)
qed

lemma model_witness:
  assumes m: "has_model (pr_solver p) \<sigma>" and "holds F \<sigma> (init_at 0)"
    and "\<And>q. q < nat (pr_reached_k p + 1) \<Longrightarrow> holds F \<sigma> (trans_at q)"
    and w: "pr_witness p = []" and r: "-1 \<le> pr_reached_k p"
  shows "\<exists>\<pi>. unrolls_to F sys at \<sigma> \<pi> \<and> ts_path F sys \<pi> (nat (pr_reached_k p + 1))
    \<and> length (pr_witness (compute_witness E p)) = nat (pr_reached_k p + 1) + 1
    \<and> (\<forall>m \<le> nat (pr_reached_k p + 1). \<forall>v \<in> set (ts_statevars sys) \<union> set (ts_inputvars sys).
          map_of (pr_witness (compute_witness E p) ! m) v = Some (Val (\<pi> m (sym_of v)) (get_sort v)))"
proof -
  let ?n = "nat (pr_reached_k p + 1)"
  from assms(1-3) obtain \<pi> where p: "all_states \<pi>" "unrolls_to F sys at \<sigma> \<pi>" "ts_path F sys \<pi> ?n"
    by (rule model_path)
  have len: "length (pr_witness (compute_witness E p)) = ?n + 1"
    using w r by (simp add: compute_witness_def witness_length_def nat_add_distrib)
  have "map_of (pr_witness (compute_witness E p) ! q) v = Some (Val (\<pi> q (sym_of v)) (get_sort v))"
    if "q \<le> ?n" "v \<in> set (ts_statevars sys) \<union> set (ts_inputvars sys)" for q v
  proof -
    have "[0..witness_length p] ! q = int q" using that(1) r by (simp add: witness_length_def)
    then have "pr_witness (compute_witness E p) ! q = witness_map E (pr_solver p) q"
      using w that(1) len by (simp add: compute_witness_def)
    with witness_map_value [OF m p(1,2) that(2)] show ?thesis by simp
  qed
  with p(2,3) len show ?thesis by blast
qed

text \<open>
  Symbols an engine adds for itself (selectors, labels) can take any value: the unrolled terms do
  not mention them.
\<close>

definition relabel :: "(string \<Rightarrow> bool option) \<Rightarrow> assignment \<Rightarrow> assignment" where
  "relabel b \<sigma> x = (if snd x = BOOL \<and> plain_name (fst x)
     then (case b (fst x) of Some v \<Rightarrow> BoolVal v | None \<Rightarrow> \<sigma> x) else \<sigma> x)"

lemma relabel_model:
  assumes "wsorted \<sigma>" and "unrolls_to F sys at \<sigma> \<rho>"
  shows "wsorted (relabel b \<sigma>)" and "unrolls_to F sys at (relabel b \<sigma>) \<rho>"
proof -
  show "wsorted (relabel b \<sigma>)"
    unfolding wsorted_def
  proof (intro allI)
    fix n st
    have "\<sigma> (n, st) \<in> carrier st" using assms(1) by (simp add: wsorted_def)
    then show "relabel b \<sigma> (n, st) \<in> carrier st"
      by (cases "st = BOOL") (auto simp: relabel_def split: option.splits)
  qed
  have "eval F (relabel b \<sigma>) (at t k) = eval F \<sigma> (at t k)" if c: "covered t (ts_vars sys)" for t k
  proof (rule eval_cong)
    fix x assume x: "x \<in> syms (at t k)"
    have "\<not> (snd x = BOOL \<and> plain_name (fst x))"
    proof
      assume a: "snd x = BOOL \<and> plain_name (fst x)"
      then have "(fst x, BOOL) \<notin> syms (at t k)" by (intro at_fresh [OF c]) simp_all
      with a x show False by (cases x) simp
    qed
    then show "relabel b \<sigma> x = \<sigma> x" by (auto simp: relabel_def)
  qed
  with assms(2) show "unrolls_to F sys at (relabel b \<sigma>) \<rho>" by (simp add: unrolls_to_def)
qed

text \<open>\<open>deep n X s\<close>: the formulas \<open>X\<close> stay asserted after popping \<open>n\<close> levels.\<close>

definition deep :: "nat \<Rightarrow> tm set \<Rightarrow> 's \<Rightarrow> bool" where
  "deep n X s \<longleftrightarrow> n < length (frames s) \<and> X \<subseteq> set (concat (drop n (frames s)))"

lemma deep_asserted: "deep n X s \<Longrightarrow> X \<subseteq> asserted s"
  unfolding deep_def asserted_def by (auto dest: in_set_dropD)

lemma deep_mono: "deep n X s \<Longrightarrow> m \<le> n \<Longrightarrow> deep m X s"
  unfolding deep_def using set_drop_subset_set_drop [of m n "frames s"] by fastforce

lemma deep_subset: "deep n X s \<Longrightarrow> Y \<subseteq> X \<Longrightarrow> deep n Y s"
  by (auto simp: deep_def)

lemma deep_push: "deep n X s \<Longrightarrow> deep (Suc n) X (s_push S s)"
  by (simp add: deep_def frames_push)

lemma deep_pop: "deep (Suc n) X s \<Longrightarrow> deep n X (s_pop S s)"
  by (auto simp: deep_def frames_pop drop_Suc)

lemma deep_pops: "deep (m + n) X s \<Longrightarrow> deep n X ((s_pop S ^^ m) s)"
proof (induction m arbitrary: n)
  case (Suc m)
  then have "deep (Suc n) X ((s_pop S ^^ m) s)" by simp
  then show ?case by (simp add: deep_pop)
qed simp

lemma frames_check': "s_check_assuming S as s = (r, s') \<Longrightarrow> deep n X s' = deep n X s"
  by (simp add: deep_def frames_check)

lemma deep_asserts: "deep n X s \<Longrightarrow> deep n X (asserts S ts s)"
proof (cases "frames s")
  case (Cons f fs)
  then show "deep n X s \<Longrightarrow> deep n X (asserts S ts s)"
    by (cases n) (auto simp: deep_def frames_asserts)
qed (simp add: deep_def)

lemma deep_new: "frames s \<noteq> [] \<Longrightarrow> deep 0 (set ts) (asserts S ts s)"
  by (cases "frames s") (auto simp: deep_def frames_asserts)

lemma asserts_single: "s_assert S t s = asserts S [t] s"
  by (simp add: asserts_def)

lemma deep_assert: "deep n X s \<Longrightarrow> deep n X (s_assert S t s)"
  unfolding asserts_single by (rule deep_asserts)

lemma pop_push: "frames (s_pop S (asserts S ts (s_push S s))) = frames s"
  by (simp add: frames_pop frames_asserts frames_push)

end

subsection \<open>The engines' environment satisfies the setting\<close>

lemma env_fields [simp]:
  "en_solver (make_env S ts prop) = S" "en_ts (make_env S ts prop) = ts"
  "en_at (make_env S ts prop) = unroll (builder S) ''@'' ts"
  "en_bad (make_env S ts prop) = mk_term (builder S) (op0 NotOp) [prop]"
  by (simp_all add: make_env_def)

lemma make_env_engine:
  assumes "smt_engine S F frames" and "ts_wf ts" and "covered prop (set (ts_statevars ts))"
  shows "safety_engine (make_env S ts prop) F frames"
proof -
  have B: "smt_terms (builder S) F" using assms(1) by (simp add: smt_engine_def)
  have "tid_ok ''@''" by (simp add: tid_ok_def)
  with B assms(2) have "unrolling F ts (unroll (builder S) ''@'' ts)" by (rule unroll_unrolling)
  moreover have "covered (mk_term (builder S) (op0 NotOp) [prop]) (set (ts_statevars ts))"
    using smt_terms.syms_mk1 [OF B, of "op0 NotOp" "prop"] assms(3) by (auto simp: covered_def)
  moreover have "(n, st) \<notin> syms (unroll (builder S) ''@'' ts t k)"
    if "covered t (ts_vars ts)" "plain_name n" "\<not> is_fun_sort st" for t n st k
    by (rule unroll_fresh [OF B assms(2) that])
  ultimately show ?thesis
    unfolding safety_engine_def safety_engine_axioms_def using assms(1) by simp
qed

lemma env_bad:
  assumes "smt_engine S F frames"
  shows "holds F \<sigma> (en_bad (make_env S ts prop)) \<longleftrightarrow> \<not> holds F \<sigma> prop"
    and "get_sort (en_bad (make_env S ts prop)) = BOOL"
  using smt_terms.holds_Not [of "builder S" F \<sigma> "prop"] smt_terms.sort_mk_bool [of "builder S" F "op0 NotOp"] assms
  by (simp_all add: smt_engine_def bool_ops_def)

text \<open>A witness gives the values of every variable along a path to a state that violates the property.\<close>

definition witnessed :: "theory_ops \<Rightarrow> ts \<Rightarrow> tm \<Rightarrow> nat \<Rightarrow> (tm \<times> tm) list list \<Rightarrow> bool" where
  "witnessed F sys prop n ws \<longleftrightarrow> (\<exists>\<pi>. ts_path F sys \<pi> n \<and> \<not> holds F (\<pi> n) prop \<and> length ws = n + 1
     \<and> (\<forall>m \<le> n. \<forall>v \<in> set (ts_statevars sys) \<union> set (ts_inputvars sys).
          map_of (ws ! m) v = Some (Val (\<pi> m (sym_of v)) (get_sort v))))"

interpretation demo_engine: safety_engine "make_env (enum_solver F (full_decider F)) demo_ts vx" F e_frames for F
  by (rule make_env_engine [OF full.smt_engine_axioms demo_wf]) (simp add: demo_fields)

end
