(* ===== verification/Bmc.thy ===== *)
theory Bmc
  imports Prover
begin

section \<open>Bounded model checking (engines/bmc)\<close>

text \<open>
  The engine \<open>Bmc\<close>: the outer loop of \<open>check_until\<close>, one \<open>step\<close>, and the
  three searches for a shorter counterexample.  Bounds are C++ \<open>int\<close>s, kept as integers with
  the conversion to 32 bits written out where the code computes the next bound.
\<close>

record bmc_opts =
  bo_bound_start :: nat
  bo_bound_step :: nat
  bo_exponential_step :: bool
  bo_single_bad_state :: bool
  bo_neg_init_step :: bool
  bo_neg_bad_step :: bool
  bo_neg_bad_step_all :: bool
  bo_linear_search :: bool
  bo_less_inc_bin_search :: bool
  bo_allow_non_minimal :: bool

definition default_bmc_opts :: bmc_opts where
  "default_bmc_opts =
     \<lparr>bo_bound_start = 0, bo_bound_step = 1, bo_exponential_step = False,
      bo_single_bad_state = False, bo_neg_init_step = False, bo_neg_bad_step = False,
      bo_neg_bad_step_all = False, bo_linear_search = False, bo_less_inc_bin_search = False,
      bo_allow_non_minimal = False\<rparr>"

record 's bmc = "'s prover" +
  bm_bin_frames :: nat

definition int32 :: "int \<Rightarrow> int" where
  "int32 x = (x + 2 ^ 31) mod 2 ^ 32 - 2 ^ 31"

definition on_solver :: "('s \<Rightarrow> 's) \<Rightarrow> ('s, 'm) prover_scheme \<Rightarrow> ('s, 'm) prover_scheme" where
  "on_solver f p = p\<lparr>pr_solver := f (pr_solver p)\<rparr>"

definition new_bmc :: "'s \<Rightarrow> 's bmc" where
  "new_bmc s = \<lparr>pr_solver = s, pr_initialized = False, pr_reached_k = -1, pr_witness = [],
     pr_invar = None, bm_bin_frames = 0\<rparr>"

subsection \<open>The formulas the engine asserts\<close>

definition bad_at :: "'s prover_env \<Rightarrow> int \<Rightarrow> tm" where
  "bad_at E j = en_at E (en_bad E) (nat j)"

definition not_bad_at :: "'s prover_env \<Rightarrow> int \<Rightarrow> tm" where
  "not_bad_at E j = mk_term (builder (en_solver E)) (op0 NotOp) [bad_at E j]"

definition bad_clause :: "'s prover_env \<Rightarrow> int \<Rightarrow> int \<Rightarrow> tm" where
  "bad_clause E lo hi =
     fold (\<lambda>j c. mk_term (builder (en_solver E)) (op0 Or) [c, bad_at E j]) [lo..hi] tm_false"

definition trans_formulas :: "'s prover_env \<Rightarrow> bmc_opts \<Rightarrow> int \<Rightarrow> tm list" where
  "trans_formulas E opts j =
     en_at E (ts_trans (en_ts E)) (nat (j - 1))
     # (if bo_neg_init_step opts
        then [mk_term (builder (en_solver E)) (op0 NotOp) [en_at E (ts_init (en_ts E)) (nat j)]] else [])"

definition block_cex_ub :: "'s prover_env \<Rightarrow> int \<Rightarrow> int \<Rightarrow> 's \<Rightarrow> 's" where
  "block_cex_ub E lo hi = asserts (en_solver E) (map (not_bad_at E) [lo..hi])"

text \<open>The first bound of the interval whose bad state the model satisfies, else \<open>ub + 1\<close>.\<close>

definition get_cex_ub :: "'s prover_env \<Rightarrow> 's \<Rightarrow> int \<Rightarrow> int \<Rightarrow> int" where
  "get_cex_ub E s lb ub =
     (case find (\<lambda>j. s_get_value (en_solver E) s (bad_at E j) = tm_true) [lb..ub] of
        Some j \<Rightarrow> j | None \<Rightarrow> ub + 1)"

subsection \<open>Searching for a shorter counterexample\<close>

fun bin_search :: "'s prover_env \<Rightarrow> nat \<Rightarrow> int \<Rightarrow> int \<Rightarrow> 's bmc \<Rightarrow> (bool \<times> 's bmc) result" where
  "bin_search E 0 low high p = Inl OutOfFuel"
| "bin_search E (Suc n) low high p =
     (if \<not> low \<le> high then Inr (True, p)
      else
        let mid = low + (high - low) div 2;
            p1 = (on_solver (\<lambda>s. block_cex_ub E (mid + 1) high (s_push (en_solver E) s)) p)
                   \<lparr>bm_bin_frames := bm_bin_frames p + 1\<rparr>;
            (r, s2) = s_check (en_solver E) (pr_solver p1);
            p2 = p1\<lparr>pr_solver := s2\<rparr>
        in if r = SAT then
             (if low = mid then Inr (True, p2)
              else let high' = get_cex_ub E s2 low mid
                   in bin_search E n low high' (on_solver (block_cex_ub E (high' + 1) mid) p2))
           else if low \<ge> high then Inr (False, p2)
           else bin_search E n (mid + 1) high
             ((on_solver (\<lambda>s. block_cex_ub E low mid (s_pop (en_solver E) s)) p2)
               \<lparr>bm_bin_frames := bm_bin_frames p2 - 1, pr_reached_k := mid\<rparr>))"

definition find_shortest_cex_binary_search :: "'s prover_env \<Rightarrow> int \<Rightarrow> 's bmc \<Rightarrow> (bool \<times> 's bmc) result" where
  "find_shortest_cex_binary_search E ub p =
     bin_search E (Suc (nat (ub - pr_reached_k p))) (pr_reached_k p + 1) ub p"

fun less_inc_search :: "'s prover_env \<Rightarrow> nat \<Rightarrow> int \<Rightarrow> int \<Rightarrow> 's bmc \<Rightarrow> (bool \<times> 's bmc) result" where
  "less_inc_search E 0 low high p = Inl OutOfFuel"
| "less_inc_search E (Suc n) low high p =
     (if \<not> low \<le> high then Inr (True, p)
      else
        let mid = low + (high - low) div 2;
            p1 = on_solver (\<lambda>s. s_assert (en_solver E) (bad_clause E low mid)
                   (s_push (en_solver E) (s_pop (en_solver E) s))) p;
            (r, s2) = s_check (en_solver E) (pr_solver p1);
            p2 = p1\<lparr>pr_solver := s2\<rparr>
        in if r = SAT then
             (if low = mid then Inr (True, p2)
              else less_inc_search E n low (get_cex_ub E s2 low mid) p2)
           else less_inc_search E n (mid + 1) high (p2\<lparr>pr_reached_k := mid\<rparr>))"

definition find_shortest_cex_binary_search_less_inc ::
    "'s prover_env \<Rightarrow> int \<Rightarrow> 's bmc \<Rightarrow> (bool \<times> 's bmc) result" where
  "find_shortest_cex_binary_search_less_inc E ub p =
     less_inc_search E (Suc (nat (ub - pr_reached_k p))) (pr_reached_k p + 1) ub p"

fun linear_search :: "'s prover_env \<Rightarrow> int list \<Rightarrow> 's bmc \<Rightarrow> 's bmc result" where
  "linear_search E [] p =
     Inl (PonoException ''Unexpected BMC failure in linear search: formula overconstrained'')"
| "linear_search E (j # js) p =
     (let p1 = on_solver (\<lambda>s. s_assert (en_solver E) (bad_at E j)
            (s_push (en_solver E) (s_pop (en_solver E) s))) p;
          (r, s2) = s_check (en_solver E) (pr_solver p1);
          p2 = p1\<lparr>pr_solver := s2\<rparr>
      in if r = SAT then Inr p2 else linear_search E js (p2\<lparr>pr_reached_k := j\<rparr>))"

definition find_shortest_cex_linear_search :: "'s prover_env \<Rightarrow> int \<Rightarrow> 's bmc \<Rightarrow> 's bmc result" where
  "find_shortest_cex_linear_search E ub p =
     (if ub - pr_reached_k p = 1 then Inr p else linear_search E [pr_reached_k p + 1..ub] p)"

subsection \<open>One bound\<close>

text \<open>The satisfiable case with a clause over the whole interval \<open>[reached_k_ + 1, i]\<close>.\<close>

definition minimise_cex :: "'s prover_env \<Rightarrow> bmc_opts \<Rightarrow> int \<Rightarrow> 's bmc \<Rightarrow> (bool \<times> 's bmc) result" where
  "minimise_cex E opts i p =
     (let saved = pr_reached_k p;
          ub = get_cex_ub E (pr_solver p) (pr_reached_k p + 1) i
      in if ub - pr_reached_k p = 1 then Inr (False, p\<lparr>pr_reached_k := i - 1\<rparr>)
         else
           let p1 = (if ub + 1 \<le> i then on_solver (s_push (en_solver E)) p else p);
               p2 = on_solver (block_cex_ub E (ub + 1) i) p1
           in bindE (if bo_linear_search opts then Inr (False, p2)
                     else if \<not> bo_less_inc_bin_search opts then find_shortest_cex_binary_search E ub p2
                     else find_shortest_cex_binary_search_less_inc E ub p2)
                (\<lambda>(success, p3).
                   if success then Inr (False, p3)
                   else
                     let p4 = (if ub + 1 \<le> i then on_solver (s_pop (en_solver E)) p3 else p3);
                         p5 = on_solver (s_pop (en_solver E) ^^ bm_bin_frames p4)
                           (p4\<lparr>pr_reached_k := saved, bm_bin_frames := 2 ^ 32 - 1\<rparr>)
                     in bindE (find_shortest_cex_linear_search E ub p5) (\<lambda>p6. Inr (False, p6))))"

definition neg_bad_formulas :: "'s prover_env \<Rightarrow> bmc_opts \<Rightarrow> int \<Rightarrow> int \<Rightarrow> tm list" where
  "neg_bad_formulas E opts r i =
     (if bo_neg_bad_step_all opts then map (not_bad_at E) [r + 1..i]
      else if bo_neg_bad_step opts then [not_bad_at E i] else [])"

definition bmc_step :: "'s prover_env \<Rightarrow> bmc_opts \<Rightarrow> int \<Rightarrow> 's bmc \<Rightarrow> (bool \<times> 's bmc) result" where
  "bmc_step E opts i p =
     (let S = en_solver E; r0 = pr_reached_k p in
      if i \<le> r0 then Inr (True, p)
      else
        let p1 = (if i > 0 then on_solver (asserts S (concat (map (trans_formulas E opts)
                    [(if r0 = -1 then 1 else r0 + 1)..i]))) p
                  else p);
            clause = (if \<not> bo_single_bad_state opts then bad_clause E (r0 + 1) i else bad_at E i);
            p2 = on_solver (\<lambda>s. s_assert S clause (s_push S s)) p1;
            (r, s3) = s_check S (pr_solver p2);
            p3 = p2\<lparr>pr_solver := s3\<rparr>
        in if r = SAT then
             (if bo_allow_non_minimal opts then Inr (False, p3\<lparr>pr_reached_k := i - 1\<rparr>)
              else if \<not> bo_single_bad_state opts then minimise_cex E opts i p3
              else Inr (False, p3\<lparr>pr_reached_k := i - 1\<rparr>))
           else Inr (True, (on_solver (\<lambda>s. asserts S (neg_bad_formulas E opts r0 i) (s_pop S s)) p3)
                  \<lparr>pr_reached_k := i\<rparr>))"

subsection \<open>The engine\<close>

definition bmc_initialize :: "'s prover_env \<Rightarrow> 's bmc \<Rightarrow> 's bmc result" where
  "bmc_initialize E p =
     (if pr_initialized p then Inr p
      else bindE (prover_initialize E p) (\<lambda>p1.
        Inr (on_solver (\<lambda>s. s_assert (en_solver E) (en_at E (ts_init (en_ts E)) 0)
          (s_reset_assertions (en_solver E) s)) p1)))"

definition bmc_reset_env :: "'s prover_env \<Rightarrow> 's bmc \<Rightarrow> 's bmc result" where
  "bmc_reset_env E p = bmc_initialize E (p\<lparr>pr_initialized := False\<rparr>)"

definition next_bound :: "bmc_opts \<Rightarrow> int \<Rightarrow> int result" where
  "next_bound opts i =
     (if bo_exponential_step opts then
        (if i = 0 then Inr 1
         else guardE (2 * i < 2 ^ 31) (UndefinedBehaviour ''signed overflow'') (Inr (2 * i)))
      else Inr (int32 (i + int (bo_bound_step opts))))"

fun bmc_loop :: "'s prover_env \<Rightarrow> bmc_opts \<Rightarrow> nat \<Rightarrow> int \<Rightarrow> int \<Rightarrow> 's bmc
    \<Rightarrow> (prover_result \<times> 's bmc) result" where
  "bmc_loop E opts 0 k i p = Inl OutOfFuel"
| "bmc_loop E opts (Suc n) k i p =
     (if i \<le> k then
        bindE (bmc_step E opts i p) (\<lambda>(ok, p1).
          if \<not> ok then Inr (PR_FALSE, compute_witness E p1)
          else bindE (next_bound opts i) (\<lambda>i1. bmc_loop E opts n k i1 p1))
      else Inr (PR_UNKNOWN, p))"

definition bmc_check_until :: "'s prover_env \<Rightarrow> bmc_opts \<Rightarrow> nat \<Rightarrow> int \<Rightarrow> 's bmc
    \<Rightarrow> (prover_result \<times> 's bmc) result" where
  "bmc_check_until E opts fuel k p =
     bindE (bmc_initialize E p) (bmc_loop E opts fuel k (int32 (int (bo_bound_start opts))))"

subsection \<open>Soundness of the searches\<close>

lemma on_solver_simps [simp]:
  "pr_solver (on_solver f p) = f (pr_solver p)" "pr_reached_k (on_solver f p) = pr_reached_k p"
  "bm_bin_frames (on_solver f (q :: 's bmc)) = bm_bin_frames q"
  by (simp_all add: on_solver_def)

lemma on_solver_witness [simp]: "pr_witness (on_solver f p) = pr_witness p"
  by (simp add: on_solver_def)

lemma bin_search_witness: "bin_search E n low high p = Inr (ok, p') \<Longrightarrow> pr_witness p' = pr_witness p"
  by (induction n arbitrary: low high p)
    (auto simp: Let_def split: if_splits prod.splits)

lemma less_inc_search_witness:
  "less_inc_search E n low high p = Inr (ok, p') \<Longrightarrow> pr_witness p' = pr_witness p"
  by (induction n arbitrary: low high p)
    (auto simp: Let_def split: if_splits prod.splits)

lemma linear_search_witness: "linear_search E js p = Inr p' \<Longrightarrow> pr_witness p' = pr_witness p"
  by (induction js arbitrary: p) (auto simp: Let_def split: if_splits prod.splits)

lemma minimise_witness: "minimise_cex E opts i p = Inr (ok, p') \<Longrightarrow> pr_witness p' = pr_witness p"
  by (auto simp del: bin_search.simps less_inc_search.simps linear_search.simps
      simp: minimise_cex_def Let_def bindE_Inr_iff find_shortest_cex_binary_search_def
      find_shortest_cex_binary_search_less_inc_def find_shortest_cex_linear_search_def
      dest!: bin_search_witness less_inc_search_witness linear_search_witness split: if_splits)

lemma step_witness: "bmc_step E opts i p = Inr (ok, p') \<Longrightarrow> pr_witness p' = pr_witness p"
  by (auto simp: bmc_step_def Let_def dest!: minimise_witness split: if_splits prod.splits)

lemma int32_id: "- (2 ^ 31) \<le> x \<Longrightarrow> x < 2 ^ 31 \<Longrightarrow> int32 x = x"
  by (simp add: int32_def)

lemma get_cex_ub_ge: "lb \<le> ub + 1 \<Longrightarrow> lb \<le> get_cex_ub E s lb ub"
  by (auto simp: get_cex_ub_def find_Some_iff split: option.splits)

lemma get_cex_ub_le: "lb \<le> ub + 1 \<Longrightarrow> get_cex_ub E s lb ub \<le> ub + 1"
  by (force simp: get_cex_ub_def find_Some_iff split: option.splits dest!: nth_mem)

context safety_engine
begin

lemma holds_bad_clause:
  "holds F \<sigma> (bad_clause E lo hi) \<longleftrightarrow> (\<exists>j. lo \<le> j \<and> j \<le> hi \<and> holds F \<sigma> (bad_at E j))"
proof -
  have "holds F \<sigma> (fold (\<lambda>j c. mk_term B (op0 Or) [c, bad_at E j]) js c)
      \<longleftrightarrow> holds F \<sigma> c \<or> (\<exists>j \<in> set js. holds F \<sigma> (bad_at E j))" for js c
    by (induction js arbitrary: c) (simp_all add: disj_assoc)
  then show ?thesis by (auto simp: bad_clause_def)
qed

lemma holds_not_bad [simp]: "holds F \<sigma> (not_bad_at E j) \<longleftrightarrow> \<not> holds F \<sigma> (bad_at E j)"
  by (simp add: not_bad_at_def)

text \<open>The formulas of a path of length \<open>i\<close>, and a solver state whose model is such a path.\<close>

definition base :: "int \<Rightarrow> tm set" where
  "base i = insert (init_at 0) (trans_at ` {..<nat i})"

definition cex_model :: "int \<Rightarrow> 's bmc \<Rightarrow> bool" where
  "cex_model i p \<longleftrightarrow> pr_reached_k p + 1 \<le> i
     \<and> (\<exists>\<sigma> j. has_model (pr_solver p) \<sigma> \<and> (\<forall>t \<in> base i. holds F \<sigma> t)
          \<and> 0 \<le> j \<and> j \<le> pr_reached_k p + 1 \<and> holds F \<sigma> (bad_at E j))"

lemma cex_modelI:
  assumes "s_check S s = (SAT, pr_solver p)" and "base i \<subseteq> asserted s"
    and "\<And>\<sigma>. (\<And>t. t \<in> asserted s \<Longrightarrow> holds F \<sigma> t) \<Longrightarrow>
      \<exists>j. 0 \<le> j \<and> j \<le> pr_reached_k p + 1 \<and> holds F \<sigma> (bad_at E j)"
    and "pr_reached_k p + 1 \<le> i"
  shows "cex_model i p"
proof (rule check_sat_model [OF assms(1)])
  fix \<sigma> assume m: "has_model (pr_solver p) \<sigma>" "\<And>t. t \<in> asserted s \<Longrightarrow> holds F \<sigma> t"
  from assms(3) [OF m(2)] obtain j where
    "0 \<le> j" "j \<le> pr_reached_k p + 1" "holds F \<sigma> (bad_at E j)" by blast
  with m assms(2,4) show ?thesis unfolding cex_model_def
    by (intro conjI exI [of _ \<sigma>] exI [of _ j]) auto
qed

lemma deep_block: "deep n X s \<Longrightarrow> deep n X (block_cex_ub E lo hi s)"
  unfolding block_cex_ub_def by (rule deep_asserts)

lemma asserted_block: "asserted (block_cex_ub E lo hi s) = not_bad_at E ` {lo..hi} \<union> asserted s"
  by (simp add: block_cex_ub_def image_def)

lemma pop_block_push: "frames (s_pop S (block_cex_ub E lo hi (s_push S s))) = frames s"
  unfolding block_cex_ub_def by (rule pop_push)

lemma asserted_frames: "frames s = frames s' \<Longrightarrow> asserted s = asserted s'"
  by (simp add: asserted_def)

lemma deep_frames: "frames s = frames s' \<Longrightarrow> deep n X s = deep n X s'"
  by (simp add: deep_def)

lemma get_cex_ub_model:
  assumes "has_model s \<sigma>" and "lo \<le> j" "j \<le> hi" and "holds F \<sigma> (bad_at E j)"
    and "get_sort bad = BOOL"
  shows "lo \<le> get_cex_ub E s lo hi" and "get_cex_ub E s lo hi \<le> hi"
    and "holds F \<sigma> (bad_at E (get_cex_ub E s lo hi))"
proof -
  have v: "s_get_value S s (bad_at E j) = tm_true \<longleftrightarrow> holds F \<sigma> (bad_at E j)" for j
    using value_true [OF assms(1)] at_sort assms(5) by (simp add: bad_at_def)
  have "find (\<lambda>j. s_get_value S s (bad_at E j) = tm_true) [lo..hi] \<noteq> None"
    using assms(2-4) v by (auto simp: find_None_iff)
  then obtain k where k: "find (\<lambda>j. s_get_value S s (bad_at E j) = tm_true) [lo..hi] = Some k" by blast
  then have "k \<in> set [lo..hi]" "s_get_value S s (bad_at E k) = tm_true"
    by (auto simp: find_Some_iff)
  with v k show "lo \<le> get_cex_ub E s lo hi" "get_cex_ub E s lo hi \<le> hi"
    "holds F \<sigma> (bad_at E (get_cex_ub E s lo hi))" by (simp_all add: get_cex_ub_def)
qed

text \<open>
  The incremental binary search: the clause for the interval stays \<open>d\<close> levels below the search's
  own levels, and every bound of the interval outside \<open>[low, high]\<close> is blocked.
\<close>

lemma bin_search_sound:
  assumes "nat (high - low) < n" and "get_sort bad = BOOL"
    and "low \<le> high" and "low = pr_reached_k p + 1" and "r0 \<le> pr_reached_k p" and "-1 \<le> r0"
    and "high \<le> i" and "deep (bm_bin_frames p + d) (insert (bad_clause E (r0 + 1) i) (base i)) (pr_solver p)"
    and "deep (bm_bin_frames p + Suc d) (base i) (pr_solver p)"
    and "\<And>j. r0 < j \<Longrightarrow> j \<le> i \<Longrightarrow> j < low \<or> high < j \<Longrightarrow> not_bad_at E j \<in> asserted (pr_solver p)"
  shows "\<exists>ok p'. bin_search E n low high p = Inr (ok, p')
    \<and> (if ok then cex_model i p' else deep (bm_bin_frames p' + Suc d) (base i) (pr_solver p'))"
  using assms
proof (induction n arbitrary: low high p)
  case 0
  then show ?case by simp
next
  case (Suc n)
  note fuel = Suc.prems(1) and sort = Suc.prems(2) and lh = Suc.prems(3) and low = Suc.prems(4)
    and r0 = Suc.prems(5,6) and hi = Suc.prems(7) and deeps = Suc.prems(8,9) and blk = Suc.prems(10)
  let ?mid = "low + (high - low) div 2"
  let ?p1 = "(on_solver (\<lambda>s. block_cex_ub E (?mid + 1) high (s_push S s)) p)
    \<lparr>bm_bin_frames := bm_bin_frames p + 1\<rparr>"
  let ?X = "insert (bad_clause E (r0 + 1) i) (base i)"
  obtain r s2 where c: "s_check S (pr_solver ?p1) = (r, s2)" by (rule prod.exhaust)
  let ?p2 = "?p1\<lparr>pr_solver := s2\<rparr>"
  have mid: "low \<le> ?mid" "?mid \<le> high" "low < high \<Longrightarrow> ?mid < high" using lh by auto
  have d1: "deep (bm_bin_frames p + 1 + d) ?X (pr_solver ?p1)"
    using deep_block [OF deep_push [OF deeps(1)]] by simp
  have d2: "deep (bm_bin_frames p + 1 + Suc d) (base i) (pr_solver ?p1)"
    using deep_block [OF deep_push [OF deeps(2)]] by simp
  have d1': "deep (bm_bin_frames p + 1 + d) ?X s2" and d2': "deep (bm_bin_frames p + 1 + Suc d) (base i) s2"
    using d1 d2 frames_check' [OF c] by auto
  have blocked: "not_bad_at E j \<in> asserted (pr_solver ?p1)"
    if "r0 < j" "j \<le> i" "j < low \<or> ?mid < j" for j
    using that blk [of j] by (cases "j < low \<or> high < j") (auto simp: asserted_block)
  have as2: "asserted s2 = asserted (pr_solver ?p1)" using asserted_check [OF c] .
  have X: "?X \<subseteq> asserted (pr_solver ?p1)" using deep_asserted [OF d1] .
  have found: "\<exists>j. low \<le> j \<and> j \<le> ?mid \<and> j \<le> i \<and> holds F \<sigma> (bad_at E j)"
    if h: "\<And>t. t \<in> asserted (pr_solver ?p1) \<Longrightarrow> holds F \<sigma> t" for \<sigma>
  proof -
    have "holds F \<sigma> (bad_clause E (r0 + 1) i)" using X h by blast
    then obtain j where j: "r0 + 1 \<le> j" "j \<le> i" "holds F \<sigma> (bad_at E j)"
      by (auto simp: holds_bad_clause)
    have "\<not> (j < low \<or> ?mid < j)" using blocked [of j] h j holds_not_bad by force
    with j show ?thesis by (intro exI [of _ j]) auto
  qed
  show ?case
  proof (cases "r = SAT")
    case sat: True
    with c have cs: "s_check S (pr_solver ?p1) = (SAT, s2)" by simp
    show ?thesis
    proof (cases "low = ?mid")
      case True
      with lh c sat have p': "bin_search E (Suc n) low high p = Inr (True, ?p2)" by (auto simp: Let_def)
      have "cex_model i ?p2"
      proof (rule cex_modelI)
        show "s_check S (pr_solver ?p1) = (SAT, pr_solver ?p2)" using cs by simp
        show "base i \<subseteq> asserted (pr_solver ?p1)" using X by blast
        show "pr_reached_k ?p2 + 1 \<le> i" using low lh hi by simp
        fix \<sigma> assume "\<And>t. t \<in> asserted (pr_solver ?p1) \<Longrightarrow> holds F \<sigma> t"
        from found [OF this] obtain j where
          "low \<le> j" "j \<le> ?mid" "j \<le> i" "holds F \<sigma> (bad_at E j)" by blast
        with True low r0 show "\<exists>j. 0 \<le> j \<and> j \<le> pr_reached_k ?p2 + 1 \<and> holds F \<sigma> (bad_at E j)"
          by (intro exI [of _ j]) auto
      qed
      with p' show ?thesis by (intro exI [of _ True] exI [of _ ?p2]) simp
    next
      case False
      let ?h = "get_cex_ub E s2 low ?mid"
      let ?q = "on_solver (block_cex_ub E (?h + 1) ?mid) ?p2"
      obtain \<sigma> where m: "has_model s2 \<sigma>" "\<And>t. t \<in> asserted (pr_solver ?p1) \<Longrightarrow> holds F \<sigma> t"
        using check_sat_model [OF cs] by blast
      from found [OF m(2)] obtain j where j: "low \<le> j" "j \<le> ?mid" "holds F \<sigma> (bad_at E j)" by blast
      note h = get_cex_ub_model [OF m(1) j sort]
      have rec: "bin_search E (Suc n) low high p = bin_search E n low ?h ?q"
        using lh c sat False by (simp add: Let_def)
      show ?thesis unfolding rec
      proof (rule Suc.IH [OF _ sort h(1)])
        show "nat (?h - low) < n" using h(1,2) mid fuel False by linarith
        show "?h \<le> i" using h(2) mid hi by simp
        show "low = pr_reached_k ?q + 1" "r0 \<le> pr_reached_k ?q" "-1 \<le> r0" using low r0 by simp_all
        show "deep (bm_bin_frames ?q + d) ?X (pr_solver ?q)" using deep_block [OF d1'] by simp
        show "deep (bm_bin_frames ?q + Suc d) (base i) (pr_solver ?q)" using deep_block [OF d2'] by simp
        show "not_bad_at E j \<in> asserted (pr_solver ?q)" if "r0 < j" "j \<le> i" "j < low \<or> ?h < j" for j
          using that blocked [of j] as2 by (cases "j \<le> ?mid \<and> \<not> j < low") (auto simp: asserted_block)
      qed
    qed
  next
    case False
    show ?thesis
    proof (cases "low \<ge> high")
      case True
      with lh c False have "bin_search E (Suc n) low high p = Inr (False, ?p2)" by (auto simp: Let_def)
      with d2' show ?thesis
        by (intro exI [of _ False] exI [of _ ?p2]) (simp add: deep_mono [of "bm_bin_frames p + 1 + Suc d"])
    next
      case lt: False
      let ?q = "(on_solver (\<lambda>s. block_cex_ub E low ?mid (s_pop S s)) ?p2)
        \<lparr>bm_bin_frames := bm_bin_frames ?p2 - 1, pr_reached_k := ?mid\<rparr>"
      have rec: "bin_search E (Suc n) low high p = bin_search E n (?mid + 1) high ?q"
        using lh c False lt by (simp add: Let_def)
      have "frames (s_pop S s2) = frames (s_pop S (pr_solver ?p1))"
        by (simp add: frames_pop frames_check [OF c])
      also have "\<dots> = frames (pr_solver p)" by (simp add: pop_block_push)
      finally have fr: "frames (s_pop S s2) = frames (pr_solver p)" .
      show ?thesis unfolding rec
      proof (rule Suc.IH [OF _ sort])
        show "nat (high - (?mid + 1)) < n" using mid lt fuel by linarith
        show "?mid + 1 \<le> high" using mid(3) lt by simp
        show "high \<le> i" by (rule hi)
        show "?mid + 1 = pr_reached_k ?q + 1" "-1 \<le> r0" using r0 by simp_all
        show "r0 \<le> pr_reached_k ?q" using low r0 mid(1) by simp
        show "deep (bm_bin_frames ?q + d) ?X (pr_solver ?q)"
          using deep_block deeps(1) deep_frames [OF fr] by simp
        show "deep (bm_bin_frames ?q + Suc d) (base i) (pr_solver ?q)"
          using deep_block deeps(2) deep_frames [OF fr] by simp
        show "not_bad_at E j \<in> asserted (pr_solver ?q)"
          if "r0 < j" "j \<le> i" "j < ?mid + 1 \<or> high < j" for j
          using blk [of j] that asserted_frames [OF fr]
          by (cases "low \<le> j \<and> j \<le> ?mid") (auto simp: asserted_block)
      qed
    qed
  qed
qed

text \<open>
  The less incremental search.  Its last level always holds one clause; what is below stays
  satisfiable together with the bad state at \<open>high\<close>.
\<close>

definition below :: "'s \<Rightarrow> tm set" where
  "below s = set (concat (tl (frames s)))"

lemma below_asserted: "below s \<subseteq> asserted s"
  by (cases "frames s") (auto simp: below_def asserted_def)

lemma below_push: "below (s_assert S t (s_push S (s_pop S s))) = below s"
  by (simp add: below_def frames_assert frames_push frames_pop)

lemma asserted_pop: "asserted (s_pop S s) = below s"
  by (simp add: below_def asserted_def frames_pop)

lemma less_inc_search_sound:
  assumes "nat (high - low) < n" and "get_sort bad = BOOL"
    and dec: "\<And>s s'. s_check S s \<noteq> (UNKNOWN, s')"
    and "low \<le> high" and "high \<le> i" and "low = pr_reached_k p + 1" and "-1 \<le> pr_reached_k p"
    and "base i \<subseteq> below (pr_solver p)"
    and "\<exists>\<sigma>. wsorted \<sigma> \<and> (\<forall>t \<in> below (pr_solver p). holds F \<sigma> t) \<and> holds F \<sigma> (bad_at E high)"
  shows "\<exists>p'. less_inc_search E n low high p = Inr (True, p') \<and> cex_model i p'"
  using assms(1,2,4-)
proof (induction n arbitrary: low high p)
  case 0
  then show ?case by simp
next
  case (Suc n)
  note fuel = Suc.prems(1) and sort = Suc.prems(2) and lh = Suc.prems(3) and hi = Suc.prems(4)
    and low = Suc.prems(5) and r0 = Suc.prems(6) and bas = Suc.prems(7) and ex = Suc.prems(8)
  let ?mid = "low + (high - low) div 2"
  let ?p1 = "on_solver (\<lambda>s. s_assert S (bad_clause E low ?mid) (s_push S (s_pop S s))) p"
  obtain r s2 where c: "s_check S (pr_solver ?p1) = (r, s2)" by (rule prod.exhaust)
  let ?p2 = "?p1\<lparr>pr_solver := s2\<rparr>"
  have mid: "low \<le> ?mid" "?mid \<le> high" using lh by auto
  have as: "asserted (pr_solver ?p1) = insert (bad_clause E low ?mid) (below (pr_solver p))"
    by (simp add: asserted_pop)
  have bel: "below s2 = below (pr_solver p)"
    using frames_check [OF c] below_push by (simp add: below_def)
  have found: "\<exists>j. low \<le> j \<and> j \<le> ?mid \<and> holds F \<sigma> (bad_at E j)"
    if "\<And>t. t \<in> asserted (pr_solver ?p1) \<Longrightarrow> holds F \<sigma> t" for \<sigma>
    using that [of "bad_clause E low ?mid"] as by (auto simp: holds_bad_clause)
  show ?case
  proof (cases "r = SAT")
    case True
    with c have cs: "s_check S (pr_solver ?p1) = (SAT, s2)" by simp
    obtain \<sigma> where m: "has_model s2 \<sigma>" "\<And>t. t \<in> asserted (pr_solver ?p1) \<Longrightarrow> holds F \<sigma> t"
      using check_sat_model [OF cs] by blast
    show ?thesis
    proof (cases "low = ?mid")
      case True
      with lh cs have p': "less_inc_search E (Suc n) low high p = Inr (True, ?p2)" by (auto simp: Let_def)
      have "cex_model i ?p2"
      proof (rule cex_modelI)
        show "s_check S (pr_solver ?p1) = (SAT, pr_solver ?p2)" using cs by simp
        show "base i \<subseteq> asserted (pr_solver ?p1)" using bas as by blast
        show "pr_reached_k ?p2 + 1 \<le> i" using low lh hi by simp
        fix \<sigma> assume "\<And>t. t \<in> asserted (pr_solver ?p1) \<Longrightarrow> holds F \<sigma> t"
        from found [OF this] obtain j where "low \<le> j" "j \<le> ?mid" "holds F \<sigma> (bad_at E j)" by blast
        with True low r0 mid hi show "\<exists>j. 0 \<le> j \<and> j \<le> pr_reached_k ?p2 + 1 \<and> holds F \<sigma> (bad_at E j)"
          by (intro exI [of _ j]) auto
      qed
      with p' show ?thesis by blast
    next
      case False
      let ?h = "get_cex_ub E s2 low ?mid"
      from found [OF m(2)] obtain j where j: "low \<le> j" "j \<le> ?mid" "holds F \<sigma> (bad_at E j)" by blast
      note h = get_cex_ub_model [OF m(1) j sort]
      have rec: "less_inc_search E (Suc n) low high p = less_inc_search E n low ?h ?p2"
        using lh cs False by (simp add: Let_def)
      show ?thesis unfolding rec
      proof (rule Suc.IH [OF _ sort h(1)])
        show "nat (?h - low) < n" using h(1,2) mid fuel False by linarith
        show "?h \<le> i" using h(2) mid hi by simp
        show "low = pr_reached_k ?p2 + 1" "-1 \<le> pr_reached_k ?p2" using low r0 by simp_all
        show "base i \<subseteq> below (pr_solver ?p2)" using bas bel by simp
        show "\<exists>\<sigma>. wsorted \<sigma> \<and> (\<forall>t \<in> below (pr_solver ?p2). holds F \<sigma> t) \<and> holds F \<sigma> (bad_at E ?h)"
          using m h(3) bel as by (intro exI [of _ \<sigma>]) (auto simp: has_model_def)
      qed
    qed
  next
    case False
    with c dec have cu: "s_check S (pr_solver ?p1) = (UNSAT, s2)" by (cases r) auto
    let ?q = "?p2\<lparr>pr_reached_k := ?mid\<rparr>"
    have lt: "?mid < high"
    proof (rule ccontr)
      assume "\<not> ?mid < high"
      with mid have e: "?mid = high" by simp
      from ex obtain \<sigma> where s: "wsorted \<sigma>" "\<forall>t \<in> below (pr_solver p). holds F \<sigma> t" "holds F \<sigma> (bad_at E high)"
        by blast
      have "holds F \<sigma> (bad_clause E low ?mid)"
        using s(3) lh e by (simp only: holds_bad_clause) auto
      then have "holds F \<sigma> t" if "t \<in> asserted (pr_solver ?p1)" for t
        using that s(2) unfolding as by blast
      with check_UNSAT_no_model [OF cu s(1)] show False by simp
    qed
    have rec: "less_inc_search E (Suc n) low high p = less_inc_search E n (?mid + 1) high ?q"
      using lh cu by (simp add: Let_def)
    show ?thesis unfolding rec
    proof (rule Suc.IH [OF _ sort _ hi])
      show "nat (high - (?mid + 1)) < n" using mid lt fuel by linarith
      show "?mid + 1 \<le> high" using lt by simp
      show "?mid + 1 = pr_reached_k ?q + 1" by simp
      show "-1 \<le> pr_reached_k ?q" using low r0 mid(1) by simp
      show "base i \<subseteq> below (pr_solver ?q)" using bas bel by simp
      show "\<exists>\<sigma>. wsorted \<sigma> \<and> (\<forall>t \<in> below (pr_solver ?q). holds F \<sigma> t) \<and> holds F \<sigma> (bad_at E high)"
        using ex bel by simp
    qed
  qed
qed

lemma linear_search_sound:
  assumes "linear_search E [lo..hi] p = Inr p'" and "lo = pr_reached_k p + 1" and "0 \<le> lo"
    and "hi \<le> i" and "base i \<subseteq> below (pr_solver p)"
  shows "cex_model i p'"
  using assms
proof (induction "nat (hi + 1 - lo)" arbitrary: lo p)
  case 0
  then show ?case by simp
next
  case (Suc n)
  then have e: "[lo..hi] = lo # [lo + 1..hi]" and n: "n = nat (hi + 1 - (lo + 1))" by (simp_all add: upto.simps)
  let ?p1 = "on_solver (\<lambda>s. s_assert S (bad_at E lo) (s_push S (s_pop S s))) p"
  obtain r s2 where c: "s_check S (pr_solver ?p1) = (r, s2)" by (rule prod.exhaust)
  have as: "asserted (pr_solver ?p1) = insert (bad_at E lo) (below (pr_solver p))"
    by (simp add: asserted_pop)
  have bel: "below s2 = below (pr_solver p)"
    using frames_check [OF c] below_push by (simp add: below_def)
  show ?case
  proof (cases "r = SAT")
    case True
    with Suc.prems(1) e c have p': "p' = ?p1\<lparr>pr_solver := s2\<rparr>" by (simp add: Let_def)
    have lo: "lo \<le> hi" using Suc.hyps(2) by simp
    show ?thesis
    proof (rule cex_modelI)
      show "s_check S (pr_solver ?p1) = (SAT, pr_solver p')" using c True p' by simp
      show "base i \<subseteq> asserted (pr_solver ?p1)" using Suc.prems(5) as by blast
      show "pr_reached_k p' + 1 \<le> i" using p' lo Suc.prems(2,4) by simp
      fix \<sigma> assume "\<And>t. t \<in> asserted (pr_solver ?p1) \<Longrightarrow> holds F \<sigma> t"
      with as have "holds F \<sigma> (bad_at E lo)" by blast
      with lo Suc.prems(2-4) p' show "\<exists>j. 0 \<le> j \<and> j \<le> pr_reached_k p' + 1 \<and> holds F \<sigma> (bad_at E j)"
        by (intro exI [of _ lo]) auto
    qed
  next
    case False
    let ?q = "?p1\<lparr>pr_solver := s2, pr_reached_k := lo\<rparr>"
    have "linear_search E [lo + 1..hi] ?q = Inr p'"
      using Suc.prems(1) e c False by (simp add: Let_def)
    then show ?thesis
      by (rule Suc.hyps(1) [OF n]) (use Suc.prems bel in simp_all)
  qed
qed


lemma deep_below: "deep (Suc n) X s \<Longrightarrow> X \<subseteq> below s"
  using deep_mono [of "Suc n" X s 1] by (auto simp: deep_def below_def drop_Suc)

lemma less_inc_decides:
  "bo_less_inc_bin_search opts \<longrightarrow> (\<forall>s s'. s_check S s \<noteq> (UNKNOWN, s')) \<Longrightarrow>
    bo_less_inc_bin_search opts \<Longrightarrow> s_check S s \<noteq> (UNKNOWN, s')"
  by blast

lemma minimise_sound:
  assumes m: "has_model (pr_solver p) \<sigma>" "\<And>t. t \<in> asserted (pr_solver p) \<Longrightarrow> holds F \<sigma> t"
    and dp: "deep 0 (insert (bad_clause E (pr_reached_k p + 1) i) (base i)) (pr_solver p)"
      "deep 1 (base i) (pr_solver p)"
    and r: "-1 \<le> pr_reached_k p" "pr_reached_k p < i" and fr: "bm_bin_frames p = 0"
    and sort: "get_sort bad = BOOL"
    and dec: "bo_less_inc_bin_search opts \<longrightarrow> (\<forall>s s'. s_check S s \<noteq> (UNKNOWN, s'))"
  shows "minimise_cex E opts i p \<noteq> Inl OutOfFuel
    \<and> (\<forall>ok p'. minimise_cex E opts i p = Inr (ok, p') \<longrightarrow> \<not> ok \<and> cex_model i p')"
proof -
  let ?r = "pr_reached_k p"
  let ?ub = "get_cex_ub E (pr_solver p) (?r + 1) i"
  have base: "base i \<subseteq> asserted (pr_solver p)" using deep_asserted [OF dp(1)] by blast
  have "holds F \<sigma> (bad_clause E (?r + 1) i)" using deep_asserted [OF dp(1)] m(2) by blast
  then obtain j where j: "?r + 1 \<le> j" "j \<le> i" "holds F \<sigma> (bad_at E j)"
    by (auto simp: holds_bad_clause)
  note ub = get_cex_ub_model [OF m(1) j sort]
  show ?thesis
  proof (cases "?ub - ?r = 1")
    case True
    let ?q = "p\<lparr>pr_reached_k := i - 1\<rparr>"
    have "cex_model i ?q" unfolding cex_model_def
      using m base j r by (intro conjI exI [of _ \<sigma>] exI [of _ j]) auto
    with True show ?thesis by (simp add: minimise_cex_def Let_def)
  next
    case False
    let ?d = "if ?ub + 1 \<le> i then 1 else 0 :: nat"
    let ?p1 = "if ?ub + 1 \<le> i then on_solver (s_push S) p else p"
    let ?p2 = "on_solver (block_cex_ub E (?ub + 1) i) ?p1"
    have p2: "pr_reached_k ?p2 = ?r" "bm_bin_frames ?p2 = 0" using fr by auto
    have d1: "deep ?d (insert (bad_clause E (?r + 1) i) (base i)) (pr_solver ?p1)"
      using dp(1) deep_push [OF dp(1)] by simp
    have d2: "deep (Suc ?d) (base i) (pr_solver ?p1)" using dp(2) deep_push [OF dp(2)] by simp
    note D = deep_block [OF d1, of "?ub + 1" i] deep_block [OF d2, of "?ub + 1" i]
    have blk: "not_bad_at E j \<in> asserted (pr_solver ?p2)"
      if "?r < j" "j \<le> i" "j < ?r + 1 \<or> ?ub < j" for j
      using that by (auto simp: asserted_block)
    have bel: "holds F \<sigma> t" if "t \<in> below (pr_solver ?p2)" for t
    proof (cases "?ub + 1 \<le> i")
      case True
      have "frames (pr_solver ?p2) = rev (map (not_bad_at E) [?ub + 1..i]) # frames (pr_solver p)"
        using True by (simp add: block_cex_ub_def frames_asserts frames_push)
      with that have "t \<in> asserted (pr_solver p)" by (simp add: below_def asserted_def)
      with m(2) show ?thesis by blast
    next
      case False
      then have "[?ub + 1..i] = []" by simp
      with that False have "t \<in> below (pr_solver p)" by (simp add: block_cex_ub_def asserts_def)
      with below_asserted m(2) show ?thesis by blast
    qed
    have bs: "base i \<subseteq> below (pr_solver ?p2)" using deep_below [OF D(2)] by simp
    have low: "?r + 1 \<le> ?ub" using ub(1) by simp
    have bin: "\<exists>ok q. find_shortest_cex_binary_search E ?ub ?p2 = Inr (ok, q)
      \<and> (if ok then cex_model i q else deep (bm_bin_frames q + Suc ?d) (base i) (pr_solver q))"
      unfolding find_shortest_cex_binary_search_def p2(1)
      by (rule bin_search_sound [where ?r0.0 = ?r]) (use sort low p2 r D blk ub(2) in simp_all)
    have less: "\<exists>q. find_shortest_cex_binary_search_less_inc E ?ub ?p2 = Inr (True, q) \<and> cex_model i q"
      if "bo_less_inc_bin_search opts"
      unfolding find_shortest_cex_binary_search_less_inc_def p2(1)
      by (rule less_inc_search_sound [OF _ sort less_inc_decides [OF dec that]])
        (use low ub p2 r bs bel m(1) in \<open>auto simp: has_model_def\<close>)
    define q2 d where "q2 = ?p2" and "d = ?d"
    have D2: "deep (bm_bin_frames q2 + Suc d) (base i) (pr_solver q2)"
      using D(2) p2(2) by (simp add: q2_def d_def)
    define good where "good ok q \<longleftrightarrow>
      (if ok then cex_model i q else deep (bm_bin_frames q + Suc d) (base i) (pr_solver q))" for ok q
    define srch where "srch = (if bo_linear_search opts then Inr (False, q2)
      else if \<not> bo_less_inc_bin_search opts then find_shortest_cex_binary_search E ?ub q2
      else find_shortest_cex_binary_search_less_inc E ?ub q2)"
    have "\<exists>ok q. srch = Inr (ok, q) \<and> good ok q"
    proof (cases "bo_linear_search opts")
      case True
      with D2 show ?thesis
        by (intro exI [of _ False] exI [of _ q2]) (simp add: srch_def good_def)
    next
      case nl: False
      show ?thesis
      proof (cases "bo_less_inc_bin_search opts")
        case True
        from less [OF this] nl True show ?thesis
          unfolding srch_def q2_def [symmetric] good_def by (metis (full_types))
      next
        case False
        from bin nl False show ?thesis
          unfolding srch_def q2_def [symmetric] d_def [symmetric] good_def by simp
      qed
    qed
    then obtain ok q where q: "srch = Inr (ok, q)" "good ok q" by blast
    define p4 where "p4 = (if ?ub + 1 \<le> i then on_solver (s_pop S) q else q)"
    define p5 where "p5 = on_solver (s_pop S ^^ bm_bin_frames p4)
      (p4\<lparr>pr_reached_k := ?r, bm_bin_frames := 2 ^ 32 - 1\<rparr>)"
    have unf: "minimise_cex E opts i p = (if ok then Inr (False, q)
      else bindE (find_shortest_cex_linear_search E ?ub p5) (\<lambda>p6. Inr (False, p6)))"
      unfolding minimise_cex_def Let_def if_not_P [OF False] q2_def [symmetric]
        srch_def [symmetric] q(1) bindE_simps
      by (cases ok) (simp_all add: p4_def p5_def)
    show ?thesis
    proof (cases ok)
      case True
      with q unf show ?thesis by (simp add: good_def)
    next
      case nok: False
      have "deep (bm_bin_frames q + Suc d) (base i) (pr_solver q)" using q(2) nok by (simp add: good_def)
      then have "deep (bm_bin_frames p4 + 1) (base i) (pr_solver p4)"
        by (auto simp: p4_def d_def intro: deep_pop)
      then have "deep 1 (base i) (pr_solver p5)" unfolding p5_def by (simp add: deep_pops)
      then have b5: "base i \<subseteq> below (pr_solver p5)" using deep_below [of 0] by simp
      have p5: "pr_reached_k p5 = ?r" by (simp add: p5_def)
      have lin: "find_shortest_cex_linear_search E ?ub p5 = linear_search E [?r + 1..?ub] p5"
        using False by (simp add: find_shortest_cex_linear_search_def p5)
      have "linear_search E [?r + 1..?ub] p5 = Inr p6 \<Longrightarrow> cex_model i p6" for p6
        using linear_search_sound [OF _ _ _ ub(2) b5] p5 r(1) by simp
      moreover have "linear_search E js p \<noteq> Inl OutOfFuel" for js p
        by (induction js arbitrary: p) (auto simp: Let_def split: prod.splits)
      ultimately show ?thesis using nok by (auto simp: unf lin bindE_Inr_iff bindE_Inl_iff)
    qed
  qed
qed

text \<open>When bounds are checked one at a time there is nothing to search for.\<close>

lemma minimise_single:
  assumes m: "has_model (pr_solver p) \<sigma>" and b: "holds F \<sigma> (bad_at E i)"
    and i: "i = pr_reached_k p + 1" and sort: "get_sort bad = BOOL"
  shows "\<exists>p'. minimise_cex E opts i p = Inr (False, p')"
proof -
  have "get_cex_ub E (pr_solver p) (pr_reached_k p + 1) i = i"
    using get_cex_ub_model [OF m _ _ b sort, of i i] i by simp
  with i show ?thesis by (simp add: minimise_cex_def Let_def)
qed

text \<open>
  The solver between two bounds: a path of length \<open>r\<close> is asserted, and besides it only
  negated initial and bad states at times up to \<open>r\<close>.
\<close>

definition neg_inits :: "int \<Rightarrow> tm set" where
  "neg_inits r = (\<lambda>j. mk_term B (op0 NotOp) [init_at (nat j)]) ` {1..r}"

definition neg_bads :: "int \<Rightarrow> tm set" where
  "neg_bads r = not_bad_at E ` {0..r}"

definition bmc_inv :: "'s bmc \<Rightarrow> bool" where
  "bmc_inv p \<longleftrightarrow> -1 \<le> pr_reached_k p \<and> bm_bin_frames p = 0
     \<and> deep 0 (base (pr_reached_k p)) (pr_solver p)
     \<and> asserted (pr_solver p) \<subseteq> base (pr_reached_k p) \<union> neg_inits (pr_reached_k p) \<union> neg_bads (pr_reached_k p)"

lemma base_mono: "i \<le> j \<Longrightarrow> base i \<subseteq> base j"
  by (auto simp: base_def)

lemma neg_mono: "i \<le> j \<Longrightarrow> neg_inits i \<subseteq> neg_inits j" "i \<le> j \<Longrightarrow> neg_bads i \<subseteq> neg_bads j"
  by (auto simp: neg_inits_def neg_bads_def)

lemma base_trans: "r < i \<Longrightarrow> -1 \<le> r \<Longrightarrow>
    base i = base r \<union> (\<lambda>j. trans_at (nat (j - 1))) ` {(if r = -1 then 1 else r + 1)..i}"
proof -
  assume r: "r < i" "-1 \<le> r"
  have "{..<nat i} = {..<nat r} \<union> (\<lambda>j. nat (j - 1)) ` {(if r = -1 then 1 else r + 1)..i}"
  proof (intro equalityI subsetI)
    fix m assume "m \<in> {..<nat i}"
    then show "m \<in> {..<nat r} \<union> (\<lambda>j. nat (j - 1)) ` {(if r = -1 then 1 else r + 1)..i}"
      using r by (cases "m < nat r") (auto intro!: image_eqI [of _ _ "int m + 1"])
  qed (use r in \<open>auto split: if_splits\<close>)
  then show ?thesis by (auto simp: base_def image_Un image_image)
qed

definition new_trans :: "bmc_opts \<Rightarrow> int \<Rightarrow> int \<Rightarrow> tm list" where
  "new_trans opts r i = (if i > 0 then
     concat (map (trans_formulas E opts) [(if r = -1 then 1 else r + 1)..i]) else [])"

lemma set_new_trans:
  assumes "r < i" "-1 \<le> r"
  shows "base i \<subseteq> base r \<union> set (new_trans opts r i)"
    and "set (new_trans opts r i) \<subseteq> base i \<union> neg_inits i"
proof -
  show "base i \<subseteq> base r \<union> set (new_trans opts r i)"
  proof (cases "i > 0")
    case True
    then show ?thesis
      unfolding base_trans [OF assms] by (auto simp: new_trans_def trans_formulas_def)
  next
    case False
    then show ?thesis by (auto simp: base_def)
  qed
  have "t \<in> base i \<union> neg_inits i" if t: "t \<in> set (new_trans opts r i)" for t
  proof -
    from t obtain j where j: "(if r = -1 then 1 else r + 1) \<le> j" "j \<le> i" "t \<in> set (trans_formulas E opts j)"
      by (auto simp: new_trans_def split: if_splits)
    then have j1: "1 \<le> j" using assms by (auto split: if_splits)
    from j(3) consider "t = trans_at (nat (j - 1))" | "t = mk_term B (op0 NotOp) [init_at (nat j)]"
      by (auto simp: trans_formulas_def split: if_splits)
    then show ?thesis
    proof cases
      case 1
      with j j1 show ?thesis by (auto simp: base_def)
    next
      case 2
      with j(2) j1 show ?thesis by (auto simp: neg_inits_def)
    qed
  qed
  then show "set (new_trans opts r i) \<subseteq> base i \<union> neg_inits i" by blast
qed

lemma step_sound:
  assumes inv: "bmc_inv p" and i: "pr_reached_k p < i" and sort: "get_sort bad = BOOL"
    and dec: "bo_less_inc_bin_search opts \<longrightarrow> (\<forall>s s'. s_check S s \<noteq> (UNKNOWN, s'))"
  shows "bmc_step E opts i p \<noteq> Inl OutOfFuel"
    and "i = pr_reached_k p + 1 \<Longrightarrow> \<exists>ok p'. bmc_step E opts i p = Inr (ok, p')"
    and "bmc_step E opts i p = Inr (False, p') \<Longrightarrow> cex_model i p'"
    and "bmc_step E opts i p = Inr (True, p') \<Longrightarrow> bmc_inv p' \<and> pr_reached_k p' = i
      \<and> (\<exists>s r s3. asserted s \<subseteq> insert (if bo_single_bad_state opts then bad_at E i
             else bad_clause E (pr_reached_k p + 1) i) (base i \<union> neg_inits i \<union> neg_bads (pr_reached_k p))
           \<and> r \<noteq> SAT \<and> s_check S s = (r, s3))"
proof -
  let ?r = "pr_reached_k p"
  let ?clause = "if \<not> bo_single_bad_state opts then bad_clause E (?r + 1) i else bad_at E i"
  let ?s1 = "asserts S (new_trans opts ?r i) (pr_solver p)"
  let ?s2 = "s_assert S ?clause (s_push S ?s1)"
  have rr: "-1 \<le> ?r" "bm_bin_frames p = 0" using inv by (simp_all add: bmc_inv_def)
  note nt = set_new_trans [OF i rr(1), of opts]
  have s1: "deep 0 (base i) ?s1"
  proof -
    have "deep 0 (base ?r) ?s1" using inv deep_asserts by (simp add: bmc_inv_def)
    moreover have "deep 0 (set (new_trans opts ?r i)) ?s1"
      using inv deep_new by (auto simp: bmc_inv_def deep_def)
    ultimately have "deep 0 (base ?r \<union> set (new_trans opts ?r i)) ?s1" by (simp add: deep_def)
    with deep_subset nt(1) show ?thesis by blast
  qed
  have as1: "asserted ?s1 \<subseteq> base i \<union> neg_inits i \<union> neg_bads ?r"
  proof -
    have "asserted (pr_solver p) \<subseteq> base i \<union> neg_inits i \<union> neg_bads ?r"
      using inv base_mono [of ?r i] neg_mono [of ?r i] i unfolding bmc_inv_def by force
    with nt(2) show ?thesis by auto
  qed
  have s2: "deep 1 (base i) ?s2" "?clause \<in> asserted ?s2" "asserted ?s2 = insert ?clause (asserted ?s1)"
    using deep_assert [OF deep_push [OF s1]] by simp_all
  obtain r s3 where c: "s_check S ?s2 = (r, s3)" by (rule prod.exhaust)
  have s3: "deep 1 (base i) s3" using s2(1) frames_check' [OF c] by simp
  let ?p3 = "p\<lparr>pr_solver := s3\<rparr>"
  have p1: "(if i > 0 then on_solver (asserts S (concat (map (trans_formulas E opts)
        [(if ?r = -1 then 1 else ?r + 1)..i]))) p else p) = p\<lparr>pr_solver := ?s1\<rparr>"
    by (simp add: on_solver_def new_trans_def asserts_def)
  have step: "bmc_step E opts i p = (if r = SAT then
      (if bo_allow_non_minimal opts then Inr (False, ?p3\<lparr>pr_reached_k := i - 1\<rparr>)
       else if \<not> bo_single_bad_state opts then minimise_cex E opts i ?p3
       else Inr (False, ?p3\<lparr>pr_reached_k := i - 1\<rparr>))
     else Inr (True, p\<lparr>pr_solver := asserts S (neg_bad_formulas E opts ?r i) (s_pop S s3),
        pr_reached_k := i\<rparr>))"
    unfolding bmc_step_def Let_def p1 using i c by (simp add: on_solver_def)
  have sat: "bmc_step E opts i p \<noteq> Inl OutOfFuel
      \<and> (\<forall>ok p'. bmc_step E opts i p = Inr (ok, p') \<longrightarrow> \<not> ok \<and> cex_model i p')
      \<and> (i = ?r + 1 \<longrightarrow> (\<exists>ok p'. bmc_step E opts i p = Inr (ok, p')))" if sat: "r = SAT"
  proof -
    have cs: "s_check S ?s2 = (SAT, s3)" using c sat by simp
    show ?thesis
    proof (cases "bo_allow_non_minimal opts \<or> bo_single_bad_state opts")
      case True
      have "cex_model i (?p3\<lparr>pr_reached_k := i - 1\<rparr>)"
      proof (rule cex_modelI)
        show "s_check S ?s2 = (SAT, pr_solver (?p3\<lparr>pr_reached_k := i - 1\<rparr>))" using cs by simp
        show "base i \<subseteq> asserted ?s2" using deep_asserted [OF s2(1)] .
        fix \<sigma> assume "\<And>t. t \<in> asserted ?s2 \<Longrightarrow> holds F \<sigma> t"
        then have "holds F \<sigma> ?clause" using s2(2) by blast
        then have "\<exists>j. ?r + 1 \<le> j \<and> j \<le> i \<and> holds F \<sigma> (bad_at E j)"
          using i by (cases "bo_single_bad_state opts") (auto simp: holds_bad_clause intro: exI [of _ i])
        then obtain j where "?r + 1 \<le> j" "j \<le> i" "holds F \<sigma> (bad_at E j)" by blast
        then show "\<exists>j. 0 \<le> j \<and> j \<le> pr_reached_k (?p3\<lparr>pr_reached_k := i - 1\<rparr>) + 1 \<and> holds F \<sigma> (bad_at E j)"
          using rr by (intro exI [of _ j]) simp
      qed simp
      with step sat True show ?thesis by auto
    next
      case False
      obtain \<sigma> where m: "has_model s3 \<sigma>" "\<And>t. t \<in> asserted ?s2 \<Longrightarrow> holds F \<sigma> t"
        using check_sat_model [OF cs] by blast
      have a3: "asserted s3 = asserted ?s2" using asserted_check [OF c] .
      have "deep 0 (insert (bad_clause E (?r + 1) i) (base i)) s3"
        using deep_mono [OF s3, of 0] s2(2) False a3
        by (auto simp: deep_def asserted_def)
      note d3 = this
      have "minimise_cex E opts i ?p3 \<noteq> Inl OutOfFuel
        \<and> (\<forall>ok p'. minimise_cex E opts i ?p3 = Inr (ok, p') \<longrightarrow> \<not> ok \<and> cex_model i p')"
        by (rule minimise_sound [where \<sigma> = \<sigma>, OF _ _ _ _ _ _ _ sort dec]) (use m a3 d3 s3 rr i in simp_all)
      moreover have "\<exists>p'. minimise_cex E opts i ?p3 = Inr (False, p')" if ii: "i = ?r + 1"
      proof (rule minimise_single [OF _ _ _ sort])
        show "has_model (pr_solver ?p3) \<sigma>" "i = pr_reached_k ?p3 + 1" using m(1) ii by simp_all
        have "holds F \<sigma> (bad_clause E i i)" using m(2) s2(2) False ii by auto
        then show "holds F \<sigma> (bad_at E i)" unfolding holds_bad_clause by auto
      qed
      ultimately show ?thesis using step sat False by auto
    qed
  qed
  show "bmc_step E opts i p \<noteq> Inl OutOfFuel" using sat step by (cases "r = SAT") auto
  show "i = ?r + 1 \<Longrightarrow> \<exists>ok p'. bmc_step E opts i p = Inr (ok, p')"
    using sat step by (cases "r = SAT") auto
  show "cex_model i p'" if "bmc_step E opts i p = Inr (False, p')"
    using that sat step by (cases "r = SAT") auto
  assume t: "bmc_step E opts i p = Inr (True, p')"
  have ns: "r \<noteq> SAT" using t sat by blast
  with t step have p': "p' = p\<lparr>pr_solver := asserts S (neg_bad_formulas E opts ?r i) (s_pop S s3), pr_reached_k := i\<rparr>"
    by simp
  have fr: "frames (s_pop S s3) = frames ?s1"
    by (simp add: frames_pop frames_check [OF c] frames_assert frames_push)
  have "set (neg_bad_formulas E opts ?r i) \<subseteq> neg_bads i"
    using rr i by (auto simp: neg_bad_formulas_def neg_bads_def)
  then have "asserted (pr_solver p') \<subseteq> base i \<union> neg_inits i \<union> neg_bads i"
    using as1 neg_mono(2) [of ?r i] i by (auto simp: p' asserted_frames [OF fr])
  moreover have "deep 0 (base i) (pr_solver p')"
    using s1 by (simp add: p' deep_asserts deep_frames [OF fr])
  ultimately have "bmc_inv p'" using rr i by (simp add: bmc_inv_def p')
  then show "bmc_inv p' \<and> pr_reached_k p' = i
      \<and> (\<exists>s r s3. asserted s \<subseteq> insert (if bo_single_bad_state opts then bad_at E i
             else bad_clause E (?r + 1) i) (base i \<union> neg_inits i \<union> neg_bads ?r)
           \<and> r \<noteq> SAT \<and> s_check S s = (r, s3))"
    using c ns s2(3) as1 by (intro conjI exI [of _ ?s2] exI [of _ r] exI [of _ s3]) (auto simp: p')
qed

subsection \<open>The whole engine\<close>

lemma bmc_init_ok:
  "bmc_initialize E (new_bmc s) = Inr p \<Longrightarrow> bmc_inv p \<and> pr_reached_k p = -1"
  "\<exists>p. bmc_initialize E (new_bmc s) = Inr p"
proof -
  have "only_curr sys bad" using bad_current by (simp add: only_curr_iff)
  then have e: "bmc_initialize E (new_bmc s) = Inr ((new_bmc s)\<lparr>pr_initialized := True, pr_reached_k := -1,
      pr_solver := s_assert S (init_at 0) (s_reset_assertions S s)\<rparr>)"
    by (simp add: bmc_initialize_def prover_initialize_def new_bmc_def on_solver_def)
  have "frames (s_assert S (init_at 0) (s_reset_assertions S s)) = [[init_at 0]]"
    by (simp add: frames_assert frames_reset)
  then have "deep 0 (base (-1)) (s_assert S (init_at 0) (s_reset_assertions S s))
      \<and> asserted (s_assert S (init_at 0) (s_reset_assertions S s)) \<subseteq> base (-1)"
    by (simp add: deep_def base_def asserted_def)
  note init = this
  show "bmc_inv p \<and> pr_reached_k p = -1" if "bmc_initialize E (new_bmc s) = Inr p"
  proof -
    from that e have "p = (new_bmc s)\<lparr>pr_initialized := True, pr_reached_k := -1,
      pr_solver := s_assert S (init_at 0) (s_reset_assertions S s)\<rparr>" by simp
    with init show ?thesis by (auto simp: bmc_inv_def new_bmc_def)
  qed
  show "\<exists>p. bmc_initialize E (new_bmc s) = Inr p" using e by blast
qed

lemma step_reached: "i \<le> pr_reached_k p \<Longrightarrow> bmc_step E opts i p = Inr (True, p)"
  by (simp add: bmc_step_def Let_def)

lemma loop_false:
  assumes "get_sort bad = BOOL"
    and dec: "bo_less_inc_bin_search opts \<longrightarrow> (\<forall>s s'. s_check S s \<noteq> (UNKNOWN, s'))"
  shows "bmc_inv p \<Longrightarrow> bmc_loop E opts n k i p = Inr (PR_FALSE, p') \<Longrightarrow>
    \<exists>p1 i. i \<le> k \<and> cex_model i p1 \<and> pr_witness p1 = pr_witness p \<and> p' = compute_witness E p1"
proof (induction n arbitrary: i p)
  case (Suc n)
  show ?case
  proof (cases "i \<le> k")
    case True
    with Suc.prems(2) obtain ok p1 where s: "bmc_step E opts i p = Inr (ok, p1)"
      and rest: "(if \<not> ok then Inr (PR_FALSE, compute_witness E p1)
          else bindE (next_bound opts i) (\<lambda>i1. bmc_loop E opts n k i1 p1)) = Inr (PR_FALSE, p')"
      by (auto simp: bindE_Inr_iff)
    have w: "pr_witness p1 = pr_witness p" using step_witness [OF s] .
    show ?thesis
    proof (cases ok)
      case ok: True
      have "bmc_inv p1"
      proof (cases "i \<le> pr_reached_k p")
        case True
        with s step_reached [of i p opts] Suc.prems(1) show ?thesis by simp
      next
        case False
        with step_sound(4) [OF Suc.prems(1) _ assms, of i p1] s ok show ?thesis by simp
      qed
      with rest ok w Suc.IH show ?thesis by (fastforce simp: bindE_Inr_iff)
    next
      case False
      have "\<not> i \<le> pr_reached_k p" using s False step_reached [of i p opts] by auto
      with step_sound(3) [OF Suc.prems(1) _ assms, of i p1] s False have "cex_model i p1" by simp
      with rest False True w show ?thesis by auto
    qed
  qed (use Suc.prems in simp)
qed simp

lemma compute_witness_fields:
  "pr_reached_k (compute_witness E p) = pr_reached_k p" "pr_solver (compute_witness E p) = pr_solver p"
  by (simp_all add: compute_witness_def)

lemma cex_model_witness:
  assumes c: "cex_model i p" and w: "pr_witness p = []" and r: "-1 \<le> pr_reached_k p"
  shows "\<exists>\<pi>. ts_path F sys \<pi> (nat (pr_reached_k p + 1))
    \<and> (\<exists>j \<le> nat (pr_reached_k p + 1). holds F (\<pi> j) bad)
    \<and> length (pr_witness (compute_witness E p)) = nat (pr_reached_k p + 1) + 1
    \<and> (\<forall>m \<le> nat (pr_reached_k p + 1). \<forall>v \<in> set (ts_statevars sys) \<union> set (ts_inputvars sys).
          map_of (pr_witness (compute_witness E p) ! m) v = Some (Val (\<pi> m (sym_of v)) (get_sort v)))"
proof -
  let ?n = "nat (pr_reached_k p + 1)"
  from c obtain \<sigma> j where m: "has_model (pr_solver p) \<sigma>" "\<forall>t \<in> base i. holds F \<sigma> t"
    "0 \<le> j" "j \<le> pr_reached_k p + 1" "holds F \<sigma> (bad_at E j)" and le: "pr_reached_k p + 1 \<le> i"
    by (auto simp: cex_model_def)
  have tr: "holds F \<sigma> (trans_at q)" if "q < ?n" for q using m(2) that le by (auto simp: base_def)
  from m(2) have "holds F \<sigma> (init_at 0)" by (simp add: base_def)
  from model_witness [OF m(1) this tr w r] obtain \<pi> where p: "unrolls_to F sys at \<sigma> \<pi>" "ts_path F sys \<pi> ?n"
    "length (pr_witness (compute_witness E p)) = ?n + 1"
    "\<forall>m \<le> ?n. \<forall>v \<in> set (ts_statevars sys) \<union> set (ts_inputvars sys).
       map_of (pr_witness (compute_witness E p) ! m) v = Some (Val (\<pi> m (sym_of v)) (get_sort v))"
    by blast
  have "holds F (\<pi> (nat j)) bad"
    using m(5) unrolls_current [OF p(1) bad_cur] by (simp add: bad_at_def)
  moreover have "nat j \<le> ?n" using m(4) by simp
  ultimately show ?thesis using p(2-4) by blast
qed

text \<open>The formulas of the engine under an assignment that stands for a path.\<close>

lemma path_formulas:
  assumes p: "ts_initial F sys (\<pi> 0)" "segment F sys \<pi> k"
  obtains \<sigma> where "wsorted \<sigma>" and "\<And>t. t \<in> base (int k) \<Longrightarrow> holds F \<sigma> t"
    and "\<And>j. j \<le> k \<Longrightarrow> holds F \<sigma> (bad_at E (int j)) \<longleftrightarrow> holds F (\<pi> j) bad"
    and "\<And>j. j \<le> k \<Longrightarrow> holds F \<sigma> (init_at j) \<longleftrightarrow> ts_initial F sys (\<pi> j)"
proof -
  obtain \<sigma> \<rho> where m: "wsorted \<sigma>" "unrolls_to F sys at \<sigma> \<rho>" "all_states \<rho>"
    "\<And>i. i \<le> k \<Longrightarrow> \<rho> i = \<pi> i" "\<And>i. i < k \<Longrightarrow> holds F \<sigma> (trans_at i)"
    using segment_model [OF p(2)] by blast
  have init_cur: "current (ts_init sys)"
    using covered_mono [OF forms_ok_parts(1) [OF wf_parts(3) [OF system_wf]]] by blast
  have bd: "holds F \<sigma> (bad_at E (int j)) \<longleftrightarrow> holds F (\<pi> j) bad" if "j \<le> k" for j
    using unrolls_current [OF m(2) bad_cur, of j] m(4) [OF that] by (simp add: bad_at_def)
  have ini: "holds F \<sigma> (init_at j) \<longleftrightarrow> ts_initial F sys (\<pi> j)" if "j \<le> k" for j
    using unrolls_current [OF m(2) init_cur, of j] m(3) m(4) [OF that]
    by (auto simp: ts_initial_def all_states_def) metis
  have "holds F \<sigma> t" if "t \<in> base (int k)" for t using that m(5) ini [of 0] p(1) by (auto simp: base_def)
  from that [OF m(1) this bd ini] show thesis by blast
qed

text \<open>With every bound checked in turn: an unsatisfiable check excludes that bound.\<close>

lemma unsat_no_cex:
  assumes as: "asserted s \<subseteq> insert (if single then bad_at E (int k) else bad_clause E (int k) (int k))
      (base (int k) \<union> neg_inits (int k) \<union> neg_bads (int k - 1))"
    and c: "s_check S s = (UNSAT, s')" and less: "\<And>j. j < k \<Longrightarrow> \<not> cex F sys bad j"
  shows "\<not> cex F sys bad k"
proof
  assume "cex F sys bad k"
  then obtain \<pi> where p: "ts_initial F sys (\<pi> 0)" "segment F sys \<pi> k" "holds F (\<pi> k) bad"
    by (auto simp: cex_def ts_path_def)
  have ninit: "\<not> ts_initial F sys (\<pi> m)" if m: "1 \<le> m" "m \<le> k" for m
  proof
    assume i: "ts_initial F sys (\<pi> m)"
    have "segment F sys (\<lambda>j. \<pi> (m + j)) (k - m)" using segment_shift [of F sys \<pi> m "k - m"] p(2) m by simp
    with i p(3) m have "cex F sys bad (k - m)"
      unfolding cex_def ts_path_def by (intro exI [of _ "\<lambda>j. \<pi> (m + j)"]) simp
    with less [of "k - m"] m show False by simp
  qed
  have nbad: "\<not> holds F (\<pi> m) bad" if m: "m < k" for m
  proof
    assume "holds F (\<pi> m) bad"
    with p segment_mono [OF p(2), of m] m have "cex F sys bad m"
      unfolding cex_def ts_path_def by (intro exI [of _ \<pi>]) simp
    with less [OF m] show False by blast
  qed
  obtain \<sigma> where m: "wsorted \<sigma>" "\<And>t. t \<in> base (int k) \<Longrightarrow> holds F \<sigma> t"
    and bd: "\<And>j. j \<le> k \<Longrightarrow> holds F \<sigma> (bad_at E (int j)) \<longleftrightarrow> holds F (\<pi> j) bad"
    and ini: "\<And>j. j \<le> k \<Longrightarrow> holds F \<sigma> (init_at j) \<longleftrightarrow> ts_initial F sys (\<pi> j)"
    using path_formulas [of \<pi> k] p(1,2) by blast
  have "holds F \<sigma> t" if "t \<in> asserted s" for t
  proof -
    from as that consider "t = bad_at E (int k)" | "t = bad_clause E (int k) (int k)" | "t \<in> base (int k)"
      | "t \<in> neg_inits (int k)" | "t \<in> neg_bads (int k - 1)" by (auto split: if_splits)
    then show ?thesis
    proof cases
      case 1
      with bd [of k] p(3) show ?thesis by simp
    next
      case 2
      then show ?thesis using bd [of k] p(3) by (auto simp only: holds_bad_clause)
    next
      case 3
      with m(2) show ?thesis by blast
    next
      case 4
      then obtain j where j: "1 \<le> j" "j \<le> int k" "t = mk_term B (op0 NotOp) [init_at (nat j)]"
        by (auto simp: neg_inits_def)
      with ini [of "nat j"] ninit [of "nat j"] show ?thesis by simp
    next
      case 5
      then obtain j where j: "0 \<le> j" "j \<le> int k - 1" "t = not_bad_at E j" by (auto simp: neg_bads_def)
      with bd [of "nat j"] nbad [of "nat j"] show ?thesis by simp
    qed
  qed
  with check_UNSAT_no_model [OF c m(1)] show False by simp
qed

text \<open>When the model of a satisfiable check violates the property at the first bound of the interval,
  the difference that is to recognise intervals of length one is one as well.\<close>

lemma first_bound_bad:
  assumes inv: "bmc_inv p" "pr_reached_k p = -1" and sort: "get_sort bad = BOOL"
    and dec: "\<And>s s'. s_check S s \<noteq> (UNKNOWN, s')" and o: "\<not> bo_single_bad_state opts" "\<not> bo_allow_non_minimal opts"
    and path: "ts_path F sys \<pi> n" "bo_neg_init_step opts \<longrightarrow> (\<forall>m. 1 \<le> m \<and> m \<le> n \<longrightarrow> \<not> ts_initial F sys (\<pi> m))"
    and bad: "\<And>s. ts_initial F sys s \<Longrightarrow> holds F s bad"
  shows "\<exists>p'. bmc_step E opts (int n) p = Inr (False, p') \<and> pr_reached_k p' = int n - 1"
proof -
  let ?s1 = "asserts S (new_trans opts (-1) (int n)) (pr_solver p)"
  let ?s2 = "s_assert S (bad_clause E 0 (int n)) (s_push S ?s1)"
  obtain r s3 where c: "s_check S ?s2 = (r, s3)" by (rule prod.exhaust)
  have p1: "(if int n > 0 then on_solver (asserts S (concat (map (trans_formulas E opts)
        [(if pr_reached_k p = -1 then 1 else pr_reached_k p + 1)..int n]))) p else p) = p\<lparr>pr_solver := ?s1\<rparr>"
    using inv(2) by (simp add: on_solver_def new_trans_def asserts_def)
  have step: "bmc_step E opts (int n) p = (if r = SAT then minimise_cex E opts (int n) (p\<lparr>pr_solver := s3\<rparr>)
     else Inr (True, p\<lparr>pr_solver := asserts S (neg_bad_formulas E opts (-1) (int n)) (s_pop S s3), pr_reached_k := int n\<rparr>))"
    unfolding bmc_step_def Let_def p1 using inv(2) o c by (simp add: on_solver_def)
  have as: "asserted ?s2 = insert (bad_clause E 0 (int n)) (set (new_trans opts (-1) (int n)) \<union> asserted (pr_solver p))"
    by simp
  have base0: "asserted (pr_solver p) \<subseteq> base (-1)" using inv by (simp add: bmc_inv_def neg_inits_def neg_bads_def)
  have "r \<noteq> UNSAT"
  proof
    assume r: "r = UNSAT"
    have ip: "ts_initial F sys (\<pi> 0)" "segment F sys \<pi> n" using path(1) by (simp_all add: ts_path_def)
    obtain \<sigma> where m: "wsorted \<sigma>" "\<And>t. t \<in> base (int n) \<Longrightarrow> holds F \<sigma> t"
      and bd: "\<And>j. j \<le> n \<Longrightarrow> holds F \<sigma> (bad_at E (int j)) \<longleftrightarrow> holds F (\<pi> j) bad"
      and ini: "\<And>j. j \<le> n \<Longrightarrow> holds F \<sigma> (init_at j) \<longleftrightarrow> ts_initial F sys (\<pi> j)"
      using path_formulas [of \<pi> n] ip by blast
    have "holds F \<sigma> t" if t: "t \<in> set (new_trans opts (-1) (int n))" for t
    proof -
      from t obtain j where j: "1 \<le> j" "j \<le> int n" "t \<in> set (trans_formulas E opts j)"
        by (auto simp: new_trans_def split: if_splits)
      from j(3) consider "t = trans_at (nat (j - 1))"
        | "bo_neg_init_step opts" "t = mk_term B (op0 NotOp) [init_at (nat j)]"
        by (auto simp: trans_formulas_def split: if_splits)
      then show ?thesis
      proof cases
        case 1
        with j m(2) show ?thesis by (auto simp: base_def)
      next
        case 2
        with path(2) j ini [of "nat j"] show ?thesis by auto
      qed
    qed
    moreover have "holds F \<sigma> (bad_at E 0)" using bd [of 0] bad [OF ip(1)] by simp
    then have "holds F \<sigma> (bad_clause E 0 (int n))" unfolding holds_bad_clause by (intro exI [of _ 0]) simp
    moreover have "holds F \<sigma> t" if "t \<in> asserted (pr_solver p)" for t
      using that base0 base_mono [of "-1" "int n"] m(2) by auto
    ultimately have h: "\<And>t. t \<in> asserted ?s2 \<Longrightarrow> holds F \<sigma> t" unfolding as by blast
    show False by (rule check_UNSAT_no_model [OF c [unfolded r] m(1)]) (use h in auto)
  qed
  then have r: "r = SAT" using c dec by (cases r) auto
  obtain \<tau> where t: "has_model s3 \<tau>" "\<And>t. t \<in> asserted ?s2 \<Longrightarrow> holds F \<tau> t"
    using check_sat_model c r by blast
  have "deep 0 (base (-1)) (pr_solver p)" using inv by (simp add: bmc_inv_def)
  then have "base (-1) \<subseteq> asserted (pr_solver p)" by (rule deep_asserted)
  then have "init_at 0 \<in> asserted ?s2" unfolding as by (auto simp: base_def)
  with t have i0: "holds F \<tau> (init_at 0)" by blast
  obtain \<rho> where "unrolls_to F sys at \<tau> \<rho>" "ts_path F sys \<rho> 0" by (rule model_path [OF t(1) i0, of 0]) auto
  then have "holds F \<tau> (bad_at E 0)"
    using unrolls_current [OF _ bad_cur, of \<tau> \<rho> 0] bad [of "\<rho> 0"] by (simp add: bad_at_def ts_path_def)
  then have "s_get_value S s3 (bad_at E 0) = tm_true" using value_true [OF t(1)] at_sort sort by (simp add: bad_at_def)
  then have "get_cex_ub E s3 0 (int n) = 0" by (simp add: get_cex_ub_def upto_rec1)
  with step r inv(2) show ?thesis by (simp add: minimise_cex_def Let_def)
qed

lemma loop_step_one:
  assumes sort: "get_sort bad = BOOL" and dec: "\<And>s s'. s_check S s \<noteq> (UNKNOWN, s')"
    and opts: "bo_bound_step opts = 1" "\<not> bo_exponential_step opts" and k: "k < 2 ^ 31 - 1"
  shows "bmc_inv p \<Longrightarrow> i = pr_reached_k p + 1 \<Longrightarrow> i \<le> k + 1 \<Longrightarrow> nat (k + 1 - i) < n \<Longrightarrow>
    (\<And>j. int j < i \<Longrightarrow> \<not> cex F sys bad j) \<Longrightarrow>
    \<exists>res p'. bmc_loop E opts n k i p = Inr (res, p')
      \<and> (res = PR_FALSE \<and> -1 \<le> pr_reached_k p' \<and> pr_reached_k p' < k
           \<and> cex F sys bad (nat (pr_reached_k p' + 1))
           \<and> (\<forall>j. int j \<le> pr_reached_k p' \<longrightarrow> \<not> cex F sys bad j)
         \<or> res = PR_UNKNOWN \<and> (\<forall>j. int j \<le> k \<longrightarrow> \<not> cex F sys bad j))"
proof (induction n arbitrary: i p)
  case 0
  then show ?case by simp
next
  case (Suc n)
  note inv = Suc.prems(1) and i = Suc.prems(2) and ik = Suc.prems(3) and fuel = Suc.prems(4)
    and less = Suc.prems(5)
  have r: "-1 \<le> pr_reached_k p" using inv by (simp add: bmc_inv_def)
  have dec': "bo_less_inc_bin_search opts \<longrightarrow> (\<forall>s s'. s_check S s \<noteq> (UNKNOWN, s'))" using dec by blast
  note snd = step_sound [OF inv, of i, OF _ sort dec']
  show ?case
  proof (cases "i \<le> k")
    case False
    with ik have "\<forall>j. int j \<le> k \<longrightarrow> \<not> cex F sys bad j" using less by auto
    with False show ?thesis by simp
  next
    case True
    obtain ok p1 where s: "bmc_step E opts i p = Inr (ok, p1)"
      using snd(2) i by auto
    show ?thesis
    proof (cases ok)
      case False
      with s have c: "cex_model i p1" using snd(3) i by simp
      then obtain \<sigma> j where m: "has_model (pr_solver p1) \<sigma>" "\<forall>t \<in> base i. holds F \<sigma> t"
        "0 \<le> j" "j \<le> pr_reached_k p1 + 1" "holds F \<sigma> (bad_at E j)" and le: "pr_reached_k p1 + 1 \<le> i"
        by (auto simp: cex_model_def)
      have "cex F sys bad (nat j)"
        by (rule model_cex [OF m(1), of "nat i"]) (use m le in \<open>auto simp: base_def bad_at_def\<close>)
      then have "\<not> j < i" using less [of "nat j"] m(3) by auto
      then have e: "pr_reached_k p1 + 1 = i" "j = i" using m(4) le by linarith+
      have run: "bmc_loop E opts (Suc n) k i p = Inr (PR_FALSE, compute_witness E p1)"
        by (simp only: bmc_loop.simps s False True bindE_simps prod.case if_True simp_thms)
      have "cex F sys bad (nat (pr_reached_k p1 + 1))" using \<open>cex F sys bad (nat j)\<close> e by simp
      moreover have "\<not> cex F sys bad j" if "int j \<le> pr_reached_k p1" for j
        by (rule less) (use that e(1) in linarith)
      moreover have "-1 \<le> pr_reached_k p1" "pr_reached_k p1 < k" using e(1) i r True by linarith+
      ultimately show ?thesis
        by (intro exI [of _ PR_FALSE] exI [of _ "compute_witness E p1"] conjI [OF run] disjI1)
          (simp add: compute_witness_fields)
    next
      case ok: True
      with s have s': "bmc_step E opts i p = Inr (True, p1)" by simp
      have "pr_reached_k p < i" using i by simp
      from snd(4) [OF this s'] obtain q rr q3 where q: "bmc_inv p1" "pr_reached_k p1 = i"
        "asserted q \<subseteq> insert (if bo_single_bad_state opts then bad_at E i else bad_clause E (pr_reached_k p + 1) i)
           (base i \<union> neg_inits i \<union> neg_bads (pr_reached_k p))"
        "rr \<noteq> SAT" "s_check S q = (rr, q3)" by blast
      have "s_check S q = (UNSAT, q3)" using q(4,5) dec by (cases rr) simp_all
      moreover have e: "int (nat i) = i" "i - 1 = pr_reached_k p" "pr_reached_k p + 1 = i" using i r by simp_all
      ultimately have "\<not> cex F sys bad (nat i)"
        by - (rule unsat_no_cex [of q "bo_single_bad_state opts" "nat i" q3], use q(3) less in \<open>simp_all only: e, simp_all\<close>)
      then have less': "\<not> cex F sys bad j" if "int j < i + 1" for j
        using that less [of j] by (cases "int j = i") auto
      have nb: "next_bound opts i = Inr (i + 1)"
        using opts i r True k int32_id [of "i + 1"] by (simp add: next_bound_def)
      have rec: "bmc_loop E opts (Suc n) k i p = bmc_loop E opts n k (i + 1) p1"
        using s ok True nb by simp
      show ?thesis unfolding rec
        by (rule Suc.IH [OF q(1)]) (use q(2) True fuel less' in auto)
    qed
  qed
qed

end

subsection \<open>The engine's answers\<close>


lemma compute_witness_length: "witness_length (compute_witness E p) = witness_length p"
  by (simp add: witness_length_def compute_witness_def)


text \<open>C1: With the default schedule of bounds (start at 0, one at a time) and a solver that
  always answers, the engine returns, given one unit of fuel per bound: \<open>FALSE\<close> with the
  length of a shortest counterexample when there is one within the bound, \<open>UNKNOWN\<close> when
  there is none.\<close>

theorem bmc_decides_the_bound:
  assumes "smt_engine S F frames" and "ts_wf sys" and "covered prop (set (ts_statevars sys))"
    and "\<And>s s'. s_check S s \<noteq> (UNKNOWN, s')"
    and "bo_bound_start opts = 0" and "bo_bound_step opts = 1" and "\<not> bo_exponential_step opts"
    and "-1 \<le> k" and "k < 2 ^ 31 - 1" and "nat (k + 1) < fuel"
  shows "\<exists>res p'. bmc_check_until (make_env S sys prop) opts fuel k (new_bmc s) = Inr (res, p')
    \<and> (res = PR_FALSE \<and> 0 \<le> witness_length p' \<and> witness_length p' \<le> k
        \<and> cex F sys (en_bad (make_env S sys prop)) (nat (witness_length p'))
        \<and> (\<forall>j. int j < witness_length p' \<longrightarrow> \<not> cex F sys (en_bad (make_env S sys prop)) j)
      \<or> res = PR_UNKNOWN \<and> (\<forall>j. int j \<le> k \<longrightarrow> \<not> cex F sys (en_bad (make_env S sys prop)) j))"
proof -
  let ?E = "make_env S sys prop"
  have eng: "safety_engine ?E F frames" by (rule make_env_engine [OF assms(1-3)])
  obtain p where p: "bmc_initialize ?E (new_bmc s) = Inr p"
    using safety_engine.bmc_init_ok(2) [OF eng] by blast
  have inv: "safety_engine.bmc_inv ?E frames p" "pr_reached_k p = -1"
    using safety_engine.bmc_init_ok(1) [OF eng p] by simp_all
  have run: "bmc_check_until ?E opts fuel k (new_bmc s) = bmc_loop ?E opts fuel k 0 p"
    using assms(5) p by (simp add: bmc_check_until_def int32_id)
  have "\<And>s s'. s_check (en_solver ?E) s \<noteq> (UNKNOWN, s')" using assms(4) by simp
  from safety_engine.loop_step_one [OF eng env_bad(2) [OF assms(1)] this assms(6,7,9) inv(1), of 0 fuel]
  obtain res p' where r: "bmc_loop ?E opts fuel k 0 p = Inr (res, p')"
    "res = PR_FALSE \<and> -1 \<le> pr_reached_k p' \<and> pr_reached_k p' < k
           \<and> cex F sys (en_bad ?E) (nat (pr_reached_k p' + 1))
           \<and> (\<forall>j. int j \<le> pr_reached_k p' \<longrightarrow> \<not> cex F sys (en_bad ?E) j)
         \<or> res = PR_UNKNOWN \<and> (\<forall>j. int j \<le> k \<longrightarrow> \<not> cex F sys (en_bad ?E) j)"
    using inv(2) assms(8,10) unfolding env_fields by auto
  show ?thesis unfolding run
    by (intro exI [of _ res] exI [of _ p'] conjI [OF r(1)]) (use r(2) in \<open>auto simp: witness_length_def\<close>)
qed

text \<open>C26: When the first check is for an interval of more than one bound, every initial state is bad
  and a path of that length exists, the engine reports the last bound of the interval, although the
  option for a minimal counterexample is on and the initial states are counterexamples of length
  zero.  (The path must not come back to an initial state when the option that excludes this is on.)\<close>

theorem bmc_interval_cex_not_minimal:
  assumes "smt_engine S F frames" and "ts_wf sys" and "covered prop (set (ts_statevars sys))"
    and "\<And>s s'. s_check S s \<noteq> (UNKNOWN, s')"
    and "\<not> bo_single_bad_state opts" and "\<not> bo_allow_non_minimal opts"
    and "0 < bo_bound_start opts" and "int (bo_bound_start opts) \<le> k" and "k < 2 ^ 31" and "0 < fuel"
    and "\<And>s. ts_initial F sys s \<Longrightarrow> \<not> holds F s prop"
    and "ts_path F sys \<pi> (bo_bound_start opts)"
    and "bo_neg_init_step opts \<longrightarrow> (\<forall>m. 1 \<le> m \<and> m \<le> bo_bound_start opts \<longrightarrow> \<not> ts_initial F sys (\<pi> m))"
  shows "cex F sys (en_bad (make_env S sys prop)) 0
    \<and> (\<exists>p'. bmc_check_until (make_env S sys prop) opts fuel k (new_bmc s) = Inr (PR_FALSE, p')
          \<and> witness_length p' = int (bo_bound_start opts))"
proof -
  let ?E = "make_env S sys prop" and ?n = "bo_bound_start opts"
  have eng: "safety_engine ?E F frames" by (rule make_env_engine [OF assms(1-3)])
  note bad = env_bad [OF assms(1)]
  obtain p where p: "bmc_initialize ?E (new_bmc s) = Inr p"
    using safety_engine.bmc_init_ok(2) [OF eng] by blast
  have inv: "safety_engine.bmc_inv ?E frames p" "pr_reached_k p = -1"
    using safety_engine.bmc_init_ok(1) [OF eng p] by simp_all
  have dec: "\<And>s s'. s_check (en_solver ?E) s \<noteq> (UNKNOWN, s')" using assms(4) by simp
  have init_bad: "\<And>s. ts_initial F (en_ts ?E) s \<Longrightarrow> holds F s (en_bad ?E)" using assms(11) bad(1) by simp
  obtain p1 where p1: "bmc_step ?E opts (int ?n) p = Inr (False, p1)" "pr_reached_k p1 = int ?n - 1"
    using safety_engine.first_bound_bad [OF eng inv bad(2) dec assms(5,6) _ _ init_bad, of \<pi> ?n] assms(12,13) by auto
  have id: "int32 (int ?n) = int ?n" using assms(8,9) by (intro int32_id) simp_all
  obtain f where f: "fuel = Suc f" using assms(10) by (cases fuel) simp_all
  have "bmc_check_until ?E opts fuel k (new_bmc s) = Inr (PR_FALSE, compute_witness ?E p1)"
    using assms(8) p1(1) by (simp add: bmc_check_until_def p id f)
  moreover have "witness_length (compute_witness ?E p1) = int ?n"
    using p1(2) by (simp only: compute_witness_length) (simp add: witness_length_def)
  moreover have "ts_initial F sys (\<pi> 0)" using assms(12) by (simp add: ts_path_def)
  then have "cex F sys (en_bad ?E) 0" using init_bad [of "\<pi> 0"] by (auto simp: cex_reach intro: reach_init)
  ultimately show ?thesis by blast
qed

lemma demo_idle: "ts_path F demo_ts (\<lambda>_ x. default_val (snd x)) n"
proof -
  let ?s = "\<lambda>x :: string \<times> smt_sort. default_val (snd x)"
  have w: "wsorted ?s" by (simp add: wsorted_def default_val_carrier)
  have f: "ts_init demo_ts = Node (op0 NotOp) BOOL [vx]" "map_of (ts_curr_map demo_ts) vx = None"
    "ts_trans demo_ts = Node (op0 And) BOOL [tm_true, Node (op0 Equal) BOOL
       [Sym ''x.pono_generated__next'' BOOL, Node (op0 Or) BOOL [vx, vi]]]"
    "map_of (ts_curr_map demo_ts) (Sym ''x.pono_generated__next'' BOOL) = Some vx"
    "map_of (ts_curr_map demo_ts) vi = None" by code_simp+
  have "ts_step F demo_ts ?s ?s" using w by (simp add: ts_step_def f pair_env_def sem_op_def agree_funs_def)
  moreover have "ts_initial F demo_ts ?s" using w by (simp add: ts_initial_def f sem_op_def)
  ultimately show ?thesis using w by (simp add: ts_path_def segment_def)
qed

theorem bmc_interval_cex_not_minimal_witness:
  "\<exists>p'. bmc_check_until (make_env (enum_solver (\<lambda>_ _. BoolVal False) (full_decider (\<lambda>_ _. BoolVal False))) demo_ts vx)
      (default_bmc_opts\<lparr>bo_bound_start := 4\<rparr>) 1 9 (new_bmc enum_init) = Inr (PR_FALSE, p') \<and> witness_length p' = 4"
proof -
  let ?F = "\<lambda>_ _. BoolVal False" and ?o = "default_bmc_opts\<lparr>bo_bound_start := 4\<rparr>"
  have c: "covered vx (set (ts_statevars demo_ts))" by (simp add: demo_fields)
  have o: "\<not> bo_single_bad_state ?o" "\<not> bo_allow_non_minimal ?o" "0 < bo_bound_start ?o" "int (bo_bound_start ?o) \<le> 9"
    "\<not> bo_neg_init_step ?o" by (simp_all add: default_bmc_opts_def)
  have i: "ts_init demo_ts = Node (op0 NotOp) BOOL [vx]" by code_simp
  have b: "\<not> holds ?F s vx" if "ts_initial ?F demo_ts s" for s
    using that wsorted_Bool [of s "''x''"] by (auto simp: ts_initial_def i sem_op_def)
  from bmc_interval_cex_not_minimal [OF full.smt_engine_axioms demo_wf c enum_full_decides o(1-4) _ _ b demo_idle, of 1 enum_init] o(5)
  show ?thesis by simp
qed


theorem bmc_decides_the_bound_witness:
  "\<exists>res p'. bmc_check_until (make_env (enum_solver (\<lambda>_ _. BoolVal False)
        (full_decider (\<lambda>_ _. BoolVal False))) demo_ts vx) default_bmc_opts 9 5 (new_bmc enum_init)
    = Inr (res, p') \<and> res \<in> {PR_FALSE, PR_UNKNOWN}"
proof -
  have "covered vx (set (ts_statevars demo_ts))" by (simp add: demo_fields)
  then show ?thesis
    using bmc_decides_the_bound [OF full.smt_engine_axioms demo_wf _ enum_full_decides, of vx default_bmc_opts 5 9
        "\<lambda>_ _. BoolVal False" enum_init]
    by (fastforce simp: default_bmc_opts_def)
qed

end
