(* ===== verification/Ts_Updates.thy ===== *)
theory Ts_Updates
  imports Ts_Semantics
begin

section \<open>State variables without an update (core/ts, \<open>no_state_updates_\<close>)\<close>

text \<open>
  Engines treat a state variable without an update like an input: its next value is free,
  except for the invariants.  \<open>upd_form\<close> states this as an invariant of the building
  operations: the steps are those of a relation that reads the next values of the updated state
  variables only, restricted to successor states that satisfy the invariants.
\<close>

definition same_updated :: "ts \<Rightarrow> assignment \<Rightarrow> assignment \<Rightarrow> bool" where
  "same_updated ts t t' \<longleftrightarrow> agree_funs t t'
     \<and> (\<forall>v \<in> set (ts_statevars ts). v \<notin> set (ts_no_state_updates ts) \<longrightarrow> t (sym_of v) = t' (sym_of v))"

definition upd_form :: "theory_ops \<Rightarrow> ts \<Rightarrow> bool" where
  "upd_form F ts \<longleftrightarrow> (\<exists>T C. (\<forall>s t. ts_step F ts s t \<longleftrightarrow>
        wsorted s \<and> wsorted t \<and> agree_funs s t \<and> T s t \<and> C t)
     \<and> (\<forall>s t t'. same_updated ts t t' \<longrightarrow> T s t = T s t'))"

definition swap_target :: "theory_ops \<Rightarrow> ts \<Rightarrow> bool" where
  "swap_target F ts \<longleftrightarrow> (\<forall>s t s0 t'. ts_step F ts s t \<longrightarrow> ts_step F ts s0 t' \<longrightarrow>
     same_updated ts t t' \<longrightarrow> ts_step F ts s t')"

lemma upd_form_swap:
  assumes "upd_form F ts"
  shows "swap_target F ts"
proof -
  from assms obtain T C where f: "\<And>s t. ts_step F ts s t \<longleftrightarrow>
        wsorted s \<and> wsorted t \<and> agree_funs s t \<and> T s t \<and> C t"
    and T: "\<And>s t t'. same_updated ts t t' \<Longrightarrow> T s t = T s t'"
    by (auto simp: upd_form_def)
  have "agree_funs s t'" if "agree_funs s t" "same_updated ts t t'" for s t t'
    using that by (simp add: agree_funs_def same_updated_def)
  then show ?thesis using T by (auto simp: swap_target_def f)
qed

lemma upd_formI:
  assumes ff: "upd_form F ts"
    and step: "\<And>s t. ts_step F ts' s t \<longleftrightarrow> ts_step F ts s t \<and> P s \<and> R s t \<and> Q t"
    and R: "\<And>s t t'. same_updated ts' t t' \<Longrightarrow> R s t = R s t'"
    and U: "set (ts_statevars ts) - set (ts_no_state_updates ts)
      \<subseteq> set (ts_statevars ts') - set (ts_no_state_updates ts')"
  shows "upd_form F ts'"
proof -
  from ff obtain T C where f: "\<And>s t. ts_step F ts s t \<longleftrightarrow>
        wsorted s \<and> wsorted t \<and> agree_funs s t \<and> T s t \<and> C t"
    and T: "\<And>s t t'. same_updated ts t t' \<Longrightarrow> T s t = T s t'"
    by (auto simp: upd_form_def)
  have "same_updated ts t t'" if "same_updated ts' t t'" for t t'
    using that U by (auto simp: same_updated_def)
  with T R have "\<forall>s t t'. same_updated ts' t t' \<longrightarrow> (P s \<and> T s t \<and> R s t) = (P s \<and> T s t' \<and> R s t')"
    by blast
  moreover have "\<forall>s t. ts_step F ts' s t \<longleftrightarrow>
      wsorted s \<and> wsorted t \<and> agree_funs s t \<and> (P s \<and> T s t \<and> R s t) \<and> C t \<and> Q t"
    by (auto simp: step f)
  ultimately show ?thesis unfolding upd_form_def
    by (intro exI [of _ "\<lambda>s t. P s \<and> T s t \<and> R s t"] exI [of _ "\<lambda>t. C t \<and> Q t"] conjI)
qed

lemma upd_form_same:
  assumes "upd_form F ts" and "ts_step F ts' = ts_step F ts"
    and "set (ts_statevars ts) - set (ts_no_state_updates ts)
      \<subseteq> set (ts_statevars ts') - set (ts_no_state_updates ts')"
  shows "upd_form F ts'"
  by (rule upd_formI [OF assms(1), of ts' "\<lambda>_. True" "\<lambda>_ _. True" "\<lambda>_. True"]) (use assms in auto)

text \<open>The next-state variables of a constraint are updated from then on.\<close>

lemma set_updated_removes:
  assumes wf: "ts_wf ts" and v: "nv \<in> set (free_consts B t)" "map_of (ts_curr_map ts) nv = Some v"
  shows "v \<notin> set (ts_no_state_updates (set_updated_states B t ts))"
proof -
  let ?f = "\<lambda>v ts. if v \<in> set (ts_next_statevars ts)
                  then (case map_of (ts_curr_map ts) v of
                          Some cv \<Rightarrow> ts\<lparr>ts_no_state_updates := removeAll cv (ts_no_state_updates ts)\<rparr>
                        | None \<Rightarrow> ts)
                  else ts"
  have keep: "ts_curr_map (?f x u) = ts_curr_map u \<and> ts_next_statevars (?f x u) = ts_next_statevars u
      \<and> set (ts_no_state_updates (?f x u)) \<subseteq> set (ts_no_state_updates u)" for x u
    by (auto split: option.splits)
  have "ts_curr_map u = ts_curr_map ts \<Longrightarrow> ts_next_statevars u = ts_next_statevars ts \<Longrightarrow>
      nv \<in> set xs \<or> v \<notin> set (ts_no_state_updates u) \<Longrightarrow>
      v \<notin> set (ts_no_state_updates (fold ?f xs u))" for xs u
  proof (induction xs arbitrary: u)
    case (Cons x xs)
    have nv: "nv \<in> set (ts_next_statevars ts)" using wf v(2) by (force simp: wf_curr_keys [symmetric] dest: map_of_SomeD)
    have "nv \<in> set xs \<or> v \<notin> set (ts_no_state_updates (?f x u))"
    proof (cases "x = nv")
      case True
      with nv v(2) Cons.prems(1,2) have "?f x u = u\<lparr>ts_no_state_updates := removeAll v (ts_no_state_updates u)\<rparr>"
        by simp
      then show ?thesis by simp
    next
      case False
      with Cons.prems(3) keep [of x u] show ?thesis by auto
    qed
    with Cons.IH [of "?f x u"] keep [of x u] Cons.prems(1,2) show ?case by simp
  qed simp
  then show ?thesis unfolding set_updated_states_def using v(1) by blast
qed

lemma pair_env_same:
  assumes B: "smt_terms B F" and wf: "ts_wf ts"
    and same: "\<And>nv v. nv \<in> set (free_consts B c) \<Longrightarrow> map_of (ts_curr_map ts) nv = Some v \<Longrightarrow>
      t (sym_of v) = t' (sym_of v)"
  shows "eval F (pair_env ts s t) c = eval F (pair_env ts s t') c"
proof (rule eval_cong)
  fix x assume x: "x \<in> syms c"
  show "pair_env ts s t x = pair_env ts s t' x"
  proof (cases "map_of (ts_curr_map ts) (tm_of x)")
    case (Some v)
    then have "tm_of x \<in> ts_vars ts"
      using wf_curr_keys [OF wf] by (force simp: ts_vars_def dest: map_of_SomeD)
    then have "\<not> is_fun_sort (snd x)" using wf_not_fun [OF wf, of "fst x" "snd x"] by auto
    with x have "tm_of x \<in> set (free_consts B c)"
      by (auto simp: smt_terms.set_free_consts [OF B])
    from same [OF this Some] Some show ?thesis by (simp add: pair_env_def)
  qed (simp add: pair_env_def)
qed

lemma updated_trans:
  assumes B: "smt_terms B F" and wf: "ts_wf ts"
    and same: "same_updated (set_updated_states B c ts) t t'"
  shows "eval F (pair_env ts s t) c = eval F (pair_env ts s t') c"
proof (rule pair_env_same [OF B wf])
  fix nv v assume v: "nv \<in> set (free_consts B c)" "map_of (ts_curr_map ts) nv = Some v"
  have "map_of (ts_next_map ts) v = Some nv" using wf_maps_inverse [OF wf] v(2) by blast
  then have "v \<in> set (ts_statevars ts)" using next_symbol [OF wf] by blast
  moreover have "ts_statevars (set_updated_states B c ts) = ts_statevars ts"
    by (rule set_updated_states_fields [of ts B c]) simp
  ultimately show "t (sym_of v) = t' (sym_of v)"
    using same set_updated_removes [OF wf v] by (auto simp: same_updated_def)
qed

lemma do_call_upd_form:
  assumes B: "smt_terms B F" and wf: "ts_wf ts" and ff: "upd_form F ts" and ok: "call_ok c ts"
    and c: "do_call B c ts = Inr ts'"
  shows "upd_form F ts'"
proof (cases c)
  case (SetInit t)
  with c show ?thesis
    by (intro upd_form_same [OF ff]) (auto simp: set_init_def ts_step_def fun_eq_iff)
next
  case (ConstrainInit t)
  with c show ?thesis
    by (intro upd_form_same [OF ff]) (auto simp: constrain_init_def ts_step_def fun_eq_iff)
next
  case (AssignNext v f)
  with c have a: "assign_next B v f ts = Inr ts'" by simp
  have v: "v \<in> set (ts_statevars ts)" and
    n: "ts_statevars ts' = ts_statevars ts"
      "set (ts_no_state_updates ts') = set (ts_no_state_updates ts) - {v}"
    using a by (auto elim!: assign_next_fields)
  show ?thesis
  proof (rule upd_formI [OF ff])
    show "ts_step F ts' s t \<longleftrightarrow> ts_step F ts s t \<and> True \<and> t (sym_of v) = eval F s f \<and> True" for s t
      using assign_next_step(1) [OF B wf a] by simp
    show "(t (sym_of v) = eval F s f) = (t' (sym_of v) = eval F s f)" if "same_updated ts' t t'" for s t t'
      using that v n by (simp add: same_updated_def)
  qed (use n in auto)
next
  case (AddInvar t)
  with c have a: "add_invar B t ts = Inr ts'" by simp
  show ?thesis
  proof (rule upd_formI [OF ff])
    show "ts_step F ts' s s' \<longleftrightarrow> ts_step F ts s s' \<and> holds F s t \<and> True \<and> holds F s' t" for s s'
      using add_constraint_step(1) [OF B wf add_invar_add_constraint [OF a]] a
      by (auto simp: add_invar_def Let_def)
  qed (use a in \<open>auto simp: add_invar_def Let_def\<close>)
next
  case (ConstrainInputs t)
  with c have a: "constrain_inputs B t ts = Inr ts'" by simp
  show ?thesis
    by (rule upd_formI [OF ff, of ts' "\<lambda>s. holds F s t" "\<lambda>_ _. True" "\<lambda>_. True"])
      (use constrain_inputs_step(1) [OF B wf a] a in \<open>auto simp: constrain_inputs_def\<close>)
next
  case (AddConstraint t b)
  with c have a: "add_constraint B t b ts = Inr ts'" by simp
  show ?thesis
    by (rule upd_formI [OF ff, of ts' "\<lambda>s. holds F s t" "\<lambda>_ _. True"
          "\<lambda>s'. b \<and> only_curr ts t \<longrightarrow> holds F s' t"])
      (use add_constraint_step(1) [OF B wf a] a in \<open>auto simp: add_constraint_def Let_def split: if_splits\<close>)
next
  case (NameTerm n t)
  with c show ?thesis
    by (intro upd_form_same [OF ff]) (auto simp: ts_step_def fun_eq_iff elim!: name_term_fields)
next
  case (MakeInputvar n st)
  with c obtain na nb v where
    "ts' = ts\<lparr>ts_declared := n # ts_declared ts, ts_inputvars := List.insert v (ts_inputvars ts),
       ts_named_terms := na, ts_term_to_name := nb\<rparr>"
    by (force simp: make_inputvar_def add_inputvar_def bindE_Inr_iff
        elim!: make_symbol_InrE name_term_fields)
  then show ?thesis by (intro upd_form_same [OF ff]) (auto simp: ts_step_def fun_eq_iff)
next
  case (MakeStatevar n st)
  with c obtain v where m: "make_statevar B n st ts = Inr (v, ts')" by (auto simp: bindE_Inr_iff)
  have st: "\<not> is_fun_sort st" using ok MakeStatevar by simp
  show ?thesis
    by (rule upd_form_same [OF ff make_statevar_step(1) [OF wf st m]])
      (use make_statevar_call [OF m] in \<open>auto elim!: add_statevar_fields\<close>)
next
  case (PromoteInputvar v)
  with c have m: "promote_inputvar B v ts = Inr ts'" by simp
  obtain n st where "add_statevar B v (Sym (n @ ts_next_suffix ts) st)
      (ts\<lparr>ts_deterministic := False, ts_declared := (n @ ts_next_suffix ts) # ts_declared ts\<rparr>) = Inr ts'"
    using promote_inputvar_call [OF B wf m] by metis
  then show ?thesis
    by (intro upd_form_same [OF ff promote_inputvar_step(1) [OF B wf m]]) (auto elim!: add_statevar_fields)
next
  case (SetTrans t)
  with c have t: "ts' = set_updated_states B t (ts\<lparr>ts_trans := t\<rparr>)" "known_symbols ts t"
    by (auto simp: set_trans_def)
  have wf1: "ts_wf (ts\<lparr>ts_trans := t\<rparr>)"
    using t(2) wf by (simp add: ts_wf_def forms_ok_trans known_symbols_iff ts_vars_def)
  have st: "ts_step F ts' s s' \<longleftrightarrow> wsorted s \<and> wsorted s' \<and> agree_funs s s' \<and> holds F (pair_env ts s s') t" for s s'
    unfolding t(1) by (rule set_updated_states_fields [of "ts\<lparr>ts_trans := t\<rparr>" B t]) (simp add: ts_step_def)
  show ?thesis unfolding upd_form_def
    by (intro exI [of _ "\<lambda>s s'. holds F (pair_env ts s s') t"] exI [of _ "\<lambda>_. True"])
      (use st updated_trans [OF B wf1, of t, folded t(1)] in auto)
next
  case (ConstrainTrans t)
  let ?u = "ts\<lparr>ts_trans := mk_term B (op0 And) [ts_trans ts, t]\<rparr>"
  from c ConstrainTrans have t: "ts' = set_updated_states B t ?u" "known_symbols ts t"
    by (auto simp: constrain_trans_def)
  obtain e where e: "set e \<subseteq> set (ts_no_state_updates ts)" "ts' = ?u\<lparr>ts_no_state_updates := e\<rparr>"
    unfolding t(1) by (rule set_updated_states_fields [of ?u B t]) auto
  have "covered (mk_term B (op0 And) [ts_trans ts, t]) (ts_vars ts)"
    using forms_ok_parts [OF wf_parts(3) [OF wf]] t(2)
    by (intro covered_mk2 [OF B]) (auto simp: known_symbols_iff ts_vars_def)
  then have wf1: "ts_wf ?u" using wf by (simp add: ts_wf_def forms_ok_trans)
  show ?thesis
  proof (rule upd_formI [OF ff])
    show "ts_step F ts' s s' \<longleftrightarrow> ts_step F ts s s' \<and> True \<and> holds F (pair_env ts s s') t \<and> True" for s s'
      by (auto simp: e(2) ts_step_def smt_terms.holds_And [OF B])
    show "holds F (pair_env ts s t1) t = holds F (pair_env ts s t2) t" if "same_updated ts' t1 t2" for s t1 t2
      using updated_trans [OF B wf1, of t t1 t2 s] that by (simp add: t(1))
  qed (use e in auto)
qed

lemma run_calls_upd_form:
  assumes B: "smt_terms B F"
  shows "ts_wf ts \<Longrightarrow> det_ok ts \<Longrightarrow> upd_form F ts \<Longrightarrow> run_calls B cs ts = Inr ts' \<Longrightarrow> upd_form F ts'"
proof (induction cs arbitrary: ts)
  case (Cons c cs)
  from Cons.prems(4) obtain u where "call_ok c ts" "do_call B c ts = Inr u" "run_calls B cs u = Inr ts'"
    by (auto simp: bindE_Inr_iff)
  with do_call_wf [OF B Cons.prems(1) _ Cons.prems(2)] do_call_upd_form [OF B Cons.prems(1,3)]
    Cons.IH show ?case by blast
qed simp

lemma upd_form_empty: "upd_form F (empty_fts tab)" "upd_form F (empty_rts tab)"
  unfolding upd_form_def
  by (intro exI [of _ "\<lambda>_ _. True"] exI [of _ "\<lambda>_. True"],
      simp add: ts_step_def empty_fts_def empty_rts_def empty_ts_def)+

subsection \<open>Shortest counterexamples\<close>

lemma segment_same_funs:
  assumes "segment F ts \<pi> k" and "i \<le> k" and "j \<le> k"
  shows "agree_funs (\<pi> i) (\<pi> j)"
proof -
  have "m \<le> k \<Longrightarrow> agree_funs (\<pi> 0) (\<pi> m)" for m
  proof (induction m)
    case (Suc m)
    then have "ts_step F ts (\<pi> m) (\<pi> (Suc m))" using assms(1) by (simp add: segment_def)
    with ts_stepD(3) [OF this] Suc show ?case by (auto simp: agree_funs_def)
  qed simp
  from this [OF assms(2)] this [OF assms(3)] show ?thesis by (auto simp: agree_funs_def)
qed

lemma initial_cong:
  assumes wf: "ts_wf ts" and i: "ts_initial F ts s" and t: "wsorted t" "agree_funs s t"
    and same: "\<And>v. v \<in> set (ts_statevars ts) \<Longrightarrow> s (sym_of v) = t (sym_of v)"
  shows "ts_initial F ts t"
proof -
  have c: "covered (ts_init ts) (set (ts_statevars ts))" using forms_ok_parts(1) [OF wf_parts(3) [OF wf]] .
  have "eval F s (ts_init ts) = eval F t (ts_init ts)"
  proof (rule eval_cong)
    fix x assume x: "x \<in> syms (ts_init ts)"
    show "s x = t x"
    proof (cases "is_fun_sort (snd x)")
      case True
      with t(2) show ?thesis by (cases x) (simp add: agree_funs_def)
    next
      case False
      with c x have "tm_of x \<in> set (ts_statevars ts)" by (simp add: covered_def)
      from same [OF this] show ?thesis by simp
    qed
  qed
  with i t(1) show ?thesis by (simp add: ts_initial_def)
qed

definition shortest_cex :: "theory_ops \<Rightarrow> ts \<Rightarrow> tm \<Rightarrow> (nat \<Rightarrow> assignment) \<Rightarrow> nat \<Rightarrow> bool" where
  "shortest_cex F ts bad \<pi> k \<longleftrightarrow> ts_wf ts \<and> ts_path F ts \<pi> k \<and> holds F (\<pi> k) bad
     \<and> (\<forall>j < k. \<not> cex F ts bad j)"

lemma shortestD:
  assumes "shortest_cex F ts bad \<pi> k"
  shows "ts_wf ts" and "segment F ts \<pi> k" and "ts_initial F ts (\<pi> 0)" and "holds F (\<pi> k) bad"
    and "j < k \<Longrightarrow> \<not> cex F ts bad j" and "m \<le> k \<Longrightarrow> segment F ts (\<lambda>j. \<pi> (m + j)) (k - m)"
  using assms segment_shift [of F ts \<pi> m "k - m"] by (auto simp: shortest_cex_def ts_path_def)

lemma shortest_not_initial:
  assumes sh: "shortest_cex F ts bad \<pi> k" and "1 \<le> m" "m \<le> k"
  shows "\<not> ts_initial F ts (\<pi> m)"
proof
  assume i: "ts_initial F ts (\<pi> m)"
  with shortestD(4,6) [OF sh] assms have "cex F ts bad (k - m)"
    unfolding cex_def ts_path_def by (intro exI [of _ "\<lambda>j. \<pi> (m + j)"]) simp
  with shortestD(5) [OF sh, of "k - m"] assms show False by simp
qed

lemma shortest_not_bad:
  assumes sh: "shortest_cex F ts bad \<pi> k" and "m < k"
  shows "\<not> holds F (\<pi> m) bad"
proof
  assume "holds F (\<pi> m) bad"
  with shortestD(3) [OF sh] segment_mono [OF shortestD(2) [OF sh], of m] assms have "cex F ts bad m"
    unfolding cex_def ts_path_def by (intro exI [of _ \<pi>]) simp
  with shortestD(5) [OF sh assms(2)] show False by blast
qed

lemma shortest_differ_first:
  assumes sh: "shortest_cex F ts bad \<pi> k" and "1 \<le> j" "j \<le> k"
  shows "\<exists>v \<in> set (ts_statevars ts). \<pi> 0 (sym_of v) \<noteq> \<pi> j (sym_of v)"
proof (rule ccontr)
  assume "\<not> ?thesis"
  then have same: "\<And>v. v \<in> set (ts_statevars ts) \<Longrightarrow> \<pi> 0 (sym_of v) = \<pi> j (sym_of v)" by blast
  have "ts_initial F ts (\<pi> j)"
    by (rule initial_cong [OF shortestD(1,3) [OF sh] _ _ same])
      (use shortestD(2) [OF sh] assms segment_same_funs [OF shortestD(2) [OF sh], of 0 j] in \<open>simp_all add: segment_def\<close>)
  with shortest_not_initial assms show False by blast
qed

lemma shortest_differ:
  assumes sh: "shortest_cex F ts bad \<pi> k" and swap: "swap_target F ts" and ij: "1 \<le> i" "i < j" "j \<le> k"
  shows "\<exists>v \<in> set (ts_statevars ts). v \<notin> set (ts_no_state_updates ts) \<and> \<pi> i (sym_of v) \<noteq> \<pi> j (sym_of v)"
proof (rule ccontr)
  assume "\<not> ?thesis"
  then have "same_updated ts (\<pi> i) (\<pi> j)"
    using segment_same_funs [OF shortestD(2) [OF sh], of i j] ij by (auto simp: same_updated_def)
  note same = this
  have step: "ts_step F ts (\<pi> m) (\<pi> (Suc m))" if "m < k" for m
    using shortestD(2) [OF sh] that by (simp add: segment_def)
  have "ts_step F ts (\<pi> (i - 1)) (\<pi> i)" "ts_step F ts (\<pi> (j - 1)) (\<pi> j)"
    using step [of "i - 1"] step [of "j - 1"] ij by simp_all
  with swap same have jump: "ts_step F ts (\<pi> (i - 1)) (\<pi> j)" unfolding swap_target_def by blast
  define \<rho> where "\<rho> m = (if m < i then \<pi> m else \<pi> (m - i + j))" for m
  have "ts_step F ts (\<rho> m) (\<rho> (Suc m))" if m: "m < k - (j - i)" for m
  proof -
    consider "Suc m < i" | "Suc m = i" | "i \<le> m" by linarith
    then show ?thesis
    proof cases
      case 1
      with step [of m] m show ?thesis by (simp add: \<rho>_def)
    next
      case 2
      then have "m = i - 1" "\<not> Suc m < i" "Suc m - i + j = j" by simp_all
      with jump ij(1) show ?thesis by (simp add: \<rho>_def)
    next
      case 3
      with step [of "m - i + j"] m ij show ?thesis by (simp add: \<rho>_def Suc_diff_le)
    qed
  qed
  moreover have "wsorted (\<rho> m)" if "m \<le> k - (j - i)" for m
    using that shortestD(2) [OF sh] ij by (auto simp: \<rho>_def segment_def)
  moreover have "ts_initial F ts (\<rho> 0)" using shortestD(3) [OF sh] ij(1) by (simp add: \<rho>_def)
  moreover have "\<rho> (k - (j - i)) = \<pi> k" using ij by (auto simp: \<rho>_def)
  ultimately have "cex F ts bad (k - (j - i))"
    using shortestD(4) [OF sh] unfolding cex_def ts_path_def segment_def by (intro exI [of _ \<rho>]) simp
  with shortestD(5) [OF sh, of "k - (j - i)"] ij show False by simp
qed

lemma shortest_exists:
  assumes "ts_wf ts" and "cex F ts bad n"
  obtains \<pi> k where "k \<le> n" and "shortest_cex F ts bad \<pi> k"
proof -
  define k where "k = (LEAST k. cex F ts bad k)"
  have c: "cex F ts bad k" unfolding k_def by (rule LeastI [of _ n]) (rule assms(2))
  have le: "k \<le> n" unfolding k_def by (rule Least_le) (rule assms(2))
  have less: "\<not> cex F ts bad j" if "j < k" for j using that unfolding k_def by (rule not_less_Least)
  from c obtain \<pi> where "ts_path F ts \<pi> k" "holds F (\<pi> k) bad" by (auto simp: cex_def)
  with assms(1) less have "shortest_cex F ts bad \<pi> k" by (simp add: shortest_cex_def)
  with le show thesis by (rule that)
qed

subsection \<open>Variables without an update are free\<close>

text \<open>C27: a state variable without an update is free: in a system built by the operations, the
  target of a step can be replaced by any state that some step reaches and that agrees with it on
  the updated state variables.  Variables without an update (\<open>statevars_with_no_update\<close>) are
  thus constrained by the invariants only.\<close>

theorem no_update_variables_are_free:
  assumes "smt_terms B F" and "run_calls B cs (if functional then empty_fts tab else empty_rts tab) = Inr ts"
    and "ts_step F ts s t" and "ts_step F ts s0 t'" and "agree_funs t t'"
    and "\<forall>v \<in> set (ts_statevars ts). v \<notin> set (ts_no_state_updates ts) \<longrightarrow> t (sym_of v) = t' (sym_of v)"
  shows "ts_step F ts s t'"
proof -
  let ?e = "if functional then empty_fts tab else empty_rts tab"
  have "ts_wf ?e" "det_ok ?e" "upd_form F ?e"
    by (simp_all add: ts_wf_empty_fts ts_wf_empty_rts upd_form_empty)
      (simp_all add: det_ok_def empty_fts_def empty_rts_def empty_ts_def)
  with run_calls_upd_form [OF assms(1) _ _ _ assms(2)] have "swap_target F ts"
    by (blast intro: upd_form_swap)
  with assms(3-6) show ?thesis unfolding swap_target_def same_updated_def by blast
qed

theorem no_update_variables_are_free_witness:
  "\<exists>ts. run_calls plain_builder [MakeStatevar ''x'' BOOL] (empty_fts []) = Inr ts
     \<and> ts_no_state_updates ts = [vx]
     \<and> ts_step (\<lambda>_ _. BoolVal False) ts (\<lambda>x. default_val (snd x))
          (\<lambda>x. if x = (''x'', BOOL) then BoolVal True else default_val (snd x))"
proof -
  let ?d = "\<lambda>x. default_val (snd x)"
  let ?e = "\<lambda>x. if x = (''x'', BOOL) then BoolVal True else default_val (snd x)"
  let ?run = "run_calls plain_builder [MakeStatevar ''x'' BOOL] (empty_fts [])"
  have "case ?run of Inl e \<Rightarrow> False
    | Inr ts \<Rightarrow> ts_no_state_updates ts = [vx] \<and> ts_statevars ts = [vx] \<and> ts_trans ts = tm_true"
    by code_simp
  then obtain ts where ts: "?run = Inr ts" "ts_no_state_updates ts = [vx]" "ts_statevars ts = [vx]"
    "ts_trans ts = tm_true"
    by (auto split: sum.splits)
  have run: "run_calls plain_builder [MakeStatevar ''x'' BOOL] (if True then empty_fts [] else empty_rts []) = Inr ts"
    using ts(1) by (simp only: if_True)
  have w: "wsorted ?d" "wsorted ?e" "agree_funs ?d ?e"
    by (auto simp: wsorted_def default_val_carrier agree_funs_def)
  then have "ts_step (\<lambda>_ _. BoolVal False) ts ?d ?d" "ts_step (\<lambda>_ _. BoolVal False) ts ?e ?e"
    by (simp_all add: ts_step_def ts(4))
  from no_update_variables_are_free [OF plain.smt_terms_axioms run this w(3)] ts(2,3)
  have "ts_step (\<lambda>_ _. BoolVal False) ts ?d ?e" by simp
  with ts(1,2) show ?thesis by blast
qed

end
