(* ===== verification/Kinduction.thy ===== *)
theory Kinduction
  imports Bmc Ts_Updates
begin

section \<open>K-induction (engines/kinduction, engines/bmc_simplepath)\<close>

text \<open>
  The engine \<open>KInduction\<close>: one solver instance, with the initial-state predicate, its
  negations, the negated bad states and the simple-path constraints each behind a selector
  symbol, and the checks of one bound that switch them on and off by assumptions.
  \<open>BmcSimplePath\<close> is the same engine without the inductive step on the property.  The
  answer of the quantified query of \<open>is_right_total\<close> is a parameter, \<open>None\<close> when it throws.
\<close>

record kind_opts =
  ko_no_simple_path_check :: bool
  ko_eager_simple_path_check :: bool
  ko_no_multi_call :: bool
  ko_no_ind_check :: bool
  ko_no_ind_check_init_states :: bool
  ko_no_ind_check_property :: bool
  ko_one_time_base_check :: bool
  ko_check_trans_total :: bool
  ko_bound_step :: int

definition default_kind_opts :: kind_opts where
  "default_kind_opts =
     \<lparr>ko_no_simple_path_check = False, ko_eager_simple_path_check = False,
      ko_no_multi_call = False, ko_no_ind_check = False, ko_no_ind_check_init_states = False,
      ko_no_ind_check_property = False, ko_one_time_base_check = False,
      ko_check_trans_total = False, ko_bound_step = 1\<rparr>"

record 's kind = "'s prover" +
  ki_assumption :: "tm list"

subsection \<open>The selectors and the constraints behind them\<close>

abbreviation sel_init :: tm where "sel_init \<equiv> Sym ''sel_init'' BOOL"
abbreviation sel_neg_init_terms :: tm where "sel_neg_init_terms \<equiv> Sym ''sel_neg_init_terms_'' BOOL"
abbreviation sel_neg_bad_state_terms :: tm where
  "sel_neg_bad_state_terms \<equiv> Sym ''sel_neg_bad_state_terms_'' BOOL"
abbreviation sel_simple_path_terms :: tm where
  "sel_simple_path_terms \<equiv> Sym ''sel_simple_path_terms_'' BOOL"

text \<open>The constructor makes the selectors, which must not be in the symbol table.\<close>

definition new_kind :: "string list \<Rightarrow> 's \<Rightarrow> ('s kind \<times> string list) result" where
  "new_kind tab s =
     bindE (make_symbol ''sel_init'' BOOL tab) (\<lambda>(_, tab1).
     bindE (make_symbol ''sel_neg_init_terms_'' BOOL tab1) (\<lambda>(_, tab2).
     bindE (make_symbol ''sel_neg_bad_state_terms_'' BOOL tab2) (\<lambda>(_, tab3).
     bindE (make_symbol ''sel_simple_path_terms_'' BOOL tab3) (\<lambda>(_, tab4).
       Inr (\<lparr>pr_solver = s, pr_initialized = False, pr_reached_k = -1, pr_witness = [],
             pr_invar = None, ki_assumption = []\<rparr>, tab4)))))"

definition neg_lit :: "'s prover_env \<Rightarrow> tm \<Rightarrow> tm" where
  "neg_lit E t = mk_term (builder (en_solver E)) (op0 NotOp) [t]"

definition ind_assumption :: "'s prover_env \<Rightarrow> tm list" where
  "ind_assumption E = [sel_init, sel_neg_init_terms, neg_lit E sel_neg_bad_state_terms,
     neg_lit E sel_simple_path_terms]"

definition init_assumption :: "'s prover_env \<Rightarrow> tm list" where
  "init_assumption E = [neg_lit E sel_init, neg_lit E sel_neg_init_terms,
     neg_lit E sel_neg_bad_state_terms, neg_lit E sel_simple_path_terms]"

definition base_assumption :: "'s prover_env \<Rightarrow> tm list" where
  "base_assumption E = [neg_lit E sel_init, sel_neg_init_terms, neg_lit E sel_neg_bad_state_terms,
     neg_lit E sel_simple_path_terms]"

definition final_assumption :: "'s prover_env \<Rightarrow> tm list" where
  "final_assumption E = [neg_lit E sel_init, sel_neg_init_terms, sel_neg_bad_state_terms,
     sel_simple_path_terms]"

definition or_term :: "'s prover_env \<Rightarrow> tm \<Rightarrow> tm \<Rightarrow> tm" where
  "or_term E a b = mk_term (builder (en_solver E)) (op0 Or) [a, b]"

definition init_clause :: "'s prover_env \<Rightarrow> tm" where
  "init_clause E = or_term E sel_init (en_at E (ts_init (en_ts E)) 0)"

definition neg_init_clause :: "'s prover_env \<Rightarrow> nat \<Rightarrow> tm" where
  "neg_init_clause E j = or_term E sel_neg_init_terms (en_at E (neg_lit E (ts_init (en_ts E))) j)"

definition neg_bad_clause :: "'s prover_env \<Rightarrow> nat \<Rightarrow> tm" where
  "neg_bad_clause E j = or_term E sel_neg_bad_state_terms (en_at E (neg_lit E (en_bad E)) j)"

definition simple_path_constraint :: "'s prover_env \<Rightarrow> nat \<Rightarrow> nat \<Rightarrow> tm" where
  "simple_path_constraint E i j =
     or_term E
       (fold (\<lambda>v d. if 0 < i \<and> 0 < j \<and> v \<in> set (ts_no_state_updates (en_ts E)) then d
                else or_term E d (neg_lit E (mk_term (builder (en_solver E)) (op0 Equal)
                  [en_at E v i, en_at E v j])))
         (ts_statevars (en_ts E)) tm_false)
       sel_simple_path_terms"

subsection \<open>Simple-path checks\<close>

definition assume_only :: "tm list \<Rightarrow> 's kind \<Rightarrow> 's kind" where
  "assume_only ls p = p\<lparr>ki_assumption := ls\<rparr>"

definition check_assuming :: "'s prover_env \<Rightarrow> 's kind \<Rightarrow> smt_result \<times> 's kind" where
  "check_assuming E p =
     (let (r, s) = s_check_assuming (en_solver E) (ki_assumption p) (pr_solver p)
      in (r, p\<lparr>pr_solver := s\<rparr>))"

definition check_simple_path_eager :: "'s prover_env \<Rightarrow> kind_opts \<Rightarrow> nat \<Rightarrow> 's kind \<Rightarrow> bool \<times> 's kind" where
  "check_simple_path_eager E opts i p =
     (let cs = (if ko_no_simple_path_check opts then [] else map (\<lambda>j. simple_path_constraint E j i) [0..<i]);
          (r, p1) = check_assuming E (on_solver (asserts (en_solver E) cs) p)
      in (r = UNSAT, p1))"

definition state_pairs :: "nat \<Rightarrow> (nat \<times> nat) list" where
  "state_pairs i = concat (map (\<lambda>j. map (Pair j) [Suc j..<Suc i]) [0..<i])"

text \<open>
  The constraints the model violates, in the order the loops find them: only the first one
  is asserted (and the solver called again), or all of them, last one first.
\<close>

definition violated :: "'s prover_env \<Rightarrow> nat \<Rightarrow> 's \<Rightarrow> tm list" where
  "violated E i s = filter (\<lambda>c. s_get_value (en_solver E) s c = tm_false)
     (map (\<lambda>(j, l). simple_path_constraint E j l) (state_pairs i))"

fun check_simple_path_lazy :: "'s prover_env \<Rightarrow> kind_opts \<Rightarrow> nat \<Rightarrow> nat \<Rightarrow> 's kind
    \<Rightarrow> (bool \<times> 's kind) result" where
  "check_simple_path_lazy E opts 0 i p = Inl OutOfFuel"
| "check_simple_path_lazy E opts (Suc n) i p =
     (let (r, p1) = check_assuming E p in
      if r = UNSAT then Inr (True, p1)
      else if ko_no_simple_path_check opts then Inr (False, p1)
      else if r \<noteq> SAT then Inr (False, p1)
      else
        let vs = violated E i (pr_solver p1);
            add = (if ko_no_multi_call opts then rev vs else take 1 vs)
        in if vs = [] then Inr (False, p1)
           else check_simple_path_lazy E opts n i (on_solver (asserts (en_solver E) add) p1))"

subsection \<open>The final base case\<close>

definition is_trans_total :: "'s prover_env \<Rightarrow> kind_opts \<Rightarrow> bool option \<Rightarrow> bool" where
  "is_trans_total E opts rt =
     (if ko_check_trans_total opts \<and> rt = None then False
      else ko_check_trans_total opts \<and> rt = Some True
        \<or> ts_functional (en_ts E) \<and> ts_constraints (en_ts E) = [])"

definition any_bad :: "'s prover_env \<Rightarrow> nat \<Rightarrow> tm" where
  "any_bad E i = fold (\<lambda>f q. or_term E q (en_at E (en_bad E) f)) [1..<Suc i] (en_at E (en_bad E) 0)"

definition staged_bad :: "'s prover_env \<Rightarrow> nat \<Rightarrow> tm" where
  "staged_bad E i =
     mk_term (builder (en_solver E)) (op0 And) [en_at E (ts_init (en_ts E)) 0,
       fold (\<lambda>f q. or_term E (en_at E (en_bad E) f)
               (mk_term (builder (en_solver E)) (op0 And) [en_at E (ts_trans (en_ts E)) f, q]))
         (rev [0..<i]) (en_at E (en_bad E) i)]"

definition final_base_case_check :: "'s prover_env \<Rightarrow> kind_opts \<Rightarrow> bool option \<Rightarrow> nat \<Rightarrow> 's kind
    \<Rightarrow> (bool \<times> 's kind) result" where
  "final_base_case_check E opts rt i p =
     (let S = en_solver E;
          p1 = (if is_trans_total E opts rt
                then on_solver (s_assert S (any_bad E i)) (assume_only (final_assumption E) p)
                else on_solver (\<lambda>s. s_assert S (staged_bad E i) (s_reset_assertions S s)) (assume_only [] p));
          (r, p2) = check_assuming E p1
      in case r of
           SAT \<Rightarrow> Inr (False, compute_witness E p2)
         | UNSAT \<Rightarrow> Inr (True, p2)
         | UNKNOWN \<Rightarrow> Inl (PonoException ''Final base case check returned unknown''))"

subsection \<open>The engine\<close>

definition kind_initialize :: "'s prover_env \<Rightarrow> 's kind \<Rightarrow> 's kind result" where
  "kind_initialize E p =
     (if pr_initialized p then Inr p
      else bindE (prover_initialize E p) (\<lambda>p1.
        Inr (on_solver (\<lambda>s. s_assert (en_solver E) (init_clause E)
          (s_reset_assertions (en_solver E) s)) p1)))"

definition kind_reset_env :: "'s prover_env \<Rightarrow> 's kind \<Rightarrow> 's kind result" where
  "kind_reset_env E p = kind_initialize E (p\<lparr>pr_initialized := False\<rparr>)"

text \<open>An unsatisfiable inductive check proves the property, up to the postponed base case.\<close>

definition conclude :: "'s prover_env \<Rightarrow> kind_opts \<Rightarrow> bool option \<Rightarrow> nat \<Rightarrow> 's kind
    \<Rightarrow> (prover_result option \<times> 's kind) result" where
  "conclude E opts rt i p =
     (if ko_one_time_base_check opts
      then bindE (final_base_case_check E opts rt i p) (\<lambda>(ok, p1).
        Inr (Some (if ok then PR_TRUE else PR_FALSE), p1))
      else Inr (Some PR_TRUE, p))"

definition simple_path_phase :: "'s prover_env \<Rightarrow> kind_opts \<Rightarrow> bool option \<Rightarrow> nat \<Rightarrow> nat \<Rightarrow> 's kind
    \<Rightarrow> (prover_result option \<times> 's kind) result" where
  "simple_path_phase E opts rt n i p =
     (let p0 = assume_only (ind_assumption E) p in
      if ko_no_simple_path_check opts \<or> ts_statevars (en_ts E) = [] then Inr (None, p0)
      else bindE (if ko_eager_simple_path_check opts then Inr (check_simple_path_eager E opts i p0)
                  else check_simple_path_lazy E opts n i p0)
        (\<lambda>(unsat, p1). if unsat then conclude E opts rt i p1 else Inr (None, p1)))"

definition init_states_phase :: "'s prover_env \<Rightarrow> kind_opts \<Rightarrow> bool option \<Rightarrow> nat \<Rightarrow> 's kind
    \<Rightarrow> (prover_result option \<times> 's kind) result" where
  "init_states_phase E opts rt i p =
     (if 1 \<le> i \<and> \<not> ko_no_ind_check_init_states opts then
        let p1 = on_solver (asserts (en_solver E)
              (map (neg_init_clause E) [nat (pr_reached_k p + 1)..<Suc i]))
              (assume_only (init_assumption E) p);
            (r, p2) = check_assuming E p1
        in if r = UNSAT then conclude E opts rt i p2 else Inr (None, p2)
      else Inr (None, p))"

definition property_phase :: "'s prover_env \<Rightarrow> kind_opts \<Rightarrow> bool option \<Rightarrow> nat \<Rightarrow> 's kind
    \<Rightarrow> (prover_result option \<times> 's kind) result" where
  "property_phase E opts rt i p =
     (let S = en_solver E;
          p1 = on_solver (s_push S) (assume_only (ind_assumption E) p);
          p2 = (if \<not> ko_no_ind_check opts \<or> \<not> ko_no_ind_check_property opts \<or> \<not> ko_one_time_base_check opts
                then on_solver (s_assert S (en_at E (en_bad E) i)) p1 else p1)
      in if ko_no_ind_check_property opts then Inr (None, p2)
         else
           let (r, p3) = check_assuming E p2
           in if r = UNSAT
              then conclude E opts rt i
                (if ko_one_time_base_check opts then on_solver (s_pop S) p3 else p3)
              else Inr (None, p3))"

definition base_phase :: "'s prover_env \<Rightarrow> kind_opts \<Rightarrow> nat \<Rightarrow> 's kind \<Rightarrow> (prover_result option \<times> 's kind) result" where
  "base_phase E opts i p =
     (let S = en_solver E;
          p1 = assume_only (base_assumption E) p;
          (r, p2) = (if ko_one_time_base_check opts then (UNKNOWN, p1) else check_assuming E p1)
      in if r = SAT then Inr (Some PR_FALSE, compute_witness E p2)
         else Inr (None, (on_solver (asserts S (concat (map (\<lambda>j. [en_at E (ts_trans (en_ts E)) j, neg_bad_clause E j])
                [i..<nat (int i + ko_bound_step opts)]))) (on_solver (s_pop S) p2))
                \<lparr>pr_reached_k := int i\<rparr>))"

text \<open>A phase runs when none before it has given the answer.\<close>

definition and_then :: "(prover_result option \<times> 's kind) result
    \<Rightarrow> ('s kind \<Rightarrow> (prover_result option \<times> 's kind) result) \<Rightarrow> (prover_result option \<times> 's kind) result" where
  "and_then m f = bindE m (\<lambda>(res, p). case res of Some r \<Rightarrow> Inr (Some r, p) | None \<Rightarrow> f p)"

definition kind_bound :: "'s prover_env \<Rightarrow> kind_opts \<Rightarrow> bool option \<Rightarrow> nat \<Rightarrow> nat \<Rightarrow> 's kind
    \<Rightarrow> (prover_result option \<times> 's kind) result" where
  "kind_bound E opts rt n i p =
     and_then (simple_path_phase E opts rt n i p) (\<lambda>p1.
     and_then (init_states_phase E opts rt i p1) (\<lambda>p2.
     and_then (property_phase E opts rt i p2) (base_phase E opts i)))"

fun kind_loop :: "'s prover_env \<Rightarrow> kind_opts \<Rightarrow> bool option \<Rightarrow> nat \<Rightarrow> nat \<Rightarrow> int \<Rightarrow> int \<Rightarrow> 's kind
    \<Rightarrow> (prover_result \<times> 's kind) result" where
  "kind_loop E opts rt n 0 k i p = Inl OutOfFuel"
| "kind_loop E opts rt n (Suc m) k i p =
     (if i \<le> k then
        bindE (kind_bound E opts rt n (nat i) p) (\<lambda>(res, p1).
          case res of
            Some r \<Rightarrow> Inr (r, p1)
          | None \<Rightarrow> guardE (i + ko_bound_step opts < 2 ^ 31) (UndefinedBehaviour ''signed overflow'')
              (kind_loop E opts rt n m k (i + ko_bound_step opts) p1))
      else Inr (PR_UNKNOWN, p))"

definition kind_check_until :: "'s prover_env \<Rightarrow> kind_opts \<Rightarrow> bool option \<Rightarrow> nat \<Rightarrow> nat \<Rightarrow> int \<Rightarrow> 's kind
    \<Rightarrow> (prover_result \<times> 's kind) result" where
  "kind_check_until E opts rt n fuel k p =
     bindE (kind_initialize E p) (\<lambda>p1.
     guardE (ko_bound_step opts = 1 \<or> \<not> ko_eager_simple_path_check opts)
       (PonoException (''Must not combine '' @ [CHR 0x27] @ ''--kind-bound-step <n>'' @ [CHR 0x27]
         @ '' with '' @ [CHR 0x27] @ ''n > 1'' @ [CHR 0x27] @ '' and '' @ [CHR 0x27]
         @ ''--kind-eager-simple-path-check'' @ [CHR 0x27]))
     (guardE (ko_bound_step opts = 1 \<or> ko_one_time_base_check opts)
       (PonoException (''Must combine '' @ [CHR 0x27] @ ''--kind-bound-step <n>'' @ [CHR 0x27]
         @ '' with '' @ [CHR 0x27] @ ''n > 1'' @ [CHR 0x27] @ '' and '' @ [CHR 0x27]
         @ ''--kind-one-time-base-check'' @ [CHR 0x27]))
       (kind_loop E opts rt n fuel k (pr_reached_k p1 + 1) p1)))"

definition bmc_simple_path_check_until :: "'s prover_env \<Rightarrow> kind_opts \<Rightarrow> bool option \<Rightarrow> nat \<Rightarrow> nat \<Rightarrow> int \<Rightarrow> 's kind
    \<Rightarrow> (prover_result \<times> 's kind) result" where
  "bmc_simple_path_check_until E opts rt n fuel k p =
     bindE (kind_initialize E p)
       (kind_check_until E (opts\<lparr>ko_no_ind_check_property := True\<rparr>) rt n fuel k)"

lemma bmc_simple_path_is_kind:
  "bmc_simple_path_check_until E opts rt n fuel k p
     = kind_check_until E (opts\<lparr>ko_no_ind_check_property := True\<rparr>) rt n fuel k p"
proof -
  have "kind_initialize E q = Inr q" if "kind_initialize E p = Inr q" for q
    using that by (auto simp: kind_initialize_def prover_initialize_def on_solver_def bindE_Inr_iff guardE_def
        split: if_splits)
  then show ?thesis
    by (cases "kind_initialize E p") (simp_all add: bmc_simple_path_check_until_def kind_check_until_def)
qed

subsection \<open>The meaning of the formulas\<close>

definition kbool :: "bool \<Rightarrow> bool \<Rightarrow> bool \<Rightarrow> bool \<Rightarrow> string \<Rightarrow> bool option" where
  "kbool bi bn bb bs = map_of [(''sel_init'', bi), (''sel_neg_init_terms_'', bn),
     (''sel_neg_bad_state_terms_'', bb), (''sel_simple_path_terms_'', bs)]"

context safety_engine
begin

lemma plain_selectors [simp]:
  "plain_name ''sel_init''" "plain_name ''sel_neg_init_terms_''"
  "plain_name ''sel_neg_bad_state_terms_''" "plain_name ''sel_simple_path_terms_''"
  by (simp_all add: plain_name_def)

lemma eval_selectors:
  "relabel (kbool bi bn bb bs) \<sigma> (''sel_init'', BOOL) = BoolVal bi"
  "relabel (kbool bi bn bb bs) \<sigma> (''sel_neg_init_terms_'', BOOL) = BoolVal bn"
  "relabel (kbool bi bn bb bs) \<sigma> (''sel_neg_bad_state_terms_'', BOOL) = BoolVal bb"
  "relabel (kbool bi bn bb bs) \<sigma> (''sel_simple_path_terms_'', BOOL) = BoolVal bs"
  by (simp_all add: relabel_def kbool_def)

lemma holds_neg_lit [simp]: "holds F \<sigma> (neg_lit E t) \<longleftrightarrow> \<not> holds F \<sigma> t"
  by (simp add: neg_lit_def)

lemma holds_or_term [simp]: "holds F \<sigma> (or_term E a b) \<longleftrightarrow> holds F \<sigma> a \<or> holds F \<sigma> b"
  by (simp add: or_term_def)

lemma init_cur: "current (ts_init sys)"
  using covered_mono [OF forms_ok_parts(1) [OF wf_parts(3) [OF system_wf]]] by blast

lemma state_cur: "v \<in> set (ts_statevars sys) \<Longrightarrow> current v"
proof -
  assume v: "v \<in> set (ts_statevars sys)"
  then have "v \<in> ts_vars sys" by (simp add: ts_vars_def)
  then obtain n st where "v = Sym n st" using wf_symbolic [OF system_wf] is_symbolic_constE by blast
  with v show "current v" by simp
qed

lemma eval_state:
  assumes "unrolls_to F sys at \<sigma> \<rho>" and "v \<in> set (ts_statevars sys)"
  shows "eval F \<sigma> (at v j) = \<rho> j (sym_of v)"
proof -
  have "v \<in> ts_vars sys" using assms(2) by (simp add: ts_vars_def)
  then obtain n st where "v = Sym n st" using wf_symbolic [OF system_wf] is_symbolic_constE by blast
  with unrolls_current [OF assms(1) state_cur [OF assms(2)], of j] show ?thesis by simp
qed

lemma neg_cur: "current t \<Longrightarrow> current (neg_lit E t)"
  using syms_mk1 [of "op0 NotOp" t] unfolding neg_lit_def covered_def by blast

text \<open>Two states of a path that a simple-path constraint tells apart.\<close>

definition differ :: "(nat \<Rightarrow> assignment) \<Rightarrow> nat \<Rightarrow> nat \<Rightarrow> bool" where
  "differ \<rho> i j \<longleftrightarrow> (\<exists>v \<in> set (ts_statevars sys).
     \<not> (0 < i \<and> 0 < j \<and> v \<in> set (ts_no_state_updates sys)) \<and> \<rho> i (sym_of v) \<noteq> \<rho> j (sym_of v))"

lemma holds_simple_path:
  assumes u: "unrolls_to F sys at \<sigma> \<rho>"
  shows "holds F \<sigma> (simple_path_constraint E i j) \<longleftrightarrow> holds F \<sigma> sel_simple_path_terms \<or> differ \<rho> i j"
proof -
  let ?skip = "\<lambda>v. 0 < i \<and> 0 < j \<and> v \<in> set (ts_no_state_updates sys)"
  have "set vs \<subseteq> set (ts_statevars sys) \<Longrightarrow>
    holds F \<sigma> (fold (\<lambda>v d. if ?skip v then d
                else or_term E d (neg_lit E (mk_term B (op0 Equal) [at v i, at v j]))) vs d)
      \<longleftrightarrow> holds F \<sigma> d \<or> (\<exists>v \<in> set vs. \<not> ?skip v \<and> \<rho> i (sym_of v) \<noteq> \<rho> j (sym_of v))" for vs d
  proof (induction vs arbitrary: d)
    case (Cons v vs)
    then show ?case using eval_state [OF u, of v] by (cases "?skip v") auto
  qed simp
  from this [OF subset_refl, of tm_false] show ?thesis
    by (auto simp: simple_path_constraint_def differ_def)
qed

text \<open>What the solver holds when a bound is checked: what it must hold, and what it may hold.\<close>

definition kind_base :: "nat \<Rightarrow> tm set" where
  "kind_base i = insert (init_clause E) (trans_at ` {..<i})"

definition kind_side :: "nat \<Rightarrow> tm set" where
  "kind_side i = neg_bad_clause E ` {..<i} \<union> neg_init_clause E ` {1..i}
     \<union> (\<lambda>(j, l). simple_path_constraint E j l) ` {(j, l). j < l \<and> l \<le> i}"

lemma kind_mono: "i \<le> j \<Longrightarrow> kind_base i \<subseteq> kind_base j" "i \<le> j \<Longrightarrow> kind_side i \<subseteq> kind_side j"
  by (force simp: kind_base_def kind_side_def)+

text \<open>
  A segment of a path gives a model of everything the solver may hold, with the selectors at
  will, provided that the segment has the properties that are switched on.
\<close>

lemma segment_kind_model:
  assumes seg: "segment F sys \<pi> i"
    and on: "\<not> bi \<Longrightarrow> ts_initial F sys (\<pi> 0)"
      "\<And>j. \<not> bn \<Longrightarrow> 1 \<le> j \<Longrightarrow> j \<le> i \<Longrightarrow> \<not> ts_initial F sys (\<pi> j)"
      "\<And>j. \<not> bb \<Longrightarrow> j < i \<Longrightarrow> \<not> holds F (\<pi> j) bad"
      "\<And>j l. \<not> bs \<Longrightarrow> j < l \<Longrightarrow> l \<le> i \<Longrightarrow> differ \<pi> j l"
  obtains \<sigma> where "wsorted \<sigma>" and "\<And>t. t \<in> kind_base i \<union> kind_side i \<Longrightarrow> holds F \<sigma> t"
    and "holds F \<sigma> sel_init \<longleftrightarrow> bi" and "holds F \<sigma> sel_neg_init_terms \<longleftrightarrow> bn"
    and "holds F \<sigma> sel_neg_bad_state_terms \<longleftrightarrow> bb" and "holds F \<sigma> sel_simple_path_terms \<longleftrightarrow> bs"
    and "\<And>j. j \<le> i \<Longrightarrow> holds F \<sigma> (at bad j) \<longleftrightarrow> holds F (\<pi> j) bad"
proof -
  from seg obtain \<sigma>0 \<rho> where m: "wsorted \<sigma>0" "unrolls_to F sys at \<sigma>0 \<rho>" "all_states \<rho>"
    "\<And>j. j \<le> i \<Longrightarrow> \<rho> j = \<pi> j" "\<And>j. j < i \<Longrightarrow> holds F \<sigma>0 (trans_at j)"
    using segment_model [OF seg] by blast
  let ?\<sigma> = "relabel (kbool bi bn bb bs) \<sigma>0"
  note w = relabel_model [OF m(1,2), of "kbool bi bn bb bs"]
  have lab: "holds F ?\<sigma> sel_init \<longleftrightarrow> bi" "holds F ?\<sigma> sel_neg_init_terms \<longleftrightarrow> bn"
    "holds F ?\<sigma> sel_neg_bad_state_terms \<longleftrightarrow> bb" "holds F ?\<sigma> sel_simple_path_terms \<longleftrightarrow> bs"
    by (simp_all add: eval_selectors)
  have tr: "holds F ?\<sigma> (trans_at j)" if "j < i" for j
  proof -
    have "covered (ts_trans sys) (ts_vars sys)" by (rule forms_ok_parts(2) [OF wf_parts(3) [OF system_wf]])
    with m(2) w(2) m(5) [OF that] show ?thesis by (simp add: unrolls_to_def)
  qed
  have ini: "holds F ?\<sigma> (init_at j) \<longleftrightarrow> ts_initial F sys (\<pi> j)" if "j \<le> i" for j
    using unrolls_current [OF w(2) init_cur, of j] m(3) m(4) [OF that, symmetric]
    by (simp add: ts_initial_def all_states_def)
  have nini: "holds F ?\<sigma> (at (neg_lit E (ts_init sys)) j) \<longleftrightarrow> \<not> ts_initial F sys (\<pi> j)" if "j \<le> i" for j
    using unrolls_current [OF w(2) neg_cur [OF init_cur], of j] m(3) m(4) [OF that, symmetric]
    by (simp add: ts_initial_def all_states_def)
  have bd: "holds F ?\<sigma> (at bad j) \<longleftrightarrow> holds F (\<pi> j) bad" if "j \<le> i" for j
    using unrolls_current [OF w(2) bad_cur, of j] m(4) [OF that] by simp
  have nbd: "holds F ?\<sigma> (at (neg_lit E bad) j) \<longleftrightarrow> \<not> holds F (\<pi> j) bad" if "j \<le> i" for j
    using unrolls_current [OF w(2) neg_cur [OF bad_cur], of j] m(4) [OF that] by simp
  have df: "differ \<rho> j l \<longleftrightarrow> differ \<pi> j l" if "j < l" "l \<le> i" for j l
    using that m(4) by (simp add: differ_def)
  have "holds F ?\<sigma> t" if "t \<in> kind_base i \<union> kind_side i" for t
  proof -
    from that consider "t = init_clause E" | j where "j < i" "t = trans_at j"
      | j where "j < i" "t = neg_bad_clause E j" | j where "1 \<le> j" "j \<le> i" "t = neg_init_clause E j"
      | j l where "j < l" "l \<le> i" "t = simple_path_constraint E j l"
      by (auto simp: kind_base_def kind_side_def)
    then show ?thesis
    proof cases
      case 1
      then show ?thesis using ini [of 0] on(1) lab(1) by (auto simp: init_clause_def)
    next
      case (2 j)
      with tr show ?thesis by simp
    next
      case (3 j)
      then show ?thesis using nbd [of j] on(3) [of j] lab(3) by (auto simp: neg_bad_clause_def)
    next
      case (4 j)
      then show ?thesis using nini [of j] on(2) [of j] lab(2) by (auto simp: neg_init_clause_def)
    next
      case (5 j l)
      then show ?thesis using holds_simple_path [OF w(2)] df on(4) [of j l] lab(4) by auto
    qed
  qed
  from that [OF w(1) this lab bd] show thesis .
qed

text \<open>The three inductive checks: when one is unsatisfiable, shortest counterexamples are short.\<close>

definition bounded :: "nat \<Rightarrow> bool" where
  "bounded i \<longleftrightarrow> (\<forall>\<pi> k. shortest_cex F sys bad \<pi> k \<longrightarrow> k < i)"

lemma shortest_differs:
  assumes sh: "shortest_cex F sys bad \<pi> k" and sw: "swap_target F sys" and j: "j < l" "l \<le> k"
  shows "differ \<pi> j l"
proof (cases "j = 0")
  case True
  with shortest_differ_first [OF sh, of l] j show ?thesis by (auto simp: differ_def)
next
  case False
  with shortest_differ [OF sh sw, of j l] j show ?thesis by (auto simp: differ_def)
qed

lemma holds_neg_Sym: "holds F \<sigma> (neg_lit E (Sym n BOOL)) \<longleftrightarrow> \<not> holds F \<sigma> (Sym n BOOL)"
  by (rule holds_neg_lit)

lemma ind_unsat:
  assumes sw: "swap_target F sys" and as: "asserted s \<subseteq> kind_base i \<union> kind_side i"
    and c: "s_check_assuming S (ind_assumption E) s = (UNSAT, s')"
  shows "bounded i"
  unfolding bounded_def
proof (intro allI impI, rule ccontr)
  fix \<pi> k assume sh: "shortest_cex F sys bad \<pi> k" and "\<not> k < i"
  then have ik: "i \<le> k" by simp
  obtain \<sigma> where m: "wsorted \<sigma>" "\<And>t. t \<in> kind_base i \<union> kind_side i \<Longrightarrow> holds F \<sigma> t"
    "holds F \<sigma> sel_init" "holds F \<sigma> sel_neg_init_terms"
    "\<not> holds F \<sigma> sel_neg_bad_state_terms" "\<not> holds F \<sigma> sel_simple_path_terms"
    by (rule segment_kind_model [OF segment_mono [OF shortestD(2) [OF sh] ik], of True True False False])
      (use shortest_not_bad [OF sh] shortest_differs [OF sh sw] ik in auto)
  show False
    by (rule check_UNSAT_no_model [OF c m(1)]) (use as m in \<open>auto simp: ind_assumption_def\<close>)
qed

lemma init_unsat:
  assumes sw: "swap_target F sys" and as: "asserted s \<subseteq> kind_base i \<union> kind_side i"
    and c: "s_check_assuming S (init_assumption E) s = (UNSAT, s')"
  shows "bounded i"
  unfolding bounded_def
proof (intro allI impI, rule ccontr)
  fix \<pi> k assume sh: "shortest_cex F sys bad \<pi> k" and "\<not> k < i"
  then have ik: "i \<le> k" by simp
  obtain \<sigma> where m: "wsorted \<sigma>" "\<And>t. t \<in> kind_base i \<union> kind_side i \<Longrightarrow> holds F \<sigma> t"
    "\<not> holds F \<sigma> sel_init" "\<not> holds F \<sigma> sel_neg_init_terms"
    "\<not> holds F \<sigma> sel_neg_bad_state_terms" "\<not> holds F \<sigma> sel_simple_path_terms"
    by (rule segment_kind_model [OF segment_mono [OF shortestD(2) [OF sh] ik], of False False False False])
      (use shortest_not_bad [OF sh] shortest_differs [OF sh sw] shortest_not_initial [OF sh] shortestD(3) [OF sh] ik in auto)
  show False
    by (rule check_UNSAT_no_model [OF c m(1)]) (use as m in \<open>auto simp: init_assumption_def\<close>)
qed

lemma property_unsat:
  assumes sw: "swap_target F sys" and as: "asserted s \<subseteq> insert (at bad i) (kind_base i \<union> kind_side i)"
    and c: "s_check_assuming S (ind_assumption E) s = (UNSAT, s')"
  shows "bounded i"
  unfolding bounded_def
proof (intro allI impI, rule ccontr)
  fix \<pi> k assume sh: "shortest_cex F sys bad \<pi> k" and "\<not> k < i"
  then have ik: "i \<le> k" by simp
  let ?m = "k - i"
  let ?\<rho> = "\<lambda>j. \<pi> (?m + j)"
  have seg: "segment F sys ?\<rho> i" using shortestD(6) [OF sh, of ?m] ik by simp
  have df: "differ ?\<rho> j l" if "j < l" "l \<le> i" for j l
  proof -
    have "differ \<pi> (?m + j) (?m + l)" using shortest_differs [OF sh sw, of "?m + j" "?m + l"] that ik by simp
    then show ?thesis using that by (auto simp: differ_def)
  qed
  obtain \<sigma> where m: "wsorted \<sigma>" "\<And>t. t \<in> kind_base i \<union> kind_side i \<Longrightarrow> holds F \<sigma> t"
    "holds F \<sigma> sel_init" "holds F \<sigma> sel_neg_init_terms"
    "\<not> holds F \<sigma> sel_neg_bad_state_terms" "\<not> holds F \<sigma> sel_simple_path_terms"
    "\<And>j. j \<le> i \<Longrightarrow> holds F \<sigma> (at bad j) \<longleftrightarrow> holds F (?\<rho> j) bad"
    by (rule segment_kind_model [OF seg, of True True False False])
      (use shortest_not_bad [OF sh] df ik in auto)
  have "holds F \<sigma> (at bad i)" using m(7) [of i] shortestD(4) [OF sh] ik by simp
  then show False
    by (intro check_UNSAT_no_model [OF c m(1)]) (use as m(2-6) in \<open>auto simp: ind_assumption_def\<close>)
qed

text \<open>The base case.\<close>

lemma base_unsat:
  assumes sw: "swap_target F sys" and as: "asserted s \<subseteq> insert (at bad i) (kind_base i \<union> kind_side i)"
    and c: "s_check_assuming S (base_assumption E) s = (UNSAT, s')"
    and less: "\<And>j. j < i \<Longrightarrow> \<not> cex F sys bad j"
  shows "\<not> cex F sys bad i"
proof
  assume "cex F sys bad i"
  then obtain \<pi> k where sh: "k \<le> i" "shortest_cex F sys bad \<pi> k"
    using shortest_exists [OF system_wf] by blast
  then have "cex F sys bad k" by (auto simp: shortest_cex_def cex_def)
  with less sh have k: "k = i" by (metis le_neq_implies_less)
  note sh = sh(2) [unfolded k]
  obtain \<sigma> where m: "wsorted \<sigma>" "\<And>t. t \<in> kind_base i \<union> kind_side i \<Longrightarrow> holds F \<sigma> t"
    "\<not> holds F \<sigma> sel_init" "holds F \<sigma> sel_neg_init_terms"
    "\<not> holds F \<sigma> sel_neg_bad_state_terms" "\<not> holds F \<sigma> sel_simple_path_terms"
    "\<And>j. j \<le> i \<Longrightarrow> holds F \<sigma> (at bad j) \<longleftrightarrow> holds F (\<pi> j) bad"
    by (rule segment_kind_model [OF shortestD(2) [OF sh], of False True False False])
      (use shortest_not_bad [OF sh] shortest_differs [OF sh sw] shortestD(3) [OF sh] in auto)
  have "holds F \<sigma> (at bad i)" using m(7) [of i] shortestD(4) [OF sh] by simp
  then show False
    by (intro check_UNSAT_no_model [OF c m(1)]) (use as m(2-6) in \<open>auto simp: base_assumption_def\<close>)
qed

lemma base_sat:
  assumes d: "deep 0 (kind_base i) s" and b: "at bad i \<in> asserted s"
    and c: "s_check_assuming S (base_assumption E) s = (SAT, s')"
  obtains \<sigma> where "has_model s' \<sigma>" and "holds F \<sigma> (init_at 0)" and "\<And>j. j < i \<Longrightarrow> holds F \<sigma> (trans_at j)"
    and "holds F \<sigma> (at bad i)"
proof (rule check_SAT_model [OF c])
  fix \<sigma>
  assume m: "wsorted \<sigma>" "\<And>t. t \<in> asserted s \<Longrightarrow> holds F \<sigma> t"
    "\<And>t. t \<in> set (base_assumption E) \<Longrightarrow> holds F \<sigma> t"
    "\<And>t. s_get_value S s' t = Val (eval F \<sigma> t) (get_sort t)"
  have "holds F \<sigma> (init_clause E)" "\<And>j. j < i \<Longrightarrow> holds F \<sigma> (trans_at j)"
    using m(2) deep_asserted [OF d] by (auto simp: kind_base_def)
  moreover have "holds F \<sigma> (neg_lit E sel_init)" by (rule m(3)) (simp add: base_assumption_def)
  ultimately show thesis using that [of \<sigma>] m b by (simp add: has_model_def init_clause_def)
qed

subsection \<open>The postponed base case\<close>

definition trans_total :: bool where
  "trans_total \<longleftrightarrow> (\<forall>s. wsorted s \<longrightarrow> (\<exists>t. ts_step F sys s t))"

lemma extend_segment:
  assumes tot: trans_total and "segment F sys \<pi> j" and "j \<le> i"
  shows "\<exists>\<rho>. segment F sys \<rho> i \<and> (\<forall>m \<le> j. \<rho> m = \<pi> m)"
  using assms(3)
proof (induction i)
  case 0
  then show ?case using assms(2) by auto
next
  case (Suc i)
  show ?case
  proof (cases "j = Suc i")
    case True
    with assms(2) show ?thesis by blast
  next
    case False
    with Suc obtain \<rho> where r: "segment F sys \<rho> i" "\<forall>m \<le> j. \<rho> m = \<pi> m" by auto
    then have "wsorted (\<rho> i)" by (simp add: segment_def)
    with tot obtain t where t: "ts_step F sys (\<rho> i) t" by (auto simp: trans_total_def)
    have "segment F sys (\<rho>(Suc i := t)) (Suc i)"
      using segment_update [OF r(1), of "Suc i" t] t by (simp add: segment_Suc)
    moreover have "\<forall>m \<le> j. (\<rho>(Suc i := t)) m = \<pi> m" using r(2) False Suc.prems by simp
    ultimately show ?thesis by blast
  qed
qed

lemma holds_any_bad: "holds F \<sigma> (any_bad E i) \<longleftrightarrow> (\<exists>f \<le> i. holds F \<sigma> (at bad f))"
proof -
  have "holds F \<sigma> (fold (\<lambda>f q. or_term E q (at bad f)) fs q) \<longleftrightarrow>
      holds F \<sigma> q \<or> (\<exists>f \<in> set fs. holds F \<sigma> (at bad f))" for fs q
    by (induction fs arbitrary: q) auto
  moreover have "(\<exists>f \<le> i. holds F \<sigma> (at bad f)) \<longleftrightarrow>
      holds F \<sigma> (at bad 0) \<or> (\<exists>f \<in> set [1..<Suc i]. holds F \<sigma> (at bad f))"
    by (metis atLeastLessThan_iff le0 less_Suc_eq_le less_one linorder_not_less set_upt)
  ultimately show ?thesis by (simp only: any_bad_def)
qed

lemma holds_staged_bad:
  "holds F \<sigma> (staged_bad E i) \<longleftrightarrow> holds F \<sigma> (init_at 0)
    \<and> (\<exists>f \<le> i. (\<forall>q < f. holds F \<sigma> (trans_at q)) \<and> holds F \<sigma> (at bad f))"
proof -
  have "holds F \<sigma> (fold (\<lambda>f q. or_term E (at bad f) (mk_term B (op0 And) [trans_at f, q])) (rev [0..<n]) c)
      \<longleftrightarrow> (\<exists>f < n. (\<forall>q < f. holds F \<sigma> (trans_at q)) \<and> holds F \<sigma> (at bad f))
        \<or> (\<forall>q < n. holds F \<sigma> (trans_at q)) \<and> holds F \<sigma> c" for n c
  proof (induction n arbitrary: c)
    case (Suc n)
    show ?case by (simp add: Suc.IH Ex_less_Suc All_less_Suc) blast
  qed simp
  then show ?thesis by (auto simp: staged_bad_def le_less)
qed

lemma final_total_unsat:
  assumes tot: trans_total and as: "asserted s \<subseteq> insert (any_bad E i) (kind_base i \<union> kind_side i)"
    and c: "s_check_assuming S (final_assumption E) s = (UNSAT, s')" and j: "j \<le> i"
  shows "\<not> cex F sys bad j"
proof
  assume "cex F sys bad j"
  then obtain \<pi> where p: "ts_initial F sys (\<pi> 0)" "segment F sys \<pi> j" "holds F (\<pi> j) bad"
    by (auto simp: cex_def ts_path_def)
  from extend_segment [OF tot p(2) j] obtain \<rho> where r: "segment F sys \<rho> i" "\<forall>m \<le> j. \<rho> m = \<pi> m" by blast
  obtain \<sigma> where m: "wsorted \<sigma>" "\<And>t. t \<in> kind_base i \<union> kind_side i \<Longrightarrow> holds F \<sigma> t"
    "\<not> holds F \<sigma> sel_init" "holds F \<sigma> sel_neg_init_terms"
    "holds F \<sigma> sel_neg_bad_state_terms" "holds F \<sigma> sel_simple_path_terms"
    "\<And>j. j \<le> i \<Longrightarrow> holds F \<sigma> (at bad j) \<longleftrightarrow> holds F (\<rho> j) bad"
    by (rule segment_kind_model [OF r(1), of False True True True]) (use r(2) p(1) in auto)
  have "holds F \<sigma> (any_bad E i)" using m(7) [OF j] r(2) p(3) j by (auto simp: holds_any_bad)
  then show False
    by (intro check_UNSAT_no_model [OF c m(1)]) (use as m(2-6) in \<open>auto simp: final_assumption_def\<close>)
qed

lemma final_total_sat:
  assumes d: "deep 0 (kind_base i) s" and b: "any_bad E i \<in> asserted s"
    and c: "s_check_assuming S (final_assumption E) s = (SAT, s')"
  shows "\<exists>j \<le> i. cex F sys bad j"
proof (rule check_SAT_model [OF c])
  fix \<sigma>
  assume m: "wsorted \<sigma>" "\<And>t. t \<in> asserted s \<Longrightarrow> holds F \<sigma> t"
    "\<And>t. t \<in> set (final_assumption E) \<Longrightarrow> holds F \<sigma> t"
    "\<And>t. s_get_value S s' t = Val (eval F \<sigma> t) (get_sort t)"
  have "holds F \<sigma> (init_clause E)" and tr: "\<And>j. j < i \<Longrightarrow> holds F \<sigma> (trans_at j)"
    using m(2) deep_asserted [OF d] by (auto simp: kind_base_def)
  moreover have "holds F \<sigma> (neg_lit E sel_init)" by (rule m(3)) (simp add: final_assumption_def)
  ultimately have i0: "holds F \<sigma> (init_at 0)" by (simp add: init_clause_def)
  obtain j where j: "j \<le> i" "holds F \<sigma> (at bad j)" using m(2) [OF b] by (auto simp: holds_any_bad)
  have "has_model s' \<sigma>" using m by (simp add: has_model_def)
  from model_cex [OF this i0 tr j(2,1)] j(1) show ?thesis by blast
qed

lemma staged_bad_cex:
  assumes "s_check_assuming S [] s = (r, s')" and "asserted s = {staged_bad E i}"
  shows "r = SAT \<Longrightarrow> \<exists>j \<le> i. cex F sys bad j" and "r = UNSAT \<Longrightarrow> j \<le> i \<Longrightarrow> \<not> cex F sys bad j"
proof -
  show "\<exists>j \<le> i. cex F sys bad j" if "r = SAT"
  proof -
    from assms(1) that obtain \<sigma> where m: "has_model s' \<sigma>" "holds F \<sigma> (staged_bad E i)"
      using check_sat_model assms(2) by (metis singletonI)
    then obtain f where f: "holds F \<sigma> (init_at 0)" "f \<le> i" "\<And>q. q < f \<Longrightarrow> holds F \<sigma> (trans_at q)" "holds F \<sigma> (at bad f)"
      by (auto simp: holds_staged_bad)
    from model_cex [OF m(1) f(1,3,4) order_refl] f(2) show ?thesis by blast
  qed
  show "\<not> cex F sys bad j" if "r = UNSAT" "j \<le> i"
  proof
    assume "cex F sys bad j"
    then obtain \<pi> where p: "ts_initial F sys (\<pi> 0)" "segment F sys \<pi> j" "holds F (\<pi> j) bad"
      by (auto simp: cex_def ts_path_def)
    from p(2) obtain \<sigma> \<rho> where m: "wsorted \<sigma>" "unrolls_to F sys at \<sigma> \<rho>" "all_states \<rho>"
      "\<And>q. q \<le> j \<Longrightarrow> \<rho> q = \<pi> q" "\<And>q. q < j \<Longrightarrow> holds F \<sigma> (trans_at q)"
      using segment_model [OF p(2)] by blast
    have "holds F \<sigma> (init_at 0)" using unrolls_init [OF m(3,2)] m(4) [of 0] p(1) by simp
    moreover have "holds F \<sigma> (at bad j)" using unrolls_current [OF m(2) bad_cur, of j] m(4) [of j] p(3) by simp
    ultimately have "holds F \<sigma> (staged_bad E i)" using m(5) that(2) by (auto simp: holds_staged_bad)
    then show False using assms(1) that(1)
      by (intro check_UNSAT_no_model [OF _ m(1)]) (use assms(2) in auto)
  qed
qed

lemma final_check_sound:
  assumes as: "asserted (pr_solver p) \<subseteq> kind_base i \<union> kind_side i" and d: "deep 0 (kind_base i) (pr_solver p)"
    and tot: "is_trans_total E opts rt \<longrightarrow> trans_total"
    and f: "final_base_case_check E opts rt i p = Inr (ok, p')"
  shows "if ok then \<forall>j \<le> i. \<not> cex F sys bad j else \<exists>j \<le> i. cex F sys bad j"
proof (cases "is_trans_total E opts rt")
  case True
  let ?s = "s_assert S (any_bad E i) (pr_solver p)"
  obtain r s' where c: "s_check_assuming S (final_assumption E) ?s = (r, s')" by (rule prod.exhaust)
  from f True c have ok: "r = SAT \<and> \<not> ok \<or> r = UNSAT \<and> ok"
    by (cases r) (auto simp: final_base_case_check_def check_assuming_def Let_def assume_only_def on_solver_def)
  have as': "asserted ?s \<subseteq> insert (any_bad E i) (kind_base i \<union> kind_side i)" using as by auto
  from ok show ?thesis
  proof
    assume sat: "r = SAT \<and> \<not> ok"
    with c have "s_check_assuming S (final_assumption E) ?s = (SAT, s')" by simp
    from final_total_sat [OF deep_assert [OF d] _ this] sat show ?thesis by simp
  next
    assume un: "r = UNSAT \<and> ok"
    with c have "s_check_assuming S (final_assumption E) ?s = (UNSAT, s')" by simp
    from final_total_unsat [OF mp [OF tot True] as' this] un show ?thesis by simp
  qed
next
  case False
  let ?s = "s_assert S (staged_bad E i) (s_reset_assertions S (pr_solver p))"
  obtain r s' where c: "s_check_assuming S [] ?s = (r, s')" by (rule prod.exhaust)
  from f False c have ok: "r = SAT \<and> \<not> ok \<or> r = UNSAT \<and> ok"
    by (cases r) (auto simp: final_base_case_check_def check_assuming_def Let_def assume_only_def on_solver_def)
  have "asserted ?s = {staged_bad E i}" by simp
  note st = staged_bad_cex [OF c this]
  from ok show ?thesis
  proof
    assume "r = SAT \<and> \<not> ok"
    with st(1) show ?thesis by simp
  next
    assume "r = UNSAT \<and> ok"
    with st(2) show ?thesis by simp
  qed
qed

subsection \<open>The phases of one bound\<close>

lemma deep0: "deep 0 X s \<longleftrightarrow> frames s \<noteq> [] \<and> X \<subseteq> asserted s"
  by (auto simp: deep_def asserted_def)

definition kind_inv :: "kind_opts \<Rightarrow> nat \<Rightarrow> 's kind \<Rightarrow> bool" where
  "kind_inv opts i p \<longleftrightarrow> pr_witness p = [] \<and> -1 \<le> pr_reached_k p \<and> pr_reached_k p < int i
     \<and> (0 < i \<longrightarrow> 0 \<le> pr_reached_k p) \<and> (ko_bound_step opts = 1 \<longrightarrow> pr_reached_k p = int i - 1)
     \<and> deep 0 (kind_base i) (pr_solver p) \<and> asserted (pr_solver p) \<subseteq> kind_base i \<union> kind_side i"

definition good_witness :: "nat \<Rightarrow> 's kind \<Rightarrow> bool" where
  "good_witness n p \<longleftrightarrow> (\<exists>\<pi>. ts_path F sys \<pi> n \<and> holds F (\<pi> n) bad \<and> length (pr_witness p) = n + 1
     \<and> (\<forall>m \<le> n. \<forall>v \<in> set (ts_statevars sys) \<union> set (ts_inputvars sys).
          map_of (pr_witness p ! m) v = Some (Val (\<pi> m (sym_of v)) (get_sort v))))"

definition kind_answer :: "kind_opts \<Rightarrow> nat \<Rightarrow> prover_result \<Rightarrow> 's kind \<Rightarrow> bool" where
  "kind_answer opts i r p \<longleftrightarrow> r = PR_TRUE \<and> safe F sys bad
     \<or> r = PR_FALSE \<and> (\<exists>j \<le> i. cex F sys bad j)
         \<and> (\<not> ko_one_time_base_check opts \<and> ko_bound_step opts = 1 \<longrightarrow> good_witness i p)"

text \<open>What a run of the phases assumes: the counterexamples the base case has excluded.\<close>

definition base_done :: "kind_opts \<Rightarrow> nat \<Rightarrow> bool" where
  "base_done opts i \<longleftrightarrow> ko_one_time_base_check opts \<or> (\<forall>j < i. \<not> cex F sys bad j)"

lemma bounded_safe: "bounded i \<Longrightarrow> (\<And>j. j < i \<Longrightarrow> \<not> cex F sys bad j) \<Longrightarrow> safe F sys bad"
  unfolding safe_def bounded_def by (metis shortest_exists [OF system_wf] shortest_cex_def cex_def)

lemma conclude_sound:
  assumes b: "bounded i" and as: "asserted (pr_solver p) \<subseteq> kind_base i \<union> kind_side i"
    and d: "deep 0 (kind_base i) (pr_solver p)" and less: "base_done opts i"
    and tot: "is_trans_total E opts rt \<longrightarrow> trans_total"
    and c: "conclude E opts rt i p = Inr (res, p')"
  shows "\<exists>r. res = Some r \<and> kind_answer opts i r p'"
proof (cases "ko_one_time_base_check opts")
  case True
  with c obtain ok where f: "final_base_case_check E opts rt i p = Inr (ok, p')"
    and r: "res = Some (if ok then PR_TRUE else PR_FALSE)"
    by (auto simp: conclude_def bindE_Inr_iff)
  from final_check_sound [OF as d tot f] True r bounded_safe [OF b] show ?thesis
    by (cases ok) (auto simp: kind_answer_def)
next
  case False
  with c less bounded_safe [OF b] show ?thesis by (auto simp: conclude_def base_done_def kind_answer_def)
qed

lemma check_assumingE:
  assumes "check_assuming E p = (r, p')"
  obtains s where "s_check_assuming S (ki_assumption p) (pr_solver p) = (r, s)" and "p' = p\<lparr>pr_solver := s\<rparr>"
  using assms by (auto simp: check_assuming_def split: prod.splits)

lemma kind_inv_parts:
  assumes "kind_inv opts i p"
  shows "asserted (pr_solver p) \<subseteq> kind_base i \<union> kind_side i" and "deep 0 (kind_base i) (pr_solver p)"
    and "pr_witness p = []" and "-1 \<le> pr_reached_k p" and "pr_reached_k p < int i"
    and "0 < i \<Longrightarrow> 0 \<le> pr_reached_k p"
  using assms by (simp_all add: kind_inv_def)

lemma kind_inv_solver:
  assumes "kind_inv opts i p" and "frames s \<noteq> []" and "asserted (pr_solver p) \<subseteq> asserted s"
    and "asserted s \<subseteq> kind_base i \<union> kind_side i"
  shows "kind_inv opts i (p\<lparr>pr_solver := s\<rparr>)" "kind_inv opts i (p\<lparr>pr_solver := s, ki_assumption := ls\<rparr>)"
  using assms by (auto simp: kind_inv_def deep0)

lemma kind_inv_assume [simp]: "kind_inv opts i (assume_only ls p) = kind_inv opts i p"
  by (simp add: kind_inv_def assume_only_def)

lemma kind_inv_check:
  assumes "kind_inv opts i p" and "check_assuming E p = (r, p')"
  shows "kind_inv opts i p'" and "pr_reached_k p' = pr_reached_k p"
proof -
  obtain s where s: "s_check_assuming S (ki_assumption p) (pr_solver p) = (r, s)" "p' = p\<lparr>pr_solver := s\<rparr>"
    using assms(2) by (rule check_assumingE)
  with frames_check [OF s(1)] asserted_check [OF s(1)] assms(1)
  show "kind_inv opts i p'" "pr_reached_k p' = pr_reached_k p" by (simp_all add: kind_inv_def deep0)
qed

lemma kind_inv_asserts:
  assumes "kind_inv opts i p" and "set cs \<subseteq> kind_side i"
  shows "kind_inv opts i (on_solver (asserts S cs) p)"
proof -
  have "frames (asserts S cs (pr_solver p)) \<noteq> []"
    using assms(1) deep_asserts [of 0 "kind_base i" "pr_solver p" cs] by (simp add: kind_inv_def deep0)
  then show ?thesis unfolding on_solver_def
    by (intro kind_inv_solver(1) [OF assms(1)]) (use assms in \<open>auto simp: kind_inv_def\<close>)
qed

lemma eager_sound:
  assumes inv: "kind_inv opts i p" and ls: "ki_assumption p = ind_assumption E" and sw: "swap_target F sys"
    and c: "check_simple_path_eager E opts i p = (unsat, p')"
  shows "kind_inv opts i p'" and "unsat \<Longrightarrow> bounded i"
proof -
  let ?cs = "if ko_no_simple_path_check opts then [] else map (\<lambda>j. simple_path_constraint E j i) [0..<i]"
  obtain r where r: "check_assuming E (on_solver (asserts S ?cs) p) = (r, p')" "unsat = (r = UNSAT)"
    using c by (auto simp: check_simple_path_eager_def Let_def split: prod.splits)
  have "set ?cs \<subseteq> kind_side i" by (auto simp: kind_side_def)
  note inv1 = kind_inv_asserts [OF inv this]
  show "kind_inv opts i p'" by (rule kind_inv_check(1) [OF inv1 r(1)])
  obtain s where "s_check_assuming S (ind_assumption E) (pr_solver (on_solver (asserts S ?cs) p)) = (r, s)"
    using r(1) ls by (auto simp: on_solver_def elim: check_assumingE)
  with ind_unsat [OF sw kind_inv_parts(1) [OF inv1]] r(2) show "unsat \<Longrightarrow> bounded i" by simp
qed

lemma set_state_pairs: "set (state_pairs i) = {(j, l). j < l \<and> l \<le> i}"
  by (force simp: state_pairs_def image_iff)

lemma violated_side: "set (violated E i s) \<subseteq> kind_side i"
  using set_state_pairs [of i] by (force simp: violated_def kind_side_def)

lemma lazy_sound:
  "kind_inv opts i p \<Longrightarrow> ki_assumption p = ind_assumption E \<Longrightarrow> swap_target F sys \<Longrightarrow>
    check_simple_path_lazy E opts n i p = Inr (unsat, p') \<Longrightarrow>
    kind_inv opts i p' \<and> (unsat \<longrightarrow> bounded i)"
proof (induction n arbitrary: p)
  case (Suc n)
  obtain r p1 where c: "check_assuming E p = (r, p1)" by (rule prod.exhaust)
  note inv1 = kind_inv_check(1) [OF Suc.prems(1) c]
  obtain s where s: "s_check_assuming S (ind_assumption E) (pr_solver p) = (r, s)" "p1 = p\<lparr>pr_solver := s\<rparr>"
    using c Suc.prems(2) by (auto elim: check_assumingE)
  have un: "r = UNSAT \<Longrightarrow> bounded i"
    using ind_unsat [OF Suc.prems(3) kind_inv_parts(1) [OF Suc.prems(1)]] s(1) by simp
  let ?vs = "violated E i (pr_solver p1)"
  let ?add = "if ko_no_multi_call opts then rev ?vs else take 1 ?vs"
  have "set ?add \<subseteq> kind_side i" using violated_side [of i "pr_solver p1"] by (auto dest: in_set_takeD)
  note inv2 = kind_inv_asserts [OF inv1 this]
  have ls: "ki_assumption (on_solver (asserts S ?add) p1) = ind_assumption E"
    using s(2) Suc.prems(2) by (simp add: on_solver_def)
  show ?case
  proof (cases "r = SAT \<and> \<not> ko_no_simple_path_check opts \<and> ?vs \<noteq> []")
    case True
    then have "check_simple_path_lazy E opts (Suc n) i p
        = check_simple_path_lazy E opts n i (on_solver (asserts S ?add) p1)"
      using c by (simp add: Let_def)
    with Suc.IH [OF inv2 ls Suc.prems(3)] Suc.prems(4) show ?thesis by simp
  next
    case False
    then have "check_simple_path_lazy E opts (Suc n) i p = Inr (r = UNSAT, p1)"
      using c by (cases r) (auto simp: Let_def)
    with Suc.prems(4) inv1 un show ?thesis by auto
  qed
qed simp

text \<open>What a phase may answer, and what it leaves behind when it gives none.\<close>

definition phase_ok :: "('s kind \<Rightarrow> bool) \<Rightarrow> kind_opts \<Rightarrow> nat \<Rightarrow> prover_result option \<times> 's kind \<Rightarrow> bool" where
  "phase_ok I opts i rp \<longleftrightarrow> (case rp of (Some r, p) \<Rightarrow> kind_answer opts i r p | (None, p) \<Rightarrow> I p)"

lemma conclude_phase:
  assumes "bounded i" and "kind_inv opts i p" and "base_done opts i"
    and "is_trans_total E opts rt \<longrightarrow> trans_total" and "conclude E opts rt i p = Inr rp"
  shows "phase_ok I opts i rp"
  using conclude_sound [OF assms(1) kind_inv_parts(1,2) [OF assms(2)] assms(3,4), where res = "fst rp" and p' = "snd rp"]
    assms(5) by (auto simp: phase_ok_def)

lemma simple_path_phase_sound:
  assumes inv: "kind_inv opts i p" and sw: "swap_target F sys" and less: "base_done opts i"
    and tot: "is_trans_total E opts rt \<longrightarrow> trans_total"
    and c: "simple_path_phase E opts rt n i p = Inr rp"
  shows "phase_ok (kind_inv opts i) opts i rp"
proof (cases "ko_no_simple_path_check opts \<or> ts_statevars sys = []")
  case True
  with c inv show ?thesis by (auto simp: simple_path_phase_def Let_def phase_ok_def)
next
  case False
  let ?p = "assume_only (ind_assumption E) p"
  have inv0: "kind_inv opts i ?p" using inv by simp
  have ls: "ki_assumption ?p = ind_assumption E" by (simp add: assume_only_def)
  from c False obtain unsat p1 where
    chk: "(if ko_eager_simple_path_check opts then Inr (check_simple_path_eager E opts i ?p)
            else check_simple_path_lazy E opts n i ?p) = Inr (unsat, p1)"
    and rp: "(if unsat then conclude E opts rt i p1 else Inr (None, p1)) = Inr rp"
    by (auto simp: simple_path_phase_def Let_def bindE_Inr_iff)
  have inv1: "kind_inv opts i p1 \<and> (unsat \<longrightarrow> bounded i)"
  proof (cases "ko_eager_simple_path_check opts")
    case True
    with chk have "check_simple_path_eager E opts i ?p = (unsat, p1)" by simp
    from eager_sound [OF inv0 ls sw this] show ?thesis by blast
  next
    case False
    with chk have "check_simple_path_lazy E opts n i ?p = Inr (unsat, p1)" by simp
    from lazy_sound [OF inv0 ls sw this] show ?thesis .
  qed
  show ?thesis
  proof (cases unsat)
    case True
    with inv1 rp conclude_phase [OF _ _ less tot, of p1] show ?thesis by simp
  next
    case False
    with inv1 rp show ?thesis by (auto simp: phase_ok_def)
  qed
qed

lemma init_states_phase_sound:
  assumes inv: "kind_inv opts i p" and sw: "swap_target F sys" and less: "base_done opts i"
    and tot: "is_trans_total E opts rt \<longrightarrow> trans_total"
    and c: "init_states_phase E opts rt i p = Inr rp"
  shows "phase_ok (kind_inv opts i) opts i rp"
proof (cases "1 \<le> i \<and> \<not> ko_no_ind_check_init_states opts")
  case False
  with c inv show ?thesis by (auto simp: init_states_phase_def phase_ok_def)
next
  case True
  let ?cs = "map (neg_init_clause E) [nat (pr_reached_k p + 1)..<Suc i]"
  let ?p = "on_solver (asserts S ?cs) (assume_only (init_assumption E) p)"
  have "set ?cs \<subseteq> kind_side i" using kind_inv_parts(6) [OF inv] True by (auto simp: kind_side_def)
  then have inv0: "kind_inv opts i ?p" by (intro kind_inv_asserts) (use inv in simp_all)
  obtain r p1 where ck: "check_assuming E ?p = (r, p1)" by (rule prod.exhaust)
  with c True have rp: "(if r = UNSAT then conclude E opts rt i p1 else Inr (None, p1)) = Inr rp"
    by (simp add: init_states_phase_def Let_def)
  note inv1 = kind_inv_check(1) [OF inv0 ck]
  obtain s where "s_check_assuming S (init_assumption E) (pr_solver ?p) = (r, s)"
    using ck by (auto simp: on_solver_def assume_only_def elim: check_assumingE)
  then have un: "r = UNSAT \<Longrightarrow> bounded i" using init_unsat [OF sw kind_inv_parts(1) [OF inv0]] by simp
  show ?thesis
  proof (cases "r = UNSAT")
    case True
    with rp conclude_phase [OF un inv1 less tot] show ?thesis by simp
  next
    case False
    with rp inv1 show ?thesis by (auto simp: phase_ok_def)
  qed
qed

text \<open>After the property phase the bad state is on a level of its own.\<close>

definition pushed_inv :: "kind_opts \<Rightarrow> nat \<Rightarrow> 's kind \<Rightarrow> bool" where
  "pushed_inv opts i p \<longleftrightarrow> kind_inv opts i (on_solver (s_pop S) p)
     \<and> asserted (pr_solver p) \<subseteq> insert (at bad i) (kind_base i \<union> kind_side i)
     \<and> deep 0 (kind_base i) (pr_solver p)
     \<and> (\<not> ko_one_time_base_check opts \<longrightarrow> at bad i \<in> asserted (pr_solver p))"

lemma pushed_inv_check:
  assumes "pushed_inv opts i p" and "check_assuming E p = (r, p')"
  shows "pushed_inv opts i p'"
proof -
  obtain s where s: "s_check_assuming S (ki_assumption p) (pr_solver p) = (r, s)" "p' = p\<lparr>pr_solver := s\<rparr>"
    using assms(2) by (rule check_assumingE)
  have f: "frames s = frames (pr_solver p)" using frames_check [OF s(1)] .
  then have "frames (s_pop S s) = frames (s_pop S (pr_solver p))" by (simp add: frames_pop)
  then have "asserted (s_pop S s) = asserted (s_pop S (pr_solver p))" by (simp add: asserted_def)
  with f assms(1) s(2) show ?thesis
    by (auto simp: pushed_inv_def kind_inv_def on_solver_def frames_pop deep0 asserted_check [OF s(1)])
qed

lemma property_phase_sound:
  assumes inv: "kind_inv opts i p" and sw: "swap_target F sys" and less: "base_done opts i"
    and tot: "is_trans_total E opts rt \<longrightarrow> trans_total"
    and c: "property_phase E opts rt i p = Inr rp"
  shows "phase_ok (pushed_inv opts i) opts i rp"
proof -
  let ?add = "\<not> ko_no_ind_check opts \<or> \<not> ko_no_ind_check_property opts \<or> \<not> ko_one_time_base_check opts"
  let ?p1 = "on_solver (s_push S) (assume_only (ind_assumption E) p)"
  define p2 where "p2 = (if ?add then on_solver (s_assert S (at bad i)) ?p1 else ?p1)"
  have ls: "ki_assumption p2 = ind_assumption E" by (simp add: p2_def on_solver_def assume_only_def)
  have fr: "frames (s_pop S (pr_solver p2)) = frames (pr_solver p)"
    by (simp add: p2_def on_solver_def assume_only_def frames_pop frames_push frames_assert)
  have as: "asserted (pr_solver p2) = (if ?add then insert (at bad i) (asserted (pr_solver p)) else asserted (pr_solver p))"
    by (simp add: p2_def on_solver_def assume_only_def)
  have ne: "frames (pr_solver p2) \<noteq> []"
    by (simp add: p2_def on_solver_def assume_only_def frames_push frames_assert)
  have pop: "kind_inv opts i (on_solver (s_pop S) p2)"
    using inv fr by (auto simp: kind_inv_def on_solver_def deep0 asserted_def p2_def assume_only_def)
  have inv2: "pushed_inv opts i p2"
    using pop as ne inv kind_inv_parts(1,2) [OF inv] by (auto simp: pushed_inv_def deep0)
  show ?thesis
  proof (cases "ko_no_ind_check_property opts")
    case True
    with c have "rp = (None, p2)" by (simp add: property_phase_def Let_def p2_def)
    with inv2 show ?thesis by (simp add: phase_ok_def)
  next
    case False
    obtain r p3 where ck: "check_assuming E p2 = (r, p3)" by (rule prod.exhaust)
    note inv3 = pushed_inv_check [OF inv2 ck]
    from c False ck have rp: "(if r = UNSAT then conclude E opts rt i
          (if ko_one_time_base_check opts then on_solver (s_pop S) p3 else p3) else Inr (None, p3)) = Inr rp"
      by (simp add: property_phase_def Let_def p2_def)
    obtain s where "s_check_assuming S (ind_assumption E) (pr_solver p2) = (r, s)"
      using ck ls by (auto elim: check_assumingE)
    then have un: "r = UNSAT \<Longrightarrow> bounded i"
      using property_unsat [OF sw] inv2 by (auto simp: pushed_inv_def)
    show ?thesis
    proof (cases "r = UNSAT")
      case True
      note b = un [OF True]
      show ?thesis
      proof (cases "ko_one_time_base_check opts")
        case one: True
        with rp True have "conclude E opts rt i (on_solver (s_pop S) p3) = Inr rp" by simp
        moreover have "kind_inv opts i (on_solver (s_pop S) p3)" using inv3 by (simp add: pushed_inv_def)
        ultimately show ?thesis by (intro conclude_phase [OF b _ less tot])
      next
        case no: False
        with rp True have "rp = (Some PR_TRUE, p3)" by (simp add: conclude_def)
        with bounded_safe [OF b] less no show ?thesis by (auto simp: phase_ok_def kind_answer_def base_done_def)
      qed
    next
      case False
      with rp inv3 show ?thesis by (auto simp: phase_ok_def)
    qed
  qed
qed

text \<open>The base case, and the step to the next bound.\<close>

lemma base_phase_sound:
  assumes inv: "pushed_inv opts i p" and sw: "swap_target F sys" and less: "base_done opts i"
    and dec: "\<not> ko_one_time_base_check opts \<longrightarrow> ko_bound_step opts = 1 \<and> (\<forall>as s s'. s_check_assuming S as s \<noteq> (UNKNOWN, s'))"
    and step: "1 \<le> ko_bound_step opts"
    and c: "base_phase E opts i p = Inr rp"
  shows "phase_ok (\<lambda>q. kind_inv opts (nat (int i + ko_bound_step opts)) q
      \<and> base_done opts (nat (int i + ko_bound_step opts))) opts i rp"
proof -
  let ?i' = "nat (int i + ko_bound_step opts)"
  let ?p1 = "assume_only (base_assumption E) p"
  obtain r p2 where ck: "(if ko_one_time_base_check opts then (UNKNOWN, ?p1) else check_assuming E ?p1) = (r, p2)"
    by (rule prod.exhaust)
  have inv1: "pushed_inv opts i ?p1"
    using inv by (simp add: pushed_inv_def kind_inv_def on_solver_def assume_only_def)
  have inv2: "pushed_inv opts i p2"
  proof (cases "ko_one_time_base_check opts")
    case True
    with ck inv1 show ?thesis by simp
  next
    case False
    with ck have "check_assuming E ?p1 = (r, p2)" by simp
    with pushed_inv_check [OF inv1] show ?thesis .
  qed
  have fields: "pr_reached_k p2 = pr_reached_k p" "pr_witness p2 = pr_witness p"
    using ck by (auto simp: assume_only_def split: if_splits elim!: check_assumingE)
  have chk: "\<exists>s. s_check_assuming S (base_assumption E) (pr_solver p) = (r, s) \<and> pr_solver p2 = s"
    if "\<not> ko_one_time_base_check opts"
    using ck that by (auto simp: assume_only_def elim!: check_assumingE)
  show ?thesis
  proof (cases "r = SAT")
    case True
    then have no: "\<not> ko_one_time_base_check opts" using ck by (auto split: if_splits)
    then obtain s where s: "s_check_assuming S (base_assumption E) (pr_solver p) = (SAT, s)" "pr_solver p2 = s"
      using chk True by auto
    obtain \<sigma> where m: "has_model s \<sigma>" "holds F \<sigma> (init_at 0)" "\<And>j. j < i \<Longrightarrow> holds F \<sigma> (trans_at j)"
      "holds F \<sigma> (at bad i)"
      using base_sat [OF _ _ s(1)] inv no unfolding pushed_inv_def by blast
    have cex: "cex F sys bad i" by (rule model_cex [OF m order_refl])
    have rk: "pr_reached_k p = int i - 1" "pr_witness p = []"
      using inv dec [rule_format, OF no] by (auto simp: pushed_inv_def kind_inv_def on_solver_def)
    have "\<exists>\<pi>. unrolls_to F sys at \<sigma> \<pi> \<and> ts_path F sys \<pi> (nat (pr_reached_k p2 + 1))
      \<and> length (pr_witness (compute_witness E p2)) = nat (pr_reached_k p2 + 1) + 1
      \<and> (\<forall>m \<le> nat (pr_reached_k p2 + 1). \<forall>v \<in> set (ts_statevars sys) \<union> set (ts_inputvars sys).
          map_of (pr_witness (compute_witness E p2) ! m) v = Some (Val (\<pi> m (sym_of v)) (get_sort v)))"
      by (rule model_witness [of p2 \<sigma>]) (use m fields rk s(2) in simp_all)
    then obtain \<pi> where "unrolls_to F sys at \<sigma> \<pi>" "ts_path F sys \<pi> i"
      "length (pr_witness (compute_witness E p2)) = i + 1"
      "\<forall>m \<le> i. \<forall>v \<in> set (ts_statevars sys) \<union> set (ts_inputvars sys).
          map_of (pr_witness (compute_witness E p2) ! m) v = Some (Val (\<pi> m (sym_of v)) (get_sort v))"
      using fields(1) rk(1) by auto
    moreover from this(1) m(4) unrolls_current [OF _ bad_cur] have "holds F (\<pi> i) bad" by simp
    ultimately have w: "good_witness i (compute_witness E p2)" unfolding good_witness_def by blast
    have "rp = (Some PR_FALSE, compute_witness E p2)"
      using c ck True by (simp add: base_phase_def Let_def)
    with w cex show ?thesis by (auto simp: phase_ok_def kind_answer_def)
  next
    case False
    let ?cs = "concat (map (\<lambda>j. [trans_at j, neg_bad_clause E j]) [i..<?i'])"
    let ?q = "(on_solver (asserts S ?cs) (on_solver (s_pop S) p2))\<lparr>pr_reached_k := int i\<rparr>"
    have rp: "rp = (None, ?q)" using c ck False by (simp add: base_phase_def Let_def)
    have ii: "i < ?i'" "int ?i' = int i + ko_bound_step opts" using step by simp_all
    have pop: "kind_inv opts i (on_solver (s_pop S) p2)" using inv2 by (simp add: pushed_inv_def)
    have cs: "set ?cs = trans_at ` {i..<?i'} \<union> neg_bad_clause E ` {i..<?i'}" by auto
    have b: "kind_base ?i' = kind_base i \<union> trans_at ` {i..<?i'}"
    proof -
      have "{..<?i'} = {..<i} \<union> {i..<?i'}" using ii(1) by auto
      then show ?thesis by (simp add: kind_base_def image_Un)
    qed
    have nb: "neg_bad_clause E ` {i..<?i'} \<subseteq> kind_side ?i'" "kind_side i \<subseteq> kind_side ?i'"
      using kind_mono(2) [of i ?i'] ii(1) by (auto simp: kind_side_def)
    have ne: "frames (asserts S ?cs (s_pop S (pr_solver p2))) \<noteq> []"
      using pop deep_asserts [of 0 "kind_base i"] by (auto simp: kind_inv_def deep0 on_solver_def)
    have "asserted (s_pop S (pr_solver p2)) \<subseteq> kind_base i \<union> kind_side i"
      "kind_base i \<subseteq> asserted (s_pop S (pr_solver p2))"
      using pop by (auto simp: kind_inv_def deep0 on_solver_def)
    then have as: "asserted (asserts S ?cs (s_pop S (pr_solver p2))) \<subseteq> kind_base ?i' \<union> kind_side ?i'"
      "kind_base ?i' \<subseteq> asserted (asserts S ?cs (s_pop S (pr_solver p2)))"
      using order_trans [OF _ kind_mono(2) [OF less_imp_le [OF ii(1)]]] nb unfolding asserted_asserts cs b by blast+
    have inv': "kind_inv opts ?i' ?q"
      using pop ne as ii by (simp add: kind_inv_def deep0 on_solver_def)
    have "base_done opts ?i'"
    proof (cases "ko_one_time_base_check opts")
      case False
      note no = this
      from chk [OF no] obtain s where s: "s_check_assuming S (base_assumption E) (pr_solver p) = (r, s)" by blast
      with dec [rule_format, OF no] \<open>r \<noteq> SAT\<close> have u: "r = UNSAT" by (cases r) auto
      have "\<not> cex F sys bad i"
        using base_unsat [OF sw _ s [unfolded u]] inv less no by (auto simp: pushed_inv_def base_done_def)
      moreover have "?i' = Suc i" using dec [rule_format, OF no] by simp
      ultimately show ?thesis using less no by (auto simp: base_done_def less_Suc_eq)
    qed (simp add: base_done_def)
    with inv' show ?thesis unfolding rp by (simp add: phase_ok_def)
  qed
qed

lemma and_then_sound:
  assumes "and_then m f = Inr rp" and "\<And>q. m = Inr q \<Longrightarrow> phase_ok I opts i q"
    and "\<And>p. I p \<Longrightarrow> f p = Inr rp \<Longrightarrow> phase_ok J opts i rp"
  shows "phase_ok J opts i rp"
  using assms(1) unfolding and_then_def
proof (rule bindE_InrE)
  fix q assume q: "m = Inr q" "(\<lambda>(res, p). case res of Some r \<Rightarrow> Inr (Some r, p) | None \<Rightarrow> f p) q = Inr rp"
  obtain res p where rp: "q = (res, p)" by (rule prod.exhaust)
  show ?thesis
  proof (cases res)
    case None
    with assms(2,3) q rp show ?thesis by (auto simp: phase_ok_def)
  next
    case (Some r)
    with assms(2) [OF q(1)] q(2) rp show ?thesis by (auto simp: phase_ok_def)
  qed
qed

lemma kind_bound_sound:
  assumes inv: "kind_inv opts i p" and sw: "swap_target F sys" and less: "base_done opts i"
    and tot: "is_trans_total E opts rt \<longrightarrow> trans_total"
    and dec: "\<not> ko_one_time_base_check opts \<longrightarrow> ko_bound_step opts = 1 \<and> (\<forall>as s s'. s_check_assuming S as s \<noteq> (UNKNOWN, s'))"
    and step: "1 \<le> ko_bound_step opts"
    and c: "kind_bound E opts rt n i p = Inr rp"
  shows "phase_ok (\<lambda>q. kind_inv opts (nat (int i + ko_bound_step opts)) q
      \<and> base_done opts (nat (int i + ko_bound_step opts))) opts i rp"
proof (rule and_then_sound [OF c [unfolded kind_bound_def]])
  show "phase_ok (kind_inv opts i) opts i q" if "simple_path_phase E opts rt n i p = Inr q" for q
    by (rule simple_path_phase_sound [OF inv sw less tot that])
next
  fix p1
  assume inv1: "kind_inv opts i p1"
    and c1: "and_then (init_states_phase E opts rt i p1) (\<lambda>p2.
      and_then (property_phase E opts rt i p2) (base_phase E opts i)) = Inr rp"
  show "phase_ok (\<lambda>q. kind_inv opts (nat (int i + ko_bound_step opts)) q
      \<and> base_done opts (nat (int i + ko_bound_step opts))) opts i rp"
  proof (rule and_then_sound [OF c1])
    show "phase_ok (kind_inv opts i) opts i q" if "init_states_phase E opts rt i p1 = Inr q" for q
      by (rule init_states_phase_sound [OF inv1 sw less tot that])
  next
    fix p2
    assume inv2: "kind_inv opts i p2"
      and c2: "and_then (property_phase E opts rt i p2) (base_phase E opts i) = Inr rp"
    show "phase_ok (\<lambda>q. kind_inv opts (nat (int i + ko_bound_step opts)) q
        \<and> base_done opts (nat (int i + ko_bound_step opts))) opts i rp"
      by (rule and_then_sound [OF c2 property_phase_sound [OF inv2 sw less tot]
            base_phase_sound [OF _ sw less dec step]])
  qed
qed

lemma kind_loop_sound:
  assumes sw: "swap_target F sys" and tot: "is_trans_total E opts rt \<longrightarrow> trans_total"
    and dec: "\<not> ko_one_time_base_check opts \<longrightarrow> ko_bound_step opts = 1 \<and> (\<forall>as s s'. s_check_assuming S as s \<noteq> (UNKNOWN, s'))"
    and step: "1 \<le> ko_bound_step opts"
  shows "0 \<le> i \<Longrightarrow> kind_inv opts (nat i) p \<Longrightarrow> base_done opts (nat i) \<Longrightarrow>
    kind_loop E opts rt n m k i p = Inr (res, p') \<Longrightarrow>
    (\<exists>j. int j \<le> k \<and> kind_answer opts j res p')
    \<or> res = PR_UNKNOWN \<and> (ko_one_time_base_check opts \<or> (\<forall>j. int j \<le> k \<longrightarrow> \<not> cex F sys bad j))"
proof (induction m arbitrary: i p)
  case (Suc m)
  show ?case
  proof (cases "i \<le> k")
    case False
    with Suc.prems(3,4) show ?thesis by (auto simp: base_done_def)
  next
    case True
    with Suc.prems(4) obtain r p1 where b: "kind_bound E opts rt n (nat i) p = Inr (r, p1)"
      and rest: "(case r of Some r \<Rightarrow> Inr (r, p1)
          | None \<Rightarrow> guardE (i + ko_bound_step opts < 2 ^ 31) (UndefinedBehaviour ''signed overflow'')
              (kind_loop E opts rt n m k (i + ko_bound_step opts) p1)) = Inr (res, p')"
      by (auto simp: bindE_Inr_iff)
    have e: "nat (int (nat i) + ko_bound_step opts) = nat (i + ko_bound_step opts)" using Suc.prems(1) by simp
    note ok = kind_bound_sound [OF Suc.prems(2) sw Suc.prems(3) tot dec step b, unfolded e]
    show ?thesis
    proof (cases r)
      case None
      with ok have "kind_inv opts (nat (i + ko_bound_step opts)) p1" "base_done opts (nat (i + ko_bound_step opts))"
        by (simp_all add: phase_ok_def)
      with Suc.IH [of "i + ko_bound_step opts" p1] Suc.prems(1) step rest None show ?thesis
        by (simp add: guardE_def split: if_splits)
    next
      case (Some x)
      with rest have "res = x" "p' = p1" by simp_all
      with ok Some have "kind_answer opts (nat i) res p'" by (simp add: phase_ok_def)
      moreover have "int (nat i) \<le> k" using True Suc.prems(1) by simp
      ultimately show ?thesis by blast
    qed
  qed
qed simp

subsection \<open>The engine returns\<close>

text \<open>Every round of the lazy check asserts a constraint that was not asserted before.\<close>

definition path_constraints :: "nat \<Rightarrow> tm set" where
  "path_constraints i = set (map (\<lambda>(j, l). simple_path_constraint E j l) (state_pairs i))"

lemma lazy_returns:
  "card (path_constraints i - asserted (pr_solver p)) < n \<Longrightarrow>
    \<exists>r. check_simple_path_lazy E opts n i p = Inr r"
proof (induction n arbitrary: p)
  case (Suc n)
  obtain r p1 where c: "check_assuming E p = (r, p1)" by (rule prod.exhaust)
  obtain s where s: "s_check_assuming S (ki_assumption p) (pr_solver p) = (r, s)" "p1 = p\<lparr>pr_solver := s\<rparr>"
    using c by (rule check_assumingE)
  let ?vs = "violated E i s"
  let ?add = "if ko_no_multi_call opts then rev ?vs else take 1 ?vs"
  let ?q = "on_solver (asserts S ?add) p1"
  show ?case
  proof (cases "r = SAT \<and> \<not> ko_no_simple_path_check opts \<and> ?vs \<noteq> []")
    case True
    then have rec: "check_simple_path_lazy E opts (Suc n) i p = check_simple_path_lazy E opts n i ?q"
      using c s(2) by (simp add: Let_def)
    have "s_check_assuming S (ki_assumption p) (pr_solver p) = (SAT, s)" using s(1) True by simp
    then obtain \<sigma> where m: "\<And>t. t \<in> asserted (pr_solver p) \<Longrightarrow> holds F \<sigma> t"
      "\<And>t. s_get_value S s t = Val (eval F \<sigma> t) (get_sort t)"
      by (rule check_SAT_model) blast
    have hd: "hd ?vs \<in> set ?vs" using True by simp
    then have "s_get_value S s (hd ?vs) = tm_false" by (simp add: violated_def)
    with m have new: "hd ?vs \<notin> asserted (pr_solver p)" by auto
    have add: "hd ?vs \<in> set ?add" using True by (cases ?vs) auto
    have "hd ?vs \<in> path_constraints i" using hd by (auto simp: violated_def path_constraints_def)
    with new add have "path_constraints i - asserted (pr_solver ?q) \<subset> path_constraints i - asserted (pr_solver p)"
      using asserted_check [OF s(1)] by (auto simp: s(2))
    then have "card (path_constraints i - asserted (pr_solver ?q)) < card (path_constraints i - asserted (pr_solver p))"
      by (intro psubset_card_mono) (simp_all add: path_constraints_def)
    with Suc.IH [of ?q] Suc.prems show ?thesis unfolding rec by simp
  next
    case False
    then show ?thesis using c s(2) by (cases r) (auto simp: Let_def)
  qed
qed simp

lemma conclude_returns:
  assumes "\<forall>as s s'. s_check_assuming S as s \<noteq> (UNKNOWN, s')"
  shows "\<exists>rp. conclude E opts rt i p = Inr rp"
proof -
  have "\<exists>q. final_base_case_check E opts rt i p = Inr q"
    using assms by (auto simp: final_base_case_check_def check_assuming_def Let_def split: prod.splits smt_result.splits)
  then show ?thesis by (auto simp: conclude_def)
qed

lemma and_then_returns:
  assumes "\<exists>q. m = Inr q" and "\<And>p. \<exists>q. f p = Inr q"
  shows "\<exists>q. and_then m f = Inr q"
  using assms by (auto simp: and_then_def split: option.splits)

lemma kind_bound_returns:
  assumes dec: "\<forall>as s s'. s_check_assuming S as s \<noteq> (UNKNOWN, s')" and n: "length (state_pairs i) < n"
  shows "\<exists>rp. kind_bound E opts rt n i p = Inr rp"
  unfolding kind_bound_def
proof (intro and_then_returns)
  have "card (path_constraints i) < n"
    using n card_length [of "map (\<lambda>(j, l). simple_path_constraint E j l) (state_pairs i)"]
    by (simp add: path_constraints_def)
  moreover have "card (path_constraints i - A) \<le> card (path_constraints i)" for A
    by (rule card_mono) (auto simp: path_constraints_def)
  ultimately have lazy: "\<exists>r. check_simple_path_lazy E opts n i q = Inr r" for q
    by (intro lazy_returns) (rule le_less_trans)
  let ?p0 = "assume_only (ind_assumption E) p"
  have "\<exists>u p1. (if ko_eager_simple_path_check opts then Inr (check_simple_path_eager E opts i ?p0)
                  else check_simple_path_lazy E opts n i ?p0) = Inr (u, p1)"
    using lazy [of ?p0] by auto
  then show "\<exists>q. simple_path_phase E opts rt n i p = Inr q"
    using conclude_returns [OF dec] by (auto simp: simple_path_phase_def Let_def bindE_def split: sum.splits)
  show "\<exists>q. init_states_phase E opts rt i p1 = Inr q" for p1
    using conclude_returns [OF dec] by (auto simp: init_states_phase_def Let_def split: prod.splits)
  show "\<exists>q. property_phase E opts rt i p2 = Inr q" for p2
    using conclude_returns [OF dec] by (auto simp: property_phase_def Let_def split: prod.splits)
  show "\<exists>q. base_phase E opts i p3 = Inr q" for p3
    by (auto simp: base_phase_def Let_def split: prod.splits)
qed

lemma kind_loop_returns:
  assumes dec: "\<forall>as s s'. s_check_assuming S as s \<noteq> (UNKNOWN, s')"
    and n: "\<And>i. int i \<le> k \<Longrightarrow> length (state_pairs i) < n"
    and step: "1 \<le> ko_bound_step opts" and k: "k + ko_bound_step opts < 2 ^ 31"
  shows "0 \<le> i \<Longrightarrow> nat (k + 1 - i) < m \<Longrightarrow> \<exists>rp. kind_loop E opts rt n m k i p = Inr rp"
proof (induction m arbitrary: i p)
  case (Suc m)
  show ?case
  proof (cases "i \<le> k")
    case True
    have "length (state_pairs (nat i)) < n" using n [of "nat i"] Suc.prems(1) True by simp
    from kind_bound_returns [OF dec this] obtain r p1 where b: "kind_bound E opts rt n (nat i) p = Inr (r, p1)"
      by (metis prod.exhaust)
    have "nat (k + 1 - (i + ko_bound_step opts)) < m" using Suc.prems step True by linarith
    with Suc.IH [of "i + ko_bound_step opts" p1] Suc.prems(1) step
    have "\<exists>rp. kind_loop E opts rt n m k (i + ko_bound_step opts) p1 = Inr rp" by simp
    moreover have "i + ko_bound_step opts < 2 ^ 31" using True k by simp
    ultimately show ?thesis using b True by (cases r) (auto simp: guardE_def)
  qed simp
qed simp

lemma kind_init:
  assumes "new_kind tab s = Inr (p0, tab')"
  obtains p where "kind_initialize E p0 = Inr p" and "kind_inv opts 0 p" and "pr_reached_k p = -1"
proof -
  have p0: "p0 = \<lparr>pr_solver = s, pr_initialized = False, pr_reached_k = -1, pr_witness = [],
             pr_invar = None, ki_assumption = []\<rparr>"
    using assms by (auto simp: new_kind_def bindE_Inr_iff)
  have "only_curr sys bad" using bad_current by (simp add: only_curr_iff)
  then have e: "kind_initialize E p0 = Inr (p0\<lparr>pr_initialized := True, pr_reached_k := -1,
      pr_solver := s_assert S (init_clause E) (s_reset_assertions S s)\<rparr>)"
    by (simp add: kind_initialize_def prover_initialize_def p0 on_solver_def)
  have "frames (s_assert S (init_clause E) (s_reset_assertions S s)) = [[init_clause E]]"
    by (simp add: frames_assert frames_reset)
  then have "deep 0 (kind_base 0) (s_assert S (init_clause E) (s_reset_assertions S s))
      \<and> asserted (s_assert S (init_clause E) (s_reset_assertions S s)) \<subseteq> kind_base 0"
    by (simp add: deep_def kind_base_def asserted_def)
  then have "kind_inv opts 0 (p0\<lparr>pr_initialized := True, pr_reached_k := -1,
      pr_solver := s_assert S (init_clause E) (s_reset_assertions S s)\<rparr>)"
    by (auto simp: kind_inv_def p0)
  with e that show thesis by simp
qed

end

lemma length_state_pairs: "length (state_pairs i) \<le> i * i"
proof -
  have "length (state_pairs i) = (\<Sum>j\<leftarrow>[0..<i]. i - j)"
    by (simp add: state_pairs_def length_concat comp_def del: upt_Suc)
  also have "\<dots> \<le> (\<Sum>j\<leftarrow>[0..<i]. i)" by (rule sum_list_mono) simp
  finally show ?thesis by (simp add: sum_list_triv)
qed

lemma built_system:
  assumes "smt_terms B F" and "run_calls B cs (if functional then empty_fts tab else empty_rts tab) = Inr ts"
  shows "ts_wf ts" and "swap_target F ts"
proof -
  let ?e = "if functional then empty_fts tab else empty_rts tab"
  have e: "ts_wf ?e" "det_ok ?e" "upd_form F ?e"
    by (simp_all add: ts_wf_empty_fts ts_wf_empty_rts upd_form_empty)
      (simp_all add: det_ok_def empty_fts_def empty_rts_def empty_ts_def)
  show "ts_wf ts" using run_calls_wf [OF assms(1) e(1) e(2) assms(2)] by blast
  show "swap_target F ts" by (rule upd_form_swap [OF run_calls_upd_form [OF assms(1) e assms(2)]])
qed

subsection \<open>The engine's answers\<close>

text \<open>C2: k-induction is sound, for a system built by the operations.  With or without the postponed
  base case, \<open>TRUE\<close> means that no counterexample exists and \<open>FALSE\<close> that one exists within the
  bound.  When every base case is checked as it comes, the witness of \<open>FALSE\<close> is moreover such a
  path, and \<open>UNKNOWN\<close> means that no counterexample exists up to the bound; with the postponed base
  case \<open>UNKNOWN\<close> says nothing.  The regular base case takes an undecided check as satisfied, so for
  it the solver must decide; a positive answer of the test of right-totality must be right.\<close>

theorem kinduction_sound:
  assumes "smt_engine S F frames"
    and "run_calls (builder S) cs (if functional then empty_fts tab else empty_rts tab) = Inr sys"
    and "covered prop (set (ts_statevars sys))"
    and "is_trans_total (make_env S sys prop) opts rt \<longrightarrow> (\<forall>s. wsorted s \<longrightarrow> (\<exists>t. ts_step F sys s t))"
    and "\<not> ko_one_time_base_check opts \<longrightarrow> (\<forall>as s s'. s_check_assuming S as s \<noteq> (UNKNOWN, s'))"
    and "1 \<le> ko_bound_step opts"
    and "new_kind stab s = Inr (p0, stab')"
    and "kind_check_until (make_env S sys prop) opts rt n fuel k p0 = Inr (res, p')"
  shows "(res = PR_TRUE \<longrightarrow> safe F sys (en_bad (make_env S sys prop)))
    \<and> (res = PR_FALSE \<longrightarrow> (\<exists>j. int j \<le> k \<and> cex F sys (en_bad (make_env S sys prop)) j)
        \<and> (\<not> ko_one_time_base_check opts \<longrightarrow> (\<exists>\<pi> j. int j \<le> k \<and> ts_path F sys \<pi> j \<and> \<not> holds F (\<pi> j) prop
            \<and> length (pr_witness p') = j + 1
            \<and> (\<forall>m \<le> j. \<forall>v \<in> set (ts_statevars sys) \<union> set (ts_inputvars sys).
                map_of (pr_witness p' ! m) v = Some (Val (\<pi> m (sym_of v)) (get_sort v))))))
    \<and> (res = PR_UNKNOWN \<and> \<not> ko_one_time_base_check opts \<longrightarrow>
        (\<forall>j. int j \<le> k \<longrightarrow> \<not> cex F sys (en_bad (make_env S sys prop)) j))"
proof -
  let ?E = "make_env S sys prop"
  have B: "smt_terms (builder S) F" using assms(1) by (simp add: smt_engine_def)
  note sys = built_system [OF B assms(2)]
  have eng: "safety_engine ?E F frames" by (rule make_env_engine [OF assms(1) sys(1) assms(3)])
  obtain p where p: "kind_initialize ?E p0 = Inr p" "safety_engine.kind_inv ?E frames opts 0 p"
    "pr_reached_k p = -1"
    using safety_engine.kind_init [OF eng assms(7)] by metis
  from assms(8) p(1,3) have run: "kind_loop ?E opts rt n fuel k 0 p = Inr (res, p')"
    and step: "\<not> ko_one_time_base_check opts \<longrightarrow> ko_bound_step opts = 1"
    by (auto simp: kind_check_until_def bindE_Inr_iff guardE_def split: if_splits)
  have "is_trans_total ?E opts rt \<longrightarrow> safety_engine.trans_total ?E F"
    using assms(4) by (simp add: safety_engine.trans_total_def [OF eng])
  from safety_engine.kind_loop_sound [OF eng _ this _ assms(6), of 0 p n fuel k res p'] sys(2) p(2) run step assms(5)
  have "(\<exists>j. int j \<le> k \<and> safety_engine.kind_answer ?E F opts j res p')
    \<or> res = PR_UNKNOWN \<and> (ko_one_time_base_check opts \<or> (\<forall>j. int j \<le> k \<longrightarrow> \<not> cex F sys (en_bad ?E) j))"
    by (simp add: safety_engine.base_done_def [OF eng])
  then show ?thesis
  proof
    assume "\<exists>j. int j \<le> k \<and> safety_engine.kind_answer ?E F opts j res p'"
    then obtain j where j: "int j \<le> k" "safety_engine.kind_answer ?E F opts j res p'" by blast
    show ?thesis
    proof (cases "res = PR_TRUE")
      case True
      with j(2) show ?thesis by (simp add: safety_engine.kind_answer_def [OF eng])
    next
      case False
      with j(2) have f: "res = PR_FALSE" "\<exists>i \<le> j. cex F sys (en_bad ?E) i"
        "\<not> ko_one_time_base_check opts \<longrightarrow> safety_engine.good_witness ?E F j p'"
        using step by (auto simp: safety_engine.kind_answer_def [OF eng])
      from f(2) obtain i where "i \<le> j" "cex F sys (en_bad ?E) i" by blast
      with j(1) have "\<exists>i. int i \<le> k \<and> cex F sys (en_bad ?E) i" by (intro exI [of _ i]) simp
      moreover have "\<exists>\<pi> j. int j \<le> k \<and> ts_path F sys \<pi> j \<and> \<not> holds F (\<pi> j) prop
            \<and> length (pr_witness p') = j + 1
            \<and> (\<forall>m \<le> j. \<forall>v \<in> set (ts_statevars sys) \<union> set (ts_inputvars sys).
                map_of (pr_witness p' ! m) v = Some (Val (\<pi> m (sym_of v)) (get_sort v)))"
        if "\<not> ko_one_time_base_check opts"
        using f(3) that j(1) unfolding safety_engine.good_witness_def [OF eng] env_bad(1) [OF assms(1)] env_fields(2) by blast
      ultimately show ?thesis using f(1) by simp
    qed
  next
    assume "res = PR_UNKNOWN \<and> (ko_one_time_base_check opts \<or> (\<forall>j. int j \<le> k \<longrightarrow> \<not> cex F sys (en_bad ?E) j))"
    then show ?thesis by auto
  qed
qed

text \<open>C9: k-induction returns: with a solver that decides, the search for simple-path
  violations ends after at most one round per pair of states, and the loop over the bounds ends,
  so the stated fuel gives an answer; \<open>int\<close> must hold the bound after the last.\<close>

theorem kinduction_returns:
  assumes "smt_engine S F frames" and "ts_wf sys" and "covered prop (set (ts_statevars sys))"
    and "\<forall>as s s'. s_check_assuming S as s \<noteq> (UNKNOWN, s')"
    and "1 \<le> ko_bound_step opts" and "k + ko_bound_step opts < 2 ^ 31"
    and "ko_bound_step opts = 1 \<or> ko_one_time_base_check opts \<and> \<not> ko_eager_simple_path_check opts"
    and "new_kind stab s = Inr (p0, stab')"
    and "nat k * nat k < n" and "nat (k + 1) < fuel"
  shows "\<exists>res p'. kind_check_until (make_env S sys prop) opts rt n fuel k p0 = Inr (res, p')"
proof -
  let ?E = "make_env S sys prop"
  have eng: "safety_engine ?E F frames" by (rule make_env_engine [OF assms(1-3)])
  obtain p where p: "kind_initialize ?E p0 = Inr p" "pr_reached_k p = -1"
    using safety_engine.kind_init [OF eng assms(8)] by metis
  have pairs: "length (state_pairs i) < n" if "int i \<le> k" for i
  proof -
    have "i * i \<le> nat k * nat k" using that by (intro mult_mono) simp_all
    with length_state_pairs [of i] assms(9) show ?thesis by simp
  qed
  have "\<forall>as s s'. s_check_assuming (en_solver ?E) as s \<noteq> (UNKNOWN, s')" using assms(4) by simp
  then have "\<exists>rp. kind_loop ?E opts rt n fuel k 0 p = Inr rp"
    by (rule safety_engine.kind_loop_returns [OF eng _ pairs assms(5,6)]) (use assms(10) in simp_all)
  then obtain rp where "kind_loop ?E opts rt n fuel k 0 p = Inr rp" by blast
  then show ?thesis using p assms(7) by (cases rp) (auto simp: kind_check_until_def guardE_def)
qed

lemma demo_total:
  assumes "wsorted s"
  shows "\<exists>t. ts_step F demo_ts s t"
proof -
  have "det_ok (empty_fts [])" by (simp add: det_ok_def empty_fts_def empty_ts_def)
  from run_calls_fun_form [OF plain.smt_terms_axioms ts_wf_empty_fts this fun_form_empty demo_built] demo_fields
  have "ts_step F demo_ts = updates_step F demo_ts" by (simp add: fun_form_def)
  moreover have "\<exists>t. updates_step F demo_ts s t"
    by (rule updates_step_total) (use assms in \<open>simp_all add: demo_fields sem_op_def rangeI\<close>)
  ultimately show ?thesis by simp
qed

theorem kinduction_sound_witness:
  "\<exists>p0 tab p'. new_kind [] enum_init = Inr (p0, tab)
    \<and> kind_check_until (make_env (enum_solver (\<lambda>_ _. BoolVal False) (full_decider (\<lambda>_ _. BoolVal False)))
        demo_ts (Node (op0 Or) BOOL [vx, Node (op0 NotOp) BOOL [vx]])) default_kind_opts None 4 3 1 p0 = Inr (PR_TRUE, p')
    \<and> safe (\<lambda>_ _. BoolVal False) demo_ts
        (Node (op0 NotOp) BOOL [Node (op0 Or) BOOL [vx, Node (op0 NotOp) BOOL [vx]]])"
proof -
  let ?F = "\<lambda>_ _. BoolVal False"
  let ?goal = "Node (op0 Or) BOOL [vx, Node (op0 NotOp) BOOL [vx]]"
  let ?D = "full_decider ?F"
  have "case new_kind [] enum_init of Inl e \<Rightarrow> False | Inr (p0, tab) \<Rightarrow>
      (case kind_check_until (make_env (enum_solver ?F D) demo_ts ?goal) default_kind_opts None 4 3 1 p0 of
         Inl e \<Rightarrow> False | Inr (r, p) \<Rightarrow> r = PR_TRUE)" for D
    by code_simp
  from this [of ?D] obtain p0 tab p' where p0: "new_kind [] enum_init = Inr (p0, tab)"
    and run: "kind_check_until (make_env (enum_solver ?F ?D) demo_ts ?goal) default_kind_opts None 4 3 1 p0 = Inr (PR_TRUE, p')"
    by (auto split: sum.splits prod.splits)
  have built: "run_calls (builder (enum_solver ?F ?D)) demo_calls (if True then empty_fts [] else empty_rts []) = Inr demo_ts"
    using demo_built by simp
  have total: "is_trans_total (make_env (enum_solver ?F ?D) demo_ts ?goal) default_kind_opts None
      \<longrightarrow> (\<forall>s. wsorted s \<longrightarrow> (\<exists>t. ts_step ?F demo_ts s t))"
    using demo_total by blast
  have cov: "covered ?goal (set (ts_statevars demo_ts))" by (simp add: demo_fields covered_def)
  have dec: "\<not> ko_one_time_base_check default_kind_opts \<longrightarrow>
      (\<forall>as s s'. s_check_assuming (enum_solver ?F ?D) as s \<noteq> (UNKNOWN, s'))"
    using enum_full_decides by blast
  have step: "1 \<le> ko_bound_step default_kind_opts" by (simp add: default_kind_opts_def)
  from kinduction_sound [OF full.smt_engine_axioms built cov total dec step p0 run]
  have "safe ?F demo_ts (en_bad (make_env (enum_solver ?F ?D) demo_ts ?goal))" by blast
  moreover have "en_bad (make_env (enum_solver ?F ?D) demo_ts ?goal) = Node (op0 NotOp) BOOL [?goal]"
    by (simp add: plain_builder_def plain_mk_term_def)
  ultimately show ?thesis using p0 run by auto
qed

theorem kinduction_returns_witness:
  "\<exists>res p0 p'. kind_check_until (make_env (enum_solver (\<lambda>_ _. BoolVal False) (full_decider (\<lambda>_ _. BoolVal False)))
        demo_ts vx) default_kind_opts None 50 9 7 p0 = Inr (res, p')"
proof -
  obtain p0 tab where p0: "new_kind [] enum_init = Inr (p0, tab)"
    by (simp add: new_kind_def make_symbol_def guardE_def)
  have "covered vx (set (ts_statevars demo_ts))" by (simp add: demo_fields)
  moreover have "\<forall>as s s'. s_check_assuming (enum_solver (\<lambda>_ _. BoolVal False) (full_decider (\<lambda>_ _. BoolVal False))) as s
      \<noteq> (UNKNOWN, s')" using enum_full_decides by blast
  ultimately have "\<exists>res p'. kind_check_until (make_env (enum_solver (\<lambda>_ _. BoolVal False) (full_decider (\<lambda>_ _. BoolVal False)))
        demo_ts vx) default_kind_opts None 50 9 7 p0 = Inr (res, p')"
    by (rule kinduction_returns [OF full.smt_engine_axioms demo_wf _ _ _ _ _ p0])
      (simp_all add: default_kind_opts_def)
  then show ?thesis by blast
qed

end
