(* ===== verification/Modifiers.thy ===== *)
theory Modifiers
  imports Kinduction
begin

section \<open>Modifiers of a transition system (modifiers, utils/ts_manipulation, utils/ts_analysis)\<close>

text \<open>
  Each modifier takes the system by reference and adds variables, updates and constraints to it
  through the operations of \<open>Ts\<close>; the model returns the changed system.  The value of a
  modifier that returns a term is the pair of that term and the system.
\<close>

definition create_fresh_ts :: "bool \<Rightarrow> string list \<Rightarrow> ts" where
  "create_fresh_ts functional tab = (if functional then empty_fts tab else empty_rts tab)"

abbreviation tm_bool :: "bool \<Rightarrow> tm" where
  "tm_bool b \<equiv> Val (BoolVal b) BOOL"

definition bv_const :: "nat \<Rightarrow> nat \<Rightarrow> tm" where
  "bv_const w n = Val (BVVal w n) (BV w)"

subsection \<open>History and prophecy variables\<close>

text \<open>One round of the loop of \<open>get_hist\<close>: the \<open>n\<close>-th history variable of the target.\<close>

definition add_hist :: "smt_builder \<Rightarrow> tm \<Rightarrow> nat \<Rightarrow> tm list \<times> ts \<Rightarrow> (tm list \<times> ts) result" where
  "add_hist B target n = (\<lambda>(hs, ts).
     bindE (make_statevar B (''hist_'' @ term_str B target @ ''_'' @ nat_str n) (get_sort target) ts)
       (\<lambda>(var, ts1).
        bindE (if n = 1 then
                 (if no_next ts1 target then assign_next B var target ts1
                  else guardE (\<not> ts_functional ts1)
                    (PonoException (''Cannot create history variable for target containing next in ''
                      @ ''functional system''))
                    (constrain_trans B (mk_term B (op0 Equal) [next_tm B ts1 var, target]) ts1))
               else assign_next B var (last hs) ts1)
          (\<lambda>ts2. Inr (hs @ [var], ts2))))"

definition get_hist :: "smt_builder \<Rightarrow> tm \<Rightarrow> nat \<Rightarrow> (tm \<times> tm list) list \<times> ts
    \<Rightarrow> (tm \<times> (tm \<times> tm list) list \<times> ts) result" where
  "get_hist B target delay = (\<lambda>(hm, ts).
     if delay = 0 then Inr (target, hm, ts)
     else
       let hs = (case map_of hm target of Some hs \<Rightarrow> hs | None \<Rightarrow> []) in
       bindE (foldE (add_hist B target) [Suc (length hs)..<Suc delay] (hs, ts)) (\<lambda>(hs', ts').
         Inr (hs' ! (delay - 1), AList.update target hs' hm, ts')))"

definition get_proph :: "smt_builder \<Rightarrow> tm \<Rightarrow> nat \<Rightarrow> (tm \<times> tm list) list \<times> ts
    \<Rightarrow> ((tm \<times> tm) \<times> (tm \<times> tm list) list \<times> ts) result" where
  "get_proph B target delay = (\<lambda>(hm, ts).
     bindE (get_hist B target delay (hm, ts)) (\<lambda>(hist_var, hm1, ts1).
     bindE (make_statevar B (''proph_'' @ term_str B target @ ''_'' @ nat_str delay) (get_sort target) ts1)
       (\<lambda>(proph_var, ts2).
        bindE (assign_next B proph_var proph_var ts2) (\<lambda>ts3.
          Inr ((proph_var, hist_var), hm1, ts3)))))"

subsection \<open>The property monitor\<close>

text \<open>
  The search for a name that is free, for itself and with the next-state suffix.  The failed
  attempts leave the symbol of a free name in the solver, and \<open>deterministic_\<close> reset.
\<close>

fun monitor_var :: "smt_builder \<Rightarrow> nat \<Rightarrow> nat \<Rightarrow> ts \<Rightarrow> (tm \<times> ts) result" where
  "monitor_var B 0 n ts = Inl OutOfFuel"
| "monitor_var B (Suc f) n ts =
     (let name = ''_monitor_'' @ nat_str n in
      case make_statevar B name BOOL ts of
        Inr r \<Rightarrow> Inr r
      | Inl (SmtException m) \<Rightarrow>
          monitor_var B f (Suc n) (ts\<lparr>ts_deterministic := False,
            ts_declared := (if name \<in> set (ts_declared ts) then ts_declared ts else name # ts_declared ts)\<rparr>)
      | Inl e \<Rightarrow> Inl e)"

definition add_prop_monitor :: "smt_builder \<Rightarrow> nat \<Rightarrow> tm \<Rightarrow> ts \<Rightarrow> (tm \<times> ts) result" where
  "add_prop_monitor B fuel prop ts =
     (let prop_has_next = \<not> no_next ts prop in
      guardE (\<not> (ts_functional ts \<and> prop_has_next))
        (PonoException ''Cannot use next in property of a functional transition system.'')
        (bindE (monitor_var B fuel 0 ts) (\<lambda>(monitor, ts1).
         bindE (constrain_init B monitor ts1) (\<lambda>ts2.
         bindE (if \<not> prop_has_next then assign_next B monitor prop ts2
                else constrain_trans B (mk_term B (op0 Equal) [next_tm B ts2 monitor, prop]) ts2)
           (\<lambda>ts3. Inr (monitor, ts3))))))"

subsection \<open>Clock and reset\<close>

text \<open>
  For a clock that is not a state variable the block declares a second \<open>clk_state\<close> of its
  own, so that what follows the block still sees the clock symbol.
\<close>

definition toggle_clock :: "smt_builder \<Rightarrow> tm \<Rightarrow> ts \<Rightarrow> ts result" where
  "toggle_clock B clock ts =
     guardE (get_sort clock = BV 1 \<or> get_sort clock = BOOL)
       (PonoException ''Expecting a boolean or one-bit clock sort.'')
       (bindE (if is_curr_var ts clock then Inr ts
               else bindE (make_statevar B (term_str B clock @ ''__state__'') (get_sort clock) ts)
                 (\<lambda>(v, ts1). constrain_inputs B (mk_term B (op0 Equal) [clock, v]) ts1)) (\<lambda>ts2.
          if get_sort clock = BV 1 then
            bindE (constrain_init B (mk_term B (op0 Equal) [clock, bv_const 1 0]) ts2)
              (assign_next B clock (mk_term B (op0 BVNot) [clock]))
          else
            bindE (constrain_init B (mk_term B (op0 NotOp) [clock]) ts2)
              (assign_next B clock (mk_term B (op0 NotOp) [clock]))))"

fun ceil_log2 :: "nat \<Rightarrow> nat" where
  "ceil_log2 n = (if n \<le> 1 then 0 else Suc (ceil_log2 ((n + 1) div 2)))"

declare ceil_log2.simps [simp del]

definition add_reset_seq :: "smt_builder \<Rightarrow> tm \<Rightarrow> nat \<Rightarrow> ts \<Rightarrow> (tm \<times> ts) result" where
  "add_reset_seq B reset bnd ts =
     guardE (get_sort reset = BOOL \<or> get_sort reset = BV 1) (PonoException ''Unexpected reset symbol sort: '')
      (guardE (0 < bnd) (UndefinedBehaviour ''conversion of an infinite double'')
       (let w = ceil_log2 bnd + 1; one_bit = BV 1 in
        bindE (make_statevar B ''__internal_cosa2_reset_cnt__'' (BV w) ts) (\<lambda>(cnt, ts1).
        let in_reset = mk_term B (op0 BVUlt) [cnt, bv_const w bnd];
            reset_done = mk_term B (op0 NotOp) [in_reset]
        in
        bindE (constrain_init B (mk_term B (op0 Equal) [cnt, bv_const w 0]) ts1) (\<lambda>ts2.
        bindE (assign_next B cnt (mk_term B (op0 Ite) [reset_done, cnt,
            mk_term B (op0 BVAdd) [cnt, bv_const w 1]]) ts2) (\<lambda>ts3.
        let active_reset = (if get_sort reset = BOOL then reset
              else mk_term B (op0 Equal) [reset, bv_const 1 1]);
            inactive_reset = mk_term B (op0 NotOp) [active_reset]
        in
        bindE (constrain_inputs B (mk_term B (op0 Implies) [in_reset, active_reset]) ts3) (\<lambda>ts4.
        bindE (constrain_inputs B (mk_term B (op0 Implies) [reset_done, inactive_reset]) ts4) (\<lambda>ts5.
          Inr (reset_done, ts5))))))))"

subsection \<open>Liveness to safety\<close>

definition add_loop_state :: "smt_builder \<Rightarrow> string \<Rightarrow> tm \<Rightarrow> tm \<Rightarrow> tm \<Rightarrow> (tm \<times> tm) list \<times> ts
    \<Rightarrow> ((tm \<times> tm) list \<times> ts) result" where
  "add_loop_state B prefix save saved sv = (\<lambda>(ps, ts).
     bindE (make_statevar B (term_str B sv @ prefix @ ''_loop'') (get_sort sv) ts) (\<lambda>(l, ts1).
     bindE (assign_next B l (mk_term B (op0 Ite)
         [mk_term B (op0 And) [save, mk_term B (op0 NotOp) [saved]], sv, l]) ts1) (\<lambda>ts2.
       Inr (ps @ [(sv, l)], ts2))))"

definition add_justice_state :: "smt_builder \<Rightarrow> string \<Rightarrow> tm \<Rightarrow> tm \<Rightarrow> nat \<times> tm \<Rightarrow> tm list \<times> ts
    \<Rightarrow> (tm list \<times> ts) result" where
  "add_justice_state B prefix save saved = (\<lambda>(i, c) (js, ts).
     bindE (make_statevar B (prefix @ ''justice_'' @ nat_str i) BOOL ts) (\<lambda>(j, ts1).
     bindE (constrain_init B (mk_term B (op0 Equal) [j, tm_bool False]) ts1) (\<lambda>ts2.
     bindE (assign_next B j (mk_term B (op0 Or)
         [j, mk_term B (op0 And) [mk_term B (op0 Or) [save, saved], c]]) ts2) (\<lambda>ts3.
       Inr (js @ [j], ts3)))))"

definition liveness_bad :: "smt_builder \<Rightarrow> tm \<Rightarrow> (tm \<times> tm) list \<Rightarrow> tm list \<Rightarrow> tm" where
  "liveness_bad B saved ps js =
     fold (\<lambda>j b. mk_term B (op0 And) [b, j]) js
       (fold (\<lambda>(x, l) b. mk_term B (op0 And) [b, mk_term B (op0 Equal) [x, l]]) ps saved)"

definition liveness_to_safety :: "smt_builder \<Rightarrow> string \<Rightarrow> tm list \<Rightarrow> ts \<Rightarrow> (tm \<times> ts) result" where
  "liveness_to_safety B prefix conds ts =
     bindE (make_inputvar B (prefix @ ''save'') BOOL ts) (\<lambda>(save, ts1).
     bindE (make_statevar B (prefix @ ''saved'') BOOL ts1) (\<lambda>(saved, ts2).
     bindE (constrain_init B (mk_term B (op0 Equal) [saved, tm_bool False]) ts2) (\<lambda>ts3.
     bindE (assign_next B saved (mk_term B (op0 Or) [saved, save]) ts3) (\<lambda>ts4.
     bindE (foldE (add_loop_state B prefix save saved) (ts_statevars ts) ([], ts4)) (\<lambda>(ps, ts5).
     bindE (foldE (add_justice_state B prefix save saved) (zip [0..<length conds] conds) ([], ts5)) (\<lambda>(js, ts6).
       Inr (mk_term B (op0 NotOp) [liveness_bad B saved ps js], ts6)))))))"

subsection \<open>Promoting inputs\<close>

definition promote_inputvars :: "smt_builder \<Rightarrow> ts \<Rightarrow> tm list \<Rightarrow> ts result" where
  "promote_inputvars B ts ivs =
     bindE (foldE (\<lambda>sv. add_statevar B sv (next_tm B ts sv)) (ts_statevars ts)
       (create_fresh_ts (ts_functional ts) (ts_declared ts))) (\<lambda>ts1.
     bindE (foldE (\<lambda>iv n. bindE (add_inputvar B iv n) (\<lambda>n1.
         if iv \<in> set ivs then promote_inputvar B iv n1 else Inr n1)) (ts_inputvars ts) ts1) (\<lambda>ts2.
     bindE (set_init (ts_init ts) ts2) (\<lambda>ts3.
     bindE (foldE (\<lambda>(v, f). assign_next B v f) (ts_state_updates ts) ts3) (\<lambda>ts4.
     bindE (if ts_functional ts4 then Inr ts4 else set_trans B (ts_trans ts) ts4) (\<lambda>ts5.
     foldE (\<lambda>(c, b). add_constraint B c b) (ts_constraints ts) ts5)))))"

definition promote_all_inputvars :: "smt_builder \<Rightarrow> ts \<Rightarrow> ts result" where
  "promote_all_inputvars B ts = promote_inputvars B ts (ts_inputvars ts)"

definition prop_in_trans :: "smt_builder \<Rightarrow> tm \<Rightarrow> ts \<Rightarrow> ts result" where
  "prop_in_trans B prop ts = add_constraint B prop False ts"

subsection \<open>Checking an invariant\<close>

text \<open>\<open>s0\<close> is the state of the fresh solver; the terms are moved to it unchanged.\<close>

definition check_invar :: "'s smt_solver \<Rightarrow> 's \<Rightarrow> ts \<Rightarrow> tm \<Rightarrow> tm \<Rightarrow> bool" where
  "check_invar S s0 ts prop iv =
     (if \<not> only_curr ts iv then False
      else
        let B = builder S; nt = (\<lambda>t. mk_term B (op0 NotOp) [t]);
            query = (\<lambda>fs s. let (r, s1) = s_check S (asserts S fs (s_push S s)) in (r, s_pop S s1));
            (r1, s1) = query [ts_init ts, nt iv] s0;
            (r2, s2) = query [iv, ts_trans ts, nt (next_tm B ts iv)] s1;
            (r3, s3) = query [iv, nt prop] s2
        in r1 = UNSAT \<and> r2 = UNSAT \<and> r3 = UNSAT)"

end
