(* ===== verification/Modifiers_Correct.thy ===== *)
theory Modifiers_Correct
  imports Modifiers
begin

section \<open>Correctness of the modifiers\<close>

text \<open>
  What the modifiers do to the behaviours of a system.  The first part collects what the
  building operations say of the variables, steps and initial states; the second part extends
  paths of the original system by values of the new variables.
\<close>

subsection \<open>New variables\<close>

lemma make_statevar_facts:
  assumes wf: "ts_wf ts" and st: "\<not> is_fun_sort st" and m: "make_statevar B n st ts = Inr (v, ts')"
  shows "ts_wf ts'" and "v = Sym n st" and "v \<notin> ts_vars ts"
    and "set (ts_statevars ts') = insert v (set (ts_statevars ts))"
    and "set (ts_inputvars ts') = set (ts_inputvars ts)"
    and "ts_step F ts' = ts_step F ts" and "ts_initial F ts' = ts_initial F ts"
    and "ts_functional ts' = ts_functional ts" and "ts_state_updates ts' = ts_state_updates ts"
    and "ts_next_suffix ts' = ts_next_suffix ts"
proof -
  show "ts_wf ts'" "v = Sym n st" using make_statevar_wf [OF wf st m] by blast+
  from m have n: "n \<notin> set (ts_declared ts)" "n @ ts_next_suffix ts \<notin> set (ts_declared ts)"
    by (auto simp: make_statevar_def Let_def bindE_Inr_iff elim!: make_symbol_InrE)
  from fresh_var [OF wf n(1), of st] show v: "v \<notin> ts_vars ts" using \<open>v = Sym n st\<close> by simp
  have nv: "Sym (n @ ts_next_suffix ts) st \<notin> ts_vars ts" using fresh_var [OF wf n(2)] .
  from make_statevar_call [OF m] show "set (ts_statevars ts') = insert v (set (ts_statevars ts))"
    "set (ts_inputvars ts') = set (ts_inputvars ts)"
    "ts_functional ts' = ts_functional ts" "ts_state_updates ts' = ts_state_updates ts"
    "ts_next_suffix ts' = ts_next_suffix ts"
    using \<open>v = Sym n st\<close> v nv by (auto elim!: add_statevar_fields simp: ts_vars_def)
  show "ts_step F ts' = ts_step F ts" "ts_initial F ts' = ts_initial F ts"
    by (rule make_statevar_step [OF wf st m])+
qed

lemma make_inputvar_facts:
  assumes wf: "ts_wf ts" and st: "\<not> is_fun_sort st" and m: "make_inputvar B n st ts = Inr (v, ts')"
  shows "ts_wf ts'" and "v = Sym n st" and "v \<notin> ts_vars ts"
    and "ts_statevars ts' = ts_statevars ts"
    and "set (ts_inputvars ts') = insert v (set (ts_inputvars ts))"
    and "ts_step F ts' = ts_step F ts" and "ts_initial F ts' = ts_initial F ts"
    and "ts_functional ts' = ts_functional ts" and "ts_state_updates ts' = ts_state_updates ts"
    and "ts_next_statevars ts' = ts_next_statevars ts"
proof -
  show "ts_wf ts'" "v = Sym n st" using make_inputvar_wf [OF wf st m] by blast+
  from m have n: "n \<notin> set (ts_declared ts)"
    by (auto simp: make_inputvar_def bindE_Inr_iff elim!: make_symbol_InrE)
  from fresh_var [OF wf n, of st] show "v \<notin> ts_vars ts" using \<open>v = Sym n st\<close> by simp
  from m obtain na nb where
    ts': "ts' = ts\<lparr>ts_declared := n # ts_declared ts, ts_inputvars := List.insert v (ts_inputvars ts),
       ts_named_terms := na, ts_term_to_name := nb\<rparr>"
    by (force simp: make_inputvar_def add_inputvar_def bindE_Inr_iff
        elim!: make_symbol_InrE name_term_fields)
  show "ts_statevars ts' = ts_statevars ts" "set (ts_inputvars ts') = insert v (set (ts_inputvars ts))"
    "ts_functional ts' = ts_functional ts" "ts_state_updates ts' = ts_state_updates ts"
    "ts_next_statevars ts' = ts_next_statevars ts"
    by (simp_all add: ts')
  show "ts_step F ts' = ts_step F ts" "ts_initial F ts' = ts_initial F ts"
    by (auto simp: ts' ts_step_def ts_initial_def fun_eq_iff)
qed

lemma assign_next_facts:
  assumes B: "smt_terms B F" and wf: "ts_wf ts" and a: "assign_next B v f ts = Inr ts'"
  shows "ts_wf ts'" and "ts_statevars ts' = ts_statevars ts" and "ts_inputvars ts' = ts_inputvars ts"
    and "ts_step F ts' s t \<longleftrightarrow> ts_step F ts s t \<and> t (sym_of v) = eval F s f"
    and "ts_initial F ts' = ts_initial F ts"
    and "covered f (set (ts_statevars ts) \<union> set (ts_inputvars ts))" and "v \<in> set (ts_statevars ts)"
    and "ts_functional ts' = ts_functional ts" and "ts_next_suffix ts' = ts_next_suffix ts"
    and "ts_next_statevars ts' = ts_next_statevars ts"
proof -
  show "ts_wf ts'" using assign_next_wf [OF B wf a] by blast
  show "ts_step F ts' s t \<longleftrightarrow> ts_step F ts s t \<and> t (sym_of v) = eval F s f"
    "ts_initial F ts' = ts_initial F ts" by (rule assign_next_step [OF B wf a])+
  from a show "ts_statevars ts' = ts_statevars ts" "ts_inputvars ts' = ts_inputvars ts"
    "covered f (set (ts_statevars ts) \<union> set (ts_inputvars ts))" "v \<in> set (ts_statevars ts)"
    "ts_functional ts' = ts_functional ts" "ts_next_suffix ts' = ts_next_suffix ts"
    "ts_next_statevars ts' = ts_next_statevars ts"
    by (auto elim!: assign_next_fields)
qed

lemma constrain_init_facts:
  assumes B: "smt_terms B F" and wf: "ts_wf ts" and c: "constrain_init B c ts = Inr ts'"
  shows "ts_wf ts'" and "ts_statevars ts' = ts_statevars ts" and "ts_inputvars ts' = ts_inputvars ts"
    and "ts_step F ts' = ts_step F ts" and "ts_initial F ts' s \<longleftrightarrow> ts_initial F ts s \<and> holds F s c"
    and "covered c (set (ts_statevars ts))" and "ts_functional ts' = ts_functional ts"
    and "ts_next_suffix ts' = ts_next_suffix ts" and "ts_next_statevars ts' = ts_next_statevars ts"
proof -
  show "ts_wf ts'" using constrain_init_wf [OF B wf c] by blast
  show "ts_step F ts' = ts_step F ts" by (rule constrain_init_initial(2) [OF B c])
  show "ts_initial F ts' s \<longleftrightarrow> ts_initial F ts s \<and> holds F s c" by (rule constrain_init_initial(1) [OF B c])
  from c show "ts_statevars ts' = ts_statevars ts" "ts_inputvars ts' = ts_inputvars ts"
    "covered c (set (ts_statevars ts))" "ts_functional ts' = ts_functional ts"
    "ts_next_suffix ts' = ts_next_suffix ts" "ts_next_statevars ts' = ts_next_statevars ts"
    by (auto simp: constrain_init_def only_curr_iff)
qed

lemma constrain_inputs_facts:
  assumes B: "smt_terms B F" and wf: "ts_wf ts" and c: "constrain_inputs B c ts = Inr ts'"
  shows "ts_wf ts'" and "ts_statevars ts' = ts_statevars ts" and "ts_inputvars ts' = ts_inputvars ts"
    and "ts_step F ts' s t \<longleftrightarrow> ts_step F ts s t \<and> holds F s c" and "ts_initial F ts' = ts_initial F ts"
    and "ts_next_statevars ts' = ts_next_statevars ts"
    and "covered c (set (ts_statevars ts) \<union> set (ts_inputvars ts))"
proof -
  show "ts_wf ts'" using constrain_inputs_wf [OF B wf c] by blast
  show "ts_step F ts' s t \<longleftrightarrow> ts_step F ts s t \<and> holds F s c" "ts_initial F ts' = ts_initial F ts"
    by (rule constrain_inputs_step [OF B wf c])+
  from c show "ts_statevars ts' = ts_statevars ts" "ts_inputvars ts' = ts_inputvars ts"
    "ts_next_statevars ts' = ts_next_statevars ts"
    "covered c (set (ts_statevars ts) \<union> set (ts_inputvars ts))"
    by (auto simp: constrain_inputs_def no_next_iff)
qed

lemma constrain_trans_facts:
  assumes B: "smt_terms B F" and wf: "ts_wf ts" and fn: "\<not> ts_functional ts"
    and c: "constrain_trans B c ts = Inr ts'"
  shows "ts_wf ts'" and "ts_statevars ts' = ts_statevars ts" and "ts_inputvars ts' = ts_inputvars ts"
    and "ts_step F ts' s t \<longleftrightarrow> ts_step F ts s t \<and> holds F (pair_env ts s t) c"
    and "ts_initial F ts' = ts_initial F ts" and "covered c (ts_vars ts)"
    and "ts_functional ts' = ts_functional ts" and "ts_next_suffix ts' = ts_next_suffix ts"
proof -
  show "ts_wf ts'" using constrain_trans_wf [OF B wf fn c] by blast
  let ?u = "ts\<lparr>ts_trans := mk_term B (op0 And) [ts_trans ts, c]\<rparr>"
  from c have t: "ts' = set_updated_states B c ?u" "known_symbols ts c" by (auto simp: constrain_trans_def)
  obtain e where e: "ts' = ?u\<lparr>ts_no_state_updates := e\<rparr>"
    unfolding t(1) by (rule set_updated_states_fields [of ?u B c]) auto
  show "ts_statevars ts' = ts_statevars ts" "ts_inputvars ts' = ts_inputvars ts"
    "ts_functional ts' = ts_functional ts" "ts_next_suffix ts' = ts_next_suffix ts" by (simp_all add: e)
  show "ts_step F ts' s t \<longleftrightarrow> ts_step F ts s t \<and> holds F (pair_env ts s t) c"
    by (auto simp: e ts_step_def smt_terms.holds_And [OF B])
  show "ts_initial F ts' = ts_initial F ts" by (simp add: e ts_initial_def fun_eq_iff)
  show "covered c (ts_vars ts)" using t(2) by (simp add: known_symbols_iff ts_vars_def)
qed

subsection \<open>Values of new variables\<close>

text \<open>Two assignments that a system cannot tell apart.\<close>

definition same_on :: "ts \<Rightarrow> assignment \<Rightarrow> assignment \<Rightarrow> bool" where
  "same_on ts s s' \<longleftrightarrow> wsorted s' \<and> agree_funs s s'
     \<and> (\<forall>v \<in> set (ts_statevars ts) \<union> set (ts_inputvars ts). s (sym_of v) = s' (sym_of v))"

lemma eval_same_on:
  assumes "same_on ts s s'" and "covered c (set (ts_statevars ts) \<union> set (ts_inputvars ts))"
  shows "eval F s c = eval F s' c"
proof (rule eval_cong)
  fix x assume x: "x \<in> syms c"
  show "s x = s' x"
  proof (cases "is_fun_sort (snd x)")
    case True
    with assms(1) show ?thesis by (cases x) (simp add: same_on_def agree_funs_def)
  next
    case False
    with x assms(2) have "tm_of x \<in> set (ts_statevars ts) \<union> set (ts_inputvars ts)" by (simp add: covered_def)
    then have "s (sym_of (tm_of x)) = s' (sym_of (tm_of x))" using assms(1) unfolding same_on_def by blast
    then show ?thesis by simp
  qed
qed

lemma step_same_on:
  assumes wf: "ts_wf ts" and s: "same_on ts s s'" and t: "same_on ts t t'" and st: "ts_step F ts s t"
  shows "ts_step F ts s' t'"
proof -
  have f: "agree_funs s' t'" using s t ts_stepD(3) [OF st] by (simp add: same_on_def agree_funs_def)
  have "eval F (pair_env ts s t) (ts_trans ts) = eval F (pair_env ts s' t') (ts_trans ts)"
  proof (rule eval_cong)
    fix x assume x: "x \<in> syms (ts_trans ts)"
    show "pair_env ts s t x = pair_env ts s' t' x"
    proof (cases "map_of (ts_curr_map ts) (tm_of x)")
      case None
      show ?thesis
      proof (cases "is_fun_sort (snd x)")
        case True
        with s None show ?thesis by (cases x) (simp add: same_on_def agree_funs_def pair_env_def)
      next
        case False
        with x have "tm_of x \<in> ts_vars ts"
          using forms_ok_parts(2) [OF wf_parts(3) [OF wf]] by (simp add: covered_def)
        moreover have "tm_of x \<notin> set (ts_next_statevars ts)"
          using None wf_curr_keys [OF wf] by (simp add: map_of_None_iff)
        ultimately have "tm_of x \<in> set (ts_statevars ts) \<union> set (ts_inputvars ts)" by (auto simp: ts_vars_def)
        with s have "s (sym_of (tm_of x)) = s' (sym_of (tm_of x))" unfolding same_on_def by blast
        with None show ?thesis by (simp add: pair_env_def)
      qed
    next
      case (Some v)
      then have "map_of (ts_next_map ts) v = Some (tm_of x)" using wf_maps_inverse [OF wf] by blast
      then have "v \<in> set (ts_statevars ts)" using next_symbol [OF wf] by blast
      with t Some show ?thesis by (simp add: same_on_def pair_env_def)
    qed
  qed
  with st f s t show ?thesis by (simp add: ts_step_def same_on_def)
qed

lemma initial_same_on:
  assumes wf: "ts_wf ts" and s: "same_on ts s s'" and i: "ts_initial F ts s"
  shows "ts_initial F ts s'"
  by (rule initial_cong [OF wf i]) (use s in \<open>auto simp: same_on_def\<close>)

text \<open>Overriding some symbols.\<close>

definition override :: "assignment \<Rightarrow> (sym \<rightharpoonup> val) \<Rightarrow> assignment" where
  "override s m x = (case m x of Some a \<Rightarrow> a | None \<Rightarrow> s x)"

definition fresh_values :: "ts \<Rightarrow> (sym \<rightharpoonup> val) \<Rightarrow> bool" where
  "fresh_values ts m \<longleftrightarrow> (\<forall>x a. m x = Some a \<longrightarrow>
     \<not> is_fun_sort (snd x) \<and> a \<in> carrier (snd x) \<and> tm_of x \<notin> ts_vars ts)"

lemma override_same_on:
  assumes wf: "ts_wf ts" and "wsorted s" and m: "fresh_values ts m"
  shows "same_on ts s (override s m)"
proof -
  have "override s m (n, st) \<in> carrier st" for n st
    using assms(2) m by (force simp: override_def wsorted_def fresh_values_def split: option.splits)
  moreover have "agree_funs s (override s m)"
    using m by (force simp: agree_funs_def override_def fresh_values_def split: option.splits)
  moreover have "s (sym_of v) = override s m (sym_of v)" if v: "v \<in> set (ts_statevars ts) \<union> set (ts_inputvars ts)" for v
  proof -
    have "v \<in> ts_vars ts" using v by (auto simp: ts_vars_def)
    then have "tm_of (sym_of v) = v" using wf_symbolic [OF wf] by (metis tm_of_sym_of symbolic_is_symbol)
    with \<open>v \<in> ts_vars ts\<close> have "m (sym_of v) = None"
      using m unfolding fresh_values_def by (metis not_Some_eq)
    then show ?thesis by (simp add: override_def)
  qed
  ultimately show ?thesis by (simp add: same_on_def wsorted_def)
qed

lemma step_override:
  assumes wf: "ts_wf ts" and "fresh_values ts m" "fresh_values ts m'" and st: "ts_step F ts s t"
  shows "ts_step F ts (override s m) (override t m')"
  using step_same_on [OF wf _ _ st] override_same_on [OF wf] assms(2,3) ts_stepD(1,2) [OF st] by blast

lemma initial_override:
  assumes wf: "ts_wf ts" and "fresh_values ts m" and i: "ts_initial F ts s"
  shows "ts_initial F ts (override s m)"
  using initial_same_on [OF wf _ i] override_same_on [OF wf _ assms(2)] i by (auto simp: ts_initial_def)

lemma eval_override:
  assumes "ts_wf ts" and "wsorted s" and "fresh_values ts m"
    and "covered c (set (ts_statevars ts) \<union> set (ts_inputvars ts))"
  shows "eval F (override s m) c = eval F s c"
  using eval_same_on [OF override_same_on [OF assms(1-3)] assms(4)] by simp

subsection \<open>The property monitor\<close>

lemma monitor_var_facts:
  assumes "ts_wf ts" and "monitor_var B f n ts = Inr (v, ts')"
  shows "ts_wf ts' \<and> (\<exists>m. v = Sym m BOOL) \<and> v \<notin> ts_vars ts
    \<and> set (ts_statevars ts') = insert v (set (ts_statevars ts)) \<and> set (ts_inputvars ts') = set (ts_inputvars ts)
    \<and> ts_step F ts' = ts_step F ts \<and> ts_initial F ts' = ts_initial F ts \<and> ts_functional ts' = ts_functional ts"
  using assms
proof (induction f arbitrary: n ts)
  case (Suc f)
  let ?name = "''_monitor_'' @ nat_str n"
  show ?case
  proof (cases "make_statevar B ?name BOOL ts")
    case (Inr r)
    with Suc.prems(2) have m: "make_statevar B ?name BOOL ts = Inr (v, ts')" by (simp add: Let_def)
    note facts = make_statevar_facts [OF Suc.prems(1) _ m, simplified]
    from facts(2,3) show ?thesis by (simp add: facts)
  next
    case (Inl e)
    let ?tab = "if ?name \<in> set (ts_declared ts) then ts_declared ts else ?name # ts_declared ts"
    let ?u = "ts\<lparr>ts_deterministic := False, ts_declared := ?tab\<rparr>"
    have rec: "monitor_var B f (Suc n) ?u = Inr (v, ts')"
      using Suc.prems(2) Inl unfolding monitor_var.simps Let_def by (cases e) (simp_all only: sum.simps exn.simps)
    have "ts_wf ?u" by (rule ts_wf_declare_reset [OF Suc.prems(1)]) auto
    from Suc.IH [OF this rec] show ?thesis
      by (simp add: ts_vars_def ts_step_def ts_initial_def fun_eq_iff)
  qed
qed simp

lemma add_prop_monitor_facts:
  assumes B: "smt_terms B F" and wf: "ts_wf ts" and p: "no_next ts prop"
    and a: "add_prop_monitor B fuel prop ts = Inr (v, ts')"
  shows "ts_wf ts'" and "\<exists>m. v = Sym m BOOL" and "v \<notin> ts_vars ts"
    and "ts_step F ts' s t \<longleftrightarrow> ts_step F ts s t \<and> t (sym_of v) = eval F s prop"
    and "ts_initial F ts' s \<longleftrightarrow> ts_initial F ts s \<and> holds F s v"
proof -
  from a p obtain ts1 ts2 where m: "monitor_var B fuel 0 ts = Inr (v, ts1)"
    and i: "constrain_init B v ts1 = Inr ts2" and u: "assign_next B v prop ts2 = Inr ts'"
    by (auto simp: add_prop_monitor_def Let_def bindE_Inr_iff guardE_def split: if_splits)
  note mf = monitor_var_facts [OF wf m, of F]
  then have w1: "ts_wf ts1" by blast
  note ci = constrain_init_facts [OF B w1 i]
  note an = assign_next_facts [OF B ci(1) u]
  show "ts_wf ts'" by (rule an(1))
  show "\<exists>m. v = Sym m BOOL" "v \<notin> ts_vars ts" using mf by blast+
  show "ts_step F ts' s t \<longleftrightarrow> ts_step F ts s t \<and> t (sym_of v) = eval F s prop"
    using an(4) ci(4) mf by simp
  show "ts_initial F ts' s \<longleftrightarrow> ts_initial F ts s \<and> holds F s v"
    using an(5) ci(5) mf by simp
qed

text \<open>C29: the property monitor delays the property by one step: it is true initially, and in a
  right-total system (what the debug assertion asks for) it is false after \<open>k + 1\<close> steps of
  some path exactly when the property fails after \<open>k\<close> steps of some path.\<close>

theorem prop_monitor_exact:
  assumes "smt_terms B F" and "ts_wf ts" and "no_next ts prop"
    and "\<forall>s. wsorted s \<longrightarrow> eval F s prop \<in> carrier BOOL"
    and "\<forall>s. wsorted s \<longrightarrow> (\<exists>t. ts_step F ts s t)"
    and "add_prop_monitor B fuel prop ts = Inr (v, ts')"
  shows "\<not> cex F ts' (mk_term B (op0 NotOp) [v]) 0
    \<and> (cex F ts' (mk_term B (op0 NotOp) [v]) (Suc k) \<longleftrightarrow> cex F ts (mk_term B (op0 NotOp) [prop]) k)"
proof (intro conjI iffI)
  note B = assms(1) and wf = assms(2)
  note f = add_prop_monitor_facts [OF B wf assms(3,6)]
  obtain m where v: "v = Sym m BOOL" using f(2) by blast
  have cov: "covered prop (set (ts_statevars ts) \<union> set (ts_inputvars ts))" using assms(3) by (simp add: no_next_iff)
  show "\<not> cex F ts' (mk_term B (op0 NotOp) [v]) 0"
    using f(5) by (auto simp: cex_def ts_path_def smt_terms.holds_Not [OF B])
  show "cex F ts (mk_term B (op0 NotOp) [prop]) k" if "cex F ts' (mk_term B (op0 NotOp) [v]) (Suc k)"
  proof -
    from that obtain \<pi> where p: "ts_initial F ts' (\<pi> 0)" "segment F ts' \<pi> (Suc k)" "\<not> holds F (\<pi> (Suc k)) v"
      by (auto simp: cex_def ts_path_def smt_terms.holds_Not [OF B])
    have st: "ts_step F ts' (\<pi> i) (\<pi> (Suc i))" if "i \<le> k" for i using p(2) that by (simp add: segment_def)
    have "segment F ts \<pi> k" using p(2) st f(4) by (simp add: segment_def)
    moreover have "\<not> holds F (\<pi> k) prop" using st [of k] f(4) p(3) by (simp add: v)
    ultimately show ?thesis using p(1) f(5)
      unfolding cex_def ts_path_def by (intro exI [of _ \<pi>]) (simp add: smt_terms.holds_Not [OF B])
  qed
  show "cex F ts' (mk_term B (op0 NotOp) [v]) (Suc k)" if "cex F ts (mk_term B (op0 NotOp) [prop]) k"
  proof -
    from that obtain \<pi> where p: "ts_initial F ts (\<pi> 0)" "segment F ts \<pi> k" "\<not> holds F (\<pi> k) prop"
      by (auto simp: cex_def ts_path_def smt_terms.holds_Not [OF B])
    then have "wsorted (\<pi> k)" by (simp add: segment_def)
    with assms(5) obtain t where t: "ts_step F ts (\<pi> k) t" by blast
    define \<pi>' where "\<pi>' = \<pi>(Suc k := t)"
    have seg: "segment F ts \<pi>' (Suc k)"
      using segment_update [OF p(2), of "Suc k" t] t by (simp add: \<pi>'_def segment_Suc)
    define val where "val i = (if i = 0 then BoolVal True else eval F (\<pi>' (i - 1)) prop)" for i
    define \<rho> where "\<rho> i = override (\<pi>' i) [sym_of v \<mapsto> val i]" for i
    have ws: "wsorted (\<pi>' i)" if "i \<le> Suc k" for i using seg that by (simp add: segment_def)
    have fr: "fresh_values ts [sym_of v \<mapsto> val i]" if "i \<le> Suc k" for i
      using f(3) assms(4) ws [of "i - 1"] that by (auto simp: fresh_values_def v val_def)
    have "ts_step F ts' (\<rho> i) (\<rho> (Suc i))" if i: "i \<le> k" for i
    proof -
      have "ts_step F ts (\<rho> i) (\<rho> (Suc i))" unfolding \<rho>_def
        by (rule step_override [OF wf fr fr]) (use seg i in \<open>simp_all add: segment_def\<close>)
      moreover have "eval F (\<rho> i) prop = eval F (\<pi>' i) prop" unfolding \<rho>_def
        by (rule eval_override [OF wf ws fr cov]) (use i in simp_all)
      ultimately show ?thesis by (simp add: f(4) \<rho>_def override_def val_def)
    qed
    then have "segment F ts' \<rho> (Suc k)"
      using override_same_on [OF wf ws fr] by (auto simp: segment_def \<rho>_def same_on_def)
    moreover have "ts_initial F ts' (\<rho> 0)"
      using initial_override [OF wf fr [of 0], of F "\<pi>' 0"] p(1) f(5) by (simp add: \<rho>_def \<pi>'_def override_def val_def v)
    moreover have "\<not> holds F (\<rho> (Suc k)) v" using p(3) by (simp add: \<rho>_def override_def val_def v \<pi>'_def)
    ultimately show ?thesis
      unfolding cex_def ts_path_def by (intro exI [of _ \<rho>]) (simp add: smt_terms.holds_Not [OF B])
  qed
qed

subsection \<open>Checking an invariant\<close>

context smt_engine
begin

lemma asserts_pop:
  assumes "s_check S (asserts S fs (s_push S s)) = (r, s1)"
  shows "frames (s_pop S s1) = frames s"
    and "r = UNSAT \<Longrightarrow> wsorted \<sigma> \<Longrightarrow> asserted s = {} \<Longrightarrow> \<exists>t \<in> set fs. \<not> holds F \<sigma> t"
proof -
  have fr: "frames (asserts S fs u) = (rev fs @ g) # gs" if "frames u = g # gs" for u g gs
    using that unfolding asserts_def by (induction fs arbitrary: u g) (simp_all add: frames_assert)
  have f: "frames (asserts S fs (s_push S s)) = rev fs # frames s"
    using fr [of "s_push S s" "[]"] by (simp add: frames_push)
  then show "frames (s_pop S s1) = frames s" using frames_check [OF assms] by (simp add: frames_pop)
  assume "r = UNSAT" "wsorted \<sigma>" "asserted s = {}"
  moreover have "asserted (asserts S fs (s_push S s)) = set fs \<union> asserted s" by (simp add: asserted_def f)
  ultimately show "\<exists>t \<in> set fs. \<not> holds F \<sigma> t"
    using check_UNSAT_no_model [OF assms [unfolded \<open>r = UNSAT\<close>], of \<sigma>] by auto
qed

end

text \<open>C30: an invariant that passes the check proves the property: it holds initially, every
  step preserves it and it implies the property, so the system is safe.\<close>

theorem check_invar_sound:
  assumes "smt_engine S F frames" and "ts_wf ts" and "concat (frames s0) = []"
    and "check_invar S s0 ts prop iv"
  shows "safe F ts (mk_term (builder S) (op0 NotOp) [prop])
    \<and> (\<forall>k s. reach F ts k s \<longrightarrow> holds F s iv \<and> holds F s prop)"
proof -
  note eng = assms(1) and wf = assms(2)
  have B: "smt_terms (builder S) F" using eng by (simp add: smt_engine_def)
  let ?nt = "\<lambda>t. mk_term (builder S) (op0 NotOp) [t]"
  have oc: "only_curr ts iv" using assms(4) by (simp add: check_invar_def split: if_splits)
  obtain r1 s1 where q1: "s_check S (asserts S [ts_init ts, ?nt iv] (s_push S s0)) = (r1, s1)" by (rule prod.exhaust)
  obtain r2 s2 where q2: "s_check S (asserts S [iv, ts_trans ts, ?nt (next_tm (builder S) ts iv)]
      (s_push S (s_pop S s1))) = (r2, s2)" by (rule prod.exhaust)
  obtain r3 s3 where q3: "s_check S (asserts S [iv, ?nt prop] (s_push S (s_pop S s2))) = (r3, s3)" by (rule prod.exhaust)
  have r: "r1 = UNSAT" "r2 = UNSAT" "r3 = UNSAT"
    using assms(4) q1 q2 q3 by (simp_all add: check_invar_def Let_def split: if_splits)
  have e0: "smt_engine.asserted frames s0 = {}" using assms(3) by (simp add: smt_engine.asserted_def [OF eng])
  have e1: "smt_engine.asserted frames (s_pop S s1) = {}"
    using smt_engine.asserts_pop(1) [OF eng q1] assms(3) by (simp add: smt_engine.asserted_def [OF eng])
  have e2: "smt_engine.asserted frames (s_pop S s2) = {}"
    using smt_engine.asserts_pop(1) [OF eng q2] smt_engine.asserts_pop(1) [OF eng q1] assms(3)
    by (simp add: smt_engine.asserted_def [OF eng])
  have base: "holds F s iv" if "ts_initial F ts s" for s
    using smt_engine.asserts_pop(2) [OF eng q1 r(1) _ e0, of s] that
    by (auto simp: ts_initial_def smt_terms.holds_Not [OF B])
  have ivc: "covered iv (set (ts_statevars ts))" using oc by (simp add: only_curr_iff)
  then have ivc': "covered iv (set (ts_statevars ts) \<union> set (ts_inputvars ts))" by (rule covered_mono) simp
  have ind: "holds F t iv" if st: "ts_step F ts s t" and i: "holds F s iv" for s t
  proof -
    let ?p = "pair_env ts s t"
    have w: "wsorted ?p" using wsorted_pair_env [OF wf] ts_stepD(1,2) [OF st] by blast
    have "holds F ?p iv" using i eval_pair_current [OF wf ivc'] by simp
    moreover have "holds F ?p (ts_trans ts)" using st by (simp add: ts_step_def)
    ultimately have "holds F ?p (next_tm (builder S) ts iv)"
      using smt_engine.asserts_pop(2) [OF eng q2 r(2) w e1] by (auto simp: smt_terms.holds_Not [OF B])
    then show ?thesis using eval_next_tm [OF B wf ivc ts_stepD(3) [OF st]] by simp
  qed
  have reach: "wsorted s \<and> holds F s iv" if "reach F ts k s" for k s
    using that by (induction rule: reach.induct) (use base ind in \<open>auto simp: ts_initial_def dest: ts_stepD\<close>)
  have pr: "holds F s prop" if "wsorted s" "holds F s iv" for s
    using smt_engine.asserts_pop(2) [OF eng q3 r(3) that(1) e2] that(2) by (auto simp: smt_terms.holds_Not [OF B])
  have all: "\<forall>k s. reach F ts k s \<longrightarrow> holds F s iv \<and> holds F s prop" using reach pr by blast
  then show ?thesis by (auto simp: safe_def cex_reach smt_terms.holds_Not [OF B])
qed

theorem prop_monitor_exact_witness:
  "\<exists>v ts'. add_prop_monitor plain_builder 3 vx demo_ts = Inr (v, ts')
    \<and> \<not> cex (\<lambda>_ _. BoolVal False) ts' (Node (op0 NotOp) BOOL [v]) 0
    \<and> (cex (\<lambda>_ _. BoolVal False) ts' (Node (op0 NotOp) BOOL [v]) 5
        \<longleftrightarrow> cex (\<lambda>_ _. BoolVal False) demo_ts (Node (op0 NotOp) BOOL [vx]) 4)"
proof -
  have "case add_prop_monitor plain_builder 3 vx demo_ts of Inl e \<Rightarrow> False | Inr r \<Rightarrow> True"
    by code_simp
  then obtain v ts' where m: "add_prop_monitor plain_builder 3 vx demo_ts = Inr (v, ts')"
    by (auto split: sum.splits)
  have "no_next demo_ts vx" by code_simp
  moreover have "\<forall>s. wsorted s \<longrightarrow> eval (\<lambda>_ _. BoolVal False) s vx \<in> carrier BOOL"
    by (auto dest: wsorted_Bool [of _ "''x''"])
  moreover have "\<forall>s. wsorted s \<longrightarrow> (\<exists>t. ts_step (\<lambda>_ _. BoolVal False) demo_ts s t)" using demo_total by blast
  ultimately have "\<not> cex (\<lambda>_ _. BoolVal False) ts' (mk_term plain_builder (op0 NotOp) [v]) 0
    \<and> (cex (\<lambda>_ _. BoolVal False) ts' (mk_term plain_builder (op0 NotOp) [v]) (Suc 4)
        \<longleftrightarrow> cex (\<lambda>_ _. BoolVal False) demo_ts (mk_term plain_builder (op0 NotOp) [vx]) 4)"
    by (rule prop_monitor_exact [OF plain.smt_terms_axioms demo_wf _ _ _ m])
  then show ?thesis using m by (simp add: plain_builder_def plain_mk_term_def)
qed

theorem check_invar_sound_witness:
  "safe (\<lambda>_ _. BoolVal False) demo_ts
     (Node (op0 NotOp) BOOL [Node (op0 Or) BOOL [vx, Node (op0 NotOp) BOOL [vx]]])"
proof -
  let ?goal = "Node (op0 Or) BOOL [vx, Node (op0 NotOp) BOOL [vx]]"
  have c: "check_invar (enum_solver (\<lambda>_ _. BoolVal False) no_decider) enum_init demo_ts ?goal ?goal"
    by code_simp
  have "safe (\<lambda>_ _. BoolVal False) demo_ts
      (mk_term (builder (enum_solver (\<lambda>_ _. BoolVal False) no_decider)) (op0 NotOp) [?goal])"
    using check_invar_sound [OF enum.smt_engine_axioms demo_wf _ c] by (simp add: enum_init_def)
  then show ?thesis by (simp add: plain_builder_def plain_mk_term_def)
qed

end
