(* ===== verification/Ts_Extension.thy ===== *)
theory Ts_Extension
  imports Modifiers_Correct
begin

section \<open>Extending a system by new variables\<close>

text \<open>
  Most modifiers only add variables with updates, initial values and input constraints.
  \<open>extension F ts vs us cs ds ts'\<close> says that \<open>ts'\<close> is \<open>ts\<close> with the new
  variables \<open>vs\<close>, the updates \<open>us\<close>, the constraints \<open>cs\<close> on the steps and
  \<open>ds\<close> on the initial states.  One lemma per building operation composes extensions, and
  paths of the two systems are related once and for all.
\<close>

definition extension :: "theory_ops \<Rightarrow> ts \<Rightarrow> tm list \<Rightarrow> (tm \<times> tm) list \<Rightarrow> tm list \<Rightarrow> tm list \<Rightarrow> ts \<Rightarrow> bool" where
  "extension F ts vs us cs ds ts' \<longleftrightarrow> ts_wf ts' \<and> distinct vs
     \<and> (\<forall>v \<in> set vs. is_symbolic_const v \<and> v \<notin> ts_vars ts)
     \<and> ts_vars ts \<union> set vs \<subseteq> ts_vars ts'
     \<and> set (ts_statevars ts') \<union> set (ts_inputvars ts')
         = set (ts_statevars ts) \<union> set (ts_inputvars ts) \<union> set vs
     \<and> (\<forall>s t. ts_step F ts' s t \<longleftrightarrow> ts_step F ts s t
          \<and> (\<forall>(v, f) \<in> set us. t (sym_of v) = eval F s f) \<and> (\<forall>c \<in> set cs. holds F s c))
     \<and> (\<forall>s. ts_initial F ts' s \<longleftrightarrow> ts_initial F ts s \<and> (\<forall>c \<in> set ds. holds F s c))"

lemma extension_parts:
  assumes "extension F ts vs us cs ds ts'"
  shows "ts_wf ts'" and "distinct vs"
    and "\<And>v. v \<in> set vs \<Longrightarrow> is_symbolic_const v \<and> v \<notin> ts_vars ts"
    and "ts_vars ts \<union> set vs \<subseteq> ts_vars ts'"
    and "set (ts_statevars ts') \<union> set (ts_inputvars ts')
         = set (ts_statevars ts) \<union> set (ts_inputvars ts) \<union> set vs"
    and "ts_step F ts' s t \<longleftrightarrow> ts_step F ts s t
          \<and> (\<forall>(v, f) \<in> set us. t (sym_of v) = eval F s f) \<and> (\<forall>c \<in> set cs. holds F s c)"
    and "ts_initial F ts' s \<longleftrightarrow> ts_initial F ts s \<and> (\<forall>c \<in> set ds. holds F s c)"
  using assms unfolding extension_def by blast+

lemma extension_refl: "ts_wf ts \<Longrightarrow> extension F ts [] [] [] [] ts"
  by (simp add: extension_def)

lemma make_statevar_vars:
  assumes wf: "ts_wf ts" and st: "\<not> is_fun_sort st" and m: "make_statevar B n st ts = Inr (v, ts')"
  shows "insert v (ts_vars ts) \<subseteq> ts_vars ts'"
proof -
  have "set (ts_next_statevars ts) \<subseteq> set (ts_next_statevars ts')"
    using make_statevar_call [OF m] by (auto elim!: add_statevar_fields)
  then show ?thesis using make_statevar_facts(4,5) [OF wf st m] by (auto simp: ts_vars_def)
qed

lemma extension_statevar:
  assumes e: "extension F ts vs us cs ds u" and st: "\<not> is_fun_sort st"
    and m: "make_statevar B n st u = Inr (v, u')"
  shows "v = Sym n st" and "extension F ts (vs @ [v]) us cs ds u'"
proof -
  note x = extension_parts [OF e]
  note f = make_statevar_facts [OF x(1) st m]
  show v: "v = Sym n st" by (rule f(2))
  have "v \<notin> ts_vars ts" "v \<notin> set vs" using f(3) x(4) by blast+
  moreover have "is_symbolic_const v" using v st by simp
  moreover have "set (ts_statevars u') \<union> set (ts_inputvars u')
      = set (ts_statevars ts) \<union> set (ts_inputvars ts) \<union> set (vs @ [v])" using f(4,5) x(5) by auto
  moreover have "ts_vars ts \<union> set (vs @ [v]) \<subseteq> ts_vars u'" using x(4) make_statevar_vars [OF x(1) st m] by auto
  ultimately show "extension F ts (vs @ [v]) us cs ds u'"
    unfolding extension_def by (auto simp: f(1) f(6,7) x)
qed

lemma extension_inputvar:
  assumes e: "extension F ts vs us cs ds u" and st: "\<not> is_fun_sort st"
    and m: "make_inputvar B n st u = Inr (v, u')"
  shows "v = Sym n st" and "extension F ts (vs @ [v]) us cs ds u'"
proof -
  note x = extension_parts [OF e]
  note f = make_inputvar_facts [OF x(1) st m]
  show v: "v = Sym n st" by (rule f(2))
  have "v \<notin> ts_vars ts" "v \<notin> set vs" using f(3) x(4) by blast+
  moreover have "is_symbolic_const v" using v st by simp
  moreover have "set (ts_statevars u') \<union> set (ts_inputvars u')
      = set (ts_statevars ts) \<union> set (ts_inputvars ts) \<union> set (vs @ [v])" using f(4,5) x(5) by auto
  moreover have "ts_vars ts \<union> set (vs @ [v]) \<subseteq> ts_vars u'"
    using x(4) f(4,5,10) by (auto simp: ts_vars_def)
  ultimately show "extension F ts (vs @ [v]) us cs ds u'"
    unfolding extension_def by (auto simp: f(1) f(6,7) x)
qed

lemma extension_assign:
  assumes B: "smt_terms B F" and e: "extension F ts vs us cs ds u" and a: "assign_next B v f u = Inr u'"
  shows "extension F ts vs (us @ [(v, f)]) cs ds u'"
proof -
  note x = extension_parts [OF e]
  note g = assign_next_facts [OF B x(1) a]
  have "ts_vars u' = ts_vars u" by (simp add: g ts_vars_def)
  then show ?thesis unfolding extension_def using x(4) by (auto simp: g(1-5,10) x(2,3,5-7))
qed

lemma extension_init:
  assumes B: "smt_terms B F" and e: "extension F ts vs us cs ds u" and c: "constrain_init B c u = Inr u'"
  shows "extension F ts vs us cs (ds @ [c]) u'"
proof -
  note x = extension_parts [OF e]
  note g = constrain_init_facts [OF B x(1) c]
  have "ts_vars u' = ts_vars u" by (simp add: g ts_vars_def)
  then show ?thesis unfolding extension_def using x(4) by (auto simp: g(1-5,9) x(2,3,5-7))
qed

lemma extension_inputs:
  assumes B: "smt_terms B F" and e: "extension F ts vs us cs ds u" and c: "constrain_inputs B c u = Inr u'"
  shows "extension F ts vs us (cs @ [c]) ds u'"
proof -
  note x = extension_parts [OF e]
  note g = constrain_inputs_facts [OF B x(1) c]
  have "ts_vars u' = ts_vars u" by (simp add: g ts_vars_def)
  then show ?thesis unfolding extension_def using x(4) by (auto simp: g(1-6) x(2,3,5-7))
qed

text \<open>A path of the extended system is a path of the original one that obeys the updates.\<close>

lemma extension_segmentD:
  assumes "extension F ts vs us cs ds ts'" and "segment F ts' \<rho> k"
  shows "segment F ts \<rho> k" and "\<And>i v f. i < k \<Longrightarrow> (v, f) \<in> set us \<Longrightarrow> \<rho> (Suc i) (sym_of v) = eval F (\<rho> i) f"
    and "\<And>i c. i < k \<Longrightarrow> c \<in> set cs \<Longrightarrow> holds F (\<rho> i) c"
  using assms(2) extension_parts(6) [OF assms(1)] by (auto simp: segment_def)

text \<open>
  Conversely a path of the original system extends by values of the new variables that obey
  the updates and the constraints.
\<close>

lemma extension_segmentI:
  assumes wf: "ts_wf ts" and e: "extension F ts vs us cs ds ts'" and p: "segment F ts \<pi> k"
    and m: "\<And>i. i \<le> k \<Longrightarrow> fresh_values ts (m i)"
    and u: "\<And>i v f. i < k \<Longrightarrow> (v, f) \<in> set us \<Longrightarrow>
      override (\<pi> (Suc i)) (m (Suc i)) (sym_of v) = eval F (override (\<pi> i) (m i)) f"
    and c: "\<And>i c. i < k \<Longrightarrow> c \<in> set cs \<Longrightarrow> holds F (override (\<pi> i) (m i)) c"
  shows "segment F ts' (\<lambda>i. override (\<pi> i) (m i)) k"
proof -
  have "wsorted (override (\<pi> i) (m i))" if "i \<le> k" for i
    using override_same_on [OF wf _ m [OF that], of "\<pi> i"] p that by (simp add: segment_def same_on_def)
  moreover have "ts_step F ts' (override (\<pi> i) (m i)) (override (\<pi> (Suc i)) (m (Suc i)))" if i: "i < k" for i
  proof -
    have "ts_step F ts (override (\<pi> i) (m i)) (override (\<pi> (Suc i)) (m (Suc i)))"
      by (rule step_override [OF wf m m]) (use i p in \<open>simp_all add: segment_def\<close>)
    then show ?thesis using u [OF i] c [OF i] unfolding extension_parts(6) [OF e] by blast
  qed
  ultimately show ?thesis by (simp add: segment_def)
qed

lemma extension_initialI:
  assumes wf: "ts_wf ts" and e: "extension F ts vs us cs ds ts'" and i: "ts_initial F ts s"
    and m: "fresh_values ts m" and d: "\<And>c. c \<in> set ds \<Longrightarrow> holds F (override s m) c"
  shows "ts_initial F ts' (override s m)"
  using initial_override [OF wf m i] d unfolding extension_parts(7) [OF e] by blast

text \<open>The values of the new variables, listed in their order.\<close>

definition new_values :: "tm list \<Rightarrow> (tm \<Rightarrow> val) \<Rightarrow> sym \<rightharpoonup> val" where
  "new_values vs a x = (if tm_of x \<in> set vs then Some (a (tm_of x)) else None)"

lemma fresh_new_values:
  assumes "extension F ts vs us cs ds ts'" and "\<And>v. v \<in> set vs \<Longrightarrow> a v \<in> carrier (get_sort v)"
  shows "fresh_values ts (new_values vs a)"
proof -
  have "\<not> is_fun_sort st \<and> a (Sym n st) \<in> carrier st \<and> Sym n st \<notin> ts_vars ts"
    if "Sym n st \<in> set vs" for n st
    using extension_parts(3) [OF assms(1) that] assms(2) [OF that] by simp
  then show ?thesis by (simp add: fresh_values_def new_values_def)
qed

lemma override_new [simp]:
  assumes "extension F ts vs us cs ds ts'" and "v \<in> set vs"
  shows "override s (new_values vs a) (sym_of v) = a v"
proof -
  have "tm_of (sym_of v) = v" using extension_parts(3) [OF assms] by (metis tm_of_sym_of symbolic_is_symbol)
  then show ?thesis using assms(2) by (simp add: override_def new_values_def)
qed

lemma eval_symbol: "is_symbolic_const v \<Longrightarrow> eval F s v = s (sym_of v)"
  by (cases v) auto

lemma eval_new:
  assumes "extension F ts vs us cs ds ts'" and "v \<in> set vs"
  shows "eval F (override s (new_values vs a)) v = a v"
  using extension_parts(3) [OF assms] override_new [OF assms] by (simp add: eval_symbol)

end
