(* ===== verification/History_Correct.thy ===== *)
theory History_Correct
  imports Ts_Extension
begin

section \<open>History variables delay their target\<close>

text \<open>
  \<open>get_hist\<close> extends a chain of variables, each the previous one delayed by one step.  The
  invariant of the map \<open>hist_vars_\<close> says that of every chain in it.
\<close>

definition delay_chain :: "theory_ops \<Rightarrow> ts \<Rightarrow> tm \<Rightarrow> tm list \<Rightarrow> bool" where
  "delay_chain F ts target hs \<longleftrightarrow>
     (\<forall>h \<in> set hs. is_symbolic_const h \<and> get_sort h = get_sort target \<and> no_next ts h)
     \<and> (\<forall>s t. ts_step F ts s t \<longrightarrow> (\<forall>(h, f) \<in> set (zip hs (target # hs)). t (sym_of h) = eval F s f))"

definition hist_inv :: "theory_ops \<Rightarrow> (tm \<times> tm list) list \<Rightarrow> ts \<Rightarrow> bool" where
  "hist_inv F hm ts \<longleftrightarrow> ts_wf ts
     \<and> (\<forall>target hs. map_of hm target = Some hs \<longrightarrow> no_next ts target \<and> delay_chain F ts target hs)"

lemma zip_snoc_chain: "zip (hs @ [v]) (t # hs @ [v]) = zip hs (t # hs) @ [(v, last (t # hs))]"
  by (induction hs arbitrary: t) auto

lemma zip_chain_append: "zip (hs @ vs) (t # hs @ vs) = zip hs (t # hs) @ zip vs (last (t # hs) # vs)"
  by (induction hs arbitrary: t) auto

lemma chain_delays:
  assumes c: "delay_chain F ts target hs" and p: "segment F ts \<pi> k"
  shows "n < length hs \<Longrightarrow> Suc n \<le> i \<Longrightarrow> i \<le> k
    \<Longrightarrow> eval F (\<pi> i) (hs ! n) = eval F (\<pi> (i - Suc n)) target"
proof (induction n arbitrary: i)
  have step: "\<pi> i (sym_of (hs ! n)) = eval F (\<pi> (i - 1)) ((target # hs) ! n)"
    if "0 < i" "i \<le> k" "n < length hs" for i n
  proof -
    have "ts_step F ts (\<pi> (i - 1)) (\<pi> i)" using p that by (auto simp: segment_def dest: spec [of _ "i - 1"])
    moreover have "(hs ! n, (target # hs) ! n) \<in> set (zip hs (target # hs))"
      using that(3) by (force simp: set_zip)
    ultimately show ?thesis using c unfolding delay_chain_def by blast
  qed
  have sym: "eval F s (hs ! n) = s (sym_of (hs ! n))" if "n < length hs" for n s
    using c that by (simp add: delay_chain_def eval_symbol)
  {
    case 0
    then show ?case using step [of i 0] sym by simp
  next
    case (Suc n)
    then have "eval F (\<pi> i) (hs ! Suc n) = eval F (\<pi> (i - 1)) (hs ! n)" using step [of i "Suc n"] sym by simp
    also have "\<dots> = eval F (\<pi> (i - 1 - Suc n)) target" using Suc.IH [of "i - 1"] Suc.prems by simp
    finally show ?case by simp
  }
qed

lemma foldE_add_hist:
  assumes B: "smt_terms B F" and st: "\<not> is_fun_sort (get_sort target)"
    and "extension F ts vs (zip vs (last (target # hs) # vs)) [] [] u"
    and "\<forall>v \<in> set vs. get_sort v = get_sort target"
    and "no_next u target"
    and "foldE (add_hist B target) [Suc (length (hs @ vs))..<Suc d] (hs @ vs, u) = Inr (hs', u')"
  shows "\<exists>vs'. hs' = hs @ vs' \<and> extension F ts vs' (zip vs' (last (target # hs) # vs')) [] [] u'
    \<and> (\<forall>v \<in> set vs'. get_sort v = get_sort target) \<and> d \<le> length hs'"
  using assms(3-6)
proof (induction "d - length (hs @ vs)" arbitrary: vs u)
  case 0
  then show ?case by auto
next
  case (Suc n)
  then have "[Suc (length (hs @ vs))..<Suc d] = Suc (length (hs @ vs)) # [Suc (length (hs @ vs) + 1)..<Suc d]"
    by (simp add: upt_conv_Cons del: upt_Suc)
  with Suc.prems(4) obtain r where a: "add_hist B target (Suc (length (hs @ vs))) (hs @ vs, u) = Inr r"
    and f: "foldE (add_hist B target) [Suc (length (hs @ vs) + 1)..<Suc d] r = Inr (hs', u')"
    by (auto simp: bindE_Inr_iff simp del: upt_Suc)
  from a obtain v u1 u2 nm where m: "make_statevar B nm (get_sort target) u = Inr (v, u1)"
    and r: "r = (hs @ vs @ [v], u2)"
    and n: "if hs @ vs = [] then (if no_next u1 target then assign_next B v target u1 = Inr u2
         else constrain_trans B (mk_term B (op0 Equal) [next_tm B u1 v, target]) u1 = Inr u2)
       else assign_next B v (last (hs @ vs)) u1 = Inr u2"
    by (auto simp: add_hist_def bindE_Inr_iff split: if_splits)
  note e1 = extension_statevar [OF Suc.prems(1) st m]
  note w = extension_parts(1) [OF Suc.prems(1)]
  have nn: "no_next u1 target"
    using Suc.prems(3) make_statevar_facts(4,5) [OF w st m] unfolding no_next_iff by (auto elim!: covered_mono)
  have "assign_next B v (last ((target # hs) @ vs)) u1 = Inr u2"
    using n nn by (cases "hs @ vs = []") (auto split: if_splits)
  then have as: "assign_next B v (last (last (target # hs) # vs)) u1 = Inr u2" by (cases vs) auto
  have e2: "extension F ts (vs @ [v]) (zip (vs @ [v]) (last (target # hs) # vs @ [v])) [] [] u2"
    using extension_assign [OF B e1(2) as] by (simp add: zip_snoc_chain)
  have nn2: "no_next u2 target"
    using nn assign_next_facts(2,3) [OF B extension_parts(1) [OF e1(2)] as] by (simp add: no_next_iff)
  have "\<forall>v \<in> set (vs @ [v]). get_sort v = get_sort target" using Suc.prems(2) e1(1) by auto
  from Suc.hyps(1) [OF _ e2 this nn2] f r Suc.hyps(2) show ?case by simp
qed

lemma extension_no_next:
  assumes "extension F ts vs us cs ds ts'" and "no_next ts t"
  shows "no_next ts' t"
  using assms(2) unfolding no_next_iff extension_parts(5) [OF assms(1)] by (rule covered_mono) simp

lemma extension_delay_chain:
  assumes e: "extension F ts vs us cs ds ts'" and c: "delay_chain F ts target hs"
  shows "delay_chain F ts' target hs"
  using c extension_no_next [OF e] unfolding delay_chain_def extension_parts(6) [OF e] by blast

lemma delay_chain_append:
  assumes e: "extension F ts vs (zip vs (last (target # hs) # vs)) [] [] ts'"
    and "\<forall>v \<in> set vs. get_sort v = get_sort target" and c: "delay_chain F ts target hs"
  shows "delay_chain F ts' target (hs @ vs)"
proof -
  have "is_symbolic_const v \<and> no_next ts' v" if "v \<in> set vs" for v
  proof -
    have "is_symbolic_const v" using extension_parts(3) [OF e that] by blast
    moreover have "v \<in> set (ts_statevars ts') \<union> set (ts_inputvars ts')" using extension_parts(5) [OF e] that by blast
    ultimately show ?thesis by (cases v) (auto simp: no_next_iff covered_def)
  qed
  moreover have "t (sym_of h) = eval F s f"
    if "ts_step F ts' s t" "(h, f) \<in> set (zip (hs @ vs) (target # hs @ vs))" for s t h f
  proof (cases "(h, f) \<in> set (zip hs (target # hs))")
    case True
    with extension_delay_chain [OF e c] that(1) show ?thesis unfolding delay_chain_def by blast
  next
    case False
    with that(2) have "(h, f) \<in> set (zip vs (last (target # hs) # vs))" unfolding zip_chain_append by simp
    with that(1) show ?thesis unfolding extension_parts(6) [OF e] by blast
  qed
  ultimately show ?thesis using extension_delay_chain [OF e c] assms(2)
    unfolding delay_chain_def append_Cons [symmetric] by auto
qed

lemma chain_extends:
  assumes wf: "ts_wf ts" and e: "extension F ts vs (zip vs (f0 # vs)) [] [] ts'"
    and sorts: "\<forall>v \<in> set vs. get_sort v = st" and f0: "no_next ts f0"
    and val: "\<forall>s. wsorted s \<longrightarrow> eval F s f0 \<in> carrier st" and p: "segment F ts \<pi> k"
  shows "\<exists>\<rho>. segment F ts' \<rho> k \<and> (\<forall>i \<le> k. same_on ts (\<pi> i) (\<rho> i))"
proof -
  obtain d where d: "d \<in> carrier st" using carrier_nonempty by blast
  define pos where "pos v = (THE j. j < length vs \<and> vs ! j = v)" for v
  have pos: "pos (vs ! j) = j" if "j < length vs" for j
    unfolding pos_def using that extension_parts(2) [OF e] by (auto simp: nth_eq_iff_index_eq)
  define a where "a i v = (if pos v < i then eval F (\<pi> (i - Suc (pos v))) f0 else d)" for i v
  define m where "m i = new_values vs (a i)" for i
  have ws: "wsorted (\<pi> i)" if "i \<le> k" for i using p that by (simp add: segment_def)
  have a: "a i v \<in> carrier st" if "i \<le> k" for i v using val ws [of "i - Suc (pos v)"] d that by (simp add: a_def)
  have fr: "fresh_values ts (m i)" if "i \<le> k" for i
    unfolding m_def by (rule fresh_new_values [OF e]) (use a that sorts in simp)
  have "segment F ts' (\<lambda>i. override (\<pi> i) (m i)) k"
  proof (rule extension_segmentI [OF wf e p fr])
    fix i v f assume i: "i < k" and vf: "(v, f) \<in> set (zip vs (f0 # vs))"
    then obtain j where j: "j < length vs" "v = vs ! j" "f = (f0 # vs) ! j" by (auto simp: set_zip)
    then have "override (\<pi> (Suc i)) (m (Suc i)) (sym_of v) = a (Suc i) (vs ! j)"
      by (simp add: m_def override_new [OF e])
    also have "\<dots> = eval F (override (\<pi> i) (m i)) f"
    proof (cases j)
      case 0
      have "eval F (override (\<pi> i) (m i)) f0 = eval F (\<pi> i) f0"
        by (rule eval_override [OF wf ws fr]) (use i f0 in \<open>simp_all add: no_next_iff\<close>)
      with 0 j pos [of 0] show ?thesis by (simp add: a_def)
    next
      case (Suc j')
      then have "eval F (override (\<pi> i) (m i)) f = a i (vs ! j')"
        using j by (simp add: m_def eval_new [OF e])
      with Suc j pos [of j] pos [of j'] show ?thesis by (simp add: a_def)
    qed
    finally show "override (\<pi> (Suc i)) (m (Suc i)) (sym_of v) = eval F (override (\<pi> i) (m i)) f" .
  qed simp_all
  moreover have "\<forall>i \<le> k. same_on ts (\<pi> i) (override (\<pi> i) (m i))"
    using override_same_on [OF wf ws fr] by blast
  ultimately show ?thesis by blast
qed

text \<open>C31: a history variable is its target delayed: on every segment of the system with the history
  variable the value of the variable at step \<open>k\<close> is the value of the target \<open>delay\<close> steps
  before, every segment of the original system is one of the new system for some values of the
  history variables and conversely, and the map of the modifier keeps its invariant.\<close>

theorem history_variable_exact:
  assumes "smt_terms B F" and "hist_inv F hm ts" and "no_next ts target"
    and "\<not> is_fun_sort (get_sort target)"
    and "\<forall>s. wsorted s \<longrightarrow> eval F s target \<in> carrier (get_sort target)"
    and "get_hist B target delay (hm, ts) = Inr (h, hm', ts')"
  shows "hist_inv F hm' ts'
    \<and> (\<forall>\<pi> k. segment F ts' \<pi> k \<longrightarrow> segment F ts \<pi> k
          \<and> (delay \<le> k \<longrightarrow> eval F (\<pi> k) h = eval F (\<pi> (k - delay)) target))
    \<and> (\<forall>\<pi> k. segment F ts \<pi> k \<longrightarrow> (\<exists>\<rho>. segment F ts' \<rho> k \<and> (\<forall>i \<le> k. same_on ts (\<pi> i) (\<rho> i))))"
proof (cases "delay = 0")
  case True
  have "same_on ts s s" if "wsorted s" for s using that by (simp add: same_on_def agree_funs_def)
  with True assms(2,6) show ?thesis by (auto simp: get_hist_def segment_def)
next
  case False
  have wf: "ts_wf ts" using assms(2) by (simp add: hist_inv_def)
  define hs where "hs = (case map_of hm target of Some hs \<Rightarrow> hs | None \<Rightarrow> [])"
  have c: "delay_chain F ts target hs"
    using assms(2) by (auto simp: hs_def hist_inv_def delay_chain_def split: option.splits)
  from assms(6) False obtain hs' where f: "foldE (add_hist B target) [Suc (length hs)..<Suc delay] (hs, ts) = Inr (hs', ts')"
    and r: "h = hs' ! (delay - 1)" "hm' = AList.update target hs' hm"
    by (auto simp: get_hist_def Let_def hs_def bindE_Inr_iff simp del: upt_Suc)
  have "\<exists>vs. hs' = hs @ vs \<and> extension F ts vs (zip vs (last (target # hs) # vs)) [] [] ts'
      \<and> (\<forall>v \<in> set vs. get_sort v = get_sort target) \<and> delay \<le> length hs'"
    by (rule foldE_add_hist [OF assms(1,4), of ts "[]" hs ts]) (use f wf extension_refl assms(3) in simp_all)
  then obtain vs where vs: "hs' = hs @ vs" "\<forall>v \<in> set vs. get_sort v = get_sort target" "delay \<le> length hs'"
    and e: "extension F ts vs (zip vs (last (target # hs) # vs)) [] [] ts'" by blast
  have c': "delay_chain F ts' target hs'" unfolding vs(1) by (rule delay_chain_append [OF e vs(2) c])
  have "hist_inv F hm' ts'"
    using assms(2) c' extension_delay_chain [OF e] extension_no_next [OF e] assms(3) extension_parts(1) [OF e]
    by (auto simp: hist_inv_def r(2))
  moreover have "eval F (\<pi> k) h = eval F (\<pi> (k - delay)) target" if "segment F ts' \<pi> k" "delay \<le> k" for \<pi> k
    using chain_delays [OF c' that(1), of "delay - 1" k] False vs(3) that(2) r(1) by simp
  moreover have f0: "no_next ts (last (target # hs))" "\<forall>s. wsorted s \<longrightarrow> eval F s (last (target # hs)) \<in> carrier (get_sort target)"
  proof -
    have "no_next ts h \<and> (\<forall>s. wsorted s \<longrightarrow> eval F s h \<in> carrier (get_sort target))" if "h \<in> set hs" for h
      using c that by (cases h) (auto simp: delay_chain_def wsorted_def)
    with assms(3,5) show "no_next ts (last (target # hs))"
      "\<forall>s. wsorted s \<longrightarrow> eval F s (last (target # hs)) \<in> carrier (get_sort target)" by (cases hs rule: rev_cases; simp)+
  qed
  ultimately show ?thesis
    using extension_segmentD(1) [OF e] chain_extends [OF wf e vs(2) f0] by blast
qed

theorem history_variable_exact_witness:
  "\<exists>h hm' ts'. get_hist plain_builder vx 2 ([], demo_ts) = Inr (h, hm', ts')
    \<and> hist_inv (\<lambda>_ _. BoolVal False) hm' ts'"
proof -
  have "case get_hist plain_builder vx 2 ([], demo_ts) of Inl e \<Rightarrow> False | Inr r \<Rightarrow> True" by code_simp
  then obtain h hm' ts' where g: "get_hist plain_builder vx 2 ([], demo_ts) = Inr (h, hm', ts')"
    by (auto split: sum.splits)
  have "hist_inv (\<lambda>_ _. BoolVal False) [] demo_ts" by (simp add: hist_inv_def demo_wf)
  moreover have "no_next demo_ts vx" by code_simp
  moreover have "\<forall>s. wsorted s \<longrightarrow> eval (\<lambda>_ _. BoolVal False) s vx \<in> carrier (get_sort vx)"
    by (auto dest: wsorted_Bool [of _ "''x''"])
  ultimately have "hist_inv (\<lambda>_ _. BoolVal False) hm' ts'"
    using history_variable_exact [OF plain.smt_terms_axioms _ _ _ _ g] by auto
  with g show ?thesis by blast
qed

end
