(* ===== verification/Liveness_Correct.thy ===== *)
theory Liveness_Correct
  imports Ts_Extension
begin

section \<open>The liveness to safety translation finds the fair lassos\<close>

text \<open>
  What the translation promises: the new safety property fails after \<open>k\<close> steps exactly when
  the original system has a path of \<open>k\<close> steps whose last state is an earlier one again and that
  meets every justice condition in between.
\<close>

definition justice_lasso :: "theory_ops \<Rightarrow> ts \<Rightarrow> tm list \<Rightarrow> (nat \<Rightarrow> assignment) \<Rightarrow> nat \<Rightarrow> nat \<Rightarrow> bool" where
  "justice_lasso F ts conds \<pi> i k \<longleftrightarrow> ts_path F ts \<pi> k \<and> i < k
     \<and> (\<forall>v \<in> set (ts_statevars ts). \<pi> i (sym_of v) = \<pi> k (sym_of v))
     \<and> (\<forall>c \<in> set conds. \<exists>j. i \<le> j \<and> j < k \<and> holds F (\<pi> j) c)"

definition fair_path :: "theory_ops \<Rightarrow> ts \<Rightarrow> tm list \<Rightarrow> (nat \<Rightarrow> assignment) \<Rightarrow> bool" where
  "fair_path F ts conds \<rho> \<longleftrightarrow> ts_initial F ts (\<rho> 0) \<and> (\<forall>n. ts_step F ts (\<rho> n) (\<rho> (Suc n)))
     \<and> (\<forall>c \<in> set conds. \<forall>n. \<exists>m \<ge> n. holds F (\<rho> m) c)"

subsection \<open>What the translation adds\<close>

definition loop_update :: "smt_builder \<Rightarrow> tm \<Rightarrow> tm \<Rightarrow> tm \<times> tm \<Rightarrow> tm \<times> tm" where
  "loop_update B save saved p =
     (snd p, mk_term B (op0 Ite) [mk_term B (op0 And) [save, mk_term B (op0 NotOp) [saved]], fst p, snd p])"

definition justice_update :: "smt_builder \<Rightarrow> tm \<Rightarrow> tm \<Rightarrow> tm \<times> tm \<Rightarrow> tm \<times> tm" where
  "justice_update B save saved p =
     (fst p, mk_term B (op0 Or) [fst p, mk_term B (op0 And) [mk_term B (op0 Or) [save, saved], snd p]])"

definition starts_false :: "smt_builder \<Rightarrow> tm \<Rightarrow> tm" where
  "starts_false B v = mk_term B (op0 Equal) [v, tm_bool False]"

lemma foldE_loop_states:
  assumes B: "smt_terms B F"
  shows "extension F ts vs us cs ds u \<Longrightarrow> \<forall>x \<in> set xs. \<not> is_fun_sort (get_sort x) \<Longrightarrow>
    foldE (add_loop_state B prefix save saved) xs (ps, u) = Inr (ps', u') \<Longrightarrow>
    \<exists>qs. ps' = ps @ qs \<and> map fst qs = xs \<and> (\<forall>p \<in> set qs. get_sort (snd p) = get_sort (fst p))
      \<and> extension F ts (vs @ map snd qs) (us @ map (loop_update B save saved) qs) cs ds u'"
proof (induction xs arbitrary: vs us ps u)
  case Nil
  then show ?case by simp
next
  case (Cons x xs)
  from Cons.prems(3) obtain r where r: "add_loop_state B prefix save saved x (ps, u) = Inr r"
    and rest: "foldE (add_loop_state B prefix save saved) xs r = Inr (ps', u')" by (auto simp: bindE_Inr_iff)
  from r rest obtain l u1 u2 nm where m: "make_statevar B nm (get_sort x) u = Inr (l, u1)"
    and a: "assign_next B l (snd (loop_update B save saved (x, l))) u1 = Inr u2"
    and f: "foldE (add_loop_state B prefix save saved) xs (ps @ [(x, l)], u2) = Inr (ps', u')"
    unfolding add_loop_state_def [of B prefix save saved x]
    by (auto simp: loop_update_def bindE_Inr_iff)
  have st: "\<not> is_fun_sort (get_sort x)" using Cons.prems(2) by simp
  note e1 = extension_statevar [OF Cons.prems(1) st m]
  have "extension F ts (vs @ [l]) (us @ [loop_update B save saved (x, l)]) cs ds u2"
    using extension_assign [OF B e1(2) a] by (simp add: loop_update_def)
  from Cons.IH [OF this _ f] Cons.prems(2) obtain qs where "ps' = (ps @ [(x, l)]) @ qs \<and> map fst qs = xs
      \<and> (\<forall>p \<in> set qs. get_sort (snd p) = get_sort (fst p))
      \<and> extension F ts ((vs @ [l]) @ map snd qs)
          ((us @ [loop_update B save saved (x, l)]) @ map (loop_update B save saved) qs) cs ds u'" by auto
  then show ?case using e1(1) by (intro exI [of _ "(x, l) # qs"]) simp
qed

lemma foldE_justice_states:
  assumes B: "smt_terms B F"
  shows "extension F ts vs us cs ds u \<Longrightarrow>
    foldE (add_justice_state B prefix save saved) xs (js, u) = Inr (js', u') \<Longrightarrow>
    \<exists>qs. js' = js @ qs \<and> length qs = length xs \<and> (\<forall>j \<in> set qs. get_sort j = BOOL)
      \<and> extension F ts (vs @ qs) (us @ map (justice_update B save saved) (zip qs (map snd xs))) cs
          (ds @ map (starts_false B) qs) u'"
proof (induction xs arbitrary: vs us ds js u)
  case Nil
  then show ?case by simp
next
  case (Cons x xs)
  obtain i c where x: "x = (i, c)" by (cases x)
  from Cons.prems(2) obtain j u1 u2 u3 nm where m: "make_statevar B nm BOOL u = Inr (j, u1)"
    and ci: "constrain_init B (starts_false B j) u1 = Inr u2"
    and a: "assign_next B j (snd (justice_update B save saved (j, c))) u2 = Inr u3"
    and f: "foldE (add_justice_state B prefix save saved) xs (js @ [j], u3) = Inr (js', u')"
    by (auto simp: x add_justice_state_def justice_update_def starts_false_def bindE_Inr_iff)
  note e1 = extension_statevar [OF Cons.prems(1) _ m, simplified]
  have "extension F ts (vs @ [j]) (us @ [justice_update B save saved (j, c)]) cs (ds @ [starts_false B j]) u3"
    using extension_assign [OF B extension_init [OF B e1(2) ci] a] by (simp add: justice_update_def)
  from Cons.IH [OF this f] obtain qs where "js' = (js @ [j]) @ qs \<and> length qs = length xs
      \<and> (\<forall>j \<in> set qs. get_sort j = BOOL)
      \<and> extension F ts ((vs @ [j]) @ qs) ((us @ [justice_update B save saved (j, c)])
          @ map (justice_update B save saved) (zip qs (map snd xs))) cs
          ((ds @ [starts_false B j]) @ map (starts_false B) qs) u'" by blast
  then show ?case using e1(1) by (intro exI [of _ "j # qs"]) (simp add: x)
qed

lemma liveness_extension:
  assumes B: "smt_terms B F" and wf: "ts_wf ts" and l: "liveness_to_safety B prefix conds ts = Inr (p, ts')"
  obtains save saved qs js where
    "p = mk_term B (op0 NotOp) [liveness_bad B saved qs js]"
    "map fst qs = ts_statevars ts" "\<forall>q \<in> set qs. get_sort (snd q) = get_sort (fst q)"
    "length js = length conds" "\<forall>j \<in> set js. get_sort j = BOOL" "get_sort save = BOOL" "get_sort saved = BOOL"
    "extension F ts (save # saved # map snd qs @ js)
       ((saved, mk_term B (op0 Or) [saved, save]) # map (loop_update B save saved) qs
          @ map (justice_update B save saved) (zip js conds)) []
       (starts_false B saved # map (starts_false B) js) ts'"
proof -
  from l obtain save saved ts1 ts2 ts3 ts4 ts5 qs js where
      i: "make_inputvar B (prefix @ ''save'') BOOL ts = Inr (save, ts1)"
    and m: "make_statevar B (prefix @ ''saved'') BOOL ts1 = Inr (saved, ts2)"
    and c: "constrain_init B (starts_false B saved) ts2 = Inr ts3"
    and a: "assign_next B saved (mk_term B (op0 Or) [saved, save]) ts3 = Inr ts4"
    and fl: "foldE (add_loop_state B prefix save saved) (ts_statevars ts) ([], ts4) = Inr (qs, ts5)"
    and fj: "foldE (add_justice_state B prefix save saved) (zip [0..<length conds] conds) ([], ts5) = Inr (js, ts')"
    and p: "p = mk_term B (op0 NotOp) [liveness_bad B saved qs js]"
    by (auto simp: liveness_to_safety_def starts_false_def bindE_Inr_iff)
  note e1 = extension_inputvar [OF extension_refl [OF wf] _ i, simplified]
  note e2 = extension_statevar [OF e1(2) _ m, simplified]
  note e4 = extension_assign [OF B extension_init [OF B e2(2) c] a]
  have st: "\<forall>x \<in> set (ts_statevars ts). \<not> is_fun_sort (get_sort x)"
  proof
    fix x assume "x \<in> set (ts_statevars ts)"
    then have "is_symbolic_const x" using wf_symbolic [OF wf, of x] by (simp add: ts_vars_def)
    then show "\<not> is_fun_sort (get_sort x)" by (cases x) simp_all
  qed
  from foldE_loop_states [OF B e4 st fl] have q: "map fst qs = ts_statevars ts"
      "\<forall>q \<in> set qs. get_sort (snd q) = get_sort (fst q)"
    and e5: "extension F ts ([save, saved] @ map snd qs) ([(saved, mk_term B (op0 Or) [saved, save])]
        @ map (loop_update B save saved) qs) [] [starts_false B saved] ts5" by auto
  from foldE_justice_states [OF B e5 fj] have j: "length js = length conds" "\<forall>j \<in> set js. get_sort j = BOOL"
    and e6: "extension F ts (([save, saved] @ map snd qs) @ js) (([(saved, mk_term B (op0 Or) [saved, save])]
        @ map (loop_update B save saved) qs) @ map (justice_update B save saved) (zip js conds)) []
        ([starts_false B saved] @ map (starts_false B) js) ts'" by auto
  show ?thesis by (rule that [OF p q j]) (use e1(1) e2(1) e6 in simp_all)
qed

lemma holds_liveness_bad:
  assumes B: "smt_terms B F"
  shows "holds F s (liveness_bad B saved qs js) \<longleftrightarrow> holds F s saved
    \<and> (\<forall>q \<in> set qs. eval F s (fst q) = eval F s (snd q)) \<and> (\<forall>j \<in> set js. holds F s j)"
proof -
  have 1: "holds F s (fold (\<lambda>j b. mk_term B (op0 And) [b, j]) js b) \<longleftrightarrow> holds F s b \<and> (\<forall>j \<in> set js. holds F s j)" for b
    by (induction js arbitrary: b) (auto simp: smt_terms.holds_And [OF B])
  have 2: "holds F s (fold (\<lambda>(x, l) b. mk_term B (op0 And) [b, mk_term B (op0 Equal) [x, l]]) qs b)
      \<longleftrightarrow> holds F s b \<and> (\<forall>q \<in> set qs. eval F s (fst q) = eval F s (snd q))" for b
    by (induction qs arbitrary: b) (auto simp: smt_terms.holds_And [OF B] smt_terms.holds_Equal [OF B])
  show ?thesis unfolding liveness_bad_def 1 2 by blast
qed

lemma keys_listed: "map fst qs = xs \<Longrightarrow> x \<in> set xs \<longleftrightarrow> (\<exists>l. (x, l) \<in> set qs)"
  by force

lemma latch:
  assumes "\<not> g 0" and "\<And>n. n < k \<Longrightarrow> g (Suc n) \<longleftrightarrow> g n \<or> h n"
  shows "n \<le> k \<Longrightarrow> g n \<longleftrightarrow> (\<exists>m < n. h m)"
proof (induction n)
  case 0
  then show ?case using assms(1) by simp
next
  case (Suc n)
  then show ?case using assms(2) [of n] by (auto simp: less_Suc_eq)
qed

subsection \<open>A bad state of the translation closes a lasso\<close>

text \<open>The shape of a translated system, as \<open>liveness_extension\<close> gives it.\<close>

abbreviation translated :: "smt_builder \<Rightarrow> theory_ops \<Rightarrow> ts \<Rightarrow> tm list \<Rightarrow> tm \<Rightarrow> tm
    \<Rightarrow> (tm \<times> tm) list \<Rightarrow> tm list \<Rightarrow> ts \<Rightarrow> bool" where
  "translated B F ts conds save saved qs js ts' \<equiv>
     extension F ts (save # saved # map snd qs @ js)
       ((saved, mk_term B (op0 Or) [saved, save]) # map (loop_update B save saved) qs
          @ map (justice_update B save saved) (zip js conds)) []
       (starts_false B saved # map (starts_false B) js) ts'"

lemma bad_closes_lasso:
  assumes B: "smt_terms B F" and q: "map fst qs = ts_statevars ts" and wf: "ts_wf ts"
    and j: "length js = length conds"
    and e: "translated B F ts conds save saved qs js ts'"
    and p: "ts_path F ts' \<rho> k" and bad: "holds F (\<rho> k) (liveness_bad B saved qs js)"
  shows "\<exists>i. justice_lasso F ts conds \<rho> i k"
proof -
  note [simp] = smt_terms.holds_And [OF B] smt_terms.holds_Or [OF B] smt_terms.holds_Not [OF B]
    smt_terms.holds_Equal [OF B] smt_terms.eval_Ite [OF B]
  have seg: "segment F ts' \<rho> k" and ini: "ts_initial F ts' (\<rho> 0)" using p by (simp_all add: ts_path_def)
  note upd = extension_segmentD(2) [OF e seg]
  have sym: "\<rho> n (sym_of v) = eval F (\<rho> n) v" if "v \<in> insert save (insert saved (snd ` set qs \<union> set js))" for v n
    using extension_parts(3) [OF e, of v] that by (auto simp: eval_symbol)
  note starts = extension_parts(7) [OF e, THEN iffD1, OF ini]
  have sv: "holds F (\<rho> n) saved \<longleftrightarrow> (\<exists>m < n. holds F (\<rho> m) save)" if "n \<le> k" for n
  proof (rule latch [OF _ _ that])
    show "\<not> holds F (\<rho> 0) saved" using starts by (simp add: starts_false_def)
    show "holds F (\<rho> (Suc n)) saved \<longleftrightarrow> holds F (\<rho> n) saved \<or> holds F (\<rho> n) save" if "n < k" for n
      using upd [OF that, of saved "mk_term B (op0 Or) [saved, save]"] by (simp add: sym)
  qed
  have last: "holds F (\<rho> k) saved" "\<And>x l. (x, l) \<in> set qs \<Longrightarrow> eval F (\<rho> k) x = eval F (\<rho> k) l"
    "\<And>j. j \<in> set js \<Longrightarrow> holds F (\<rho> k) j"
    using bad unfolding holds_liveness_bad [OF B] by auto
  define i where "i = (LEAST m. holds F (\<rho> m) save)"
  from last(1) sv [of k] obtain m where m: "m < k" "holds F (\<rho> m) save" by blast
  then have i: "i < k" "holds F (\<rho> i) save" unfolding i_def by (auto intro: LeastI Least_le le_less_trans)
  have least: "i \<le> n" if "holds F (\<rho> n) save" for n using that unfolding i_def by (rule Least_le)
  have inside: "holds F (\<rho> n) save \<or> holds F (\<rho> n) saved \<longleftrightarrow> i \<le> n" if "n \<le> k" for n
  proof
    assume "holds F (\<rho> n) save \<or> holds F (\<rho> n) saved"
    then show "i \<le> n" using least sv [OF that] by force
  next
    assume "i \<le> n"
    then show "holds F (\<rho> n) save \<or> holds F (\<rho> n) saved"
      using sv [OF that] i(2) by (cases "i = n") auto
  qed
  have loop: "eval F (\<rho> n) l = eval F (\<rho> i) x" if xl: "(x, l) \<in> set qs" and n: "i < n" "n \<le> k" for x l n
    using n
  proof (induction n)
    case (Suc n)
    have u: "eval F (\<rho> (Suc n)) l = (if holds F (\<rho> n) save \<and> \<not> holds F (\<rho> n) saved
        then eval F (\<rho> n) x else eval F (\<rho> n) l)"
    proof -
      have "(l, snd (loop_update B save saved (x, l))) \<in> set (map (loop_update B save saved) qs)"
        using xl by (force simp: loop_update_def)
      moreover have "l \<in> snd ` set qs" using xl by force
      ultimately have "eval F (\<rho> (Suc n)) l = eval F (\<rho> n) (snd (loop_update B save saved (x, l)))"
        using upd [of n l] Suc.prems sym [of l "Suc n"] by simp
      then show ?thesis by (simp add: loop_update_def)
    qed
    show ?case
    proof (cases "n = i")
      case True
      then have "\<not> holds F (\<rho> n) saved" using sv [of n] i(1) unfolding i_def by (auto dest: not_less_Least)
      with u True i(2) show ?thesis by simp
    next
      case False
      then have "i < n" using Suc.prems by simp
      moreover from this have "holds F (\<rho> n) saved" using sv [of n] i(2) Suc.prems by auto
      ultimately show ?thesis using u Suc by simp
    qed
  qed simp
  have "\<rho> i (sym_of v) = \<rho> k (sym_of v)" if "v \<in> set (ts_statevars ts)" for v
  proof -
    from that q obtain l where l: "(v, l) \<in> set qs" by (auto simp: keys_listed [OF q])
    have "is_symbolic_const v" using wf_symbolic [OF wf, of v] that by (simp add: ts_vars_def)
    then show ?thesis using loop [OF l i(1)] last(2) [OF l] by (simp add: eval_symbol)
  qed
  moreover have "\<exists>j. i \<le> j \<and> j < k \<and> holds F (\<rho> j) c" if "c \<in> set conds" for c
  proof -
    from that j obtain v where v: "(v, c) \<in> set (zip js conds)" by (metis in_set_impl_in_set_zip2)
    then have vj: "v \<in> set js" by (rule set_zip_leftD)
    have "holds F (\<rho> k) v \<longleftrightarrow> (\<exists>m < k. i \<le> m \<and> holds F (\<rho> m) c)"
    proof (rule latch [OF _ _ order_refl])
      show "\<not> holds F (\<rho> 0) v" using starts vj by (simp add: starts_false_def)
      fix n assume n: "n < k"
      have "(v, snd (justice_update B save saved (v, c))) \<in> set (map (justice_update B save saved) (zip js conds))"
        using v by (force simp: justice_update_def)
      then have "eval F (\<rho> (Suc n)) v = eval F (\<rho> n) (snd (justice_update B save saved (v, c)))"
        using upd [OF n, of v] sym [of v "Suc n"] vj by simp
      then show "holds F (\<rho> (Suc n)) v \<longleftrightarrow> holds F (\<rho> n) v \<or> i \<le> n \<and> holds F (\<rho> n) c"
        using inside [of n] n by (simp add: justice_update_def)
    qed
    with last(3) [OF vj] show ?thesis by blast
  qed
  moreover have "ts_path F ts \<rho> k"
    using extension_segmentD(1) [OF e seg] starts by (simp add: ts_path_def)
  ultimately show ?thesis using i(1) unfolding justice_lasso_def by blast
qed

subsection \<open>A lasso is a bad state of the translation\<close>

text \<open>The values of the new variables on a path whose lasso starts at \<open>i\<close>.\<close>

definition lasso_value :: "theory_ops \<Rightarrow> (nat \<Rightarrow> assignment) \<Rightarrow> nat \<Rightarrow> tm \<Rightarrow> tm
    \<Rightarrow> (tm \<times> tm) list \<Rightarrow> (tm \<times> tm) list \<Rightarrow> nat \<Rightarrow> tm \<Rightarrow> val" where
  "lasso_value F \<pi> i save saved lq jc n v =
     (if v = save then BoolVal (n = i)
      else if v = saved then BoolVal (i < n)
      else case map_of lq v of
          Some x \<Rightarrow> eval F (\<pi> i) x
        | None \<Rightarrow> (case map_of jc v of
              Some c \<Rightarrow> BoolVal (\<exists>m < n. i \<le> m \<and> holds F (\<pi> m) c)
            | None \<Rightarrow> BoolVal False))"

lemma lasso_is_bad:
  assumes B: "smt_terms B F" and wf: "ts_wf ts" and q: "map fst qs = ts_statevars ts"
    and qsort: "\<forall>q \<in> set qs. get_sort (snd q) = get_sort (fst q)"
    and j: "length js = length conds" "\<forall>j \<in> set js. get_sort j = BOOL" "get_sort save = BOOL" "get_sort saved = BOOL"
    and nn: "\<forall>c \<in> set conds. no_next ts c"
    and e: "translated B F ts conds save saved qs js ts'"
    and l: "justice_lasso F ts conds \<pi> i k"
  shows "\<exists>\<rho>. ts_path F ts' \<rho> k \<and> holds F (\<rho> k) (liveness_bad B saved qs js)"
proof -
  note [simp] = smt_terms.holds_And [OF B] smt_terms.holds_Or [OF B] smt_terms.holds_Not [OF B]
    smt_terms.holds_Equal [OF B] smt_terms.eval_Ite [OF B]
  let ?vs = "save # saved # map snd qs @ js" and ?lq = "map (\<lambda>(x, l). (l, x)) qs" and ?jc = "zip js conds"
  define a where "a = lasso_value F \<pi> i save saved ?lq ?jc"
  have i: "i < k" and p: "segment F ts \<pi> k" "ts_initial F ts (\<pi> 0)"
    using l by (simp_all add: justice_lasso_def ts_path_def)
  have d: "distinct ?vs" by (rule extension_parts(2) [OF e])
  have ws: "wsorted (\<pi> n)" if "n \<le> k" for n using p(1) that by (simp add: segment_def)
  have a_save: "a n save = BoolVal (n = i)" "a n saved = BoolVal (i < n)" for n
    using d by (auto simp: a_def lasso_value_def)
  have a_loop: "a n l = eval F (\<pi> i) x" if "(x, l) \<in> set qs" for n x l
  proof -
    have "distinct (map fst ?lq)" using d by (simp add: comp_def case_prod_beta)
    then have "map_of ?lq l = Some x" using that by (force intro: map_of_is_SomeI)
    moreover have "l \<noteq> save" "l \<noteq> saved" using d that by force+
    ultimately show ?thesis by (simp add: a_def lasso_value_def)
  qed
  have a_just: "a n v = BoolVal (\<exists>m < n. i \<le> m \<and> holds F (\<pi> m) c)" if "(v, c) \<in> set ?jc" for n v c
  proof -
    have vj: "v \<in> set js" using that by (rule set_zip_leftD)
    have "map_of ?jc v = Some c" using d j(1) that by (intro map_of_is_SomeI) (simp_all add: map_fst_zip)
    moreover have "map_of ?lq v = None" using d vj by (force simp: map_of_eq_None_iff)
    moreover have "v \<noteq> save" "v \<noteq> saved" using d vj by force+
    ultimately show ?thesis by (simp add: a_def lasso_value_def)
  qed
  have carr: "a n v \<in> carrier (get_sort v)" if v: "v \<in> set ?vs" for n v
  proof -
    from v consider "v \<in> {save, saved}" | x where "(x, v) \<in> set qs" | "v \<in> set js" by force
    then show ?thesis
    proof cases
      case 1
      then show ?thesis using a_save j(3,4) by auto
    next
      case 2
      have "x \<in> set (ts_statevars ts)" using 2 by (auto simp: keys_listed [OF q])
      then have "is_symbolic_const x" using wf_symbolic [OF wf, of x] by (simp add: ts_vars_def)
      then have "eval F (\<pi> i) x \<in> carrier (get_sort x)" using ws [of i] i by (cases x) (auto simp: wsorted_def)
      then show ?thesis using a_loop [OF 2] qsort 2 by force
    next
      case 3
      with j(1) obtain c where "(v, c) \<in> set ?jc" by (metis in_set_impl_in_set_zip1)
      with a_just 3 j(2) show ?thesis by simp
    qed
  qed
  define m where "m n = new_values ?vs (a n)" for n
  have fr: "fresh_values ts (m n)" for n unfolding m_def by (rule fresh_new_values [OF e]) (rule carr)
  let ?\<rho> = "\<lambda>n. override (\<pi> n) (m n)"
  have val: "eval F (?\<rho> n) v = a n v" "?\<rho> n (sym_of v) = a n v" if "v \<in> set ?vs" for v n
    unfolding m_def by (rule eval_new [OF e that], rule override_new [OF e that])
  have old: "eval F (?\<rho> n) c = eval F (\<pi> n) c" if "no_next ts c" "n \<le> k" for c n
    by (rule eval_override [OF wf ws fr]) (use that in \<open>simp_all add: no_next_iff\<close>)
  have svn: "no_next ts x" if "(x, l) \<in> set qs" for x l
  proof -
    have xs: "x \<in> set (ts_statevars ts)" using that by (auto simp: keys_listed [OF q])
    then have "is_symbolic_const x" using wf_symbolic [OF wf, of x] by (simp add: ts_vars_def)
    then obtain m st where "x = Sym m st" by (rule is_symbolic_constE)
    with xs show ?thesis by (simp add: no_next_iff covered_def)
  qed
  have "segment F ts' ?\<rho> k"
  proof (rule extension_segmentI [OF wf e p(1) fr])
    fix n v f assume n: "n < k"
      and "(v, f) \<in> set ((saved, mk_term B (op0 Or) [saved, save]) # map (loop_update B save saved) qs
          @ map (justice_update B save saved) ?jc)"
    then consider "v = saved" "f = mk_term B (op0 Or) [saved, save]"
      | x l where "(x, l) \<in> set qs" "(v, f) = loop_update B save saved (x, l)"
      | w c where "(w, c) \<in> set ?jc" "(v, f) = justice_update B save saved (w, c)" by auto
    then show "?\<rho> (Suc n) (sym_of v) = eval F (?\<rho> n) f"
    proof cases
      case 1
      have "eval F (?\<rho> n) f = BoolVal (i < n \<or> n = i)"
        using 1 val a_save by (simp add: smt_terms.eval_mk [OF B] sem_op_def)
      with 1 val(2) [of saved "Suc n"] a_save show ?thesis by auto
    next
      case 2
      then have vl: "l \<in> set ?vs" by force
      have "eval F (?\<rho> n) x = eval F (\<pi> n) x" using old [OF svn [OF 2(1)]] n by simp
      with 2 val vl a_save a_loop [OF 2(1)] show ?thesis by (auto simp: loop_update_def)
    next
      case 3
      then have vj: "w \<in> set ?vs" "c \<in> set conds" by (auto dest: set_zip_leftD set_zip_rightD)
      have "eval F (?\<rho> n) c = eval F (\<pi> n) c" using old nn vj(2) n by simp
      then have "eval F (?\<rho> n) f = BoolVal (\<exists>m < Suc n. i \<le> m \<and> holds F (\<pi> m) c)"
        using 3 val vj a_save a_just [OF 3(1)]
        by (auto simp: justice_update_def smt_terms.eval_mk [OF B] sem_op_def less_Suc_eq)
      with 3 val(2) vj a_just [OF 3(1)] show ?thesis by (simp add: justice_update_def)
    qed
  qed simp_all
  moreover have "ts_initial F ts' (?\<rho> 0)"
  proof (rule extension_initialI [OF wf e p(2) fr])
    fix c assume "c \<in> set (starts_false B saved # map (starts_false B) js)"
    then consider "c = starts_false B saved" | v where "v \<in> set js" "c = starts_false B v" by auto
    then show "holds F (?\<rho> 0) c"
    proof cases
      case 2
      with j(1) obtain x where "(v, x) \<in> set ?jc" by (metis in_set_impl_in_set_zip1)
      with 2 a_just show ?thesis by (simp add: starts_false_def val)
    qed (simp add: starts_false_def val a_save)
  qed
  moreover have "holds F (?\<rho> k) (liveness_bad B saved qs js)"
  proof -
    have "eval F (?\<rho> k) x = eval F (?\<rho> k) l" if "(x, l) \<in> set qs" for x l
    proof -
      have xs: "x \<in> set (ts_statevars ts)" using that by (auto simp: keys_listed [OF q])
      then have "is_symbolic_const x" using wf_symbolic [OF wf, of x] by (simp add: ts_vars_def)
      then have "eval F (\<pi> k) x = eval F (\<pi> i) x" using l xs by (simp add: justice_lasso_def eval_symbol)
      moreover have "l \<in> set ?vs" using that by force
      ultimately show ?thesis using old [OF svn [OF that]] a_loop [OF that] val by simp
    qed
    moreover have "holds F (?\<rho> k) v" if "v \<in> set js" for v
    proof -
      from that j(1) obtain c where c: "(v, c) \<in> set ?jc" by (metis in_set_impl_in_set_zip1)
      then have "c \<in> set conds" by (rule set_zip_rightD)
      with l have "\<exists>m < k. i \<le> m \<and> holds F (\<pi> m) c" by (auto simp: justice_lasso_def)
      with a_just [OF c] that show ?thesis by (simp add: val)
    qed
    moreover have "holds F (?\<rho> k) saved" using a_save i by (simp add: val)
    ultimately show ?thesis unfolding holds_liveness_bad [OF B] by (metis prod.collapse)
  qed
  ultimately show ?thesis unfolding ts_path_def by (intro exI [of _ ?\<rho>]) blast
qed

subsection \<open>A lasso is an infinite fair path\<close>

lemma step_same_states:
  assumes wf: "ts_wf ts" and st: "ts_step F ts s t" and w: "wsorted t'" and f: "agree_funs t t'"
    and eq: "\<forall>v \<in> set (ts_statevars ts). t (sym_of v) = t' (sym_of v)"
  shows "ts_step F ts s t'"
proof -
  have "pair_env ts s t = pair_env ts s t'"
  proof
    fix x
    show "pair_env ts s t x = pair_env ts s t' x"
    proof (cases "map_of (ts_curr_map ts) (tm_of x)")
      case (Some v)
      then have "map_of (ts_next_map ts) v = Some (tm_of x)" using wf_maps_inverse [OF wf] by blast
      then have "v \<in> set (ts_statevars ts)" using next_symbol [OF wf] by blast
      with eq Some show ?thesis by (simp add: pair_env_def)
    qed (simp add: pair_env_def)
  qed
  with st w f show ?thesis by (auto simp: ts_step_def agree_funs_def)
qed

lemma segment_agree_funs:
  assumes "segment F ts \<pi> k" and "i \<le> k"
  shows "agree_funs (\<pi> 0) (\<pi> i)"
  using assms(2)
proof (induction i)
  case 0
  show ?case by (simp add: agree_funs_def)
next
  case (Suc i)
  then have "agree_funs (\<pi> i) (\<pi> (Suc i))" using assms(1) ts_stepD(3) [of F ts "\<pi> i" "\<pi> (Suc i)"]
    by (simp add: segment_def)
  with Suc show ?case by (simp add: agree_funs_def)
qed

text \<open>The position in the lasso after \<open>n\<close> steps.\<close>

primrec lasso_pos :: "nat \<Rightarrow> nat \<Rightarrow> nat \<Rightarrow> nat" where
  "lasso_pos i k 0 = 0"
| "lasso_pos i k (Suc n) = (if Suc (lasso_pos i k n) = k then i else Suc (lasso_pos i k n))"

lemma lasso_pos_less: "i < k \<Longrightarrow> lasso_pos i k n < k"
  by (induction n) auto

lemma lasso_pos_advance:
  assumes "i < k" and "lasso_pos i k n + d < k"
  shows "lasso_pos i k (n + d) = lasso_pos i k n + d"
  using assms(2) by (induction d) auto

lemma lasso_pos_visits:
  assumes "i \<le> j" and "j < k"
  shows "\<exists>m \<ge> n. lasso_pos i k m = j"
proof -
  let ?p = "lasso_pos i k n"
  have ik: "i < k" using assms by simp
  have p: "?p < k" by (rule lasso_pos_less [OF ik])
  have "lasso_pos i k (n + (k - 1 - ?p)) = k - 1"
    using lasso_pos_advance [OF ik, of n "k - 1 - ?p"] p by simp
  then have start: "lasso_pos i k (Suc (n + (k - 1 - ?p))) = i" using p by simp
  have "lasso_pos i k (Suc (n + (k - 1 - ?p)) + (j - i)) = i + (j - i)"
    using lasso_pos_advance [OF ik, of "Suc (n + (k - 1 - ?p))" "j - i"] assms start by simp
  then show ?thesis using assms(1) by (intro exI [of _ "Suc (n + (k - 1 - ?p)) + (j - i)"]) simp
qed

lemma lasso_unrolls:
  assumes wf: "ts_wf ts" and l: "justice_lasso F ts conds \<pi> i k"
  shows "fair_path F ts conds (\<lambda>n. \<pi> (lasso_pos i k n))"
proof -
  have i: "i < k" and p: "segment F ts \<pi> k" "ts_initial F ts (\<pi> 0)"
    and eq: "\<forall>v \<in> set (ts_statevars ts). \<pi> k (sym_of v) = \<pi> i (sym_of v)"
    using l by (simp_all add: justice_lasso_def ts_path_def)
  have "ts_step F ts (\<pi> (lasso_pos i k n)) (\<pi> (lasso_pos i k (Suc n)))" for n
  proof -
    have st: "ts_step F ts (\<pi> (lasso_pos i k n)) (\<pi> (Suc (lasso_pos i k n)))"
      using p(1) lasso_pos_less [OF i] by (simp add: segment_def)
    show ?thesis
    proof (cases "Suc (lasso_pos i k n) = k")
      case True
      have "wsorted (\<pi> i)" using p(1) i by (simp add: segment_def)
      moreover have "agree_funs (\<pi> k) (\<pi> i)"
        using segment_agree_funs [OF p(1), of k] segment_agree_funs [OF p(1), of i] i by (simp add: agree_funs_def)
      ultimately have "ts_step F ts (\<pi> (lasso_pos i k n)) (\<pi> i)"
        using step_same_states [OF wf st] eq True by simp
      with True show ?thesis by simp
    next
      case False
      with st show ?thesis by simp
    qed
  qed
  moreover have "\<exists>m \<ge> n. holds F (\<pi> (lasso_pos i k m)) c" if "c \<in> set conds" for c n
  proof -
    have "\<forall>c \<in> set conds. \<exists>j. i \<le> j \<and> j < k \<and> holds F (\<pi> j) c"
      using l by (simp add: justice_lasso_def)
    with that obtain j where j: "i \<le> j" "j < k" "holds F (\<pi> j) c" by blast
    then obtain m where "m \<ge> n" "lasso_pos i k m = j" using lasso_pos_visits by blast
    with j(3) show ?thesis by blast
  qed
  ultimately show ?thesis using p(2) by (simp add: fair_path_def)
qed

lemma l2s_exact:
  assumes "smt_terms B F" and "ts_wf ts" and "liveness_to_safety B prefix conds ts = Inr (p, ts')"
  shows "cex F ts' (mk_term B (op0 NotOp) [p]) k \<Longrightarrow> \<exists>\<pi> i. justice_lasso F ts conds \<pi> i k"
    and "\<forall>c \<in> set conds. no_next ts c \<Longrightarrow> justice_lasso F ts conds \<pi> i k \<Longrightarrow> cex F ts' (mk_term B (op0 NotOp) [p]) k"
proof -
  obtain save saved qs js where x: "p = mk_term B (op0 NotOp) [liveness_bad B saved qs js]"
    "map fst qs = ts_statevars ts" "\<forall>q \<in> set qs. get_sort (snd q) = get_sort (fst q)"
    "length js = length conds" "\<forall>j \<in> set js. get_sort j = BOOL" "get_sort save = BOOL" "get_sort saved = BOOL"
    "translated B F ts conds save saved qs js ts'"
    by (rule liveness_extension [OF assms])
  have n: "holds F s (mk_term B (op0 NotOp) [p]) \<longleftrightarrow> holds F s (liveness_bad B saved qs js)" for s
    by (simp add: x(1) smt_terms.holds_Not [OF assms(1)])
  show "\<exists>\<pi> i. justice_lasso F ts conds \<pi> i k" if "cex F ts' (mk_term B (op0 NotOp) [p]) k"
    using that n bad_closes_lasso [OF assms(1) x(2) assms(2) x(4,8)] unfolding cex_def by blast
  show "cex F ts' (mk_term B (op0 NotOp) [p]) k"
    if "\<forall>c \<in> set conds. no_next ts c" "justice_lasso F ts conds \<pi> i k"
    using lasso_is_bad [OF assms(1,2) x(2-7) that(1) x(8) that(2)] n unfolding cex_def by blast
qed

text \<open>C7: the liveness to safety translation is exact: the safety property it returns fails after
  \<open>k\<close> steps of the translated system exactly when the original system has a path of \<open>k\<close>
  steps from an initial state that closes a loop on all state variables and meets every justice
  condition inside the loop.\<close>

theorem liveness_to_safety_exact:
  assumes "smt_terms B F" and "ts_wf ts" and "\<forall>c \<in> set conds. no_next ts c"
    and "liveness_to_safety B prefix conds ts = Inr (p, ts')"
  shows "cex F ts' (mk_term B (op0 NotOp) [p]) k \<longleftrightarrow> (\<exists>\<pi> i. justice_lasso F ts conds \<pi> i k)"
  using l2s_exact [OF assms(1,2,4)] assms(3) by blast

text \<open>C28: a counterexample of the translated property is a liveness counterexample: the original
  system has an infinite path from an initial state on which every justice condition holds
  infinitely often.\<close>

theorem liveness_cex_is_fair_path:
  assumes "smt_terms B F" and "ts_wf ts"
    and "liveness_to_safety B prefix conds ts = Inr (p, ts')"
    and "cex F ts' (mk_term B (op0 NotOp) [p]) k"
  shows "\<exists>\<rho>. fair_path F ts conds \<rho>"
  using l2s_exact(1) [OF assms] lasso_unrolls [OF assms(2)] by blast

theorem liveness_to_safety_exact_witness:
  "\<exists>p ts'. liveness_to_safety plain_builder ''l2s_'' [vx] demo_ts = Inr (p, ts')
    \<and> (cex (\<lambda>_ _. BoolVal False) ts' (Node (op0 NotOp) BOOL [p]) 3
        \<longleftrightarrow> (\<exists>\<pi> i. justice_lasso (\<lambda>_ _. BoolVal False) demo_ts [vx] \<pi> i 3))"
proof -
  have "case liveness_to_safety plain_builder ''l2s_'' [vx] demo_ts of Inl e \<Rightarrow> False | Inr r \<Rightarrow> True" by code_simp
  then obtain p ts' where l: "liveness_to_safety plain_builder ''l2s_'' [vx] demo_ts = Inr (p, ts')"
    by (auto split: sum.splits)
  have "no_next demo_ts vx" by code_simp
  then have "cex (\<lambda>_ _. BoolVal False) ts' (mk_term plain_builder (op0 NotOp) [p]) 3
      \<longleftrightarrow> (\<exists>\<pi> i. justice_lasso (\<lambda>_ _. BoolVal False) demo_ts [vx] \<pi> i 3)"
    by (intro liveness_to_safety_exact [OF plain.smt_terms_axioms demo_wf _ l]) simp
  then show ?thesis using l by (simp add: plain_builder_def plain_mk_term_def)
qed

theorem liveness_cex_is_fair_path_witness:
  "\<exists>\<rho>. fair_path (\<lambda>_ _. BoolVal False) demo_ts [Node (op0 NotOp) BOOL [vx]] \<rho>"
proof -
  let ?F = "\<lambda>_ _. BoolVal False" and ?c = "Node (op0 NotOp) BOOL [vx]"
  have "case liveness_to_safety plain_builder ''l2s_'' [?c] demo_ts of Inl e \<Rightarrow> False | Inr r \<Rightarrow> True" by code_simp
  then obtain p ts' where l: "liveness_to_safety plain_builder ''l2s_'' [?c] demo_ts = Inr (p, ts')"
    by (auto split: sum.splits)
  have w: "wsorted (row_env [])" by (rule wsorted_row_env) simp
  have "holds ?F (pair_env demo_ts (row_env []) (row_env [])) (ts_trans demo_ts)" by code_simp
  then have "ts_step ?F demo_ts (row_env []) (row_env [])" using w by (simp add: ts_step_def agree_funs_def)
  moreover have "holds ?F (row_env []) (ts_init demo_ts)" by code_simp
  moreover have "holds ?F (row_env []) ?c" by code_simp
  ultimately have "justice_lasso ?F demo_ts [?c] (\<lambda>_. row_env []) 0 1"
    using w by (auto simp: justice_lasso_def ts_path_def ts_initial_def segment_def)
  moreover have "no_next demo_ts ?c" by code_simp
  ultimately have "cex ?F ts' (mk_term plain_builder (op0 NotOp) [p]) 1"
    using l2s_exact(2) [OF plain.smt_terms_axioms demo_wf l] by simp
  then show ?thesis by (rule liveness_cex_is_fair_path [OF plain.smt_terms_axioms demo_wf l])
qed

end
