(* ===== verification/Control_Correct.thy ===== *)
theory Control_Correct
  imports Ts_Extension
begin

section \<open>Clock and reset sequences\<close>

text \<open>
  The meaning of the three bit-vector operators the control signals use, as SMT-LIB gives it, is
  a hypothesis on the theory operations; \<open>bv_sem\<close> is an instance.
\<close>

definition bv_ops_ok :: "theory_ops \<Rightarrow> bool" where
  "bv_ops_ok F \<longleftrightarrow> (\<forall>w a b. a < 2 ^ w \<longrightarrow> b < 2 ^ w \<longrightarrow>
       F (op0 BVUlt) [BVVal w a, BVVal w b] = BoolVal (a < b)
     \<and> F (op0 BVAdd) [BVVal w a, BVVal w b] = BVVal w ((a + b) mod 2 ^ w)
     \<and> F (op0 BVNot) [BVVal w a] = BVVal w (2 ^ w - 1 - a))"

definition bv_sem :: theory_ops where
  "bv_sem p vs = (case vs of
       [BVVal w a, BVVal w' b] \<Rightarrow>
         if p = op0 BVUlt then BoolVal (a < b)
         else if p = op0 BVAdd then BVVal w ((a + b) mod 2 ^ w) else BoolVal False
     | [BVVal w a] \<Rightarrow> if p = op0 BVNot then BVVal w (2 ^ w - 1 - a) else BoolVal False
     | _ \<Rightarrow> BoolVal False)"

lemma bv_sem_ok: "bv_ops_ok bv_sem"
  by (simp add: bv_ops_ok_def bv_sem_def)

lemma le_ceil_log2: "n \<le> 2 ^ ceil_log2 n"
proof (induction n rule: ceil_log2.induct)
  case (1 n)
  show ?case
  proof (cases "n \<le> 1")
    case False
    have "n \<le> 2 * ((n + 1) div 2)" by simp
    also have "\<dots> \<le> 2 * 2 ^ ceil_log2 ((n + 1) div 2)" using 1 False by simp
    also have "\<dots> = 2 ^ ceil_log2 n" using False by (subst (2) ceil_log2.simps) simp
    finally show ?thesis .
  qed (simp add: ceil_log2.simps)
qed

lemma reset_width: "n < 2 ^ (ceil_log2 n + 1)"
  using le_ceil_log2 [of n] by (simp add: le_less_trans)

lemma bv_opsD:
  assumes "bv_ops_ok F" and "a < 2 ^ w" and "b < 2 ^ w"
  shows "F (op0 BVUlt) [BVVal w a, BVVal w b] = BoolVal (a < b)"
    and "F (op0 BVAdd) [BVVal w a, BVVal w b] = BVVal w ((a + b) mod 2 ^ w)"
    and "F (op0 BVNot) [BVVal w a] = BVVal w (2 ^ w - 1 - a)"
  using assms unfolding bv_ops_ok_def by blast+

subsection \<open>The clock\<close>

text \<open>C33: a clock that is a state variable toggles: it starts at zero and has the value one exactly
  after an odd number of steps, for a Boolean clock and for a one-bit clock.\<close>

theorem state_clock_toggles:
  assumes "smt_terms B F" and "ts_wf ts" and "is_curr_var ts clock"
    and "get_sort clock = BV 1 \<longrightarrow> bv_ops_ok F"
    and "toggle_clock B clock ts = Inr ts'" and "ts_path F ts' \<pi> k" and "i \<le> k"
  shows "eval F (\<pi> i) clock =
      (if get_sort clock = BV 1 then BVVal 1 (if odd i then 1 else 0) else BoolVal (odd i))"
  using assms(7)
proof (induction i)
  note B = assms(1)
  let ?bv = "get_sort clock = BV 1"
  let ?zero = "if ?bv then mk_term B (op0 Equal) [clock, bv_const 1 0] else mk_term B (op0 NotOp) [clock]"
  let ?next = "if ?bv then mk_term B (op0 BVNot) [clock] else mk_term B (op0 NotOp) [clock]"
  from assms(3,5) obtain ts1 where ci: "constrain_init B ?zero ts = Inr ts1"
    and a: "assign_next B clock ?next ts1 = Inr ts'" and srt: "?bv \<or> get_sort clock = BOOL"
    by (auto simp: toggle_clock_def bindE_Inr_iff split: if_splits)
  note c = constrain_init_facts [OF B assms(2) ci]
  note n = assign_next_facts [OF B c(1) a]
  have sym: "is_symbolic_const clock"
    using assms(2,3) by (auto intro: wf_symbolic simp: is_curr_var_def ts_vars_def)
  {
    case 0
    have ini: "ts_initial F ts' (\<pi> 0)" and w: "wsorted (\<pi> 0)"
      using assms(6) by (simp_all add: ts_path_def segment_def)
    then have z: "holds F (\<pi> 0) ?zero" using c(5) n(5) by simp
    show ?case
    proof (cases ?bv)
      case True
      with z show ?thesis by (simp add: smt_terms.holds_Equal [OF B] bv_const_def)
    next
      case False
      with srt sym obtain m where cl: "clock = Sym m BOOL" by (cases clock) auto
      with wsorted_Bool [OF w, of m] z False show ?thesis by (auto simp: smt_terms.holds_Not [OF B])
    qed
  next
    case (Suc i)
    then have "ts_step F ts' (\<pi> i) (\<pi> (Suc i))" using assms(6) by (simp add: ts_path_def segment_def)
    then have s: "eval F (\<pi> (Suc i)) clock = eval F (\<pi> i) ?next"
      unfolding n(4) by (simp add: eval_symbol [OF sym])
    have ih: "eval F (\<pi> i) clock = (if ?bv then BVVal 1 (if odd i then 1 else 0) else BoolVal (odd i))"
      using Suc by simp
    show ?case
    proof (cases ?bv)
      case True
      have "F (op0 BVNot) [BVVal 1 (if odd i then 1 else 0)] = BVVal 1 (if odd i then 0 else 1)"
        using bv_opsD(3) [of F "if odd i then 1 else 0" 1 0] assms(4) True by simp
      with s ih True show ?thesis by (simp add: smt_terms.eval_mk [OF B] sem_op_def)
    next
      case False
      with s ih show ?thesis by (simp add: smt_terms.eval_mk [OF B] sem_op_def)
    qed
  }
qed

text \<open>A term whose value depends on a symbol mentions it, whatever form the builder gives the term.\<close>

lemma value_mentions: "eval F (\<sigma>(x := a)) t \<noteq> eval F (\<sigma>(x := b)) t \<Longrightarrow> x \<in> syms t"
  by (metis eval_cong fun_upd_other)

lemma start_mentions:
  assumes B: "smt_terms B F" and c: "is_symbolic_const clock"
  shows "get_sort clock = BV 1 \<Longrightarrow> sym_of clock \<in> syms (mk_term B (op0 Equal) [clock, bv_const 1 0])"
    and "get_sort clock = BOOL \<Longrightarrow> sym_of clock \<in> syms (mk_term B (op0 NotOp) [clock])"
proof -
  obtain n s where n: "clock = Sym n s" using c by (cases clock) auto
  let ?\<sigma> = "\<lambda>x. BoolVal False"
  have "eval F (?\<sigma>((n, s) := BVVal 1 0)) (mk_term B (op0 Equal) [clock, bv_const 1 0])
      \<noteq> eval F (?\<sigma>((n, s) := BVVal 1 1)) (mk_term B (op0 Equal) [clock, bv_const 1 0])"
    by (simp add: n smt_terms.eval_mk [OF B] sem_op_def bv_const_def)
  from value_mentions [OF this] show "sym_of clock \<in> syms (mk_term B (op0 Equal) [clock, bv_const 1 0])"
    by (simp add: n)
  have "eval F (?\<sigma>((n, s) := BoolVal False)) (mk_term B (op0 NotOp) [clock])
      \<noteq> eval F (?\<sigma>((n, s) := BoolVal True)) (mk_term B (op0 NotOp) [clock])"
    by (simp add: n smt_terms.eval_mk [OF B] sem_op_def)
  from value_mentions [OF this] show "sym_of clock \<in> syms (mk_term B (op0 NotOp) [clock])" by (simp add: n)
qed

text \<open>C34: a clock that is an input always makes \<open>toggle_clock\<close> throw, whatever terms the
  solver builds: the state variable it declares is local to its block, and the initial value is then
  asked of the input itself.\<close>

theorem input_clock_throws:
  assumes "smt_terms B F" and "ts_wf ts" and "\<not> is_curr_var ts clock" and "is_symbolic_const clock"
  shows "\<exists>e. toggle_clock B clock ts = Inl e"
proof -
  note B = assms(1) and wf = assms(2) and nc = assms(3) and sym = assms(4)
  have "toggle_clock B clock ts \<noteq> Inr ts'" for ts'
  proof
    assume "toggle_clock B clock ts = Inr ts'"
    with nc obtain v ts1 ts2 ts3 z where srt: "get_sort clock = BV 1 \<or> get_sort clock = BOOL"
      and m: "make_statevar B (term_str B clock @ ''__state__'') (get_sort clock) ts = Inr (v, ts1)"
      and c: "constrain_inputs B (mk_term B (op0 Equal) [clock, v]) ts1 = Inr ts2"
      and i: "constrain_init B z ts2 = Inr ts3" and z: "sym_of clock \<in> syms z"
      using start_mentions [OF B sym] by (auto simp: toggle_clock_def bindE_Inr_iff split: if_splits)
    have st: "\<not> is_fun_sort (get_sort clock)" using srt by auto
    note f = make_statevar_facts [OF wf st m]
    have "v \<noteq> clock" using f(2) sym smt_terms.term_str_sym [OF B] by (cases clock) auto
    moreover have "clock \<in> set (ts_statevars ts2)"
    proof -
      have "covered z (set (ts_statevars ts2))" using i by (auto simp: constrain_init_def only_curr_iff)
      with z st sym show ?thesis by (cases clock) (auto simp: covered_def)
    qed
    moreover have "ts_statevars ts2 = ts_statevars ts1" using c by (auto simp: constrain_inputs_def)
    ultimately show False using f(4) nc by (simp add: is_curr_var_def)
  qed
  then show ?thesis by (cases "toggle_clock B clock ts") auto
qed

subsection \<open>The reset sequence\<close>

definition reset_active :: "theory_ops \<Rightarrow> assignment \<Rightarrow> tm \<Rightarrow> bool" where
  "reset_active F s reset \<longleftrightarrow> (if get_sort reset = BOOL then holds F s reset else eval F s reset = BVVal 1 1)"

text \<open>What the reset sequence adds: the counter, its update, and one constraint per phase.\<close>

lemma reset_extension:
  assumes B: "smt_terms B F" and wf: "ts_wf ts" and a: "add_reset_seq B reset bnd ts = Inr (rd, ts')"
  obtains cnt w inr act where
    "w = ceil_log2 bnd + 1" "cnt = Sym ''__internal_cosa2_reset_cnt__'' (BV w)" "0 < bnd"
    "inr = mk_term B (op0 BVUlt) [cnt, bv_const w bnd]" "rd = mk_term B (op0 NotOp) [inr]"
    "\<And>s. holds F s act \<longleftrightarrow> reset_active F s reset"
    "extension F ts [cnt] [(cnt, mk_term B (op0 Ite) [rd, cnt, mk_term B (op0 BVAdd) [cnt, bv_const w 1]])]
       [mk_term B (op0 Implies) [inr, act], mk_term B (op0 Implies) [rd, mk_term B (op0 NotOp) [act]]]
       [mk_term B (op0 Equal) [cnt, bv_const w 0]] ts'"
proof -
  let ?w = "ceil_log2 bnd + 1"
  let ?act = "if get_sort reset = BOOL then reset else mk_term B (op0 Equal) [reset, bv_const 1 1]"
  let ?inr = "\<lambda>cnt. mk_term B (op0 BVUlt) [cnt, bv_const ?w bnd]"
  let ?rd = "\<lambda>cnt. mk_term B (op0 NotOp) [?inr cnt]"
  from a obtain cnt ts1 ts2 ts3 ts4 where srt: "get_sort reset = BOOL \<or> get_sort reset = BV 1" and bnd: "0 < bnd"
    and m: "make_statevar B ''__internal_cosa2_reset_cnt__'' (BV ?w) ts = Inr (cnt, ts1)"
    and i: "constrain_init B (mk_term B (op0 Equal) [cnt, bv_const ?w 0]) ts1 = Inr ts2"
    and u: "assign_next B cnt (mk_term B (op0 Ite) [?rd cnt, cnt, mk_term B (op0 BVAdd) [cnt, bv_const ?w 1]]) ts2 = Inr ts3"
    and c1: "constrain_inputs B (mk_term B (op0 Implies) [?inr cnt, ?act]) ts3 = Inr ts4"
    and c2: "constrain_inputs B (mk_term B (op0 Implies) [?rd cnt, mk_term B (op0 NotOp) [?act]]) ts4 = Inr ts'"
    and rd: "rd = ?rd cnt"
    unfolding add_reset_seq_def Let_def by (auto simp only: bindE_Inr_iff guardE_Inr_iff prod.case prod.inject sum.inject split_paired_Ex)
  note e1 = extension_statevar [OF extension_refl [OF wf] _ m, simplified]
  note e5 = extension_inputs [OF B extension_inputs [OF B extension_assign [OF B extension_init [OF B e1(2) i] u] c1] c2]
  have act: "holds F s ?act \<longleftrightarrow> reset_active F s reset" for s
    by (simp add: reset_active_def smt_terms.holds_Equal [OF B] bv_const_def)
  show ?thesis
    by (rule that [of ?w cnt "?inr cnt" ?act]) (use e1(1) e5 bnd rd act srt in simp_all)
qed

lemma counter_value:
  assumes B: "smt_terms B F" and bv: "bv_ops_ok F" and w: "w = ceil_log2 bnd + 1" and n: "n \<le> bnd"
    and c: "eval F s cnt = BVVal w n"
  shows "holds F s (mk_term B (op0 BVUlt) [cnt, bv_const w bnd]) \<longleftrightarrow> n < bnd"
    and "n < bnd \<Longrightarrow> eval F s (mk_term B (op0 BVAdd) [cnt, bv_const w 1]) = BVVal w (Suc n)"
proof -
  have b: "bnd < 2 ^ w" using reset_width [of bnd] w by simp
  note d = bv_opsD [OF bv, of n w]
  show "holds F s (mk_term B (op0 BVUlt) [cnt, bv_const w bnd]) \<longleftrightarrow> n < bnd"
    using d(1) [of bnd] b n c by (simp add: smt_terms.eval_mk [OF B] sem_op_def bv_const_def)
  assume "n < bnd"
  moreover have "1 < (2 :: nat) ^ w" by (rule one_less_power) (use w in simp_all)
  ultimately show "eval F s (mk_term B (op0 BVAdd) [cnt, bv_const w 1]) = BVVal w (Suc n)"
    using d(2) [of 1] b c by (simp add: smt_terms.eval_mk [OF B] sem_op_def bv_const_def)
qed

lemma reset_paths:
  assumes B: "smt_terms B F" and bv: "bv_ops_ok F" and wf: "ts_wf ts"
    and a: "add_reset_seq B reset bnd ts = Inr (rd, ts')" and p: "ts_path F ts' \<pi> k"
  shows "ts_path F ts \<pi> k \<and> (\<forall>i < k. reset_active F (\<pi> i) reset \<longleftrightarrow> i < bnd) \<and> (\<forall>i \<le> k. holds F (\<pi> i) rd \<longleftrightarrow> bnd \<le> i)"
proof -
  note [simp] = smt_terms.holds_Not [OF B] smt_terms.holds_Implies [OF B] smt_terms.holds_Equal [OF B]
    smt_terms.eval_Ite [OF B]
  obtain cnt w inr act where x: "w = ceil_log2 bnd + 1" "cnt = Sym ''__internal_cosa2_reset_cnt__'' (BV w)" "0 < bnd"
    "inr = mk_term B (op0 BVUlt) [cnt, bv_const w bnd]" "rd = mk_term B (op0 NotOp) [inr]"
    and act: "\<And>s. holds F s act \<longleftrightarrow> reset_active F s reset"
    and e: "extension F ts [cnt] [(cnt, mk_term B (op0 Ite) [rd, cnt, mk_term B (op0 BVAdd) [cnt, bv_const w 1]])]
       [mk_term B (op0 Implies) [inr, act], mk_term B (op0 Implies) [rd, mk_term B (op0 NotOp) [act]]]
       [mk_term B (op0 Equal) [cnt, bv_const w 0]] ts'"
    by (rule reset_extension [OF B wf a], rule that)
  have seg: "segment F ts' \<pi> k" and ini: "ts_initial F ts' (\<pi> 0)" using p by (simp_all add: ts_path_def)
  note d = extension_segmentD [OF e seg]
  note ini' = extension_parts(7) [OF e, THEN iffD1, OF ini]
  have cval: "eval F (\<pi> i) cnt = BVVal w (min i bnd)" if "i \<le> k" for i
    using that
  proof (induction i)
    case 0
    with ini' show ?case by (simp add: bv_const_def)
  next
    case (Suc i)
    then have c: "eval F (\<pi> i) cnt = BVVal w (min i bnd)" by simp
    note v = counter_value [OF B bv x(1) _ c]
    have "eval F (\<pi> (Suc i)) cnt = eval F (\<pi> i) (mk_term B (op0 Ite) [rd, cnt, mk_term B (op0 BVAdd) [cnt, bv_const w 1]])"
      using d(2) [of i cnt] Suc.prems by (simp add: x(2))
    then show ?case using v c by (auto simp: x(4,5) min_def split: if_splits)
  qed
  have rdv: "holds F (\<pi> i) inr \<longleftrightarrow> i < bnd" if "i \<le> k" for i
    using counter_value(1) [OF B bv x(1) _ cval [OF that]] by (auto simp: x(4) min_def)
  have "reset_active F (\<pi> i) reset \<longleftrightarrow> i < bnd" if "i < k" for i
    using d(3) [OF that, of "mk_term B (op0 Implies) [inr, act]"]
      d(3) [OF that, of "mk_term B (op0 Implies) [rd, mk_term B (op0 NotOp) [act]]"] rdv [of i] that act
    by (auto simp: x(5))
  with d(1) ini' rdv show ?thesis by (auto simp: ts_path_def x(5))
qed

lemma reset_keeps_paths:
  assumes B: "smt_terms B F" and bv: "bv_ops_ok F" and wf: "ts_wf ts" and nn: "no_next ts reset"
    and a: "add_reset_seq B reset bnd ts = Inr (rd, ts')"
    and p: "ts_path F ts \<pi> k" and r: "\<forall>i < k. reset_active F (\<pi> i) reset \<longleftrightarrow> i < bnd"
  shows "\<exists>\<rho>. ts_path F ts' \<rho> k \<and> (\<forall>i \<le> k. same_on ts (\<pi> i) (\<rho> i))"
proof -
  note [simp] = smt_terms.holds_Not [OF B] smt_terms.holds_Implies [OF B] smt_terms.holds_Equal [OF B]
    smt_terms.eval_Ite [OF B]
  obtain cnt w inr act where x: "w = ceil_log2 bnd + 1" "cnt = Sym ''__internal_cosa2_reset_cnt__'' (BV w)" "0 < bnd"
    "inr = mk_term B (op0 BVUlt) [cnt, bv_const w bnd]" "rd = mk_term B (op0 NotOp) [inr]"
    and act: "\<And>s. holds F s act \<longleftrightarrow> reset_active F s reset"
    and e: "extension F ts [cnt] [(cnt, mk_term B (op0 Ite) [rd, cnt, mk_term B (op0 BVAdd) [cnt, bv_const w 1]])]
       [mk_term B (op0 Implies) [inr, act], mk_term B (op0 Implies) [rd, mk_term B (op0 NotOp) [act]]]
       [mk_term B (op0 Equal) [cnt, bv_const w 0]] ts'"
    by (rule reset_extension [OF B wf a], rule that)
  have seg: "segment F ts \<pi> k" and ini: "ts_initial F ts (\<pi> 0)" using p by (simp_all add: ts_path_def)
  have ws: "wsorted (\<pi> i)" if "i \<le> k" for i using seg that by (simp add: segment_def)
  have bw: "bnd < 2 ^ w" using reset_width [of bnd] x(1) by simp
  define m where "m i = new_values [cnt] (\<lambda>_. BVVal w (min i bnd))" for i :: nat
  let ?\<rho> = "\<lambda>i. override (\<pi> i) (m i)"
  have fr: "fresh_values ts (m i)" for i
    unfolding m_def by (rule fresh_new_values [OF e]) (use bw in \<open>simp add: x(2)\<close>)
  have cval: "eval F (?\<rho> i) cnt = BVVal w (min i bnd)" for i
    unfolding m_def by (rule eval_new [OF e]) simp
  note v = counter_value [OF B bv x(1) _ cval]
  have active: "reset_active F (?\<rho> i) reset \<longleftrightarrow> reset_active F (\<pi> i) reset" if "i \<le> k" for i
    using eval_override [OF wf ws [OF that] fr, of reset] nn by (simp add: reset_active_def no_next_iff)
  have "segment F ts' ?\<rho> k"
  proof (rule extension_segmentI [OF wf e seg fr])
    fix i y f assume "i < k"
      and "(y, f) \<in> set [(cnt, mk_term B (op0 Ite) [rd, cnt, mk_term B (op0 BVAdd) [cnt, bv_const w 1]])]"
    moreover have "?\<rho> (Suc i) (sym_of cnt) = BVVal w (min (Suc i) bnd)"
      unfolding m_def by (rule override_new [OF e]) simp
    ultimately show "?\<rho> (Suc i) (sym_of y) = eval F (?\<rho> i) f"
      using v [of i] cval [of i] by (auto simp: x(4,5) min_def split: if_splits)
  next
    fix i c assume i: "i < k"
      and "c \<in> set [mk_term B (op0 Implies) [inr, act], mk_term B (op0 Implies) [rd, mk_term B (op0 NotOp) [act]]]"
    then show "holds F (?\<rho> i) c" using r active [of i] v(1) [of i] act by (auto simp: x(4,5))
  qed
  moreover have "ts_initial F ts' (?\<rho> 0)"
    by (rule extension_initialI [OF wf e ini fr]) (simp add: cval bv_const_def)
  moreover have "\<forall>i \<le> k. same_on ts (\<pi> i) (?\<rho> i)" using override_same_on [OF wf ws fr] by blast
  ultimately show ?thesis unfolding ts_path_def by (intro exI [of _ ?\<rho>]) blast
qed

text \<open>C32: the reset sequence holds the reset for exactly \<open>reset_bnd\<close> steps: on every path of the
  constrained system the reset is active at step \<open>i\<close> exactly when \<open>i < reset_bnd\<close>, the
  returned term holds from step \<open>reset_bnd\<close> on (so the counter, one bit wider than
  \<open>\<lceil>log\<^sub>2 reset_bnd\<rceil>\<close>, never wraps round), and every path of the original system with
  that reset pattern is kept.\<close>

theorem reset_sequence_exact:
  assumes "smt_terms B F" and "bv_ops_ok F" and "ts_wf ts" and "no_next ts reset"
    and "add_reset_seq B reset bnd ts = Inr (rd, ts')"
  shows "(\<forall>\<pi> k. ts_path F ts' \<pi> k \<longrightarrow> ts_path F ts \<pi> k \<and> (\<forall>i < k. reset_active F (\<pi> i) reset \<longleftrightarrow> i < bnd)
       \<and> (\<forall>i \<le> k. holds F (\<pi> i) rd \<longleftrightarrow> bnd \<le> i))
    \<and> (\<forall>\<pi> k. ts_path F ts \<pi> k \<and> (\<forall>i < k. reset_active F (\<pi> i) reset \<longleftrightarrow> i < bnd)
       \<longrightarrow> (\<exists>\<rho>. ts_path F ts' \<rho> k \<and> (\<forall>i \<le> k. same_on ts (\<pi> i) (\<rho> i))))"
  using reset_paths [OF assms(1-3,5)] reset_keeps_paths [OF assms] by blast

text \<open>A system with a Boolean and a one-bit input and a Boolean state variable to try them on.\<close>

definition wires_ts :: ts where
  "wires_ts = (case run_calls plain_builder
      [MakeInputvar ''rst'' BOOL, MakeStatevar ''clk'' BOOL] (empty_fts []) of
     Inl e \<Rightarrow> empty_fts [] | Inr ts \<Rightarrow> ts)"

lemma wires_wf: "ts_wf wires_ts"
proof -
  have "case run_calls plain_builder [MakeInputvar ''rst'' BOOL, MakeStatevar ''clk'' BOOL] (empty_fts []) of
      Inl e \<Rightarrow> False | Inr ts \<Rightarrow> True" by code_simp
  then have "run_calls plain_builder [MakeInputvar ''rst'' BOOL, MakeStatevar ''clk'' BOOL] (empty_fts []) = Inr wires_ts"
    by (auto simp: wires_ts_def split: sum.splits)
  from run_calls_wf [OF plain.smt_terms_axioms ts_wf_empty_fts _ this] show ?thesis
    by (simp add: det_ok_def empty_fts_def empty_ts_def)
qed

theorem reset_sequence_exact_witness:
  "\<exists>rd ts'. add_reset_seq plain_builder (Sym ''rst'' BOOL) 3 wires_ts = Inr (rd, ts')
    \<and> (\<forall>\<pi> k. ts_path bv_sem ts' \<pi> k \<longrightarrow> (\<forall>i \<le> k. holds bv_sem (\<pi> i) rd \<longleftrightarrow> 3 \<le> i))"
proof -
  have "case add_reset_seq plain_builder (Sym ''rst'' BOOL) 3 wires_ts of Inl e \<Rightarrow> False | Inr r \<Rightarrow> True" by code_simp
  then obtain rd ts' where a: "add_reset_seq plain_builder (Sym ''rst'' BOOL) 3 wires_ts = Inr (rd, ts')"
    by (auto split: sum.splits)
  have "no_next wires_ts (Sym ''rst'' BOOL)" by code_simp
  note exact = reset_sequence_exact [OF plain.smt_terms_axioms bv_sem_ok wires_wf this a]
  have "\<forall>i \<le> k. holds bv_sem (\<pi> i) rd \<longleftrightarrow> 3 \<le> i" if "ts_path bv_sem ts' \<pi> k" for \<pi> k
    by (rule exact [THEN conjunct1, THEN spec, THEN spec, THEN mp, OF that, THEN conjunct2, THEN conjunct2])
  with a show ?thesis by blast
qed

theorem input_clock_throws_witness:
  "\<exists>e. toggle_clock plain_builder (Sym ''rst'' BOOL) wires_ts = Inl e"
proof -
  have "\<not> is_curr_var wires_ts (Sym ''rst'' BOOL)" by code_simp
  with input_clock_throws [OF plain.smt_terms_axioms wires_wf] show ?thesis by simp
qed

theorem state_clock_toggles_witness:
  "\<exists>ts' \<pi>. toggle_clock plain_builder (Sym ''clk'' BOOL) wires_ts = Inr ts'
    \<and> ts_path bv_sem ts' \<pi> 0 \<and> eval bv_sem (\<pi> 0) (Sym ''clk'' BOOL) = BoolVal False"
proof -
  have "case toggle_clock plain_builder (Sym ''clk'' BOOL) wires_ts of Inl e \<Rightarrow> False
      | Inr ts' \<Rightarrow> holds bv_sem (row_env []) (ts_init ts')" by code_simp
  then obtain ts' where t: "toggle_clock plain_builder (Sym ''clk'' BOOL) wires_ts = Inr ts'"
    and i: "holds bv_sem (row_env []) (ts_init ts')" by (auto split: sum.splits)
  have "wsorted (row_env [])" by (rule wsorted_row_env) simp
  with i have p: "ts_path bv_sem ts' (\<lambda>_. row_env []) 0" by (simp add: ts_path_def ts_initial_def segment_def)
  have "is_curr_var wires_ts (Sym ''clk'' BOOL)" by code_simp
  from state_clock_toggles [OF plain.smt_terms_axioms wires_wf this _ t p] t p show ?thesis by auto
qed

end
