(* ===== verification/Interpolation.thy ===== *)
theory Interpolation
  imports Kinduction
begin

section \<open>Interpolation-based engines (engines/interpolantmc, engines/interp_seq_mc)\<close>

text \<open>
  The interpolating solver is a second solver that is not under the program's control:
  \<open>get_interpolant\<close>, \<open>get_sequence_interpolants\<close> and \<open>reset_assertions\<close> with a
  state of its own.  \<open>None\<close> stands for a thrown \<open>InternalSolverException\<close>.  The terms
  are moved between the two solvers unchanged.  \<open>untimed\<close> is the \<open>untime\<close> of an
  unroller whose caches hold the symbols of the term.
\<close>

record 'i interpolator =
  ip_reset :: "'i \<Rightarrow> 'i"
  ip_interpolant :: "tm \<Rightarrow> tm \<Rightarrow> 'i \<Rightarrow> (smt_result \<times> tm) option \<times> 'i"
  ip_sequence :: "tm list \<Rightarrow> 'i \<Rightarrow> (smt_result \<times> tm list) option \<times> 'i"

definition is_copy_of :: "smt_builder \<Rightarrow> string \<Rightarrow> tm \<Rightarrow> tm \<Rightarrow> bool" where
  "is_copy_of B tid c v =
     (let pre = term_str B v @ tid; n = term_str B c in
      get_sort c = get_sort v \<and> take (length pre) n = pre \<and> list_all is_digit (drop (length pre) n))"

definition untime_map :: "smt_builder \<Rightarrow> string \<Rightarrow> ts \<Rightarrow> tm \<Rightarrow> (tm \<times> tm) list" where
  "untime_map B tid ts t =
     concat (map (\<lambda>c. map (\<lambda>v. (c, v)) (filter (is_copy_of B tid c) (ts_statevars ts @ ts_inputvars ts)))
       (free_consts B t))"

definition untimed :: "smt_builder \<Rightarrow> string \<Rightarrow> ts \<Rightarrow> tm \<Rightarrow> tm" where
  "untimed B tid ts t = substitute B t (untime_map B tid ts t)"

subsection \<open>Craig interpolation (InterpolantMC)\<close>

record imc_opts =
  io_frontier_simpl :: bool
  io_first_and_last :: bool
  io_eager_unroll :: bool
  io_backward :: bool

definition default_imc_opts :: imc_opts where
  "default_imc_opts = \<lparr>io_frontier_simpl = False, io_first_and_last = False, io_eager_unroll = False,
     io_backward = False\<rparr>"

record ('s, 'i) imc = "'s prover" +
  im_itp :: 'i
  im_concrete_cex :: bool
  im_init0 :: tm
  im_transA :: tm
  im_transB :: tm
  im_bad_disjuncts :: tm

definition new_imc :: "'s \<Rightarrow> 'i \<Rightarrow> ('s, 'i) imc" where
  "new_imc s i = \<lparr>pr_solver = s, pr_initialized = False, pr_reached_k = -1, pr_witness = [],
     pr_invar = None, im_itp = i, im_concrete_cex = False, im_init0 = tm_true, im_transA = tm_true,
     im_transB = tm_true, im_bad_disjuncts = tm_false\<rparr>"

definition and_term :: "'s prover_env \<Rightarrow> tm \<Rightarrow> tm \<Rightarrow> tm" where
  "and_term E a b = mk_term (builder (en_solver E)) (op0 And) [a, b]"

definition not_term :: "'s prover_env \<Rightarrow> tm \<Rightarrow> tm" where
  "not_term E a = mk_term (builder (en_solver E)) (op0 NotOp) [a]"

definition imc_initialize :: "'s prover_env \<Rightarrow> 'i interpolator \<Rightarrow> ('s, 'i) imc \<Rightarrow> ('s, 'i) imc result" where
  "imc_initialize E I p =
     (if pr_initialized p then Inr p
      else bindE (prover_initialize E p) (\<lambda>p1.
        Inr (p1\<lparr>im_itp := ip_reset I (im_itp p), im_concrete_cex := False,
          im_init0 := en_at E (ts_init (en_ts E)) 0, im_transA := en_at E (ts_trans (en_ts E)) 0,
          im_transB := tm_true, im_bad_disjuncts := tm_false\<rparr>)))"

text \<open>\<open>lvl\<close> is the solver's context level.\<close>

definition imc_reset_env :: "'s prover_env \<Rightarrow> 'i interpolator \<Rightarrow> nat \<Rightarrow> ('s, 'i) imc \<Rightarrow> ('s, 'i) imc result" where
  "imc_reset_env E I lvl p =
     imc_initialize E I (on_solver (s_pop (en_solver E) ^^ lvl) (p\<lparr>pr_initialized := False\<rparr>))"

text \<open>
  The check that both engines make at bound zero: is an initial state bad?  The value says
  whether one is; the level stays open when one is, for the witness.
\<close>

definition check_initial_bad :: "'s prover_env \<Rightarrow> string \<Rightarrow> tm \<Rightarrow> 's \<Rightarrow> (bool \<times> 's) result" where
  "check_initial_bad E msg init0 s =
     (let S = en_solver E;
          (r, s1) = s_check S (asserts S [init0, en_at E (en_bad E) 0] (s_push S s))
      in case r of
           UNSAT \<Rightarrow> Inr (False, s_pop S s1)
         | SAT \<Rightarrow> Inr (True, s1)
         | UNKNOWN \<Rightarrow> Inl (PonoException msg))"

definition imc_step_0 :: "'s prover_env \<Rightarrow> ('s, 'i) imc \<Rightarrow> (bool \<times> ('s, 'i) imc) result" where
  "imc_step_0 E p =
     bindE (check_initial_bad E ''Interp: step_0 failed, unexpected result: '' (im_init0 p) (pr_solver p))
       (\<lambda>(cex, s). Inr (False, (if cex then p\<lparr>pr_solver := s, im_concrete_cex := True\<rparr>
          else p\<lparr>pr_solver := s, pr_reached_k := 0\<rparr>)))"

definition has_converged :: "'s prover_env \<Rightarrow> tm \<Rightarrow> tm \<Rightarrow> nat \<Rightarrow> 's \<Rightarrow> bool \<times> 's" where
  "has_converged E new_itp reached interp_count s =
     (let S = en_solver E;
          s1 = (if interp_count = 1 then s_assert S (not_term E reached) (s_push S s) else s);
          (r, s2) = s_check S (s_assert S new_itp (s_push S s1));
          s3 = s_pop S s2
      in if r \<noteq> UNSAT then (False, s_assert S (not_term E new_itp) s3) else (True, s3))"

datatype imc_exit = Proved | Counterexample | Exhausted nat

fun imc_loop :: "'s prover_env \<Rightarrow> 'i interpolator \<Rightarrow> (tm \<Rightarrow> tm) \<Rightarrow> imc_opts \<Rightarrow> nat \<Rightarrow> nat
    \<Rightarrow> tm \<Rightarrow> tm \<Rightarrow> nat \<Rightarrow> ('s, 'i) imc \<Rightarrow> (imc_exit \<times> ('s, 'i) imc) result" where
  "imc_loop E I U opts 0 i R Ri count p = Inl OutOfFuel"
| "imc_loop E I U opts (Suc n) i R Ri count p =
     (let S = en_solver E;
          fA = and_term E (if io_frontier_simpl opts then Ri else R) (im_transA p);
          fB = and_term E (im_transB p) (im_bad_disjuncts p);
          (ans, it) = ip_interpolant I (if io_backward opts then fB else fA)
            (if io_backward opts then fA else fB) (im_itp p);
          p1 = p\<lparr>im_itp := it\<rparr>
      in case ans of
           None \<Rightarrow> Inl InternalSolverException
         | Some (r, t) \<Rightarrow>
             if r = UNSAT then
               let Ri' = en_at E (U (if io_backward opts then not_term E t else t)) 0;
                   (conv, s) = has_converged E Ri' R (Suc count) (pr_solver p1)
               in if conv then Inr (Proved, p1\<lparr>pr_solver := s_pop S s, pr_invar := Some (U R)\<rparr>)
                  else imc_loop E I U opts n i (mk_term (builder S) (op0 Or) [R, Ri']) Ri' (Suc count)
                    (p1\<lparr>pr_solver := s\<rparr>)
             else if count = 0 then
               let bad_i = en_at E (en_bad E) i;
                   (r', s) = s_check S (s_assert S (and_term E (im_init0 p)
                     (and_term E (and_term E (im_transA p) (im_transB p)) bad_i)) (s_push S (pr_solver p1)))
               in guardE (r' = SAT) (PonoException ''Internal error: Expecting satisfiable result'')
                    (Inr (Counterexample, p1\<lparr>pr_solver := s, im_concrete_cex := True\<rparr>))
             else guardE (r \<noteq> UNKNOWN) (PonoException ''Interpolant generation failed.'')
               (Inr (Exhausted count, p1)))"

definition extend_transB :: "'s prover_env \<Rightarrow> nat \<Rightarrow> nat \<Rightarrow> tm \<Rightarrow> tm" where
  "extend_transB E i n t = fold (\<lambda>j b. and_term E b (en_at E (ts_trans (en_ts E)) (i + j))) [0..<n] t"

definition imc_step :: "'s prover_env \<Rightarrow> 'i interpolator \<Rightarrow> (tm \<Rightarrow> tm) \<Rightarrow> imc_opts \<Rightarrow> nat \<Rightarrow> nat
    \<Rightarrow> ('s, 'i) imc \<Rightarrow> (bool \<times> ('s, 'i) imc) result" where
  "imc_step E I U opts fuel i p =
     (if int i \<le> pr_reached_k p then Inr (False, p)
      else if i = 0 then imc_step_0 E p
      else
        let B = builder (en_solver E);
            bad_i = en_at E (en_bad E) i;
            p1 = p\<lparr>im_bad_disjuncts := mk_term B (op0 Or)
              [if io_first_and_last opts then en_at E (en_bad E) 1 else im_bad_disjuncts p, bad_i]\<rparr>
        in bindE (imc_loop E I U opts fuel i (im_init0 p) (im_init0 p) 0 p1) (\<lambda>(ex, p2).
             case ex of
               Proved \<Rightarrow> Inr (True, p2)
             | Counterexample \<Rightarrow> Inr (False, p2)
             | Exhausted count \<Rightarrow>
                 let n = (if io_eager_unroll opts then count else 1);
                     p3 = on_solver (s_pop (en_solver E)) p2
                 in Inr (False, p3\<lparr>im_transB := extend_transB E i n (im_transB p3),
                      pr_reached_k := (if io_eager_unroll opts then int count + int i - 1 else int i)\<rparr>)))"

fun imc_bounds :: "'s prover_env \<Rightarrow> 'i interpolator \<Rightarrow> (tm \<Rightarrow> tm) \<Rightarrow> imc_opts \<Rightarrow> nat \<Rightarrow> nat list
    \<Rightarrow> ('s, 'i) imc \<Rightarrow> (prover_result \<times> ('s, 'i) imc) result" where
  "imc_bounds E I U opts fuel [] p = Inr (PR_UNKNOWN, p)"
| "imc_bounds E I U opts fuel (i # is) p =
     bindE (imc_step E I U opts fuel i p) (\<lambda>(proved, p1).
       if proved then Inr (PR_TRUE, p1)
       else if im_concrete_cex p1 then Inr (PR_FALSE, compute_witness E p1)
       else imc_bounds E I U opts fuel is p1)"

text \<open>An \<open>InternalSolverException\<close> ends the loop; the state it leaves is not modelled.\<close>

definition imc_check_until :: "'s prover_env \<Rightarrow> 'i interpolator \<Rightarrow> (tm \<Rightarrow> tm) \<Rightarrow> imc_opts \<Rightarrow> nat \<Rightarrow> int
    \<Rightarrow> ('s, 'i) imc \<Rightarrow> (prover_result \<times> ('s, 'i) imc) result" where
  "imc_check_until E I U opts fuel k p =
     bindE (imc_initialize E I p) (\<lambda>p1.
       case imc_bounds E I U opts fuel [0..<nat (k + 1)] p1 of
         Inl InternalSolverException \<Rightarrow> Inr (PR_UNKNOWN, p1)
       | r \<Rightarrow> r)"

subsection \<open>Interpolation sequences (InterpSeqMC)\<close>

record ('s, 'i) ismc = "'s prover" +
  is_itp :: 'i
  is_concrete_cex :: bool
  is_reach_seq :: "tm list"
  is_trans_seq :: "tm list"

definition new_ismc :: "'s \<Rightarrow> 'i \<Rightarrow> ('s, 'i) ismc" where
  "new_ismc s i = \<lparr>pr_solver = s, pr_initialized = False, pr_reached_k = -1, pr_witness = [],
     pr_invar = None, is_itp = i, is_concrete_cex = False, is_reach_seq = [], is_trans_seq = []\<rparr>"

definition ismc_initialize :: "'s prover_env \<Rightarrow> 'i interpolator \<Rightarrow> ('s, 'i) ismc \<Rightarrow> ('s, 'i) ismc result" where
  "ismc_initialize E I p =
     (if pr_initialized p then Inr p
      else bindE (prover_initialize E p) (\<lambda>p1.
        Inr (p1\<lparr>is_itp := ip_reset I (is_itp p), is_concrete_cex := False,
          is_reach_seq := [ts_init (en_ts E)], is_trans_seq := []\<rparr>)))"

definition ismc_reset_env :: "'s prover_env \<Rightarrow> 'i interpolator \<Rightarrow> nat \<Rightarrow> ('s, 'i) ismc \<Rightarrow> ('s, 'i) ismc result" where
  "ismc_reset_env E I lvl p =
     ismc_initialize E I (on_solver (s_pop (en_solver E) ^^ lvl) (p\<lparr>pr_initialized := False\<rparr>))"

definition ismc_step_0 :: "'s prover_env \<Rightarrow> ('s, 'i) ismc \<Rightarrow> (bool \<times> ('s, 'i) ismc) result" where
  "ismc_step_0 E p =
     bindE (check_initial_bad E ''ISMC: step_0 failed, unexpected result: ''
         (en_at E (hd (is_reach_seq p)) 0) (pr_solver p))
       (\<lambda>(cex, s). Inr (False, (if cex then p\<lparr>pr_solver := s, is_concrete_cex := True\<rparr>
          else p\<lparr>pr_solver := s, pr_reached_k := 0\<rparr>)))"

text \<open>The conjunction of a vector of terms: a single term stays as it is.\<close>

definition and_all :: "'s prover_env \<Rightarrow> tm list \<Rightarrow> tm" where
  "and_all E ts = (if length ts = 1 then hd ts else mk_term (builder (en_solver E)) (op0 And) ts)"

fun fixed_point_loop :: "'s prover_env \<Rightarrow> tm list \<Rightarrow> tm \<Rightarrow> 's \<Rightarrow> tm option \<times> 's" where
  "fixed_point_loop E [] acc s = (None, s_pop (en_solver E) s)"
| "fixed_point_loop E (R # Rs) acc s =
     (let S = en_solver E;
          (r, s1) = s_check S (s_assert S R (s_push S s));
          s2 = s_pop S s1
      in if r = UNSAT then (Some acc, s_pop S s2)
         else fixed_point_loop E Rs (mk_term (builder S) (op0 Or) [acc, R]) (s_assert S (not_term E R) s2))"

definition check_fixed_point :: "'s prover_env \<Rightarrow> ('s, 'i) ismc \<Rightarrow> bool \<times> ('s, 'i) ismc" where
  "check_fixed_point E p =
     (let S = en_solver E; R0 = hd (is_reach_seq p);
          (r, s) = fixed_point_loop E (tl (is_reach_seq p)) R0 (s_assert S (not_term E R0) (s_push S (pr_solver p)))
      in case r of
           Some acc \<Rightarrow> (True, p\<lparr>pr_solver := s, pr_invar := Some acc\<rparr>)
         | None \<Rightarrow> (False, p\<lparr>pr_solver := s\<rparr>))"

text \<open>The check of a debug build that the interpolants are what they should be.\<close>

fun check_itp_sequence :: "'s prover_env \<Rightarrow> tm list \<Rightarrow> tm list \<Rightarrow> nat list \<Rightarrow> 's \<Rightarrow> 's result" where
  "check_itp_sequence E fs itps [] s = Inr s"
| "check_itp_sequence E fs itps (i # is) s =
     (let S = en_solver E; a = and_all E (take (Suc i) fs); b = and_all E (drop (Suc i) fs); itp = itps ! i;
          (r1, s1) = s_check S (asserts S [a, not_term E itp] (s_push S s))
      in guardE (r1 = UNSAT) (PonoException (''Invalid interpolation sequence: A => Itp@'' @ nat_str i))
          (let (r2, s2) = s_check S (s_assert S (and_term E itp b) (s_push S (s_pop S s1)))
           in guardE (r2 = UNSAT)
                (PonoException (''Invalid interpolation sequence: Itp@'' @ nat_str i @ '' & B is not UNSAT''))
                (check_itp_sequence E fs itps is (s_pop S s2))))"

text \<open>The loop that conjoins the new interpolants to the sets of the sequence after the first.\<close>

fun conjoin_itps :: "'s prover_env \<Rightarrow> (tm \<Rightarrow> tm) \<Rightarrow> tm list \<Rightarrow> tm list \<Rightarrow> tm list result" where
  "conjoin_itps E U [] Rs = Inr Rs"
| "conjoin_itps E U (t # ts) [] = Inl OutOfRange"
| "conjoin_itps E U (t # ts) (R # Rs) =
     bindE (conjoin_itps E U ts Rs) (\<lambda>Rs'. Inr (and_term E R (U t) # Rs'))"

definition ismc_step :: "'s prover_env \<Rightarrow> 'i interpolator \<Rightarrow> (tm \<Rightarrow> tm) \<Rightarrow> bool \<Rightarrow> nat
    \<Rightarrow> ('s, 'i) ismc \<Rightarrow> (bool \<times> ('s, 'i) ismc) result" where
  "ismc_step E I U dbg i p =
     (if int i \<le> pr_reached_k p then Inr (False, p)
      else if i = 0 then ismc_step_0 E p
      else
        let S = en_solver E;
            trans_i = en_at E (ts_trans (en_ts E)) (i - 1);
            tseq0 = is_trans_seq p @ [trans_i];
            tseq = (if i = 1 then tseq0[0 := and_term E (en_at E (ts_init (en_ts E)) 0) trans_i] else tseq0);
            bad_i = en_at E (en_bad E) i;
            (ans, it) = ip_sequence I (tseq @ [bad_i]) (is_itp p);
            p1 = p\<lparr>is_itp := it, is_trans_seq := tseq\<rparr>
        in case ans of
             None \<Rightarrow> Inl InternalSolverException
           | Some (r, itps) \<Rightarrow>
               if r = UNSAT then
                 bindE (if dbg then check_itp_sequence E (tseq @ [bad_i]) itps [0..<length itps] (pr_solver p1)
                        else Inr (pr_solver p1)) (\<lambda>s.
                 bindE (conjoin_itps E U itps (tl (is_reach_seq p1) @ [tm_true])) (\<lambda>Rt.
                 let (fp, p2) = check_fixed_point E
                       (p1\<lparr>pr_solver := s, is_reach_seq := hd (is_reach_seq p1) # Rt\<rparr>)
                 in if fp then Inr (True, p2)
                    else Inr (False, p2\<lparr>pr_reached_k := pr_reached_k p2 + 1\<rparr>)))
               else
                 let (r', s) = s_check S (s_assert S (and_term E (and_all E tseq) bad_i) (s_push S (pr_solver p1)))
                 in guardE (r' = SAT)
                      (if r = SAT then PonoException ''Internal error: Expecting satisfiable result''
                       else PonoException ''Interpolation failed due to: '')
                      (Inr (False, p1\<lparr>pr_solver := s, is_concrete_cex := True\<rparr>)))"

fun ismc_bounds :: "'s prover_env \<Rightarrow> 'i interpolator \<Rightarrow> (tm \<Rightarrow> tm) \<Rightarrow> bool \<Rightarrow> nat list
    \<Rightarrow> ('s, 'i) ismc \<Rightarrow> (prover_result \<times> ('s, 'i) ismc) result" where
  "ismc_bounds E I U dbg [] p = Inr (PR_UNKNOWN, p)"
| "ismc_bounds E I U dbg (i # is) p =
     bindE (ismc_step E I U dbg i p) (\<lambda>(proved, p1).
       if proved then Inr (PR_TRUE, p1)
       else if is_concrete_cex p1 then Inr (PR_FALSE, compute_witness E p1)
       else ismc_bounds E I U dbg is p1)"

definition ismc_check_until :: "'s prover_env \<Rightarrow> 'i interpolator \<Rightarrow> (tm \<Rightarrow> tm) \<Rightarrow> bool \<Rightarrow> int
    \<Rightarrow> ('s, 'i) ismc \<Rightarrow> (prover_result \<times> ('s, 'i) ismc) result" where
  "ismc_check_until E I U dbg k p =
     bindE (ismc_initialize E I p) (\<lambda>p1.
       case ismc_bounds E I U dbg [0..<nat (k + 1)] p1 of
         Inl InternalSolverException \<Rightarrow> Inr (PR_UNKNOWN, p1)
       | r \<Rightarrow> r)"

end
