(* ===== verification/Interpolation_Correct.thy ===== *)
theory Interpolation_Correct
  imports Interpolation
begin

section \<open>What interpolation needs of its solver and of the unroller\<close>

text \<open>
  The documented behaviour of an interpolating solver: for an unsatisfiable pair the interpolant
  follows from the first formula, contradicts the second and mentions shared symbols only; a
  sequence of interpolants is inductive.
\<close>

definition holds_seq :: "theory_ops \<Rightarrow> assignment \<Rightarrow> tm list \<Rightarrow> tm list \<Rightarrow> bool" where
  "holds_seq F \<sigma> fs ts \<longleftrightarrow> (\<forall>j < length fs.
     (j = 0 \<or> holds F \<sigma> (ts ! (j - 1))) \<and> holds F \<sigma> (fs ! j) \<longrightarrow> j < length ts \<and> holds F \<sigma> (ts ! j))"

locale interpolating =
  fixes I :: "'i interpolator" and F :: theory_ops
  assumes itp_implied: "ip_interpolant I a b s = (Some (UNSAT, t), s') \<Longrightarrow> wsorted \<sigma> \<Longrightarrow>
      holds F \<sigma> a \<Longrightarrow> holds F \<sigma> t"
    and itp_refutes: "ip_interpolant I a b s = (Some (UNSAT, t), s') \<Longrightarrow> wsorted \<sigma> \<Longrightarrow>
      holds F \<sigma> t \<Longrightarrow> \<not> holds F \<sigma> b"
    and itp_syms: "ip_interpolant I a b s = (Some (UNSAT, t), s') \<Longrightarrow> syms t \<subseteq> syms a \<inter> syms b"
    and seq_length: "ip_sequence I fs s = (Some (UNSAT, ts), s') \<Longrightarrow> Suc (length ts) = length fs"
    and seq_inductive: "ip_sequence I fs s = (Some (UNSAT, ts), s') \<Longrightarrow> wsorted \<sigma> \<Longrightarrow> holds_seq F \<sigma> fs ts"
    and seq_syms: "ip_sequence I fs s = (Some (UNSAT, ts), s') \<Longrightarrow> j < length ts \<Longrightarrow>
      syms (ts ! j) \<subseteq> \<Union> (syms ` set (take (Suc j) fs)) \<inter> \<Union> (syms ` set (drop (Suc j) fs))"

definition timed_at :: "(tm \<Rightarrow> nat \<Rightarrow> tm) \<Rightarrow> tm set \<Rightarrow> nat \<Rightarrow> tm \<Rightarrow> bool" where
  "timed_at at V k t \<longleftrightarrow> (\<forall>x \<in> syms t. \<not> is_fun_sort (snd x) \<longrightarrow> (\<exists>v \<in> V. at v k = tm_of x))"

locale untiming = safety_engine E F frames
  for E :: "'s prover_env" and F :: theory_ops and frames :: "'s \<Rightarrow> tm list list" +
  fixes U :: "tm \<Rightarrow> tm"
  assumes at_symbols: "covered t (ts_vars (en_ts E)) \<Longrightarrow> x \<in> syms (en_at E t k) \<Longrightarrow> \<not> is_fun_sort (snd x) \<Longrightarrow>
      (\<exists>v \<in> set (ts_statevars (en_ts E)) \<union> set (ts_inputvars (en_ts E)). en_at E v k = tm_of x)
      \<or> (\<exists>v \<in> set (ts_statevars (en_ts E)). en_at E v (Suc k) = tm_of x)"
    and at_symbols_current: "covered t V \<Longrightarrow> V \<subseteq> set (ts_statevars (en_ts E)) \<union> set (ts_inputvars (en_ts E)) \<Longrightarrow>
      x \<in> syms (en_at E t k) \<Longrightarrow> \<not> is_fun_sort (snd x) \<Longrightarrow> \<exists>v \<in> V. en_at E v k = tm_of x"
    and at_unique: "v \<in> set (ts_statevars (en_ts E)) \<union> set (ts_inputvars (en_ts E)) \<Longrightarrow>
      w \<in> set (ts_statevars (en_ts E)) \<union> set (ts_inputvars (en_ts E)) \<Longrightarrow>
      en_at E v i = en_at E w j \<Longrightarrow> v = w \<and> i = j"
    and untime_covered: "timed_at (en_at E) V k t \<Longrightarrow>
      V \<subseteq> set (ts_statevars (en_ts E)) \<union> set (ts_inputvars (en_ts E)) \<Longrightarrow> covered (U t) V"
    and untime_eval: "timed_at (en_at E) (set (ts_statevars (en_ts E)) \<union> set (ts_inputvars (en_ts E))) k t \<Longrightarrow>
      unrolls_to F (en_ts E) (en_at E) \<sigma> \<pi> \<Longrightarrow> eval F (\<pi> k) (U t) = eval F \<sigma> t"

locale itp_engine = untiming E F frames U + interpolating I F
  for E :: "'s prover_env" and F :: theory_ops and frames :: "'s \<Rightarrow> tm list list"
    and U :: "tm \<Rightarrow> tm" and I :: "'i interpolator"

context untiming
begin

abbreviation "SV \<equiv> set (ts_statevars sys)"
abbreviation "IV \<equiv> set (ts_inputvars sys)"

lemma not_term_holds [simp]: "holds F \<sigma> (not_term E t) \<longleftrightarrow> \<not> holds F \<sigma> t"
  by (simp add: not_term_def)

lemma and_term_holds [simp]: "holds F \<sigma> (and_term E a b) \<longleftrightarrow> holds F \<sigma> a \<and> holds F \<sigma> b"
  by (simp add: and_term_def)

text \<open>Terms over the times before and from \<open>k\<close>; they share the state variables at \<open>k\<close>.\<close>

definition before :: "nat \<Rightarrow> tm \<Rightarrow> bool" where
  "before k t \<longleftrightarrow> (\<forall>x \<in> syms t. \<not> is_fun_sort (snd x) \<longrightarrow>
     (\<exists>v \<in> SV \<union> IV. \<exists>j < k. at v j = tm_of x) \<or> (\<exists>v \<in> SV. at v k = tm_of x))"

definition since :: "nat \<Rightarrow> tm \<Rightarrow> bool" where
  "since k t \<longleftrightarrow> (\<forall>x \<in> syms t. \<not> is_fun_sort (snd x) \<longrightarrow> (\<exists>v \<in> SV \<union> IV. \<exists>j \<ge> k. at v j = tm_of x))"

lemma shared_symbols_list:
  assumes "\<forall>a \<in> set as. before k a" and "\<forall>b \<in> set bs. since k b"
    and "syms t \<subseteq> \<Union> (syms ` set as) \<inter> \<Union> (syms ` set bs)"
  shows "timed_at at SV k t"
  unfolding timed_at_def
proof (intro ballI impI)
  fix x assume x: "x \<in> syms t" "\<not> is_fun_sort (snd x)"
  with assms(3) obtain a b where ab: "a \<in> set as" "x \<in> syms a" "b \<in> set bs" "x \<in> syms b" by blast
  from assms(2) ab(3,4) x(2) obtain w j where w: "w \<in> SV \<union> IV" "k \<le> j" "at w j = tm_of x"
    unfolding since_def by blast
  from assms(1) ab(1,2) x(2) consider v i where "v \<in> SV \<union> IV" "i < k" "at v i = tm_of x" | v where "v \<in> SV" "at v k = tm_of x"
    unfolding before_def by blast
  then show "\<exists>v \<in> SV. at v k = tm_of x"
  proof cases
    case 1
    with w have "i = j" using at_unique [of v w i j] by simp
    with 1 w show ?thesis by simp
  qed blast
qed

lemma shared_symbols: "before k a \<Longrightarrow> since k b \<Longrightarrow> syms t \<subseteq> syms a \<inter> syms b \<Longrightarrow> timed_at at SV k t"
  using shared_symbols_list [of "[a]" k "[b]" t] by simp

lemma before_at: "covered t (ts_vars sys) \<Longrightarrow> j < k \<Longrightarrow> before k (at t j)"
  unfolding before_def using at_symbols by (metis Suc_leI le_neq_implies_less UnI1)

lemma since_at:
  assumes "covered t (ts_vars sys)" and "k \<le> j"
  shows "since k (at t j)"
  unfolding since_def
proof (intro ballI impI)
  fix x assume "x \<in> syms (at t j)" "\<not> is_fun_sort (snd x)"
  from at_symbols [OF assms(1) this] assms(2) show "\<exists>v \<in> SV \<union> IV. \<exists>i \<ge> k. at v i = tm_of x"
    by (meson UnI1 le_SucI)
qed

lemma before_timed: "timed_at at (SV \<union> IV) j t \<Longrightarrow> j < k \<Longrightarrow> before k t"
  unfolding before_def timed_at_def by blast

lemma timed_current: "covered t V \<Longrightarrow> V \<subseteq> SV \<union> IV \<Longrightarrow> timed_at at V k (at t k)"
  unfolding timed_at_def using at_symbols_current by blast

lemma timed_mono: "timed_at at V k t \<Longrightarrow> V \<subseteq> W \<Longrightarrow> timed_at at W k t"
  by (auto simp: timed_at_def)

lemma symbols_mk2:
  "before k a \<Longrightarrow> before k b \<Longrightarrow> before k (mk_term B p [a, b])"
  "since k a \<Longrightarrow> since k b \<Longrightarrow> since k (mk_term B p [a, b])"
  "timed_at at V k a \<Longrightarrow> timed_at at V k b \<Longrightarrow> timed_at at V k (mk_term B p [a, b])"
  using syms_mk2 [of p a b] unfolding before_def since_def timed_at_def by blast+

lemma symbols_mk1:
  "before k a \<Longrightarrow> before k (mk_term B p [a])" "since k a \<Longrightarrow> since k (mk_term B p [a])"
  "timed_at at V k a \<Longrightarrow> timed_at at V k (mk_term B p [a])"
  using syms_mk1 [of p a] unfolding before_def since_def timed_at_def by blast+

lemma since_val [simp]: "since k (Val v st)"
  by (simp add: since_def)

lemma init_cov: "covered (ts_init sys) SV" and trans_cov: "covered (ts_trans sys) (ts_vars sys)"
  using forms_ok_parts(1,2) [OF wf_parts(3) [OF system_wf]] by blast+

lemma sv_vars: "SV \<subseteq> ts_vars sys"
  by (auto simp: ts_vars_def)

text \<open>The state that an untimed term is about.\<close>

lemma untimed_state:
  assumes "timed_at at SV k t" and "all_states \<pi>" and "unrolls_to F sys at \<sigma> \<pi>"
  shows "holds F (\<pi> k) (U t) \<longleftrightarrow> holds F \<sigma> t" and "covered (U t) SV"
    and "holds F \<sigma> (at (U t) j) \<longleftrightarrow> holds F (\<pi> j) (U t)"
proof -
  show "holds F (\<pi> k) (U t) \<longleftrightarrow> holds F \<sigma> t"
    using untime_eval [OF timed_mono [OF assms(1)] assms(3)] by simp
  show c: "covered (U t) SV" by (rule untime_covered [OF assms(1)]) simp
  have "current (U t)" by (rule covered_mono [OF c]) simp
  from unrolls_current [OF assms(3) this] show "holds F \<sigma> (at (U t) j) \<longleftrightarrow> holds F (\<pi> j) (U t)" by simp
qed

text \<open>
  The state predicate of an interpolant at time one holds after every step from a state of the
  first formula, and no \<open>n\<close> steps lead from it to a bad state.
\<close>

definition image_ok :: "(assignment \<Rightarrow> bool) \<Rightarrow> (assignment \<Rightarrow> bool) \<Rightarrow> bool" where
  "image_ok P Q \<longleftrightarrow> (\<forall>s t. ts_step F sys s t \<and> P s \<longrightarrow> Q t)"

definition far_from_bad :: "nat \<Rightarrow> (assignment \<Rightarrow> bool) \<Rightarrow> bool" where
  "far_from_bad n P \<longleftrightarrow> (\<forall>\<pi>. segment F sys \<pi> n \<and> P (\<pi> 0) \<longrightarrow> \<not> holds F (\<pi> n) bad)"

text \<open>A step and a segment after it as assignments of the unrolled variables.\<close>

lemma step_model:
  assumes "ts_step F sys s t"
  obtains \<sigma> \<rho> where "wsorted \<sigma>" and "unrolls_to F sys at \<sigma> \<rho>" and "all_states \<rho>"
    and "\<rho> 0 = s" and "\<rho> 1 = t" and "holds F \<sigma> (trans_at 0)"
proof -
  let ?\<pi> = "\<lambda>i. if i = 0 then s else t"
  have "segment F sys ?\<pi> 1" using assms ts_stepD [OF assms] by (simp add: segment_def)
  then obtain \<sigma> \<rho> where m: "wsorted \<sigma>" "unrolls_to F sys at \<sigma> \<rho>" "all_states \<rho>"
    and e: "\<And>i. i \<le> 1 \<Longrightarrow> \<rho> i = ?\<pi> i" and h: "\<And>i. i < 1 \<Longrightarrow> holds F \<sigma> (trans_at i)"
    by (rule segment_model) blast
  show thesis by (rule that [OF m]) (use e [of 0] e [of 1] h [of 0] in simp_all)
qed

lemma later_segment_model:
  assumes "segment F sys \<pi> n"
  obtains \<sigma> \<rho> where "wsorted \<sigma>" and "unrolls_to F sys at \<sigma> \<rho>" and "all_states \<rho>"
    and "\<And>i. i \<le> n \<Longrightarrow> \<rho> (k + i) = \<pi> i" and "\<And>i. i < n \<Longrightarrow> holds F \<sigma> (trans_at (k + i))"
proof -
  let ?\<rho> = "\<lambda>i. \<pi> (min (i - k) n)"
  have "agree_funs (\<pi> (min i n)) (\<pi> (min j n))" for i j
    using segment_states(1) [OF assms] by (simp add: all_states_def)
  then have a: "all_states ?\<rho>" using assms by (simp add: all_states_def segment_def)
  obtain \<sigma> where m: "wsorted \<sigma>" "unrolls_to F sys at \<sigma> ?\<rho>" using at_model [OF a] by blast
  have "holds F \<sigma> (trans_at (k + i))" if "i < n" for i
    using unrolls_trans [OF a m(2)] assms that by (simp add: segment_def)
  with that [OF m a] show thesis by simp
qed

text \<open>A predicate far from the bad states and the states before it: no bad state at that distance.\<close>

lemma chain_states:
  assumes "\<And>j. Suc j < length Ps \<Longrightarrow> image_ok (Ps ! j) (Ps ! Suc j)"
    and "segment F sys \<pi> n" and "(Ps ! 0) (\<pi> 0)" and "j \<le> n" and "j < length Ps"
  shows "(Ps ! j) (\<pi> j)"
  using assms(4,5)
proof (induction j)
  case 0
  then show ?case using assms(3) by simp
next
  case (Suc j)
  then have "ts_step F sys (\<pi> j) (\<pi> (Suc j))" using assms(2) by (simp add: segment_def)
  with assms(1) [of j] Suc show ?case unfolding image_ok_def by simp
qed

lemma far_no_cex:
  assumes "far_from_bad n P" and "ts_path F sys \<pi> (m + n)" and "P (\<pi> m)"
  shows "\<not> holds F (\<pi> (m + n)) bad"
proof -
  have "segment F sys (\<lambda>i. \<pi> (m + i)) n" using assms(2) by (auto simp: ts_path_def segment_def)
  with assms(1,3) show ?thesis unfolding far_from_bad_def by (metis add.right_neutral)
qed

text \<open>
  Enough for safety: predicates that cover the initial states, such that every step leads from the
  union to the predicates after the first, those are far from bad states, and no shorter
  counterexample.
\<close>

lemma far_safe:
  assumes init: "\<And>s. ts_initial F sys s \<Longrightarrow> Ini s"
    and step: "\<And>s t. ts_step F sys s t \<Longrightarrow> Ini s \<or> A s \<Longrightarrow> A t"
    and far: "\<And>s. A s \<Longrightarrow> \<exists>P. P s \<and> far_from_bad n P"
    and short: "\<And>m. m \<le> n \<Longrightarrow> \<not> cex F sys bad m"
  shows "safe F sys bad" and "reach F sys k s \<Longrightarrow> Ini s \<or> A s"
proof -
  have states: "if m = 0 then Ini (\<pi> m) else A (\<pi> m)" if "ts_path F sys \<pi> k" "m \<le> k" for \<pi> k m
    using that(2)
  proof (induction m)
    case 0
    then show ?case using that(1) init by (simp add: ts_path_def)
  next
    case (Suc m)
    then have "ts_step F sys (\<pi> m) (\<pi> (Suc m))" using that(1) by (simp add: ts_path_def segment_def)
    with Suc show ?case using step by (auto split: if_splits)
  qed
  show "safe F sys bad"
    unfolding safe_def
  proof
    fix k
    show "\<not> cex F sys bad k"
    proof (cases "k \<le> n")
      case False
      show ?thesis
      proof
        assume "cex F sys bad k"
        then obtain \<pi> where p: "ts_path F sys \<pi> k" "holds F (\<pi> k) bad" by (auto simp: cex_def)
        from states [OF p(1), of "k - n"] False have "A (\<pi> (k - n))" by simp
        with far obtain P where "P (\<pi> (k - n))" "far_from_bad n P" by blast
        with far_no_cex [of n P \<pi> "k - n"] p False show False by simp
      qed
    qed (use short in simp)
  qed
  show "Ini s \<or> A s" if "reach F sys k s"
  proof -
    from reach_path [OF that] obtain \<pi> where "ts_path F sys \<pi> k" "\<pi> k = s" by blast
    with states [of \<pi> k k] show ?thesis by (auto split: if_splits)
  qed
qed

end

section \<open>Craig interpolation\<close>

context itp_engine
begin

definition trans_ok :: "nat \<Rightarrow> tm \<Rightarrow> bool" where
  "trans_ok n t \<longleftrightarrow> since 1 t \<and> (\<forall>\<sigma>. holds F \<sigma> t \<longleftrightarrow> (\<forall>j. 1 \<le> j \<and> j \<le> n \<longrightarrow> holds F \<sigma> (trans_at j)))"

definition bad_ok :: "nat \<Rightarrow> tm \<Rightarrow> bool" where
  "bad_ok i t \<longleftrightarrow> since 1 t \<and> (\<forall>\<sigma>. holds F \<sigma> (at bad i) \<or> holds F \<sigma> (at bad 1) \<longrightarrow> holds F \<sigma> t)"

text \<open>A query of the loop with the state predicate \<open>P\<close> in the first formula.\<close>

lemma new_interpolant:
  assumes q: "ip_interpolant I (if bw then fB else fA) (if bw then fA else fB) st = (Some (UNSAT, t), st')"
    and fA: "fA = and_term E X (trans_at 0)" and fB: "fB = and_term E tB bd"
    and X: "timed_at at SV 0 X"
      "\<forall>\<sigma> \<pi>. all_states \<pi> \<longrightarrow> unrolls_to F sys at \<sigma> \<pi> \<longrightarrow> holds F \<sigma> X = P (\<pi> 0)"
    and tB: "trans_ok (i - 1) tB" and bd: "bad_ok i bd" and i: "1 \<le> i"
    and t': "t' = (if bw then not_term E t else t)"
  shows "timed_at at SV 1 t'" and "covered (U t') SV" and "image_ok P (\<lambda>s. holds F s (U t'))"
    and "far_from_bad (i - 1) (\<lambda>s. holds F s (U t'))"
    and "segment F sys \<pi> (i - 1) \<Longrightarrow> holds F (\<pi> 0) (U t') \<Longrightarrow> \<not> holds F (\<pi> 0) bad"
proof -
  have A: "holds F \<sigma> fA \<Longrightarrow> holds F \<sigma> t'" and B: "holds F \<sigma> t' \<Longrightarrow> \<not> holds F \<sigma> fB" if "wsorted \<sigma>" for \<sigma>
    using itp_implied [OF q that] itp_refutes [OF q that] by (auto simp: t' split: if_splits)
  have "before 1 fA"
    unfolding fA and_term_def
    using symbols_mk2(1) before_timed [OF timed_mono [OF X(1)], of 1] before_at [OF trans_cov, of 0 1] by simp
  moreover have "since 1 fB" unfolding fB and_term_def using symbols_mk2(2) tB bd by (simp add: trans_ok_def bad_ok_def)
  moreover have "syms t \<subseteq> syms fA \<inter> syms fB" using itp_syms [OF q] by (auto split: if_splits)
  ultimately have "timed_at at SV 1 t" by (rule shared_symbols)
  then show tm: "timed_at at SV 1 t'" by (simp add: t' not_term_def symbols_mk1)
  show "covered (U t') SV" by (rule untime_covered [OF tm]) simp
  show "image_ok P (\<lambda>s. holds F s (U t'))"
    unfolding image_ok_def
  proof (intro allI impI, elim conjE)
    fix s u assume st: "ts_step F sys s u" and p: "P s"
    obtain \<sigma> \<rho> where m: "wsorted \<sigma>" "unrolls_to F sys at \<sigma> \<rho>" "all_states \<rho>" "\<rho> 0 = s" "\<rho> 1 = u"
      "holds F \<sigma> (trans_at 0)" by (rule step_model [OF st])
    then have "holds F \<sigma> fA" using X(2) p by (simp add: fA)
    with A [OF m(1)] untimed_state(1) [OF tm m(3,2)] m(5) show "holds F u (U t')" by simp
  qed
  have far: "\<not> holds F (\<pi> (i - 1)) bad \<and> \<not> holds F (\<pi> 0) bad"
    if p: "segment F sys \<pi> (i - 1)" "holds F (\<pi> 0) (U t')" for \<pi>
  proof -
    obtain \<sigma> \<rho> where m: "wsorted \<sigma>" "unrolls_to F sys at \<sigma> \<rho>" "all_states \<rho>"
      and e: "\<And>j. j \<le> i - 1 \<Longrightarrow> \<rho> (1 + j) = \<pi> j" and tr: "\<And>j. j < i - 1 \<Longrightarrow> holds F \<sigma> (trans_at (1 + j))"
      by (rule later_segment_model [where k = 1, OF p(1)], rule that)
    have "holds F \<sigma> t'" using untimed_state(1) [OF tm m(3,2)] e [of 0] p(2) by simp
    moreover have "holds F \<sigma> tB"
    proof -
      have "holds F \<sigma> (trans_at j)" if "1 \<le> j" "j \<le> i - 1" for j using tr [of "j - 1"] that by simp
      with tB show ?thesis by (simp add: trans_ok_def)
    qed
    ultimately have nb: "\<not> holds F \<sigma> bd" using B [OF m(1)] by (simp add: fB)
    have "holds F \<sigma> (at bad i) \<longleftrightarrow> holds F (\<pi> (i - 1)) bad" "holds F \<sigma> (at bad 1) \<longleftrightarrow> holds F (\<pi> 0) bad"
      using unrolls_current [OF m(2) bad_cur] e [of "i - 1"] e [of 0] i by simp_all
    with nb bd show ?thesis unfolding bad_ok_def by blast
  qed
  show "far_from_bad (i - 1) (\<lambda>s. holds F s (U t'))" using far by (simp add: far_from_bad_def)
  show "segment F sys \<pi> (i - 1) \<Longrightarrow> holds F (\<pi> 0) (U t') \<Longrightarrow> \<not> holds F (\<pi> 0) bad" using far by blast
qed

text \<open>The chain of state predicates that the loop has found at bound \<open>i\<close>.\<close>

definition chain_ok :: "nat \<Rightarrow> tm list \<Rightarrow> bool" where
  "chain_ok i rs \<longleftrightarrow> rs \<noteq> [] \<and> hd rs = ts_init sys \<and> (\<forall>r \<in> set rs. covered r SV)
     \<and> (\<forall>j. Suc j < length rs \<longrightarrow> image_ok (\<lambda>s. holds F s (rs ! j)) (\<lambda>s. holds F s (rs ! Suc j)))
     \<and> (\<forall>r \<in> set (tl rs). far_from_bad (i - 1) (\<lambda>s. holds F s r)
          \<and> (\<forall>\<pi>. segment F sys \<pi> (i - 1) \<and> holds F (\<pi> 0) r \<longrightarrow> \<not> holds F (\<pi> 0) bad))"

definition reached_ok :: "tm list \<Rightarrow> tm \<Rightarrow> tm \<Rightarrow> bool" where
  "reached_ok rs R Ri \<longleftrightarrow> timed_at at SV 0 R \<and> Ri = at (last rs) 0
     \<and> (\<forall>\<sigma> \<pi>. all_states \<pi> \<longrightarrow> unrolls_to F sys at \<sigma> \<pi> \<longrightarrow> (holds F \<sigma> R \<longleftrightarrow> (\<exists>r \<in> set rs. holds F (\<pi> 0) r)))"

definition stack_ok :: "tm list \<Rightarrow> 's \<Rightarrow> bool" where
  "stack_ok rs s \<longleftrightarrow> (if length rs = 1 then concat (frames s) = [] \<and> frames s \<noteq> []
     else asserted s = (\<lambda>r. not_term E (at r 0)) ` set rs \<and> concat (tl (frames s)) = [] \<and> tl (frames s) \<noteq> [])"

lemma chain_snoc:
  assumes c: "chain_ok i rs" and r: "covered r SV"
    and "image_ok (\<lambda>s. holds F s (last rs)) (\<lambda>s. holds F s r)"
    and "far_from_bad (i - 1) (\<lambda>s. holds F s r)"
    and "\<forall>\<pi>. segment F sys \<pi> (i - 1) \<and> holds F (\<pi> 0) r \<longrightarrow> \<not> holds F (\<pi> 0) bad"
  shows "chain_ok i (rs @ [r])"
proof -
  have ne: "rs \<noteq> []" using c by (simp add: chain_ok_def)
  then have "(rs @ [r]) ! (length rs - 1) = last rs" by (simp add: nth_append last_conv_nth)
  then have "image_ok (\<lambda>s. holds F s ((rs @ [r]) ! j)) (\<lambda>s. holds F s ((rs @ [r]) ! Suc j))"
    if "Suc j < length (rs @ [r])" for j
  proof (cases "Suc j < length rs")
    case True
    with c show ?thesis by (simp add: chain_ok_def nth_append)
  next
    case False
    with that have "j = length rs - 1" "Suc j = length rs" using ne by auto
    with assms(3) \<open>(rs @ [r]) ! (length rs - 1) = last rs\<close> show ?thesis by (simp add: nth_append)
  qed
  with c assms show ?thesis by (auto simp: chain_ok_def)
qed

lemma converged:
  assumes h: "has_converged E (at r 0) R (length rs) s = (conv, s')" and st: "stack_ok rs s"
    and r: "covered r SV" and R: "length rs = 1 \<longrightarrow> R = at (hd rs) 0" and ne: "rs \<noteq> []" and cur: "\<forall>r \<in> set rs. covered r SV"
  shows "\<not> conv \<Longrightarrow> stack_ok (rs @ [r]) s'"
    and "conv \<Longrightarrow> concat (frames (s_pop S s')) = [] \<and> frames (s_pop S s') \<noteq> []
      \<and> (\<forall>x. wsorted x \<and> holds F x r \<longrightarrow> (\<exists>q \<in> set rs. holds F x q))"
proof -
  define s1 where "s1 = (if length rs = 1 then s_assert S (not_term E R) (s_push S s) else s)"
  have a1: "asserted s1 = (\<lambda>r. not_term E (at r 0)) ` set rs" and t1: "concat (tl (frames s1)) = [] \<and> tl (frames s1) \<noteq> []"
  proof -
    show "asserted s1 = (\<lambda>r. not_term E (at r 0)) ` set rs"
    proof (cases "length rs = 1")
      case True
      then obtain q where "rs = [q]" by (cases rs) auto
      then have "asserted s1 = insert (not_term E (at q 0)) (asserted s)" using R by (simp add: s1_def)
      moreover have "asserted s = {}" using st True by (simp only: stack_ok_def asserted_def if_True list.set)
      ultimately show ?thesis using \<open>rs = [q]\<close> by simp
    qed (use st in \<open>simp add: s1_def stack_ok_def\<close>)
    show "concat (tl (frames s1)) = [] \<and> tl (frames s1) \<noteq> []"
      using st by (auto simp: s1_def stack_ok_def frames_push frames_assert)
  qed
  obtain q s2 where chk: "s_check S (s_assert S (at r 0) (s_push S s1)) = (q, s2)" by (rule prod.exhaust)
  have s': "(conv, s') = (if q \<noteq> UNSAT then (False, s_assert S (not_term E (at r 0)) (s_pop S s2)) else (True, s_pop S s2))"
    using h chk by (simp add: has_converged_def Let_def s1_def)
  have fr: "frames (s_pop S s2) = frames s1"
    using frames_check [OF chk] by (simp add: frames_pop frames_assert frames_push)
  show "stack_ok (rs @ [r]) s'" if "\<not> conv"
  proof -
    have "s' = s_assert S (not_term E (at r 0)) (s_pop S s2)" using s' that by (auto split: if_splits)
    moreover have "asserted (s_pop S s2) = asserted s1" by (simp add: asserted_def fr)
    moreover have "frames s1 \<noteq> []" using t1 by auto
    ultimately show ?thesis using a1 t1 ne fr
      by (cases "frames s1") (auto simp: stack_ok_def frames_assert)
  qed
  assume conv
  then have q: "q = UNSAT" and "s' = s_pop S s2" using s' by (auto split: if_splits)
  moreover have "\<exists>q \<in> set rs. holds F x q" if x: "wsorted x" "holds F x r" for x
  proof (rule ccontr)
    assume n: "\<not> (\<exists>q \<in> set rs. holds F x q)"
    have "all_states (\<lambda>_. x)" using x(1) by (simp add: all_states_def agree_funs_def)
    then obtain \<sigma> where m: "wsorted \<sigma>" "unrolls_to F sys at \<sigma> (\<lambda>_. x)" using at_model by blast
    have v: "holds F \<sigma> (at u 0) \<longleftrightarrow> holds F x u" if "covered u SV" for u
      using unrolls_current [OF m(2), of u 0] covered_mono [OF that, of "SV \<union> IV"] by simp
    show False
      by (rule check_UNSAT_no_model [OF chk [unfolded q] m(1)])
        (use a1 n v cur r x(2) in auto)
  qed
  ultimately show "concat (frames (s_pop S s')) = [] \<and> frames (s_pop S s') \<noteq> []
      \<and> (\<forall>x. wsorted x \<and> holds F x r \<longrightarrow> (\<exists>q \<in> set rs. holds F x q))"
    using t1 fr by (auto simp: frames_pop)
qed

text \<open>What the engine keeps between bounds, when it has done the bounds up to \<open>r\<close>.\<close>

definition imc_inv :: "int \<Rightarrow> ('s, 'i) imc \<Rightarrow> bool" where
  "imc_inv r p \<longleftrightarrow> pr_initialized p \<and> pr_reached_k p = r \<and> -1 \<le> r \<and> pr_witness p = [] \<and> \<not> im_concrete_cex p
     \<and> concat (frames (pr_solver p)) = [] \<and> frames (pr_solver p) \<noteq> []
     \<and> im_init0 p = init_at 0 \<and> im_transA p = trans_at 0 \<and> trans_ok (nat r) (im_transB p)
     \<and> since 1 (im_bad_disjuncts p)
     \<and> (1 \<le> r \<longrightarrow> (\<forall>\<sigma>. holds F \<sigma> (at bad 1) \<longrightarrow> holds F \<sigma> (im_bad_disjuncts p)))
     \<and> (\<forall>m. int m \<le> r \<longrightarrow> \<not> cex F sys bad m)"

definition imc_cex :: "nat \<Rightarrow> ('s, 'i) imc \<Rightarrow> bool" where
  "imc_cex i p \<longleftrightarrow> pr_witness p = [] \<and> pr_reached_k p = int i - 1
     \<and> (\<exists>\<sigma>. has_model (pr_solver p) \<sigma> \<and> holds F \<sigma> (init_at 0)
          \<and> (\<forall>j < i. holds F \<sigma> (trans_at j)) \<and> holds F \<sigma> (at bad i))
     \<and> (\<forall>m < i. \<not> cex F sys bad m)"

text \<open>A proof: an invariant that implies the property where states have long enough futures.\<close>

definition imc_proof :: "nat \<Rightarrow> ('s, 'i) imc \<Rightarrow> bool" where
  "imc_proof i p \<longleftrightarrow> safe F sys bad \<and> (\<exists>iv. pr_invar p = Some iv \<and> covered iv SV
     \<and> (\<forall>s. ts_initial F sys s \<longrightarrow> holds F s iv) \<and> (\<forall>s t. ts_step F sys s t \<and> holds F s iv \<longrightarrow> holds F t iv)
     \<and> (\<forall>\<pi>. segment F sys \<pi> (i - 1) \<and> holds F (\<pi> 0) iv \<longrightarrow> \<not> holds F (\<pi> 0) bad))"

lemma chain_proof:
  assumes c: "chain_ok i (rs @ [r])" and ne: "rs \<noteq> []" and R: "reached_ok rs R Ri"
    and conv: "\<forall>x. wsorted x \<and> holds F x r \<longrightarrow> (\<exists>q \<in> set rs. holds F x q)"
    and short: "\<forall>m \<le> i - 1. \<not> cex F sys bad m" and iv: "pr_invar p = Some (U R)"
  shows "imc_proof i p"
proof -
  let ?A = "\<lambda>s. \<exists>q \<in> set (tl (rs @ [r])). holds F s q"
  have hd: "hd rs = ts_init sys" using c ne by (simp add: chain_ok_def)
  have step: "?A t" if st: "ts_step F sys s t" and s: "\<exists>q \<in> set rs. holds F s q" for s t
  proof -
    from s obtain j where j: "j < length rs" "holds F s (rs ! j)" by (auto simp: in_set_conv_nth)
    then have "image_ok (\<lambda>s. holds F s ((rs @ [r]) ! j)) (\<lambda>s. holds F s ((rs @ [r]) ! Suc j))"
      using c by (simp add: chain_ok_def)
    with st j have "holds F t ((rs @ [r]) ! Suc j)" by (auto simp: image_ok_def nth_append)
    moreover have "(rs @ [r]) ! Suc j \<in> set (tl (rs @ [r]))"
      using j(1) nth_tl [of j "rs @ [r]"] nth_mem [of j "tl (rs @ [r])"] by simp
    ultimately show ?thesis by blast
  qed
  have sub: "\<exists>q \<in> set rs. holds F s q" if "?A s" "wsorted s" for s
    using that conv ne by (cases rs) auto
  have U: "holds F s (U R) \<longleftrightarrow> (\<exists>q \<in> set rs. holds F s q)" "covered (U R) SV" if w: "wsorted s" for s
  proof -
    have a: "all_states (\<lambda>_. s)" using w by (simp add: all_states_def agree_funs_def)
    then obtain \<sigma> where m: "unrolls_to F sys at \<sigma> (\<lambda>_. s)" using at_model by blast
    show "covered (U R) SV" using untime_covered [of SV 0 R] R by (simp add: reached_ok_def)
    have "timed_at at SV 0 R" using R by (simp add: reached_ok_def)
    from untimed_state(1) [OF this a m] R a m show "holds F s (U R) \<longleftrightarrow> (\<exists>q \<in> set rs. holds F s q)"
      by (auto simp: reached_ok_def)
  qed
  have init: "\<exists>q \<in> set rs. holds F s q" if "ts_initial F sys s" for s
    using that hd ne by (cases rs) (auto simp: ts_initial_def)
  have far: "\<exists>P. P s \<and> far_from_bad (i - 1) P" if "?A s" for s
    using that c by (auto simp: chain_ok_def)
  have safe: "safe F sys bad"
  proof (rule far_safe(1) [where Ini = "ts_initial F sys" and A = ?A and n = "i - 1"])
    fix s t assume st: "ts_step F sys s t" and "ts_initial F sys s \<or> ?A s"
    then show "?A t" using step [OF st] init sub ts_stepD(1) [OF st] by blast
  qed (use far short in auto)
  obtain w where w: "wsorted (w :: assignment)" by (metis wsorted_row_env empty_iff image_empty list.set(1))
  have "holds F t (U R)" if st: "ts_step F sys s t" and s: "holds F s (U R)" for s t
    using step [OF st] sub U(1) [OF ts_stepD(1) [OF st]] U(1) [OF ts_stepD(2) [OF st]] ts_stepD(2) [OF st] s by blast
  moreover have "\<not> holds F (\<pi> 0) bad" if p: "segment F sys \<pi> (i - 1)" "holds F (\<pi> 0) (U R)" for \<pi>
  proof -
    have w0: "wsorted (\<pi> 0)" using p(1) by (simp add: segment_def)
    with p(2) U(1) obtain q where q: "q \<in> set rs" "holds F (\<pi> 0) q" by blast
    show ?thesis
    proof (cases "q = hd rs")
      case True
      then have "ts_path F sys \<pi> 0" using q(2) hd w0 by (simp add: ts_path_def ts_initial_def segment_def)
      moreover have "\<not> cex F sys bad 0" using short by simp
      ultimately show ?thesis unfolding cex_def by blast
    next
      case False
      with q(1) have "q \<in> set (tl (rs @ [r]))" using ne by (cases rs) auto
      with c p(1) q(2) show ?thesis by (simp add: chain_ok_def)
    qed
  qed
  moreover have "holds F s (U R)" if "ts_initial F sys s" for s
    using init [OF that] U(1) that by (simp add: ts_initial_def)
  ultimately show ?thesis using safe iv U(2) [OF w] unfolding imc_proof_def by blast
qed

definition imc_static :: "nat \<Rightarrow> ('s, 'i) imc \<Rightarrow> bool" where
  "imc_static i p \<longleftrightarrow> pr_witness p = [] \<and> pr_reached_k p = int i - 1 \<and> im_init0 p = init_at 0
     \<and> im_transA p = trans_at 0 \<and> trans_ok (i - 1) (im_transB p) \<and> bad_ok i (im_bad_disjuncts p)
     \<and> (\<forall>m \<le> i - 1. \<not> cex F sys bad m)"

lemma imc_static_update [simp]:
  "imc_static i (p\<lparr>pr_solver := s\<rparr>) = imc_static i p" "imc_static i (p\<lparr>im_itp := it\<rparr>) = imc_static i p"
  by (simp_all add: imc_static_def)

lemma extend_reached:
  assumes R: "reached_ok rs R Ri" and ne: "rs \<noteq> []" and r: "covered r SV"
  shows "reached_ok (rs @ [r]) (mk_term B (op0 Or) [R, at r 0]) (at r 0)"
proof -
  have "timed_at at SV 0 (mk_term B (op0 Or) [R, at r 0])"
    by (rule symbols_mk2(3)) (use R timed_current [OF r, of 0] in \<open>auto simp: reached_ok_def\<close>)
  moreover have "holds F \<sigma> (mk_term B (op0 Or) [R, at r 0]) \<longleftrightarrow> (\<exists>q \<in> set (rs @ [r]). holds F (\<pi> 0) q)"
    if "all_states \<pi>" "unrolls_to F sys at \<sigma> \<pi>" for \<sigma> \<pi>
    using R that unrolls_current [OF that(2), of r 0] covered_mono [OF r, of "SV \<union> IV"]
    by (auto simp: reached_ok_def)
  ultimately show ?thesis by (simp add: reached_ok_def)
qed

lemma query_part:
  assumes R: "reached_ok rs R Ri" and c: "chain_ok i rs"
  shows "timed_at at SV 0 (if fs then Ri else R)"
    and "all_states \<pi> \<Longrightarrow> unrolls_to F sys at \<sigma> \<pi> \<Longrightarrow> holds F \<sigma> (if fs then Ri else R)
      \<longleftrightarrow> (if fs then holds F (\<pi> 0) (last rs) else (\<exists>r \<in> set rs. holds F (\<pi> 0) r))"
proof -
  have l: "covered (last rs) SV" using c by (simp add: chain_ok_def)
  show "timed_at at SV 0 (if fs then Ri else R)"
    using R timed_current [OF l, of 0] by (simp add: reached_ok_def)
  assume "all_states \<pi>" "unrolls_to F sys at \<sigma> \<pi>"
  then show "holds F \<sigma> (if fs then Ri else R)
      \<longleftrightarrow> (if fs then holds F (\<pi> 0) (last rs) else (\<exists>r \<in> set rs. holds F (\<pi> 0) r))"
    using R unrolls_current [of \<sigma> \<pi> "last rs" 0] covered_mono [OF l, of "SV \<union> IV"] by (simp add: reached_ok_def)
qed

definition imc_exit_ok :: "nat \<Rightarrow> imc_exit \<Rightarrow> ('s, 'i) imc \<Rightarrow> ('s, 'i) imc \<Rightarrow> bool" where
  "imc_exit_ok i ex p p' \<longleftrightarrow> (case ex of
       Proved \<Rightarrow> imc_proof i p'
     | Counterexample \<Rightarrow> imc_cex i p' \<and> im_concrete_cex p'
     | Exhausted c \<Rightarrow> \<exists>rs s it. chain_ok i rs \<and> length rs = Suc c \<and> 1 \<le> c \<and> stack_ok rs s
         \<and> p' = p\<lparr>pr_solver := s, im_itp := it\<rparr>)"

lemma imc_loop_ok:
  assumes i: "1 \<le> i"
  shows "imc_loop E I U opts n i R Ri (length rs - 1) p = Inr (ex, p') \<Longrightarrow> chain_ok i rs \<Longrightarrow>
    reached_ok rs R Ri \<Longrightarrow> stack_ok rs (pr_solver p) \<Longrightarrow> (length rs = 1 \<longrightarrow> R = init_at 0) \<Longrightarrow> imc_static i p \<Longrightarrow>
    imc_exit_ok i ex p p'"
proof (induction n arbitrary: rs R Ri p)
  case (Suc n)
  note st = Suc.prems(6)
  have ne: "rs \<noteq> []" and hd: "hd rs = ts_init sys" and cur: "\<forall>r \<in> set rs. covered r SV"
    using Suc.prems(2) by (simp_all add: chain_ok_def)
  define fA where "fA = and_term E (if io_frontier_simpl opts then Ri else R) (trans_at 0)"
  define fB where "fB = and_term E (im_transB p) (im_bad_disjuncts p)"
  obtain ans it where q: "ip_interpolant I (if io_backward opts then fB else fA)
      (if io_backward opts then fA else fB) (im_itp p) = (ans, it)" by (rule prod.exhaust)
  have tA: "im_transA p = trans_at 0" using st by (simp add: imc_static_def)
  note run = Suc.prems(1) [unfolded imc_loop.simps Let_def tA, folded fA_def fB_def, unfolded q prod.case]
  from run obtain r t where ans: "ans = Some (r, t)" by (cases ans) auto
  note run' = run [unfolded ans option.case prod.case]
  show ?case
  proof (cases "r = UNSAT")
    case True
    define t' where "t' = (if io_backward opts then not_term E t else t)"
    define rn where "rn = U t'"
    have q': "ip_interpolant I (if io_backward opts then fB else fA) (if io_backward opts then fA else fB) (im_itp p)
        = (Some (UNSAT, t), it)" using q ans True by simp
    have sp: "trans_ok (i - 1) (im_transB p)" "bad_ok i (im_bad_disjuncts p)" using st by (simp_all add: imc_static_def)
    let ?P = "\<lambda>s. if io_frontier_simpl opts then holds F s (last rs) else (\<exists>r \<in> set rs. holds F s r)"
    have qp: "\<forall>\<sigma> \<pi>. all_states \<pi> \<longrightarrow> unrolls_to F sys at \<sigma> \<pi> \<longrightarrow>
        holds F \<sigma> (if io_frontier_simpl opts then Ri else R) = ?P (\<pi> 0)"
      using query_part(2) [OF Suc.prems(3,2)] by blast
    note itp = new_interpolant [where P = ?P and bw = "io_backward opts" and fA = fA and fB = fB
        and X = "if io_frontier_simpl opts then Ri else R" and t = t,
      OF q' fA_def fB_def query_part(1) [OF Suc.prems(3,2)] qp sp i t'_def]
    have rn: "covered rn SV" and im: "image_ok (\<lambda>s. if io_frontier_simpl opts then holds F s (last rs)
          else (\<exists>r \<in> set rs. holds F s r)) (\<lambda>s. holds F s rn)"
      and far: "far_from_bad (i - 1) (\<lambda>s. holds F s rn)"
      and nb: "\<forall>\<pi>. segment F sys \<pi> (i - 1) \<and> holds F (\<pi> 0) rn \<longrightarrow> \<not> holds F (\<pi> 0) bad"
      using itp unfolding rn_def by blast+
    have "image_ok (\<lambda>s. holds F s (last rs)) (\<lambda>s. holds F s rn)"
      using im ne unfolding image_ok_def by (meson last_in_set)
    from chain_snoc [OF Suc.prems(2) rn this far nb] have chain: "chain_ok i (rs @ [rn])" .
    obtain conv s where h: "has_converged E (at rn 0) R (length rs) (pr_solver p) = (conv, s)" by (rule prod.exhaust)
    have R1: "length rs = 1 \<longrightarrow> R = at (hd rs) 0" using Suc.prems(5) hd by simp
    note cv = converged [OF h Suc.prems(4) rn R1 ne cur]
    have len: "Suc (length rs - 1) = length rs" using ne by simp
    note run2 = run' [unfolded True, simplified, folded t'_def, folded rn_def, unfolded len]
    show ?thesis
    proof (cases conv)
      case True
      with run2 h ne have p': "ex = Proved" "pr_invar p' = Some (U R)" by auto
      have "imc_proof i p'"
        by (rule chain_proof [OF chain ne Suc.prems(3) _ _ p'(2)])
          (use cv(2) [OF True] st in \<open>simp_all add: imc_static_def\<close>)
      with p'(1) show ?thesis by (simp add: imc_exit_ok_def)
    next
      case False
      with run2 h ne have rest: "imc_loop E I U opts n i (mk_term B (op0 Or) [R, at rn 0]) (at rn 0)
          (length (rs @ [rn]) - 1) (p\<lparr>im_itp := it, pr_solver := s\<rparr>) = Inr (ex, p')" by simp
      have "imc_exit_ok i ex (p\<lparr>im_itp := it, pr_solver := s\<rparr>) p'"
        by (rule Suc.IH [OF rest chain extend_reached [OF Suc.prems(3) ne rn]])
          (use cv(1) [OF False] st ne in simp_all)
      then show ?thesis by (auto simp: imc_exit_ok_def split: imc_exit.splits)
    qed
  next
    case r: False
    show ?thesis
    proof (cases "length rs = 1")
      case True
      obtain r' s where chk: "s_check S (s_assert S (and_term E (im_init0 p)
          (and_term E (and_term E (trans_at 0) (im_transB p)) (at bad i))) (s_push S (pr_solver p))) = (r', s)"
        by (rule prod.exhaust)
      from run' r True chk have ex: "ex = Counterexample" "r' = SAT"
        "p' = p\<lparr>im_itp := it, pr_solver := s, im_concrete_cex := True\<rparr>" by (auto simp: tA)
      obtain \<sigma> where m: "has_model s \<sigma>" and h: "\<And>t. t \<in> asserted (s_assert S (and_term E (im_init0 p)
          (and_term E (and_term E (trans_at 0) (im_transB p)) (at bad i))) (s_push S (pr_solver p))) \<Longrightarrow> holds F \<sigma> t"
        using check_sat_model [OF chk [unfolded ex(2)]] by metis
      have "holds F \<sigma> (and_term E (im_init0 p) (and_term E (and_term E (trans_at 0) (im_transB p)) (at bad i)))"
        by (rule h) simp
      then have hs: "holds F \<sigma> (init_at 0)" "holds F \<sigma> (trans_at 0)" "holds F \<sigma> (im_transB p)" "holds F \<sigma> (at bad i)"
        using st by (simp_all add: imc_static_def)
      have "holds F \<sigma> (trans_at j)" if "j < i" for j
        using hs(2,3) st that by (cases "j = 0") (auto simp: imc_static_def trans_ok_def)
      moreover have "\<not> cex F sys bad m" if "m < i" for m using st that by (auto simp: imc_static_def)
      ultimately show ?thesis using hs m st ex by (auto simp: imc_exit_ok_def imc_cex_def imc_static_def)
    next
      case False
      then have "length rs - 1 \<noteq> 0" using ne by (cases rs) auto
      with run' r have ex: "ex = Exhausted (length rs - 1)" "p' = p\<lparr>im_itp := it\<rparr>" by auto
      have "p' = p\<lparr>pr_solver := pr_solver p, im_itp := it\<rparr>" using ex(2) by simp
      moreover have "length rs = Suc (length rs - 1)" "1 \<le> length rs - 1" using \<open>length rs - 1 \<noteq> 0\<close> by simp_all
      ultimately show ?thesis using Suc.prems(2,4)
        unfolding imc_exit_ok_def ex(1) imc_exit.case by blast
    qed
  qed
qed simp

lemma initial_bad_ok:
  assumes c: "check_initial_bad E msg (init_at 0) s = Inr (found, s')" and s: "concat (frames s) = []" "frames s \<noteq> []"
  shows "\<not> found \<Longrightarrow> frames s' = frames s \<and> \<not> cex F sys bad 0"
    and "found \<Longrightarrow> \<exists>\<sigma>. has_model s' \<sigma> \<and> holds F \<sigma> (init_at 0) \<and> holds F \<sigma> (at bad 0)"
proof -
  obtain q s1 where chk: "s_check S (asserts S [init_at 0, at bad 0] (s_push S s)) = (q, s1)" by (rule prod.exhaust)
  have fr: "frames (s_pop S s1) = frames s"
    using frames_check [OF chk] by (simp add: frames_pop frames_asserts frames_push)
  have e: "asserted s = {}" using s(1) by (simp only: asserted_def list.set)
  show "frames s' = frames s \<and> \<not> cex F sys bad 0" if "\<not> found"
  proof -
    from c chk that have q: "q = UNSAT" "s' = s_pop S s1"
      by (auto simp: check_initial_bad_def Let_def split: smt_result.splits)
    have "\<not> satisfiable F [init_at 0, at bad 0]"
    proof
      assume "satisfiable F [init_at 0, at bad 0]"
      then obtain \<sigma> where "wsorted \<sigma>" "holds F \<sigma> (init_at 0)" "holds F \<sigma> (at bad 0)" by (auto simp: satisfiable_def)
      then show False using check_UNSAT_no_model [OF chk [unfolded q(1)], of \<sigma>] e by auto
    qed
    then show ?thesis using cex_satisfiable [OF bad_cur, of 0] fr q by simp
  qed
  show "\<exists>\<sigma>. has_model s' \<sigma> \<and> holds F \<sigma> (init_at 0) \<and> holds F \<sigma> (at bad 0)" if found
  proof -
    from c chk that have q: "q = SAT" "s' = s1"
      by (auto simp: check_initial_bad_def Let_def split: smt_result.splits)
    from check_sat_model [OF chk [unfolded q(1)]] q(2) show ?thesis by (metis asserted_asserts UnI1 list.set_intros)
  qed
qed

lemma extend_transB_ok:
  assumes "trans_ok (i - 1) t" and "1 \<le> i"
  shows "trans_ok (i - 1 + n) (extend_transB E i n t)"
proof (induction n)
  case 0
  then show ?case using assms by (simp add: extend_transB_def)
next
  case (Suc n)
  let ?t = "extend_transB E i n t"
  have e: "extend_transB E i (Suc n) t = and_term E ?t (trans_at (i + n))" by (simp add: extend_transB_def)
  have "since 1 (extend_transB E i (Suc n) t)"
    unfolding e and_term_def using symbols_mk2(2) Suc since_at [OF trans_cov, of 1 "i + n"] assms(2) by (simp add: trans_ok_def)
  moreover have "(\<forall>j. 1 \<le> j \<and> j \<le> i - 1 + Suc n \<longrightarrow> holds F \<sigma> (trans_at j))
      \<longleftrightarrow> (\<forall>j. 1 \<le> j \<and> j \<le> i - 1 + n \<longrightarrow> holds F \<sigma> (trans_at j)) \<and> holds F \<sigma> (trans_at (i + n))" for \<sigma>
  proof -
    have "j \<le> i - 1 + Suc n \<longleftrightarrow> j \<le> i - 1 + n \<or> j = i + n" for j using assms(2) by auto
    moreover have "1 \<le> i + n" using assms(2) by simp
    ultimately show ?thesis by blast
  qed
  ultimately show ?case using Suc unfolding trans_ok_def e by simp
qed

lemma chain_no_cex:
  assumes c: "chain_ok i rs" and len: "length rs = Suc n" and j: "1 \<le> j" "j \<le> n"
  shows "\<not> cex F sys bad (j + (i - 1))"
proof
  assume "cex F sys bad (j + (i - 1))"
  then obtain \<pi> where p: "ts_path F sys \<pi> (j + (i - 1))" "holds F (\<pi> (j + (i - 1))) bad" by (auto simp: cex_def)
  let ?Ps = "map (\<lambda>r s. holds F s r) rs"
  have "(?Ps ! j) (\<pi> j)"
  proof (rule chain_states)
    show "image_ok (?Ps ! m) (?Ps ! Suc m)" if "Suc m < length ?Ps" for m
      using c that by (simp add: chain_ok_def)
    show "segment F sys \<pi> (j + (i - 1))" using p(1) by (simp add: ts_path_def)
    show "(?Ps ! 0) (\<pi> 0)" using c p(1) len by (cases rs) (auto simp: chain_ok_def ts_path_def ts_initial_def)
  qed (use j len in simp_all)
  moreover have "rs ! j \<in> set (tl rs)" using j len nth_tl [of "j - 1" rs] nth_mem [of "j - 1" "tl rs"] by simp
  then have "far_from_bad (i - 1) (\<lambda>s. holds F s (rs ! j))" using c by (simp add: chain_ok_def)
  ultimately show False using far_no_cex p j len by simp
qed

lemma imc_step_0_ok:
  assumes inv: "imc_inv r p" and run: "imc_step_0 E p = Inr (b, p')" and r: "r = -1"
  shows "\<not> b" and "im_concrete_cex p' \<Longrightarrow> imc_cex 0 p'" and "\<not> im_concrete_cex p' \<Longrightarrow> imc_inv 0 p'"
proof -
  have f: "im_init0 p = init_at 0" "concat (frames (pr_solver p)) = []" "frames (pr_solver p) \<noteq> []"
    "\<not> im_concrete_cex p" using inv by (simp_all add: imc_inv_def)
  from run obtain cx s where c: "check_initial_bad E ''Interp: step_0 failed, unexpected result: '' (init_at 0) (pr_solver p) = Inr (cx, s)"
    and p': "b = False" "p' = (if cx then p\<lparr>pr_solver := s, im_concrete_cex := True\<rparr> else p\<lparr>pr_solver := s, pr_reached_k := 0\<rparr>)"
    by (auto simp: imc_step_0_def bindE_Inr_iff f(1))
  note ib = initial_bad_ok [OF c f(2,3)]
  show "\<not> b" using p' by simp
  show "imc_cex 0 p'" if "im_concrete_cex p'"
  proof -
    have cx using that p' f(4) by (auto split: if_splits)
    with ib(2) p' inv r show ?thesis by (auto simp: imc_cex_def imc_inv_def)
  qed
  show "imc_inv 0 p'" if "\<not> im_concrete_cex p'"
  proof -
    have "\<not> cx" using that p' by (auto split: if_splits)
    with ib(1) p' inv r show ?thesis by (auto simp: imc_inv_def)
  qed
qed

lemma imc_step_ok:
  assumes inv: "imc_inv r p" and run: "imc_step E I U opts fuel i p = Inr (b, p')" and i: "int i \<le> r + 1"
  shows "b \<Longrightarrow> imc_proof i p'" and "\<not> b \<Longrightarrow> im_concrete_cex p' \<Longrightarrow> imc_cex i p'"
    and "\<not> b \<Longrightarrow> \<not> im_concrete_cex p' \<Longrightarrow> \<exists>r'. imc_inv r' p' \<and> int i \<le> r'"
proof -
  have "(b \<longrightarrow> imc_proof i p') \<and> (\<not> b \<and> im_concrete_cex p' \<longrightarrow> imc_cex i p')
    \<and> (\<not> b \<and> \<not> im_concrete_cex p' \<longrightarrow> (\<exists>r'. imc_inv r' p' \<and> int i \<le> r'))"
  proof (cases "int i \<le> r")
    case True
    with run inv have "b = False" "p' = p" by (simp_all add: imc_step_def imc_inv_def)
    with inv True show ?thesis by (auto simp: imc_inv_def)
  next
    case False
    with i have ri: "r = int i - 1" by simp
    show ?thesis
    proof (cases "i = 0")
      case True
      with run inv ri have "imc_step_0 E p = Inr (b, p')" by (simp add: imc_step_def imc_inv_def)
      from imc_step_0_ok [OF inv this] ri True show ?thesis by auto
    next
      case i0: False
      then have i1: "1 \<le> i" by simp
      let ?bd = "mk_term B (op0 Or) [if io_first_and_last opts then at bad 1 else im_bad_disjuncts p, at bad i]"
      let ?p = "p\<lparr>im_bad_disjuncts := ?bd\<rparr>"
      have bcov: "covered bad (ts_vars sys)" using covered_mono [OF bad_current sv_vars] .
      have "since 1 (if io_first_and_last opts then at bad 1 else im_bad_disjuncts p)"
        using inv since_at [OF bcov, of 1 1] by (simp add: imc_inv_def)
      then have "since 1 ?bd" using symbols_mk2(2) since_at [OF bcov i1] by blast
      moreover have "holds F \<sigma> ?bd" if "holds F \<sigma> (at bad i) \<or> holds F \<sigma> (at bad 1)" for \<sigma>
      proof (cases "i = 1")
        case False
        then have "1 \<le> r" using ri i0 by simp
        with inv that show ?thesis by (auto simp: imc_inv_def)
      qed (use that in auto)
      ultimately have bd: "bad_ok i ?bd" by (simp add: bad_ok_def)
      have ir: "nat r = i - 1" using ri i1 by simp
      have "\<forall>m \<le> i - 1. \<not> cex F sys bad m" using inv ri i1 by (simp add: imc_inv_def)
      with inv bd ri ir have st: "imc_static i ?p" by (simp add: imc_static_def imc_inv_def)
      have chain: "chain_ok i [ts_init sys]" using init_cov by (simp add: chain_ok_def)
      have R: "reached_ok [ts_init sys] (init_at 0) (init_at 0)"
        using timed_current [OF init_cov, of 0] unrolls_current [of _ _ "ts_init sys" 0] covered_mono [OF init_cov, of "SV \<union> IV"]
        by (simp add: reached_ok_def)
      have fs: "im_init0 p = init_at 0" "stack_ok [ts_init sys] (pr_solver ?p)" using inv by (simp_all add: imc_inv_def stack_ok_def)
      have "bindE (imc_loop E I U opts fuel i (init_at 0) (init_at 0) 0 ?p) (\<lambda>(ex, p2). case ex of
            Proved \<Rightarrow> Inr (True, p2) | Counterexample \<Rightarrow> Inr (False, p2)
          | Exhausted count \<Rightarrow> Inr (False, (on_solver (s_pop S) p2)
              \<lparr>im_transB := extend_transB E i (if io_eager_unroll opts then count else 1) (im_transB (on_solver (s_pop S) p2)),
               pr_reached_k := (if io_eager_unroll opts then int count + int i - 1 else int i)\<rparr>)) = Inr (b, p')"
        using run False i0 inv unfolding imc_step_def Let_def imc_inv_def by (simp split del: if_split)
      then obtain ex p2 where loop: "imc_loop E I U opts fuel i (init_at 0) (init_at 0) (length [ts_init sys] - 1) ?p = Inr (ex, p2)"
        and fin: "(case ex of Proved \<Rightarrow> Inr (True, p2) | Counterexample \<Rightarrow> Inr (False, p2)
          | Exhausted count \<Rightarrow> Inr (False, (on_solver (s_pop S) p2)
              \<lparr>im_transB := extend_transB E i (if io_eager_unroll opts then count else 1) (im_transB (on_solver (s_pop S) p2)),
               pr_reached_k := (if io_eager_unroll opts then int count + int i - 1 else int i)\<rparr>)) = (Inr (b, p') :: (bool \<times> ('s, 'i) imc) result)"
        unfolding bindE_Inr_iff by auto
      have ok: "imc_exit_ok i ex ?p p2" by (rule imc_loop_ok [OF i1 loop chain R fs(2) _ st]) simp
      show ?thesis
      proof (cases ex)
        case Proved
        with fin ok show ?thesis by (simp add: imc_exit_ok_def)
      next
        case Counterexample
        with fin ok show ?thesis by (simp add: imc_exit_ok_def)
      next
        case (Exhausted c)
        with ok obtain rs s it where x: "chain_ok i rs" "length rs = Suc c" "1 \<le> c" "stack_ok rs s"
          "p2 = ?p\<lparr>pr_solver := s, im_itp := it\<rparr>" by (auto simp: imc_exit_ok_def)
        define n where "n = (if io_eager_unroll opts then c else 1)"
        define r' where "r' = i - 1 + n"
        have p': "b = False" "p' = ?p\<lparr>pr_solver := s_pop S s, im_itp := it, im_transB := extend_transB E i n (im_transB p),
            pr_reached_k := int r'\<rparr>"
          using fin Exhausted x(5) i1 by (auto simp: on_solver_def n_def r'_def)
        have "concat (frames (s_pop S s)) = [] \<and> frames (s_pop S s) \<noteq> []"
          using x(2,3,4) by (simp add: stack_ok_def frames_pop split: if_splits)
        moreover have "trans_ok (r') (extend_transB E i n (im_transB p))"
          unfolding r'_def by (rule extend_transB_ok [OF _ i1]) (use inv ir in \<open>simp add: imc_inv_def\<close>)
        moreover have "\<not> cex F sys bad m" if "m \<le> r'" for m
        proof (cases "m \<le> i - 1")
          case True
          with st show ?thesis by (simp add: imc_static_def)
        next
          case False
          with that x(3) have "1 \<le> m - (i - 1)" "m - (i - 1) \<le> c" by (auto simp: r'_def n_def split: if_splits)
          from chain_no_cex [OF x(1,2) this] False show ?thesis by simp
        qed
        ultimately have "imc_inv (int r') p'"
          using inv bd p' by (simp add: imc_inv_def bad_ok_def)
        moreover have "int i \<le> int r'" using x(3) i1 by (simp add: r'_def n_def)
        moreover have "\<not> im_concrete_cex p'" using p' inv by (simp add: imc_inv_def)
        ultimately show ?thesis using p'(1) by blast
      qed
    qed
  qed
  then show "b \<Longrightarrow> imc_proof i p'" "\<not> b \<Longrightarrow> im_concrete_cex p' \<Longrightarrow> imc_cex i p'"
    "\<not> b \<Longrightarrow> \<not> im_concrete_cex p' \<Longrightarrow> \<exists>r'. imc_inv r' p' \<and> int i \<le> r'" by blast+
qed

definition imc_result :: "nat \<Rightarrow> prover_result \<Rightarrow> ('s, 'i) imc \<Rightarrow> bool" where
  "imc_result n res p \<longleftrightarrow> (case res of
       PR_TRUE \<Rightarrow> \<exists>i. imc_proof i p
     | PR_FALSE \<Rightarrow> \<exists>i q. i < n \<and> imc_cex i q \<and> p = compute_witness E q
     | PR_UNKNOWN \<Rightarrow> \<forall>m < n. \<not> cex F sys bad m
     | PR_ERROR \<Rightarrow> False)"

lemma imc_bounds_ok:
  "imc_inv r p \<Longrightarrow> int i \<le> r + 1 \<Longrightarrow> i \<le> n \<Longrightarrow> imc_bounds E I U opts fuel [i..<n] p = Inr (res, p') \<Longrightarrow>
    imc_result n res p'"
proof (induction "n - i" arbitrary: i r p)
  case 0
  then have "res = PR_UNKNOWN" "p' = p" "i = n" by simp_all
  with 0 show ?case by (simp add: imc_result_def imc_inv_def)
next
  case (Suc d)
  then have "[i..<n] = i # [Suc i..<n]" by (simp add: upt_conv_Cons)
  with Suc.prems(4) obtain b p1 where s: "imc_step E I U opts fuel i p = Inr (b, p1)"
    and rest: "(if b then Inr (PR_TRUE, p1) else if im_concrete_cex p1 then Inr (PR_FALSE, compute_witness E p1)
      else imc_bounds E I U opts fuel [Suc i..<n] p1) = Inr (res, p')"
    by (auto simp: bindE_Inr_iff)
  note ok = imc_step_ok [OF Suc.prems(1) s Suc.prems(2)]
  consider "b" | "\<not> b" "im_concrete_cex p1" | "\<not> b" "\<not> im_concrete_cex p1" by blast
  then show ?case
  proof cases
    case 1
    with rest ok(1) show ?thesis by (auto simp: imc_result_def)
  next
    case 2
    with rest ok(2) \<open>[i..<n] = i # [Suc i..<n]\<close> show ?thesis by (auto simp: imc_result_def upt_eq_Cons_conv)
  next
    case 3
    with ok(3) obtain r' where r': "imc_inv r' p1" "int i \<le> r'" by blast
    from 3 rest have "imc_bounds E I U opts fuel [Suc i..<n] p1 = Inr (res, p')" by simp
    from Suc.hyps(1) [OF _ r'(1) _ _ this] r'(2) Suc.hyps(2) show ?thesis by simp
  qed
qed

lemma imc_start:
  assumes "imc_initialize E I p = Inr p1" and "\<not> pr_initialized p" and "pr_witness p = []"
    and "concat (frames (pr_solver p)) = []" and "frames (pr_solver p) \<noteq> []"
  shows "imc_inv (-1) p1"
  using assms by (auto simp: imc_initialize_def bindE_Inr_iff prover_initialize_def imc_inv_def trans_ok_def)

lemma imc_check_ok:
  assumes "imc_check_until E I U opts fuel k p = Inr (res, p')" and "\<not> pr_initialized p" and "pr_witness p = []"
    and "concat (frames (pr_solver p)) = []" and "frames (pr_solver p) \<noteq> []"
  shows "imc_result (nat (k + 1)) res p' \<or> res = PR_UNKNOWN \<and> (\<exists>p1. imc_inv (-1) p1
    \<and> imc_bounds E I U opts fuel [0..<nat (k + 1)] p1 = Inl InternalSolverException)"
proof -
  from assms(1) obtain p1 where p1: "imc_initialize E I p = Inr p1"
    and run: "(case imc_bounds E I U opts fuel [0..<nat (k + 1)] p1 of
         Inl InternalSolverException \<Rightarrow> Inr (PR_UNKNOWN, p1) | r \<Rightarrow> r) = Inr (res, p')"
    by (auto simp: imc_check_until_def bindE_Inr_iff)
  have inv: "imc_inv (-1) p1" by (rule imc_start [OF p1 assms(2-5)])
  show ?thesis
  proof (cases "imc_bounds E I U opts fuel [0..<nat (k + 1)] p1")
    case (Inl e)
    with run inv show ?thesis by (cases e) auto
  next
    case (Inr x)
    with run have "imc_bounds E I U opts fuel [0..<nat (k + 1)] p1 = Inr (res, p')" by simp
    from imc_bounds_ok [OF inv _ _ this] show ?thesis by simp
  qed
qed

text \<open>The witness that an engine computes in the model of a counterexample.\<close>

lemma engine_cex_witness:
  assumes m: "has_model (pr_solver q) \<sigma>" "holds F \<sigma> (init_at 0)" "\<And>j. j < i \<Longrightarrow> holds F \<sigma> (trans_at j)"
    "holds F \<sigma> (at bad i)" and q: "pr_witness q = []" "pr_reached_k q = int i - 1"
  shows "\<exists>\<pi>. ts_path F sys \<pi> i \<and> holds F (\<pi> i) bad \<and> length (pr_witness (compute_witness E q)) = i + 1
    \<and> (\<forall>m \<le> i. \<forall>v \<in> set (ts_statevars sys) \<union> set (ts_inputvars sys).
          map_of (pr_witness (compute_witness E q) ! m) v = Some (Val (\<pi> m (sym_of v)) (get_sort v)))"
proof -
  have n: "nat (pr_reached_k q + 1) = i" using q(2) by simp
  from model_witness [OF m(1,2) _ q(1)] m(3) q(2) n obtain \<pi> where p: "unrolls_to F sys at \<sigma> \<pi>" "ts_path F sys \<pi> i"
    "length (pr_witness (compute_witness E q)) = i + 1"
    "\<forall>m \<le> i. \<forall>v \<in> set (ts_statevars sys) \<union> set (ts_inputvars sys).
          map_of (pr_witness (compute_witness E q) ! m) v = Some (Val (\<pi> m (sym_of v)) (get_sort v))" by auto
  have "holds F (\<pi> i) bad" using m(4) unrolls_current [OF p(1) bad_cur, of i] by simp
  with p show ?thesis by blast
qed

lemma imc_cex_witness:
  assumes "imc_cex i q"
  shows "\<exists>\<pi>. ts_path F sys \<pi> i \<and> holds F (\<pi> i) bad \<and> length (pr_witness (compute_witness E q)) = i + 1
    \<and> (\<forall>m \<le> i. \<forall>v \<in> set (ts_statevars sys) \<union> set (ts_inputvars sys).
          map_of (pr_witness (compute_witness E q) ! m) v = Some (Val (\<pi> m (sym_of v)) (get_sort v)))"
proof -
  from assms obtain \<sigma> where m: "has_model (pr_solver q) \<sigma>" "holds F \<sigma> (init_at 0)" "\<And>j. j < i \<Longrightarrow> holds F \<sigma> (trans_at j)"
    "holds F \<sigma> (at bad i)" and q: "pr_witness q = []" "pr_reached_k q = int i - 1" by (auto simp: imc_cex_def)
  from engine_cex_witness [OF m q] show ?thesis .
qed

lemma total_segment:
  assumes "\<forall>s. wsorted s \<longrightarrow> (\<exists>t. ts_step F sys s t)" and "wsorted s"
  shows "\<exists>\<pi>. segment F sys \<pi> n \<and> \<pi> 0 = s"
proof (induction n)
  case 0
  show ?case using assms(2) by (intro exI [of _ "\<lambda>_. s"]) (simp add: segment_def)
next
  case (Suc n)
  then obtain \<pi> where p: "segment F sys \<pi> n" "\<pi> 0 = s" by blast
  then have "wsorted (\<pi> n)" by (simp add: segment_def)
  with assms(1) obtain t where "ts_step F sys (\<pi> n) t" by blast
  with segment_update [OF p(1), of "Suc n" t] p(2) have "segment F sys (\<pi>(Suc n := t)) (Suc n)" by (simp add: segment_Suc)
  moreover have "(\<pi>(Suc n := t)) 0 = s" using p(2) by simp
  ultimately show ?case by blast
qed

end

section \<open>The engines' environment\<close>

lemma copy_unique:
  assumes B: "smt_terms B F" and "is_symbol v" and "is_symbol w" and "tid_ok tid"
  shows "is_copy_of B tid (timed B tid v k) w \<longleftrightarrow> v = w"
proof -
  note str = smt_terms.term_str_sym [OF B]
  obtain n s m r where v: "v = Sym n s" and w: "w = Sym m r" using assms(2,3) by (cases v; cases w) auto
  obtain p a where tid: "tid = p @ [a]" "\<not> is_digit a" using assms(4) by (metis tid_ok_def append_butlast_last_id)
  show ?thesis
  proof
    assume c: "is_copy_of B tid (timed B tid v k) w"
    let ?d = "drop (length (m @ tid)) (n @ tid @ nat_str k)"
    have pre: "take (length (m @ tid)) (n @ tid @ nat_str k) = m @ tid" and d: "\<forall>x \<in> set ?d. is_digit x" and "r = s"
      using c by (simp_all add: v w is_copy_of_def timed_def str Let_def list_all_iff)
    have "n @ tid @ nat_str k = (m @ tid) @ ?d" using append_take_drop_id [of "length (m @ tid)" "n @ tid @ nat_str k"] pre by metis
    then have "(n @ p) @ a # nat_str k = (m @ p) @ a # ?d" using tid(1) by simp
    from split_digits [OF nat_str_digits d tid(2) tid(2) this] \<open>r = s\<close> show "v = w" by (simp add: v w)
  next
    assume "v = w"
    then show "is_copy_of B tid (timed B tid v k) w"
      using nat_str_digits [of k] by (simp add: w is_copy_of_def timed_def str Let_def list_all_iff)
  qed
qed

lemma untime_map_lookup:
  assumes B: "smt_terms B F" and wf: "ts_wf ts" and t: "tid_ok tid"
    and v: "v \<in> set (ts_statevars ts) \<union> set (ts_inputvars ts)" and c: "timed B tid v k \<in> set (free_consts B t)"
  shows "map_of (untime_map B tid ts t) (timed B tid v k) = Some v"
proof -
  have sym: "is_symbol w" if "w \<in> set (ts_statevars ts) \<union> set (ts_inputvars ts)" for w
    using wf_symbolic [OF wf, of w] that by (auto simp: ts_vars_def)
  have only: "w = v" if "(timed B tid v k, w) \<in> set (untime_map B tid ts t)" for w
    using that copy_unique [OF B sym [OF v] sym t, of w k] by (auto simp: untime_map_def)
  have "(timed B tid v k, v) \<in> set (untime_map B tid ts t)"
    using c v copy_unique [OF B sym [OF v] sym [OF v] t, of k] by (auto simp: untime_map_def)
  then have "map_of (untime_map B tid ts t) (timed B tid v k) \<noteq> None"
    unfolding map_of_None_iff by force
  then obtain w where w: "map_of (untime_map B tid ts t) (timed B tid v k) = Some w" by blast
  with only [OF map_of_SomeD [OF w]] show ?thesis by simp
qed

lemma unroll_var:
  assumes "ts_wf ts" and "v \<in> set (ts_statevars ts) \<union> set (ts_inputvars ts)"
  shows "unroll B tid ts v k = timed B tid v k"
  using assms by (simp add: unroll_def use_cache_def level_map_lookup)

lemma untime_map_env:
  assumes B: "smt_terms B F" and wf: "ts_wf ts" and t: "tid_ok tid"
    and tm: "timed_at (unroll B tid ts) (set (ts_statevars ts) \<union> set (ts_inputvars ts)) k t" and x: "x \<in> syms t"
  shows "is_fun_sort (snd x) \<Longrightarrow> map_of (untime_map B tid ts t) (tm_of x) = None"
    and "\<not> is_fun_sort (snd x) \<Longrightarrow> \<exists>v \<in> set (ts_statevars ts) \<union> set (ts_inputvars ts).
      tm_of x = timed B tid v k \<and> map_of (untime_map B tid ts t) (tm_of x) = Some v"
proof -
  assume "is_fun_sort (snd x)"
  then have "tm_of x \<notin> set (free_consts B t)" using smt_terms.set_free_consts [OF B, of t] by auto
  then have "tm_of x \<notin> fst ` set (untime_map B tid ts t)" by (auto simp: untime_map_def)
  then show "map_of (untime_map B tid ts t) (tm_of x) = None" by (simp only: map_of_None_iff not_False_eq_True)
next
  assume f: "\<not> is_fun_sort (snd x)"
  with tm x obtain v where v: "v \<in> set (ts_statevars ts) \<union> set (ts_inputvars ts)" "tm_of x = timed B tid v k"
    unfolding timed_at_def using unroll_var [OF wf] by metis
  have "tm_of x \<in> set (free_consts B t)" using smt_terms.set_free_consts [OF B, of t] x f by auto
  then have "map_of (untime_map B tid ts t) (tm_of x) = Some v"
    using untime_map_lookup [OF B wf t v(1), of k t] v(2) by simp
  with v show "\<exists>v \<in> set (ts_statevars ts) \<union> set (ts_inputvars ts).
      tm_of x = timed B tid v k \<and> map_of (untime_map B tid ts t) (tm_of x) = Some v" by blast
qed

lemma pair_env_frame_fun:
  assumes wf: "ts_wf ts" and "is_fun_sort (snd x)"
  shows "pair_env ts s t x = s x"
proof -
  have "tm_of x \<notin> ts_vars ts" using wf_not_fun [OF wf] assms(2) by (metis prod.collapse)
  then have "map_of (ts_curr_map ts) (tm_of x) = None"
    using wf_curr_keys [OF wf] by (simp add: map_of_None_iff ts_vars_def)
  then show ?thesis by (simp add: pair_env_def)
qed

lemma proj_fun:
  assumes wf: "ts_wf ts" and "is_fun_sort (snd x)"
  shows "proj B tid ts \<sigma> k x = \<sigma> x"
proof -
  have "tm_of x \<notin> ts_vars ts" using wf_not_fun [OF wf] assms(2) by (metis prod.collapse)
  then show ?thesis by (simp add: proj_def ts_vars_def)
qed

lemma sym_map_untime:
  assumes B: "smt_terms B F"
  shows "sym_map (untime_map B tid ts t)"
  unfolding sym_map_iff using smt_terms.set_free_consts [OF B, of t] by (auto simp: untime_map_def)

lemma make_env_untiming:
  assumes S: "smt_engine S F frames" and wf: "ts_wf ts" and p: "covered prop (set (ts_statevars ts))"
  shows "untiming (make_env S ts prop) F frames (untimed (builder S) ''@'' ts)"
proof -
  let ?B = "builder S" and ?V = "set (ts_statevars ts) \<union> set (ts_inputvars ts)"
  let ?at = "unroll ?B ''@'' ts"
  have B: "smt_terms ?B F" using S by (simp add: smt_engine_def)
  have tid: "tid_ok ''@''" by (simp add: tid_ok_def)
  have "(\<exists>v \<in> ?V. ?at v k = tm_of x) \<or> (\<exists>v \<in> set (ts_statevars ts). ?at v (Suc k) = tm_of x)"
    if "covered t (ts_vars ts)" "x \<in> syms (?at t k)" "\<not> is_fun_sort (snd x)" for t x k
  proof -
    from syms_unroll_vars [OF B wf that] obtain y where y: "tm_of y \<in> ts_vars ts" "y \<in> syms t"
      "map_of (level_map ?B ''@'' ts k) (tm_of y) = Some (tm_of x)" by blast
    show ?thesis
    proof (cases "tm_of y \<in> ?V")
      case True
      then have "?at (tm_of y) k = tm_of x" using y(3) unroll_var [OF wf True] by (simp add: level_map_lookup [OF wf])
      with True show ?thesis by blast
    next
      case False
      with y(3) obtain w where w: "map_of (ts_curr_map ts) (tm_of y) = Some w" "tm_of x = timed ?B ''@'' w (Suc k)"
        by (auto simp: level_map_lookup [OF wf] split: if_splits option.splits)
      then have "w \<in> set (ts_statevars ts)" using next_symbol [OF wf] wf_maps_inverse [OF wf] by blast
      then show ?thesis using w(2) unroll_var [OF wf, of w] by (intro disjI2 bexI [of _ w]) simp_all
    qed
  qed
  moreover have "\<exists>v \<in> V. ?at v k = tm_of x"
    if "covered t V" "V \<subseteq> ?V" "x \<in> syms (?at t k)" "\<not> is_fun_sort (snd x)" for t V x k
  proof -
    have "covered t (ts_vars ts)" by (rule covered_mono [OF that(1)]) (use that(2) in \<open>auto simp: ts_vars_def\<close>)
    from syms_unroll_vars [OF B wf this that(3,4)] obtain y where y: "tm_of y \<in> ts_vars ts" "y \<in> syms t"
      "map_of (level_map ?B ''@'' ts k) (tm_of y) = Some (tm_of x)" by blast
    have "\<not> is_fun_sort (snd y)" using y(1) wf_not_fun [OF wf] by (metis prod.collapse)
    with that(1) y(2) have v: "tm_of y \<in> V" by (auto simp: covered_def)
    with y(3) that(2) unroll_var [OF wf, of "tm_of y"] show ?thesis
      by (intro bexI [of _ "tm_of y"]) (auto simp: level_map_lookup [OF wf])
  qed
  moreover have "v = w \<and> i = j" if "v \<in> ?V" "w \<in> ?V" "?at v i = ?at w j" for v w i j
  proof -
    have "v \<in> ts_vars ts" "w \<in> ts_vars ts" using that(1,2) by (auto simp: ts_vars_def)
    then obtain n s m r where "v = Sym n s" "w = Sym m r" using wf_symbolic [OF wf] by (metis is_symbolic_constE)
    with timed_inj [OF B tid] that(3) unroll_var [OF wf that(1)] unroll_var [OF wf that(2)] show ?thesis by simp
  qed
  moreover have "covered (untimed ?B ''@'' ts t) V" if "timed_at ?at V k t" "V \<subseteq> ?V" for V k t
    unfolding covered_def
  proof (intro ballI impI)
    fix x assume x: "x \<in> syms (untimed ?B ''@'' ts t)" "\<not> is_fun_sort (snd x)"
    have "x \<in> subst_syms (untime_map ?B ''@'' ts t) (syms t)"
      by (rule subsetD [OF smt_terms.syms_substitute [OF B sym_map_untime [OF B]]])
        (use x(1) in \<open>simp add: untimed_def\<close>)
    then obtain y where y: "y \<in> syms t"
      "x \<in> (case map_of (untime_map ?B ''@'' ts t) (tm_of y) of None \<Rightarrow> {y} | Some u \<Rightarrow> syms u)"
      by (auto simp: subst_syms_def)
    have tm: "timed_at ?at ?V k t" using that by (auto simp: timed_at_def)
    note e = untime_map_env [OF B wf tid tm y(1)]
    show "tm_of x \<in> V"
    proof (cases "is_fun_sort (snd y)")
      case True
      with e(1) y(2) x(2) show ?thesis by simp
    next
      case False
      with e(2) obtain v where v: "v \<in> ?V" "tm_of y = timed ?B ''@'' v k" "map_of (untime_map ?B ''@'' ts t) (tm_of y) = Some v"
        by blast
      from that(1) y(1) False obtain w where w: "w \<in> V" "?at w k = tm_of y" by (auto simp: timed_at_def)
      have "is_symbolic_const v" using wf_symbolic [OF wf, of v] v(1) by (auto simp: ts_vars_def)
      then obtain n st where n: "v = Sym n st" by (rule is_symbolic_constE)
      have "w \<in> ?V" using w(1) that(2) by blast
      then have "is_symbolic_const w" using wf_symbolic [OF wf, of w] by (auto simp: ts_vars_def)
      then obtain m r where "w = Sym m r" by (rule is_symbolic_constE)
      with timed_inj [OF B tid, of n st k m r k] w(2) v(2) n unroll_var [OF wf \<open>w \<in> ?V\<close>] have "v = w" by simp
      with v(3) y(2) n w(1) show ?thesis by simp
    qed
  qed
  moreover have "eval F (\<pi> k) (untimed ?B ''@'' ts t) = eval F \<sigma> t"
    if tm: "timed_at ?at ?V k t" and u: "unrolls_to F ts ?at \<sigma> \<pi>" for t k \<sigma> \<pi>
  proof -
    have "subst_env F (\<pi> k) (untime_map ?B ''@'' ts t) x = \<sigma> x" if x: "x \<in> syms t" for x
    proof (cases "is_fun_sort (snd x)")
      case True
      with untime_map_env(1) [OF B wf tid tm x] have "subst_env F (\<pi> k) (untime_map ?B ''@'' ts t) x = \<pi> k x"
        by (simp add: subst_env_def)
      also have "\<dots> = eval F \<sigma> (?at (tm_of x) k)"
      proof -
        have "covered (tm_of x) (ts_vars ts)" using True by (simp add: covered_def)
        with u have "eval F \<sigma> (?at (tm_of x) k) = pair_env ts (\<pi> k) (\<pi> (Suc k)) x" by (simp add: unrolls_to_def)
        then show ?thesis using pair_env_frame_fun [OF wf True] by simp
      qed
      also have "\<dots> = \<sigma> x" using True by (simp add: eval_unroll [OF B wf] pair_env_frame_fun [OF wf] proj_fun [OF wf])
      finally show ?thesis .
    next
      case False
      with untime_map_env(2) [OF B wf tid tm x] obtain v where v: "v \<in> ?V" "tm_of x = timed ?B ''@'' v k"
        "map_of (untime_map ?B ''@'' ts t) (tm_of x) = Some v" by blast
      have "is_symbolic_const v" using wf_symbolic [OF wf, of v] v(1) by (auto simp: ts_vars_def)
      then obtain n st where n: "v = Sym n st" by (rule is_symbolic_constE)
      have "covered v ?V" using v(1) n by (simp add: covered_def)
      then have "eval F \<sigma> (?at v k) = eval F (\<pi> k) v"
        using u eval_pair_current [OF wf] covered_vars(2) unfolding unrolls_to_def by fastforce
      moreover have "?at v k = tm_of x" using unroll_var [OF wf v(1)] v(2) by simp
      ultimately show ?thesis using v(3) by (simp add: subst_env_def)
    qed
    then have "eval F (subst_env F (\<pi> k) (untime_map ?B ''@'' ts t)) t = eval F \<sigma> t" by (intro eval_cong)
    then show ?thesis unfolding untimed_def smt_terms.eval_substitute [OF B sym_map_untime [OF B]] .
  qed
  ultimately show ?thesis
    using make_env_engine [OF S wf p] unfolding untiming_def untiming_axioms_def env_fields by blast
qed

end
