(* ===== verification/Interp_Seq_Correct.thy ===== *)
theory Interp_Seq_Correct
  imports Interpolation_Correct
begin

section \<open>Interpolation sequences\<close>

lemma set_take_nth: "x \<in> set (take n xs) \<Longrightarrow> \<exists>m. m < n \<and> m < length xs \<and> x = xs ! m"
  by (force simp: in_set_conv_nth)

lemma set_drop_nth: "x \<in> set (drop n xs) \<Longrightarrow> \<exists>m. n \<le> m \<and> m < length xs \<and> x = xs ! m"
proof -
  assume "x \<in> set (drop n xs)"
  then obtain j where "j < length (drop n xs)" "x = drop n xs ! j" by (auto simp: in_set_conv_nth)
  then show ?thesis by (intro exI [of _ "n + j"]) auto
qed

context itp_engine
begin

text \<open>The reachability sequence after bound \<open>n\<close>: each set leads to the next, none meets a bad state.\<close>

definition reach_ok :: "nat \<Rightarrow> tm list \<Rightarrow> bool" where
  "reach_ok n Rs \<longleftrightarrow> length Rs = Suc n \<and> hd Rs = ts_init sys \<and> (\<forall>R \<in> set Rs. covered R SV)
     \<and> (\<forall>j. Suc j < length Rs \<longrightarrow> image_ok (\<lambda>s. holds F s (Rs ! j)) (\<lambda>s. holds F s (Rs ! Suc j)))
     \<and> (\<forall>j < length Rs. \<forall>s. wsorted s \<and> holds F s (Rs ! j) \<longrightarrow> \<not> holds F s bad)"

definition trans_seq_of :: "nat \<Rightarrow> tm list" where
  "trans_seq_of n = map (\<lambda>j. if j = 0 then and_term E (init_at 0) (trans_at 0) else trans_at j) [0..<n]"

definition ismc_inv :: "int \<Rightarrow> ('s, 'i) ismc \<Rightarrow> bool" where
  "ismc_inv r p \<longleftrightarrow> pr_initialized p \<and> pr_reached_k p = r \<and> -1 \<le> r \<and> pr_witness p = [] \<and> \<not> is_concrete_cex p
     \<and> concat (frames (pr_solver p)) = [] \<and> frames (pr_solver p) \<noteq> []
     \<and> is_trans_seq p = trans_seq_of (nat r)
     \<and> (if r = -1 then is_reach_seq p = [ts_init sys] else reach_ok (nat r) (is_reach_seq p))"

definition ismc_cex :: "nat \<Rightarrow> ('s, 'i) ismc \<Rightarrow> bool" where
  "ismc_cex i p \<longleftrightarrow> pr_witness p = [] \<and> pr_reached_k p = int i - 1
     \<and> (\<exists>\<sigma>. has_model (pr_solver p) \<sigma> \<and> holds F \<sigma> (init_at 0)
          \<and> (\<forall>j < i. holds F \<sigma> (trans_at j)) \<and> holds F \<sigma> (at bad i))
     \<and> (\<forall>m < i. \<not> cex F sys bad m)"

definition ismc_proof :: "('s, 'i) ismc \<Rightarrow> bool" where
  "ismc_proof p \<longleftrightarrow> safe F sys bad \<and> (\<exists>iv. pr_invar p = Some iv \<and> covered iv SV
     \<and> (\<forall>s. ts_initial F sys s \<longrightarrow> holds F s iv) \<and> (\<forall>s t. ts_step F sys s t \<and> holds F s iv \<longrightarrow> holds F t iv)
     \<and> (\<forall>s. wsorted s \<and> holds F s iv \<longrightarrow> \<not> holds F s bad))"

lemma reach_no_cex:
  assumes r: "reach_ok n Rs" and m: "m \<le> n"
  shows "\<not> cex F sys bad m"
proof
  assume "cex F sys bad m"
  then obtain \<pi> where p: "ts_path F sys \<pi> m" "holds F (\<pi> m) bad" by (auto simp: cex_def)
  let ?Ps = "map (\<lambda>r s. holds F s r) Rs"
  have "(?Ps ! m) (\<pi> m)"
  proof (rule chain_states)
    show "image_ok (?Ps ! j) (?Ps ! Suc j)" if "Suc j < length ?Ps" for j
      using r that by (simp add: reach_ok_def)
    show "segment F sys \<pi> m" using p(1) by (simp add: ts_path_def)
    show "(?Ps ! 0) (\<pi> 0)" using r p(1) by (cases Rs) (auto simp: reach_ok_def ts_path_def ts_initial_def)
  qed (use r m in \<open>simp_all add: reach_ok_def\<close>)
  moreover have "m < length Rs" using r m by (simp add: reach_ok_def)
  ultimately have "holds F (\<pi> m) (Rs ! m)" by simp
  moreover have "wsorted (\<pi> m)" using p(1) by (simp add: ts_path_def segment_def)
  ultimately show False using r p(2) \<open>m < length Rs\<close> unfolding reach_ok_def by blast
qed

subsection \<open>One more bound\<close>

lemma conjoin_itps_nth:
  "conjoin_itps E U ts Rs = Inr Rs' \<Longrightarrow> length Rs' = length Rs \<and> length ts \<le> length Rs
    \<and> (\<forall>j < length Rs. Rs' ! j = (if j < length ts then and_term E (Rs ! j) (U (ts ! j)) else Rs ! j))"
proof (induction E U ts Rs arbitrary: Rs' rule: conjoin_itps.induct)
  case (3 E U t ts R Rs)
  from 3(2) obtain Rt where "conjoin_itps E U ts Rs = Inr Rt" "Rs' = and_term E R (U t) # Rt"
    by (auto simp: bindE_Inr_iff)
  with 3(1) show ?case by (auto simp: nth_Cons split: nat.splits)
qed auto

lemma seq_timed:
  assumes q: "ip_sequence I (trans_seq_of i @ [at bad i]) st = (Some (UNSAT, ts), st')" and j: "j < length ts"
  shows "timed_at at SV (Suc j) (ts ! j)"
proof (rule shared_symbols_list)
  let ?fs = "trans_seq_of i @ [at bad i]"
  have len: "length ts = i" using seq_length [OF q] by (simp add: trans_seq_of_def)
  have bcov: "covered bad (ts_vars sys)" and icov: "covered (ts_init sys) (ts_vars sys)"
    using covered_mono [OF bad_current sv_vars] covered_mono [OF init_cov sv_vars] by simp_all
  have nth: "?fs ! m = (if m < i then if m = 0 then and_term E (init_at 0) (trans_at 0) else trans_at m else at bad i)"
    if "m \<le> i" for m using that by (simp add: trans_seq_of_def nth_append)
  show "\<forall>a \<in> set (take (Suc j) ?fs). before (Suc j) a"
  proof
    fix a assume "a \<in> set (take (Suc j) ?fs)"
    from set_take_nth [OF this] obtain m where m: "m \<le> j" "a = ?fs ! m" by (auto simp: less_Suc_eq_le)
    then show "before (Suc j) a"
      using nth [of m] j len before_at [OF trans_cov, of m "Suc j"] before_at [OF icov, of 0 "Suc j"]
      by (auto simp: and_term_def intro!: symbols_mk2(1))
  qed
  show "\<forall>b \<in> set (drop (Suc j) ?fs). since (Suc j) b"
  proof
    fix b assume "b \<in> set (drop (Suc j) ?fs)"
    from set_drop_nth [OF this] obtain m where m: "Suc j \<le> m" "m \<le> i" "b = ?fs ! m"
      by (auto simp: trans_seq_of_def)
    then show "since (Suc j) b"
      using nth [of m] since_at [OF trans_cov, of "Suc j" m] since_at [OF bcov, of "Suc j" i] by auto
  qed
  show "syms (ts ! j) \<subseteq> \<Union> (syms ` set (take (Suc j) ?fs)) \<inter> \<Union> (syms ` set (drop (Suc j) ?fs))"
    by (rule seq_syms [OF q j])
qed

lemma extend_reach_ok:
  assumes Rs: "reach_ok n Rs" and i: "i = Suc n"
    and q: "ip_sequence I (trans_seq_of i @ [at bad i]) st = (Some (UNSAT, ts), st')"
    and c: "conjoin_itps E U ts (tl Rs @ [tm_true]) = Inr Rt"
  shows "reach_ok i (hd Rs # Rt)"
proof -
  let ?fs = "trans_seq_of i @ [at bad i]" and ?Rs = "hd Rs # Rt"
  have len: "length ts = i" using seq_length [OF q] by (simp add: trans_seq_of_def)
  have lR: "length Rs = i" "Rs \<noteq> []" using Rs i by (auto simp: reach_ok_def)
  note ct = conjoin_itps_nth [OF c]
  have lRt: "length Rt = i" using ct lR i by simp
  have Rt: "Rt ! j = and_term E ((tl Rs @ [tm_true]) ! j) (U (ts ! j))" if "j < i" for j using ct len lR i that by simp
  have old: "(tl Rs @ [tm_true]) ! j = (if Suc j < i then Rs ! Suc j else tm_true)" if "j < i" for j
    using that lR i by (auto simp: nth_append nth_tl)
  note tm = seq_timed [OF q, unfolded len]
  have cov: "covered (U (ts ! j)) SV" if "j < i" for j by (rule untime_covered [OF tm [OF that]]) simp
  have hd: "?Rs ! 0 = Rs ! 0" using lR by (cases Rs) simp_all
  have sub: "holds F s (?Rs ! j) \<Longrightarrow> j < i \<Longrightarrow> holds F s (Rs ! j)" for s j
    using Rt [of "j - 1"] old [of "j - 1"] hd by (cases j) (auto split: if_splits)
  have seq: "holds F \<sigma> (ts ! j)" if "wsorted \<sigma>" "j < i" "j = 0 \<or> holds F \<sigma> (ts ! (j - 1))" "holds F \<sigma> (?fs ! j)" for \<sigma> j
    using seq_inductive [OF q that(1)] that(2-4) len by (auto simp: holds_seq_def trans_seq_of_def)
  have last: "\<not> holds F \<sigma> (at bad i)" if "wsorted \<sigma>" "holds F \<sigma> (ts ! n)" for \<sigma>
  proof
    assume "holds F \<sigma> (at bad i)"
    moreover have "?fs ! i = at bad i" "i < length ?fs" by (simp_all add: trans_seq_of_def nth_append)
    moreover have "holds F \<sigma> (ts ! (i - 1))" using that(2) i by simp
    ultimately have "i < length ts" using seq_inductive [OF q that(1)] unfolding holds_seq_def by metis
    with len show False by simp
  qed
  have img: "image_ok (\<lambda>s. holds F s (?Rs ! j)) (\<lambda>s. holds F s (?Rs ! Suc j))" if j: "j < i" for j
    unfolding image_ok_def
  proof (intro allI impI, elim conjE)
    fix s t assume st: "ts_step F sys s t" and h: "holds F s (?Rs ! j)"
    let ?\<pi> = "\<lambda>m. if m = 0 then s else t"
    have sg: "segment F sys ?\<pi> 1" using st ts_stepD [OF st] by (simp add: segment_def)
    obtain \<sigma> \<rho> where m: "wsorted \<sigma>" "unrolls_to F sys at \<sigma> \<rho>" "all_states \<rho>"
      and e: "\<And>m. m \<le> 1 \<Longrightarrow> \<rho> (j + m) = ?\<pi> m" and tr: "\<And>m. m < 1 \<Longrightarrow> holds F \<sigma> (trans_at (j + m))"
      by (rule later_segment_model [where k = j, OF sg], rule that)
    have rs: "\<rho> j = s" "\<rho> (Suc j) = t" "holds F \<sigma> (trans_at j)" using e [of 0] e [of 1] tr [of 0] by simp_all
    have "holds F \<sigma> (ts ! j)"
    proof (cases j)
      case 0
      then have "ts_initial F sys (\<rho> 0)" using h hd Rs rs(1) ts_stepD(1) [OF st] lR
        by (cases Rs) (auto simp: reach_ok_def ts_initial_def)
      then have "holds F \<sigma> (init_at 0)" using unrolls_init [OF m(3,2)] by simp
      with 0 rs(3) j show ?thesis by (intro seq [OF m(1)]) (simp_all add: trans_seq_of_def nth_append)
    next
      case (Suc j')
      then have "holds F s (U (ts ! j'))" using h Rt [of j'] j by simp
      then have "holds F \<sigma> (ts ! j')" using untimed_state(1) [OF tm [of j'] m(3,2)] rs(1) Suc j by simp
      with Suc rs(3) j show ?thesis by (intro seq [OF m(1)]) (simp_all add: trans_seq_of_def nth_append)
    qed
    then have "holds F t (U (ts ! j))" using untimed_state(1) [OF tm [OF j] m(3,2)] rs(2) by simp
    moreover have "holds F t (Rs ! Suc j)" if "Suc j < i"
      using Rs sub [OF h j] st that lR by (auto simp: reach_ok_def image_ok_def)
    ultimately show "holds F t (?Rs ! Suc j)" using Rt [OF j] old [OF j] by auto
  qed
  have nb: "\<not> holds F s bad" if "j \<le> i" "wsorted s" "holds F s (?Rs ! j)" for s j
  proof (cases "j < i")
    case True
    with Rs sub [OF that(3)] that(2) lR show ?thesis by (auto simp: reach_ok_def)
  next
    case False
    then have j: "j = Suc n" using that(1) i by simp
    have sg: "segment F sys (\<lambda>_. s) 0" using that(2) by (simp add: segment_def)
    obtain \<sigma> \<rho> where m: "wsorted \<sigma>" "unrolls_to F sys at \<sigma> \<rho>" "all_states \<rho>"
      and e: "\<And>m. m \<le> 0 \<Longrightarrow> \<rho> (i + m) = s" by (rule later_segment_model [where k = i, OF sg], rule that)
    have "holds F s (U (ts ! n))" using that(3) Rt [of n] j i by simp
    then have "holds F \<sigma> (ts ! n)" using untimed_state(1) [OF tm [of n] m(3,2)] e [of 0] i by simp
    with last [OF m(1)] unrolls_current [OF m(2) bad_cur, of i] e [of 0] show ?thesis by simp
  qed
  have "covered (Rt ! j) SV" if "j < i" for j
  proof -
    have "covered (if Suc j < i then Rs ! Suc j else tm_true) SV"
      using Rs lR by (auto simp: reach_ok_def covered_def)
    then show ?thesis unfolding Rt [OF that] old [OF that] and_term_def
      by (rule covered_syms [OF syms_mk2 _ cov [OF that]])
  qed
  then have "\<forall>R \<in> set Rt. covered R SV" using lRt by (auto simp: in_set_conv_nth)
  then show ?thesis using img nb lRt Rs lR init_cov by (auto simp: reach_ok_def less_Suc_eq_le)
qed

subsection \<open>The fixed-point check\<close>

lemma state_query:
  assumes "wsorted x"
  obtains \<sigma> where "wsorted \<sigma>" and "\<And>t. covered t SV \<Longrightarrow> holds F \<sigma> (at t 0) \<longleftrightarrow> holds F x t"
proof -
  have "all_states (\<lambda>_. x)" using assms by (simp add: all_states_def agree_funs_def)
  then obtain \<sigma> where m: "wsorted \<sigma>" "unrolls_to F sys at \<sigma> (\<lambda>_. x)" using at_model by blast
  have "holds F \<sigma> (at u 0) \<longleftrightarrow> holds F x u" if "covered u SV" for u
    using unrolls_current [OF m(2), of u 0] covered_mono [OF that, of "SV \<union> IV"] by simp
  with that m(1) show thesis by blast
qed

lemma covered_or: "covered a SV \<Longrightarrow> covered b SV \<Longrightarrow> covered (mk_term B p [a, b]) SV"
  by (rule covered_syms [OF syms_mk2])

text \<open>\<open>acc\<close> is the union of the sets \<open>ds\<close>, whose negations the solver holds on its top level.\<close>

lemma fixed_point_loop_ok:
  "fixed_point_loop E Rs acc s = (res, s') \<Longrightarrow> asserted s = not_term E ` set ds \<Longrightarrow>
    frames s = fr # frs \<Longrightarrow> covered acc SV \<Longrightarrow> \<forall>x. holds F x acc \<longleftrightarrow> (\<exists>R \<in> set ds. holds F x R) \<Longrightarrow>
    frames s' = frs \<and> (\<forall>iv. res = Some iv \<longrightarrow> covered iv SV \<and> (\<exists>m < length Rs.
      (\<forall>x. holds F x iv \<longleftrightarrow> (\<exists>R \<in> set (ds @ take m Rs). holds F x R))
      \<and> (\<forall>x. wsorted x \<and> holds F x (Rs ! m) \<longrightarrow> holds F x iv)))"
  if cov: "\<forall>R \<in> set Rs. covered R SV" for Rs
  using cov
proof (induction Rs arbitrary: acc s fr ds)
  case Nil
  then show ?case by (auto simp: frames_pop)
next
  case (Cons R Rs)
  obtain r s1 where chk: "s_check S (s_assert S R (s_push S s)) = (r, s1)" by (rule prod.exhaust)
  have fr: "frames (s_pop S s1) = fr # frs"
    using frames_check [OF chk] Cons.prems(3) by (simp add: frames_pop frames_assert frames_push)
  show ?case
  proof (cases "r = UNSAT")
    case True
    with Cons.prems(1) chk have res: "res = Some acc" "s' = s_pop S (s_pop S s1)" by (auto simp: Let_def)
    have "holds F x acc" if "wsorted x" "holds F x R" for x
    proof (rule ccontr)
      assume n: "\<not> holds F x acc"
      show False
        by (rule check_UNSAT_no_model [OF chk [unfolded True] that(1)])
          (use n Cons.prems(2,5) that(2) in auto)
    qed
    with res fr Cons.prems(4,5) show ?thesis by (auto simp: frames_pop intro!: exI [of _ 0])
  next
    case False
    let ?acc = "mk_term B (op0 Or) [acc, R]" and ?s = "s_assert S (not_term E R) (s_pop S s1)"
    from Cons.prems(1) chk False have rest: "fixed_point_loop E Rs ?acc ?s = (res, s')" by (auto simp: Let_def)
    have "asserted (s_pop S s1) = asserted s" using fr Cons.prems(3) by (simp add: asserted_def)
    then have a: "asserted ?s = not_term E ` set (ds @ [R])" using Cons.prems(2) fr by auto
    have c: "covered ?acc SV" using covered_or Cons.prems(4,6) by simp
    have h: "\<forall>x. holds F x ?acc \<longleftrightarrow> (\<exists>R \<in> set (ds @ [R]). holds F x R)" using Cons.prems(5) by auto
    obtain fr' where f: "frames ?s = fr' # frs" using fr by (simp add: frames_assert)
    from Cons.IH [OF rest a f c h] Cons.prems(6) have ih: "frames s' = frs"
      "\<forall>iv. res = Some iv \<longrightarrow> covered iv SV \<and> (\<exists>m < length Rs.
      (\<forall>x. holds F x iv \<longleftrightarrow> (\<exists>R \<in> set ((ds @ [R]) @ take m Rs). holds F x R))
      \<and> (\<forall>x. wsorted x \<and> holds F x (Rs ! m) \<longrightarrow> holds F x iv))" by simp_all
    show ?thesis
    proof (intro conjI allI impI ih(1))
      fix iv assume "res = Some iv"
      with ih(2) obtain m where m: "covered iv SV" "m < length Rs"
        "\<forall>x. holds F x iv \<longleftrightarrow> (\<exists>R \<in> set ((ds @ [R]) @ take m Rs). holds F x R)"
        "\<forall>x. wsorted x \<and> holds F x (Rs ! m) \<longrightarrow> holds F x iv" by blast
      then show "covered iv SV" "\<exists>m < length (R # Rs).
          (\<forall>x. holds F x iv \<longleftrightarrow> (\<exists>Q \<in> set (ds @ take m (R # Rs)). holds F x Q))
          \<and> (\<forall>x. wsorted x \<and> holds F x ((R # Rs) ! m) \<longrightarrow> holds F x iv)"
        by (auto intro!: exI [of _ "Suc m"])
    qed
  qed
qed

lemma invariant_path:
  assumes "\<And>s. ts_initial F sys s \<Longrightarrow> holds F s iv" and "\<And>s t. ts_step F sys s t \<Longrightarrow> holds F s iv \<Longrightarrow> holds F t iv"
    and "ts_path F sys \<pi> k" and "m \<le> k"
  shows "holds F (\<pi> m) iv"
  using assms(4)
proof (induction m)
  case 0
  then show ?case using assms(1,3) by (simp add: ts_path_def)
next
  case (Suc m)
  then have "ts_step F sys (\<pi> m) (\<pi> (Suc m))" using assms(3) by (simp add: ts_path_def segment_def)
  with Suc assms(2) show ?case by simp
qed

lemma invariant_safe:
  assumes "\<And>s. ts_initial F sys s \<Longrightarrow> holds F s iv" and "\<And>s t. ts_step F sys s t \<Longrightarrow> holds F s iv \<Longrightarrow> holds F t iv"
    and "\<And>s. wsorted s \<Longrightarrow> holds F s iv \<Longrightarrow> \<not> holds F s bad"
  shows "safe F sys bad"
  unfolding safe_def cex_def
proof (intro allI notI, elim exE conjE)
  fix k \<pi> assume p: "ts_path F sys \<pi> k" "holds F (\<pi> k) bad"
  have "wsorted (\<pi> k)" using p(1) by (simp add: ts_path_def segment_def)
  with assms(3) invariant_path [OF assms(1,2) p(1) order_refl] p(2) show False by simp
qed

lemma check_fixed_point_ok:
  assumes c: "check_fixed_point E p = (b, p')" and r: "reach_ok n (is_reach_seq p)"
    and s: "concat (frames (pr_solver p)) = []"
  shows "\<exists>s' iv. p' = p\<lparr>pr_solver := s', pr_invar := iv\<rparr> \<and> frames s' = frames (pr_solver p)" and "b \<Longrightarrow> ismc_proof p'"
proof -
  let ?Rs = "is_reach_seq p"
  let ?R0 = "hd ?Rs"
  let ?s = "s_assert S (not_term E ?R0) (s_push S (pr_solver p))"
  obtain res s' where loop: "fixed_point_loop E (tl ?Rs) ?R0 ?s = (res, s')" by (rule prod.exhaust)
  have ne: "?Rs = ?R0 # tl ?Rs" using r by (cases ?Rs) (auto simp: reach_ok_def)
  then have cov: "covered ?R0 SV" "\<forall>R \<in> set (tl ?Rs). covered R SV"
    using r unfolding reach_ok_def by (metis list.set_intros(1), metis list.set_intros(2))
  have a: "asserted ?s = not_term E ` set [?R0]" unfolding asserted_def frames_assert frames_push using s by (simp del: concat_eq_Nil_conv set_concat)
  have f: "frames ?s = [not_term E ?R0] # frames (pr_solver p)" by (simp add: frames_assert frames_push)
  have h: "\<forall>x. holds F x ?R0 \<longleftrightarrow> (\<exists>R \<in> set [?R0]. holds F x R)" by simp
  note ok = fixed_point_loop_ok [OF cov(2) loop a f cov(1) h]
  have p': "p' = (case res of Some acc \<Rightarrow> p\<lparr>pr_solver := s', pr_invar := Some acc\<rparr> | None \<Rightarrow> p\<lparr>pr_solver := s'\<rparr>)"
    "b \<longleftrightarrow> res \<noteq> None" using c loop by (auto simp: check_fixed_point_def split: option.splits)
  have "p' = p\<lparr>pr_solver := s', pr_invar := (case res of Some acc \<Rightarrow> Some acc | None \<Rightarrow> pr_invar p)\<rparr>"
    unfolding p'(1) by (cases res) simp_all
  with ok show "\<exists>s' iv. p' = p\<lparr>pr_solver := s', pr_invar := iv\<rparr> \<and> frames s' = frames (pr_solver p)" by blast
  assume b
  then obtain iv where res: "res = Some iv" using p'(2) by blast
  with ok obtain m where m: "covered iv SV" "m < length (tl ?Rs)"
    "\<And>x. holds F x iv \<longleftrightarrow> (\<exists>R \<in> set ([?R0] @ take m (tl ?Rs)). holds F x R)"
    "\<And>x. wsorted x \<Longrightarrow> holds F x (tl ?Rs ! m) \<Longrightarrow> holds F x iv" by blast
  have len: "Suc m < length ?Rs" using m(2) by simp
  have "[?R0] @ take m (tl ?Rs) = take (Suc m) ?Rs" by (subst (3) ne) simp
  then have "set ([?R0] @ take m (tl ?Rs)) = (!) ?Rs ` {0..<Suc m}" using nth_image [of "Suc m" ?Rs] len by simp
  then have iv: "holds F x iv \<longleftrightarrow> (\<exists>j \<le> m. holds F x (?Rs ! j))" for x
    using m(3) [of x] by (simp only: bex_simps atLeastLessThan_iff) (auto simp: less_Suc_eq_le)
  have last: "holds F x iv" if "wsorted x" "holds F x (?Rs ! Suc m)" for x
    using m(4) that m(2) by (simp add: nth_tl)
  have "?Rs ! 0 = ts_init sys" using r ne by (metis hd_conv_nth list.distinct(1) reach_ok_def)
  then have init: "holds F x iv" if "ts_initial F sys x" for x
    unfolding iv using that by (intro exI [of _ 0]) (simp add: ts_initial_def)
  have step: "holds F y iv" if st: "ts_step F sys x y" and x: "holds F x iv" for x y
  proof -
    from x obtain j where j: "j \<le> m" "holds F x (?Rs ! j)" unfolding iv by blast
    have "Suc j < length ?Rs" using j(1) len by simp
    with r have "image_ok (\<lambda>s. holds F s (?Rs ! j)) (\<lambda>s. holds F s (?Rs ! Suc j))" by (simp add: reach_ok_def)
    with st j(2) have y: "holds F y (?Rs ! Suc j)" by (simp add: image_ok_def)
    show ?thesis
    proof (cases "j = m")
      case True
      with last y ts_stepD(2) [OF st] show ?thesis by blast
    next
      case False
      with j y show ?thesis unfolding iv by (intro exI [of _ "Suc j"]) simp
    qed
  qed
  have nb: "\<not> holds F x bad" if w: "wsorted x" and x: "holds F x iv" for x
  proof -
    from x obtain j where j: "j \<le> m" "holds F x (?Rs ! j)" unfolding iv by blast
    then have "j < length ?Rs" using len by simp
    with r w j(2) show ?thesis unfolding reach_ok_def by blast
  qed
  have "pr_invar p' = Some iv" using p'(1) res by simp
  moreover have "safe F sys bad" by (rule invariant_safe [of iv]) (use init step nb in blast)+
  ultimately show "ismc_proof p'" using m(1) init step nb unfolding ismc_proof_def by blast
qed

subsection \<open>The debug check\<close>

lemma check_itp_sequence_frames:
  "check_itp_sequence E fs itps is s = Inr s' \<Longrightarrow> frames s' = frames s"
proof (induction "is" arbitrary: s)
  case (Cons i "is")
  obtain r1 s1 where c1: "s_check S (asserts S [and_all E (take (Suc i) fs), not_term E (itps ! i)] (s_push S s)) = (r1, s1)"
    by (rule prod.exhaust)
  obtain r2 s2 where c2: "s_check S (s_assert S (and_term E (itps ! i) (and_all E (drop (Suc i) fs))) (s_push S (s_pop S s1))) = (r2, s2)"
    by (rule prod.exhaust)
  from Cons.prems c1 c2 have rest: "check_itp_sequence E fs itps is (s_pop S s2) = Inr s'"
    by (auto simp: Let_def guardE_Inr_iff)
  have "frames (s_pop S s2) = frames s"
    using frames_check [OF c1] frames_check [OF c2] by (simp add: frames_pop frames_assert frames_asserts frames_push)
  with Cons.IH [OF rest] show ?case by simp
qed simp

subsection \<open>Steps and results\<close>

lemma and_all_holds: "ts \<noteq> [] \<Longrightarrow> holds F \<sigma> (and_all E ts) \<longleftrightarrow> all_hold F \<sigma> ts"
  by (cases ts) (auto simp: and_all_def eval_mk sem_op_def list_all_iff)

lemma trans_seq_Suc: "trans_seq_of (Suc n) = trans_seq_of n @ [if n = 0 then and_term E (init_at 0) (trans_at 0) else trans_at n]"
  by (simp add: trans_seq_of_def)

lemma trans_seq_mem: "j < i \<Longrightarrow> (if j = 0 then and_term E (init_at 0) (trans_at 0) else trans_at j) \<in> set (trans_seq_of i)"
  unfolding trans_seq_of_def set_map by (rule image_eqI [of _ _ j]) simp_all

lemma ismc_step_0_ok:
  assumes inv: "ismc_inv (-1) p" and run: "ismc_step_0 E p = Inr (b, p')"
  shows "\<not> b" and "is_concrete_cex p' \<Longrightarrow> ismc_cex 0 p'" and "\<not> is_concrete_cex p' \<Longrightarrow> ismc_inv 0 p'"
proof -
  have f: "is_reach_seq p = [ts_init sys]" "concat (frames (pr_solver p)) = []" "frames (pr_solver p) \<noteq> []"
    "\<not> is_concrete_cex p" using inv by (simp_all add: ismc_inv_def)
  from run obtain cx s where c: "check_initial_bad E ''ISMC: step_0 failed, unexpected result: '' (init_at 0) (pr_solver p) = Inr (cx, s)"
    and p': "b = False" "p' = (if cx then p\<lparr>pr_solver := s, is_concrete_cex := True\<rparr> else p\<lparr>pr_solver := s, pr_reached_k := 0\<rparr>)"
    by (auto simp: ismc_step_0_def bindE_Inr_iff f(1))
  note ib = initial_bad_ok [OF c f(2,3)]
  show "\<not> b" using p' by simp
  show "ismc_cex 0 p'" if "is_concrete_cex p'"
  proof -
    have cx using that p' f(4) by (auto split: if_splits)
    with ib(2) p' inv show ?thesis by (auto simp: ismc_cex_def ismc_inv_def)
  qed
  show "ismc_inv 0 p'" if "\<not> is_concrete_cex p'"
  proof -
    have n: "\<not> cx" using that p' by (auto split: if_splits)
    have "\<not> holds F x bad" if "wsorted x" "holds F x (ts_init sys)" for x
    proof
      assume "holds F x bad"
      with that have "cex F sys bad 0" unfolding cex_def
        by (intro exI [of _ "\<lambda>_. x"]) (simp add: ts_path_def ts_initial_def segment_def)
      with ib(1) [OF n] show False by simp
    qed
    then have "reach_ok 0 [ts_init sys]" using init_cov by (simp add: reach_ok_def)
    with ib(1) [OF n] p' inv n show ?thesis by (simp add: ismc_inv_def)
  qed
qed

lemma ismc_step_ok:
  assumes inv: "ismc_inv r p" and run: "ismc_step E I U dbg i p = Inr (b, p')" and i: "int i \<le> r + 1"
  shows "b \<Longrightarrow> ismc_proof p'" and "\<not> b \<Longrightarrow> is_concrete_cex p' \<Longrightarrow> ismc_cex i p'"
    and "\<not> b \<Longrightarrow> \<not> is_concrete_cex p' \<Longrightarrow> \<exists>r'. ismc_inv r' p' \<and> int i \<le> r'"
proof -
  have "(b \<longrightarrow> ismc_proof p') \<and> (\<not> b \<and> is_concrete_cex p' \<longrightarrow> ismc_cex i p')
    \<and> (\<not> b \<and> \<not> is_concrete_cex p' \<longrightarrow> (\<exists>r'. ismc_inv r' p' \<and> int i \<le> r'))"
  proof (cases "int i \<le> r")
    case True
    with run inv have "b = False" "p' = p" by (simp_all add: ismc_step_def ismc_inv_def)
    with inv True show ?thesis by (auto simp: ismc_inv_def)
  next
    case False
    with i have ri: "r = int i - 1" by simp
    show ?thesis
    proof (cases "i = 0")
      case True
      with run inv ri have "ismc_step_0 E p = Inr (b, p')" by (simp add: ismc_step_def ismc_inv_def)
      from ismc_step_0_ok [OF _ this] inv ri True show ?thesis by auto
    next
      case i0: False
      then obtain n where n: "i = Suc n" by (cases i) auto
      have rk: "pr_reached_k p = int n" "nat r = n" using inv ri n by (simp_all add: ismc_inv_def)
      have re: "reach_ok n (is_reach_seq p)" and ts: "is_trans_seq p = trans_seq_of n"
        and fr: "concat (frames (pr_solver p)) = []" "frames (pr_solver p) \<noteq> []"
        and pr: "pr_witness p = []" "\<not> is_concrete_cex p" "pr_initialized p"
        using inv rk ri n by (simp_all add: ismc_inv_def)
      have tq: "(if i = 1 then (trans_seq_of n @ [trans_at (i - 1)])[0 := and_term E (init_at 0) (trans_at (i - 1))]
          else trans_seq_of n @ [trans_at (i - 1)]) = trans_seq_of i"
        using n by (cases n) (auto simp: trans_seq_Suc trans_seq_of_def [of 0])
      obtain ans it where q: "ip_sequence I (trans_seq_of i @ [at bad i]) (is_itp p) = (ans, it)" by (rule prod.exhaust)
      have new: "\<not> int i \<le> pr_reached_k p" using rk n by simp
      define p1 where "p1 = p\<lparr>is_itp := it, is_trans_seq := trans_seq_of i\<rparr>"
      have run': "(case ans of
             None \<Rightarrow> Inl InternalSolverException
           | Some (r, itps) \<Rightarrow>
               if r = UNSAT then
                 bindE (if dbg then check_itp_sequence E (trans_seq_of i @ [at bad i]) itps [0..<length itps] (pr_solver p1)
                        else Inr (pr_solver p1)) (\<lambda>s.
                 bindE (conjoin_itps E U itps (tl (is_reach_seq p1) @ [tm_true])) (\<lambda>Rt.
                 let (fp, p2) = check_fixed_point E
                       (p1\<lparr>pr_solver := s, is_reach_seq := hd (is_reach_seq p1) # Rt\<rparr>)
                 in if fp then Inr (True, p2)
                    else Inr (False, p2\<lparr>pr_reached_k := pr_reached_k p2 + 1\<rparr>)))
               else
                 let (r', s) = s_check S (s_assert S (and_term E (and_all E (trans_seq_of i)) (at bad i)) (s_push S (pr_solver p1)))
                 in guardE (r' = SAT)
                      (if r = SAT then PonoException ''Internal error: Expecting satisfiable result''
                       else PonoException ''Interpolation failed due to: '')
                      (Inr (False, p1\<lparr>pr_solver := s, is_concrete_cex := True\<rparr>))) = Inr (b, p')"
        using run unfolding ismc_step_def if_not_P [OF new] if_not_P [OF i0] Let_def ts tq q prod.case p1_def .
      then obtain r itps where ans: "ans = Some (r, itps)" by (cases ans) auto
      have f1: "pr_solver p1 = pr_solver p" "is_reach_seq p1 = is_reach_seq p" "pr_reached_k p1 = int n"
        "pr_witness p1 = []" "\<not> is_concrete_cex p1" "pr_initialized p1" "is_trans_seq p1 = trans_seq_of i"
        using rk pr by (simp_all add: p1_def)
      note run2 = run' [unfolded ans option.case prod.case f1(1,2)]
      show ?thesis
      proof (cases "r = UNSAT")
        case True
        with q ans have q': "ip_sequence I (trans_seq_of i @ [at bad i]) (is_itp p) = (Some (UNSAT, itps), it)" by simp
        from run2 True obtain s Rt where s: "(if dbg then check_itp_sequence E (trans_seq_of i @ [at bad i]) itps [0..<length itps] (pr_solver p)
              else Inr (pr_solver p)) = Inr s"
          and Rt: "conjoin_itps E U itps (tl (is_reach_seq p) @ [tm_true]) = Inr Rt"
          and fin: "(let (fp, p2) = check_fixed_point E (p1\<lparr>pr_solver := s, is_reach_seq := hd (is_reach_seq p) # Rt\<rparr>)
                 in if fp then Inr (True, p2) else Inr (False, p2\<lparr>pr_reached_k := pr_reached_k p2 + 1\<rparr>)) = (Inr (b, p') :: (bool \<times> ('s, 'i) ismc) result)"
          unfolding bindE_Inr_iff by (auto simp: bindE_Inr_iff)
        have fs: "frames s = frames (pr_solver p)" using s check_itp_sequence_frames by (auto split: if_splits)
        let ?p2 = "p1\<lparr>pr_solver := s, is_reach_seq := hd (is_reach_seq p) # Rt\<rparr>"
        obtain fp p2 where c: "check_fixed_point E ?p2 = (fp, p2)" by (rule prod.exhaust)
        have re2: "reach_ok i (is_reach_seq ?p2)" using extend_reach_ok [OF re n q' Rt] by simp
        have cc: "concat (frames (pr_solver ?p2)) = []" using fs fr by simp
        note ok = check_fixed_point_ok [OF c re2 cc]
        show ?thesis
        proof (cases fp)
          case True
          with fin c ok(2) show ?thesis by simp
        next
          case False
          with fin c have p': "b = False" "p' = p2\<lparr>pr_reached_k := pr_reached_k p2 + 1\<rparr>" by simp_all
          from ok(1) obtain s' iv where p2: "p2 = ?p2\<lparr>pr_solver := s', pr_invar := iv\<rparr>" "frames s' = frames s" by auto
          have "pr_reached_k p' = int i" using p' p2 f1 n by simp
          then have "ismc_inv (int i) p'" using p'(2) p2 f1 fs fr re2 by (simp add: ismc_inv_def)
          moreover have "\<not> is_concrete_cex p'" using p' p2 f1 by simp
          ultimately show ?thesis using p'(1) by blast
        qed
      next
        case False
        let ?q = "and_term E (and_all E (trans_seq_of i)) (at bad i)"
        obtain r' s where chk: "s_check S (s_assert S ?q (s_push S (pr_solver p))) = (r', s)" by (rule prod.exhaust)
        from run2 False chk have r': "r' = SAT" "b = False" "p' = p1\<lparr>pr_solver := s, is_concrete_cex := True\<rparr>" by auto
        obtain \<sigma> where m: "has_model s \<sigma>" and h: "\<And>t. t \<in> asserted (s_assert S ?q (s_push S (pr_solver p))) \<Longrightarrow> holds F \<sigma> t"
          using check_sat_model [OF chk [unfolded r'(1)]] by metis
        have "holds F \<sigma> ?q" by (rule h) simp
        moreover have "trans_seq_of i \<noteq> []" using n by (simp add: trans_seq_of_def)
        ultimately have hs: "all_hold F \<sigma> (trans_seq_of i)" "holds F \<sigma> (at bad i)" by (simp_all add: and_all_holds)
        have h0: "holds F \<sigma> (and_term E (init_at 0) (trans_at 0))" using hs(1) trans_seq_mem [of 0 i] n by simp
        have "holds F \<sigma> (trans_at j)" if "j < i" for j
          using bspec [OF hs(1) trans_seq_mem [OF that]] h0 by (cases "j = 0") simp_all
        moreover have "\<not> cex F sys bad m" if "m < i" for m using reach_no_cex [OF re] that n by simp
        ultimately show ?thesis using h0 hs(2) m r' f1 n by (auto simp: ismc_cex_def)
      qed
    qed
  qed
  then show "b \<Longrightarrow> ismc_proof p'" "\<not> b \<Longrightarrow> is_concrete_cex p' \<Longrightarrow> ismc_cex i p'"
    "\<not> b \<Longrightarrow> \<not> is_concrete_cex p' \<Longrightarrow> \<exists>r'. ismc_inv r' p' \<and> int i \<le> r'" by blast+
qed

definition ismc_result :: "nat \<Rightarrow> prover_result \<Rightarrow> ('s, 'i) ismc \<Rightarrow> bool" where
  "ismc_result n res p \<longleftrightarrow> (case res of
       PR_TRUE \<Rightarrow> ismc_proof p
     | PR_FALSE \<Rightarrow> \<exists>i q. i < n \<and> ismc_cex i q \<and> p = compute_witness E q
     | PR_UNKNOWN \<Rightarrow> \<forall>m < n. \<not> cex F sys bad m
     | PR_ERROR \<Rightarrow> False)"

lemma ismc_bounds_ok:
  "ismc_inv r p \<Longrightarrow> int i \<le> r + 1 \<Longrightarrow> i \<le> n \<Longrightarrow> ismc_bounds E I U dbg [i..<n] p = Inr (res, p') \<Longrightarrow>
    ismc_result n res p'"
proof (induction "n - i" arbitrary: i r p)
  case 0
  then have e: "res = PR_UNKNOWN" "p' = p" "i = n" by simp_all
  have "\<not> cex F sys bad m" if "m < n" for m
    using reach_no_cex [of "nat r" "is_reach_seq p" m] 0 e(3) that by (auto simp: ismc_inv_def split: if_splits)
  with e show ?case by (simp add: ismc_result_def)
next
  case (Suc d)
  then have "[i..<n] = i # [Suc i..<n]" by (simp add: upt_conv_Cons)
  with Suc.prems(4) obtain b p1 where s: "ismc_step E I U dbg i p = Inr (b, p1)"
    and rest: "(if b then Inr (PR_TRUE, p1) else if is_concrete_cex p1 then Inr (PR_FALSE, compute_witness E p1)
      else ismc_bounds E I U dbg [Suc i..<n] p1) = Inr (res, p')"
    by (auto simp: bindE_Inr_iff)
  note ok = ismc_step_ok [OF Suc.prems(1) s Suc.prems(2)]
  consider "b" | "\<not> b" "is_concrete_cex p1" | "\<not> b" "\<not> is_concrete_cex p1" by blast
  then show ?case
  proof cases
    case 1
    with rest ok(1) show ?thesis by (auto simp: ismc_result_def)
  next
    case 2
    with rest ok(2) \<open>[i..<n] = i # [Suc i..<n]\<close> show ?thesis by (auto simp: ismc_result_def upt_eq_Cons_conv)
  next
    case 3
    with ok(3) obtain r' where r': "ismc_inv r' p1" "int i \<le> r'" by blast
    from 3 rest have "ismc_bounds E I U dbg [Suc i..<n] p1 = Inr (res, p')" by simp
    from Suc.hyps(1) [OF _ r'(1) _ _ this] r'(2) Suc.hyps(2) show ?thesis by simp
  qed
qed

lemma ismc_check_ok:
  assumes "ismc_check_until E I U dbg k p = Inr (res, p')" and "\<not> pr_initialized p" and "pr_witness p = []"
    and "concat (frames (pr_solver p)) = []" and "frames (pr_solver p) \<noteq> []"
  shows "ismc_result (nat (k + 1)) res p' \<or> res = PR_UNKNOWN \<and> (\<exists>p1. ismc_inv (-1) p1
    \<and> ismc_bounds E I U dbg [0..<nat (k + 1)] p1 = Inl InternalSolverException)"
proof -
  from assms(1) obtain p1 where p1: "ismc_initialize E I p = Inr p1"
    and run: "(case ismc_bounds E I U dbg [0..<nat (k + 1)] p1 of
         Inl InternalSolverException \<Rightarrow> Inr (PR_UNKNOWN, p1) | r \<Rightarrow> r) = Inr (res, p')"
    by (auto simp: ismc_check_until_def bindE_Inr_iff)
  have inv: "ismc_inv (-1) p1"
    using p1 assms(2-5) by (auto simp: ismc_initialize_def bindE_Inr_iff prover_initialize_def ismc_inv_def trans_seq_of_def)
  show ?thesis
  proof (cases "ismc_bounds E I U dbg [0..<nat (k + 1)] p1")
    case (Inl e)
    with run inv show ?thesis by (cases e) auto
  next
    case (Inr x)
    with run have "ismc_bounds E I U dbg [0..<nat (k + 1)] p1 = Inr (res, p')" by simp
    from ismc_bounds_ok [OF inv _ _ this] show ?thesis by simp
  qed
qed

lemma ismc_cex_witness:
  assumes "ismc_cex i q"
  shows "\<exists>\<pi>. ts_path F sys \<pi> i \<and> holds F (\<pi> i) bad \<and> length (pr_witness (compute_witness E q)) = i + 1
    \<and> (\<forall>m \<le> i. \<forall>v \<in> set (ts_statevars sys) \<union> set (ts_inputvars sys).
          map_of (pr_witness (compute_witness E q) ! m) v = Some (Val (\<pi> m (sym_of v)) (get_sort v)))"
proof -
  from assms obtain \<sigma> where m: "has_model (pr_solver q) \<sigma>" "holds F \<sigma> (init_at 0)" "\<And>j. j < i \<Longrightarrow> holds F \<sigma> (trans_at j)"
    "holds F \<sigma> (at bad i)" and q: "pr_witness q = []" "pr_reached_k q = int i - 1" by (auto simp: ismc_cex_def)
  from engine_cex_witness [OF m q] show ?thesis .
qed

end

end
