(* ===== verification/Bool_Interpolator.thy ===== *)
theory Bool_Interpolator
  imports Interp_Seq_Correct
begin

section \<open>An interpolating solver for Boolean formulas\<close>

text \<open>
  An instance of the interface of the interpolating solver: formulas over Boolean symbols are
  decided by trying their assignments, and the interpolant is the strongest one, the first formula
  with its local symbols quantified away.  It shows that the laws can hold and lets the engines run.
\<close>

definition forget :: "sym \<Rightarrow> tm \<Rightarrow> tm" where
  "forget x t = plain_mk_term (op0 Or)
     [plain_substitute t [(tm_of x, tm_true)], plain_substitute t [(tm_of x, tm_false)]]"

definition forget_local :: "tm \<Rightarrow> tm list \<Rightarrow> tm" where
  "forget_local a bs = fold forget (filter (\<lambda>x. x \<notin> set (concat (map sym_list bs))) (remdups (sym_list a))) a"

definition bool_answer :: "theory_ops \<Rightarrow> tm list \<Rightarrow> smt_result" where
  "bool_answer F fs =
     (if list_all (\<lambda>x. snd x = BOOL) (concat (map sym_list fs)) then
        (case enum_search F fs of Some r \<Rightarrow> SAT | None \<Rightarrow> UNSAT)
      else UNKNOWN)"

fun itp_chain :: "tm \<Rightarrow> tm list \<Rightarrow> tm list" where
  "itp_chain a [] = []"
| "itp_chain a [f] = []"
| "itp_chain a (f # fs) = (let t = forget_local (plain_mk_term (op0 And) [a, f]) fs in t # itp_chain t fs)"

definition enum_itp :: "theory_ops \<Rightarrow> unit interpolator" where
  "enum_itp F = \<lparr>ip_reset = (\<lambda>i. i),
     ip_interpolant = (\<lambda>a b i. (Some (bool_answer F [a, b], forget_local a [b]), i)),
     ip_sequence = (\<lambda>fs i. (Some (bool_answer F fs, itp_chain tm_true fs), i))\<rparr>"

subsection \<open>Quantifying symbols away\<close>

lemma eval_set_symbol:
  "is_symbol (tm_of x) \<Longrightarrow> eval F \<sigma> (plain_substitute t [(tm_of x, Val v s)]) = eval F (\<sigma>(x := v)) t"
proof -
  have "sym_map [(tm_of x, Val v s)]" by (simp add: sym_map_def)
  then have "eval F \<sigma> (plain_substitute t [(tm_of x, Val v s)]) = eval F (subst_env F \<sigma> [(tm_of x, Val v s)]) t"
    by (rule eval_plain_substitute)
  also have "subst_env F \<sigma> [(tm_of x, Val v s)] = \<sigma>(x := v)"
    by (auto simp: subst_env_def prod_eq_iff)
  finally show ?thesis .
qed

lemma forget_holds: "holds F \<sigma> (forget x t) \<longleftrightarrow> (\<exists>b. holds F (\<sigma>(x := BoolVal b)) t)"
proof -
  have "(\<exists>b. holds F (\<sigma>(x := BoolVal b)) t) \<longleftrightarrow> holds F (\<sigma>(x := BoolVal True)) t \<or> holds F (\<sigma>(x := BoolVal False)) t"
    by (metis (full_types))
  then show ?thesis by (simp add: forget_def plain_mk_term_def sem_op_def eval_set_symbol)
qed

lemma forget_syms: "syms (forget x t) \<subseteq> syms t - {x}"
proof -
  have m: "sym_map [(tm_of x, u)]" for u by (simp add: sym_map_def)
  have "syms (plain_substitute t [(tm_of x, Val v s)]) \<subseteq> syms t - {x}" for v s
    using syms_plain_substitute [OF m [of "Val v s"], of t] by (auto simp: subst_syms_def prod_eq_iff split: if_splits)
  then show ?thesis by (auto simp: forget_def plain_mk_term_def)
qed

lemma fold_forget_syms: "syms (fold forget xs t) \<subseteq> syms t - set xs"
proof (induction xs arbitrary: t)
  case (Cons x xs)
  from Cons [of "forget x t"] forget_syms [of x t] show ?case by auto
qed simp

lemma fold_forget_implied: "list_all (\<lambda>x. snd x = BOOL) xs \<Longrightarrow> wsorted \<sigma> \<Longrightarrow> holds F \<sigma> t \<Longrightarrow> holds F \<sigma> (fold forget xs t)"
proof (induction xs arbitrary: t)
  case (Cons x xs)
  obtain b where "\<sigma> x = BoolVal b" using wsorted_Bool [OF Cons.prems(2), of "fst x"] Cons.prems(1) by (cases x) auto
  then have "\<sigma>(x := BoolVal b) = \<sigma>" by auto
  then have "holds F \<sigma> (forget x t)" using Cons.prems(3) unfolding forget_holds by metis
  with Cons show ?case by simp
qed simp

lemma fold_forget_extends:
  "list_all (\<lambda>x. snd x = BOOL) xs \<Longrightarrow> wsorted \<sigma> \<Longrightarrow> holds F \<sigma> (fold forget xs t) \<Longrightarrow>
    \<exists>\<tau>. wsorted \<tau> \<and> (\<forall>x. x \<notin> set xs \<longrightarrow> \<tau> x = \<sigma> x) \<and> holds F \<tau> t"
proof (induction xs arbitrary: t)
  case (Cons x xs)
  then have "list_all (\<lambda>x. snd x = BOOL) xs" "holds F \<sigma> (fold forget xs (forget x t))" by simp_all
  from Cons.IH [OF this(1) Cons.prems(2) this(2)] obtain \<tau>
    where t: "wsorted \<tau>" "\<forall>y. y \<notin> set xs \<longrightarrow> \<tau> y = \<sigma> y" "holds F \<tau> (forget x t)" by blast
  then obtain b where b: "holds F (\<tau>(x := BoolVal b)) t" unfolding forget_holds by blast
  have "wsorted (\<tau>(x := BoolVal b))" using t(1) Cons.prems(1) by (auto simp: wsorted_def)
  moreover have "\<forall>y. y \<notin> set (x # xs) \<longrightarrow> (\<tau>(x := BoolVal b)) y = \<sigma> y" using t(2) by simp
  ultimately show ?case using b by blast
qed auto

lemma forget_local_ok:
  assumes "list_all (\<lambda>x. snd x = BOOL) (sym_list a)"
  shows "syms (forget_local a bs) \<subseteq> syms a \<inter> \<Union> (syms ` set bs)"
    and "wsorted \<sigma> \<Longrightarrow> holds F \<sigma> a \<Longrightarrow> holds F \<sigma> (forget_local a bs)"
    and "wsorted \<sigma> \<Longrightarrow> holds F \<sigma> (forget_local a bs) \<Longrightarrow>
      \<exists>\<tau>. wsorted \<tau> \<and> (\<forall>x \<in> \<Union> (syms ` set bs). \<tau> x = \<sigma> x) \<and> holds F \<tau> a"
proof -
  let ?xs = "filter (\<lambda>x. x \<notin> set (concat (map sym_list bs))) (remdups (sym_list a))"
  have xs: "set ?xs = syms a - \<Union> (syms ` set bs)" by (auto simp: set_sym_list)
  have b: "list_all (\<lambda>x. snd x = BOOL) ?xs" using assms by (auto simp: list_all_iff)
  show "syms (forget_local a bs) \<subseteq> syms a \<inter> \<Union> (syms ` set bs)"
    unfolding forget_local_def using fold_forget_syms [of ?xs a] xs by blast
  show "wsorted \<sigma> \<Longrightarrow> holds F \<sigma> a \<Longrightarrow> holds F \<sigma> (forget_local a bs)"
    unfolding forget_local_def by (rule fold_forget_implied [OF b])
  assume "wsorted \<sigma>" "holds F \<sigma> (forget_local a bs)"
  from fold_forget_extends [OF b this [unfolded forget_local_def]] obtain \<tau>
    where "wsorted \<tau>" "\<forall>x. x \<notin> set ?xs \<longrightarrow> \<tau> x = \<sigma> x" "holds F \<tau> a" by blast
  with xs show "\<exists>\<tau>. wsorted \<tau> \<and> (\<forall>x \<in> \<Union> (syms ` set bs). \<tau> x = \<sigma> x) \<and> holds F \<tau> a"
    by (intro exI [of _ \<tau>]) blast
qed

lemma bool_subset:
  "syms t \<subseteq> syms a \<inter> X \<Longrightarrow> list_all (\<lambda>x. snd x = BOOL) (sym_list a) \<Longrightarrow> list_all (\<lambda>x. snd x = BOOL) (sym_list t)"
  unfolding list_all_iff set_sym_list by blast

lemma bool_answer_UNSAT:
  "bool_answer F fs = UNSAT \<Longrightarrow> list_all (\<lambda>x. snd x = BOOL) (concat (map sym_list fs)) \<and> \<not> satisfiable F fs"
  using enum_search_None by (auto simp: bool_answer_def split: if_splits option.splits)

lemma bool_answer_SAT: "bool_answer F fs = SAT \<Longrightarrow> satisfiable F fs"
  unfolding satisfiable_def bool_answer_def by (auto split: if_splits option.splits dest: enum_search_Some)

lemma bool_answer_total: "list_all (\<lambda>x. snd x = BOOL) (concat (map sym_list fs)) \<Longrightarrow> bool_answer F fs \<noteq> UNKNOWN"
  by (auto simp: bool_answer_def split: option.splits)

subsection \<open>Sequences\<close>

lemma itp_chain_length: "fs \<noteq> [] \<Longrightarrow> Suc (length (itp_chain a fs)) = length fs"
  by (induction a fs rule: itp_chain.induct) (auto simp: Let_def)

lemma itp_chain_ok:
  "list_all (\<lambda>x. snd x = BOOL) (sym_list a) \<Longrightarrow> list_all (\<lambda>x. snd x = BOOL) (concat (map sym_list fs)) \<Longrightarrow>
    j < length (itp_chain a fs) \<Longrightarrow>
    syms (itp_chain a fs ! j) \<subseteq> (syms a \<union> \<Union> (syms ` set (take (Suc j) fs))) \<inter> \<Union> (syms ` set (drop (Suc j) fs))
    \<and> (\<forall>\<sigma>. wsorted \<sigma> \<longrightarrow> holds F \<sigma> (if j = 0 then a else itp_chain a fs ! (j - 1)) \<longrightarrow> holds F \<sigma> (fs ! j)
        \<longrightarrow> holds F \<sigma> (itp_chain a fs ! j))"
proof (induction a fs arbitrary: j rule: itp_chain.induct)
  case (3 a f g fs)
  let ?and = "plain_mk_term (op0 And) [a, f]"
  let ?t = "forget_local ?and (g # fs)"
  have b: "list_all (\<lambda>x. snd x = BOOL) (sym_list ?and)" using 3(2,3) by (auto simp: plain_mk_term_def)
  note fl = forget_local_ok [OF b, where bs = "g # fs"]
  have s: "syms ?and = syms a \<union> syms f" by (auto simp: plain_mk_term_def)
  have h: "holds F \<sigma> ?and \<longleftrightarrow> holds F \<sigma> a \<and> holds F \<sigma> f" for \<sigma> by (simp add: plain_mk_term_def sem_op_def)
  show ?case
  proof (cases j)
    case 0
    have "syms ?t \<subseteq> (syms a \<union> \<Union> (syms ` set (take (Suc j) (f # g # fs)))) \<inter> \<Union> (syms ` set (drop (Suc j) (f # g # fs)))"
      using fl(1) s 0 by auto
    with 0 h fl(2) [of _ F] show ?thesis by (auto simp: Let_def)
  next
    case (Suc i)
    have "list_all (\<lambda>x. snd x = BOOL) (sym_list ?t)" by (rule bool_subset [OF fl(1) b])
    moreover have "i < length (itp_chain ?t (g # fs))" using 3(4) Suc by (simp add: Let_def)
    ultimately have ih: "syms (itp_chain ?t (g # fs) ! i)
        \<subseteq> (syms ?t \<union> \<Union> (syms ` set (take (Suc i) (g # fs)))) \<inter> \<Union> (syms ` set (drop (Suc i) (g # fs)))"
      "\<forall>\<sigma>. wsorted \<sigma> \<longrightarrow> holds F \<sigma> (if i = 0 then ?t else itp_chain ?t (g # fs) ! (i - 1)) \<longrightarrow> holds F \<sigma> ((g # fs) ! i)
        \<longrightarrow> holds F \<sigma> (itp_chain ?t (g # fs) ! i)"
      using 3(1) [of ?t i] 3(3) by simp_all
    have "syms ?t \<subseteq> syms a \<union> syms f" using fl(1) s by blast
    with ih(1) Suc have "syms (itp_chain a (f # g # fs) ! j) \<subseteq> (syms a \<union> \<Union> (syms ` set (take (Suc j) (f # g # fs))))
        \<inter> \<Union> (syms ` set (drop (Suc j) (f # g # fs)))" by (auto simp: Let_def)
    with ih(2) Suc show ?thesis by (cases i) (auto simp: Let_def)
  qed
qed auto

lemma itp_chain_refutes:
  "list_all (\<lambda>x. snd x = BOOL) (sym_list a) \<Longrightarrow> list_all (\<lambda>x. snd x = BOOL) (concat (map sym_list fs)) \<Longrightarrow> fs \<noteq> [] \<Longrightarrow>
    wsorted \<sigma> \<Longrightarrow> holds F \<sigma> (last (a # itp_chain a fs)) \<Longrightarrow> holds F \<sigma> (last fs) \<Longrightarrow> \<exists>\<tau>. wsorted \<tau> \<and> all_hold F \<tau> (a # fs)"
proof (induction a fs arbitrary: \<sigma> rule: itp_chain.induct)
  case (2 a f)
  then show ?case by (intro exI [of _ \<sigma>]) simp
next
  case (3 a f g fs)
  let ?and = "plain_mk_term (op0 And) [a, f]"
  let ?t = "forget_local ?and (g # fs)"
  have b: "list_all (\<lambda>x. snd x = BOOL) (sym_list ?and)" using 3(2,3) by (auto simp: plain_mk_term_def)
  note fl = forget_local_ok [OF b, where bs = "g # fs"]
  have "list_all (\<lambda>x. snd x = BOOL) (sym_list ?t)" by (rule bool_subset [OF fl(1) b])
  then obtain \<tau> where t: "wsorted \<tau>" "all_hold F \<tau> (?t # g # fs)"
    using 3(1) [of ?t \<sigma>] 3(3,5-7) by (auto simp: Let_def)
  then have "holds F \<tau> ?t" by simp
  with fl(3) [OF t(1)] obtain \<rho> where r: "wsorted \<rho>" "\<forall>x \<in> \<Union> (syms ` set (g # fs)). \<rho> x = \<tau> x" "holds F \<rho> ?and" by blast
  have "eval F \<rho> u = eval F \<tau> u" if "u \<in> set (g # fs)" for u using r(2) that by (intro eval_cong) blast
  with t(2) r(1,3) show ?case by (intro exI [of _ \<rho>]) (simp add: plain_mk_term_def sem_op_def)
qed simp

lemma enum_itp_fields [simp]:
  "ip_interpolant (enum_itp F) a b i = (Some (bool_answer F [a, b], forget_local a [b]), i)"
  "ip_sequence (enum_itp F) fs i = (Some (bool_answer F fs, itp_chain tm_true fs), i)"
  by (simp_all add: enum_itp_def)

lemma enum_itp_interpolating: "interpolating (enum_itp F) F"
proof
  fix a b t :: tm and s s' :: unit and \<sigma> :: assignment
  assume q: "ip_interpolant (enum_itp F) a b s = (Some (UNSAT, t), s')"
  then have u: "list_all (\<lambda>x. snd x = BOOL) (sym_list a)" "\<not> satisfiable F [a, b]" and t: "t = forget_local a [b]"
    using bool_answer_UNSAT [of F "[a, b]"] by auto
  note fl = forget_local_ok [OF u(1), where bs = "[b]"]
  show "syms t \<subseteq> syms a \<inter> syms b" using fl(1) t by simp
  show "holds F \<sigma> t" if "wsorted \<sigma>" "holds F \<sigma> a" using fl(2) that t by simp
  show "\<not> holds F \<sigma> b" if w: "wsorted \<sigma>" "holds F \<sigma> t"
  proof
    assume b: "holds F \<sigma> b"
    from fl(3) [OF w(1)] w(2) t obtain \<tau> where r: "wsorted \<tau>" "\<forall>x \<in> syms b. \<tau> x = \<sigma> x" "holds F \<tau> a" by auto
    have "eval F \<tau> b = eval F \<sigma> b" using r(2) by (intro eval_cong) blast
    with u(2) r(1,3) b show False by (auto simp: satisfiable_def)
  qed
next
  fix fs ts :: "tm list" and s s' :: unit
  assume q: "ip_sequence (enum_itp F) fs s = (Some (UNSAT, ts), s')"
  then have u: "list_all (\<lambda>x. snd x = BOOL) (concat (map sym_list fs))" "\<not> satisfiable F fs" and ts: "ts = itp_chain tm_true fs"
    using bool_answer_UNSAT [of F fs] by auto
  have w0: "wsorted (row_env [])" by (rule wsorted_row_env) simp
  have ne: "fs \<noteq> []" using u(2) w0 by (auto simp: satisfiable_def)
  show len: "Suc (length ts) = length fs" using itp_chain_length [OF ne] ts by simp
  note ok = itp_chain_ok [where a = tm_true, OF _ u(1), folded ts]
  show "syms (ts ! j) \<subseteq> \<Union> (syms ` set (take (Suc j) fs)) \<inter> \<Union> (syms ` set (drop (Suc j) fs))" if "j < length ts" for j
    using ok [where j = j and F = F] that by simp
  show "holds_seq F \<sigma> fs ts" if w: "wsorted \<sigma>" for \<sigma>
    unfolding holds_seq_def
  proof (intro allI impI, elim conjE)
    fix j assume j: "j < length fs" and p: "j = 0 \<or> holds F \<sigma> (ts ! (j - 1))" and f: "holds F \<sigma> (fs ! j)"
    have "j < length ts"
    proof (rule ccontr)
      assume "\<not> j < length ts"
      with j len have jl: "j = length ts" by simp
      then have "j = length fs - 1" using len by simp
      then have "fs ! j = last fs" using ne by (simp add: last_conv_nth)
      moreover have "holds F \<sigma> (last (tm_true # ts))" using p jl by (cases ts rule: rev_cases) auto
      ultimately have "\<exists>\<tau>. wsorted \<tau> \<and> all_hold F \<tau> (tm_true # fs)"
        using itp_chain_refutes [of tm_true fs \<sigma> F] u(1) ne w f ts by simp
      with u(2) show False by (auto simp: satisfiable_def)
    qed
    with ok [where j = j and F = F] p f w show "j < length ts \<and> holds F \<sigma> (ts ! j)" by auto
  qed
qed

interpretation enum_itp: interpolating "enum_itp F" F for F
  by (rule enum_itp_interpolating)

end
