(* ===== verification/Interpolation_Results.thy ===== *)
theory Interpolation_Results
  imports Bool_Interpolator
begin

section \<open>What the interpolation engines answer\<close>

text \<open>The engines give up only when the interpolating solver throws.\<close>

definition itp_never_throws :: "'i interpolator \<Rightarrow> bool" where
  "itp_never_throws I \<longleftrightarrow> (\<forall>a b i. fst (ip_interpolant I a b i) \<noteq> None) \<and> (\<forall>fs i. fst (ip_sequence I fs i) \<noteq> None)"

lemma check_initial_bad_exn: "check_initial_bad E msg t s \<noteq> Inl InternalSolverException"
  by (auto simp: check_initial_bad_def Let_def split: smt_result.splits prod.splits)

lemma imc_loop_exn:
  "imc_loop E I U opts n i R Ri c p = Inl InternalSolverException \<Longrightarrow> itp_never_throws I \<Longrightarrow> False"
proof (induction n arbitrary: R Ri c p)
  case (Suc n)
  let ?fA = "and_term E (if io_frontier_simpl opts then Ri else R) (im_transA p)"
  let ?fB = "and_term E (im_transB p) (im_bad_disjuncts p)"
  obtain ans it where q: "ip_interpolant I (if io_backward opts then ?fB else ?fA)
      (if io_backward opts then ?fA else ?fB) (im_itp p) = (ans, it)" by (rule prod.exhaust)
  then have "ans \<noteq> None" using Suc.prems(2) unfolding itp_never_throws_def by (metis fst_conv)
  with Suc q show ?case
    by (auto simp: Let_def guardE_Inl_iff split: option.splits if_splits prod.splits)
qed simp

lemma imc_bounds_exn:
  "imc_bounds E I U opts fuel is p = Inl InternalSolverException \<Longrightarrow> itp_never_throws I \<Longrightarrow> False"
proof (induction "is" arbitrary: p)
  case (Cons i "is")
  have "imc_step E I U opts fuel i p \<noteq> Inl InternalSolverException"
    using imc_loop_exn [OF _ Cons.prems(2)]
    by (auto simp: imc_step_def imc_step_0_def Let_def bindE_Inl_iff check_initial_bad_exn split: imc_exit.splits prod.splits)
  with Cons show ?case by (auto simp: bindE_Inl_iff split: prod.splits if_splits)
qed simp

lemma check_itp_sequence_exn: "check_itp_sequence E fs itps is s \<noteq> Inl InternalSolverException"
  by (induction "is" arbitrary: s) (auto simp: Let_def guardE_Inl_iff split: prod.splits)

lemma conjoin_itps_exn: "conjoin_itps E U ts Rs \<noteq> Inl InternalSolverException"
  by (induction E U ts Rs rule: conjoin_itps.induct) (auto simp: bindE_Inl_iff)

lemma ismc_bounds_exn:
  "ismc_bounds E I U dbg is p = Inl InternalSolverException \<Longrightarrow> itp_never_throws I \<Longrightarrow> False"
proof (induction "is" arbitrary: p)
  case (Cons i "is")
  have "fst (ip_sequence I fs st) \<noteq> None" for fs st using Cons.prems(2) by (simp add: itp_never_throws_def)
  then have "ip_sequence I fs st \<noteq> (None, st')" for fs st st' by (metis fst_conv)
  then have "ismc_step E I U dbg i p \<noteq> Inl InternalSolverException"
    by (auto simp: ismc_step_def ismc_step_0_def Let_def bindE_Inl_iff guardE_Inl_iff check_initial_bad_exn
        check_itp_sequence_exn conjoin_itps_exn split: prod.splits option.splits)
  with Cons show ?case by (auto simp: bindE_Inl_iff split: prod.splits if_splits)
qed simp

subsection \<open>The engines on the environment that the program makes\<close>

lemma make_env_itp:
  assumes "smt_engine S F frames" and "ts_wf sys" and "covered prop (set (ts_statevars sys))" and "interpolating I F"
  shows "itp_engine (make_env S sys prop) F frames (untimed (builder S) ''@'' sys) I"
  using make_env_untiming [OF assms(1-3)] assms(4) unfolding itp_engine_def by blast

interpretation demo_untiming: untiming "make_env (enum_solver F (full_decider F)) demo_ts vx" F e_frames
    "untimed (builder (enum_solver F (full_decider F))) ''@'' demo_ts" for F
  by (rule make_env_untiming [OF full.smt_engine_axioms demo_wf]) (simp add: demo_fields)

interpretation demo_itp: itp_engine "make_env (enum_solver F (full_decider F)) demo_ts vx" F e_frames
    "untimed (builder (enum_solver F (full_decider F))) ''@'' demo_ts" "enum_itp F" for F
  by (rule make_env_itp [OF full.smt_engine_axioms demo_wf _ enum_itp_interpolating]) (simp add: demo_fields)

lemma imc_run:
  assumes "smt_engine S F frames" and "ts_wf sys" and "covered prop (set (ts_statevars sys))" and "interpolating I F"
    and "concat (frames s) = []" and "frames s \<noteq> []"
    and "imc_check_until (make_env S sys prop) I (untimed (builder S) ''@'' sys) opts fuel k (new_imc s it) = Inr (res, p')"
  shows "itp_engine.imc_result (make_env S sys prop) F (nat (k + 1)) res p' \<or> res = PR_UNKNOWN \<and> \<not> itp_never_throws I"
proof -
  let ?E = "make_env S sys prop"
  have e: "itp_engine ?E F frames (untimed (builder S) ''@'' sys) I" by (rule make_env_itp [OF assms(1-4)])
  from itp_engine.imc_check_ok [OF e assms(7)] assms(5,6) imc_bounds_exn show ?thesis
    by (fastforce simp: new_imc_def)
qed

lemma ismc_run:
  assumes "smt_engine S F frames" and "ts_wf sys" and "covered prop (set (ts_statevars sys))" and "interpolating I F"
    and "concat (frames s) = []" and "frames s \<noteq> []"
    and "ismc_check_until (make_env S sys prop) I (untimed (builder S) ''@'' sys) dbg k (new_ismc s it) = Inr (res, p')"
  shows "itp_engine.ismc_result (make_env S sys prop) F (nat (k + 1)) res p' \<or> res = PR_UNKNOWN \<and> \<not> itp_never_throws I"
proof -
  let ?E = "make_env S sys prop"
  have e: "itp_engine ?E F frames (untimed (builder S) ''@'' sys) I" by (rule make_env_itp [OF assms(1-4)])
  from itp_engine.ismc_check_ok [OF e assms(7)] assms(5,6) ismc_bounds_exn show ?thesis
    by (fastforce simp: new_ismc_def)
qed

text \<open>C4: When the interpolation engine answers \<open>TRUE\<close>, whatever its options, the property
  holds in every reachable state, and the invariant it records is a formula over the state variables that
  holds initially, is kept by every step, and, where every state has a successor, implies the property.\<close>

theorem imc_true_has_invariant:
  assumes "smt_engine S F frames" and "ts_wf sys" and "covered prop (set (ts_statevars sys))" and "interpolating I F"
    and "concat (frames s) = []" and "frames s \<noteq> []"
    and "imc_check_until (make_env S sys prop) I (untimed (builder S) ''@'' sys) opts fuel k (new_imc s it) = Inr (PR_TRUE, p')"
  shows "safe F sys (en_bad (make_env S sys prop)) \<and> (\<exists>iv. pr_invar p' = Some iv \<and> covered iv (set (ts_statevars sys))
    \<and> (\<forall>s. ts_initial F sys s \<longrightarrow> holds F s iv) \<and> (\<forall>s t. ts_step F sys s t \<and> holds F s iv \<longrightarrow> holds F t iv)
    \<and> ((\<forall>s. wsorted s \<longrightarrow> (\<exists>t. ts_step F sys s t)) \<longrightarrow> (\<forall>s. wsorted s \<and> holds F s iv \<longrightarrow> holds F s prop)))"
proof -
  let ?E = "make_env S sys prop"
  have e: "itp_engine ?E F frames (untimed (builder S) ''@'' sys) I" by (rule make_env_itp [OF assms(1-4)])
  from imc_run [OF assms] obtain i where "itp_engine.imc_proof ?E F i p'"
    by (auto simp: itp_engine.imc_result_def [OF e])
  then obtain iv where p: "safe F sys (en_bad ?E)" "pr_invar p' = Some iv" "covered iv (set (ts_statevars sys))"
    "\<forall>s. ts_initial F sys s \<longrightarrow> holds F s iv" "\<forall>s t. ts_step F sys s t \<and> holds F s iv \<longrightarrow> holds F t iv"
    "\<forall>\<pi>. segment F sys \<pi> (i - 1) \<and> holds F (\<pi> 0) iv \<longrightarrow> \<not> holds F (\<pi> 0) (en_bad ?E)"
    by (auto simp: itp_engine.imc_proof_def [OF e])
  have "holds F x prop" if t: "\<forall>s. wsorted s \<longrightarrow> (\<exists>t. ts_step F sys s t)" and x: "wsorted x" "holds F x iv" for x
  proof -
    have "\<exists>\<pi>. segment F sys \<pi> (i - 1) \<and> \<pi> 0 = x"
      using itp_engine.total_segment [OF e, of x "i - 1"] t x(1) by simp
    then obtain \<pi> where "segment F sys \<pi> (i - 1)" "\<pi> 0 = x" by blast
    with p(6) x(2) have "\<not> holds F x (en_bad ?E)" by blast
    then show ?thesis using env_bad(1) [OF assms(1)] by simp
  qed
  with p show ?thesis by blast
qed

text \<open>C14: When the interpolation engine answers otherwise, it answers \<open>FALSE\<close> with a witness of
  a shortest counterexample, not longer than the bound, or \<open>UNKNOWN\<close>, and then there is no
  counterexample within the bound, unless the interpolating solver threw an exception.\<close>

theorem imc_other_answers:
  assumes "smt_engine S F frames" and "ts_wf sys" and "covered prop (set (ts_statevars sys))" and "interpolating I F"
    and "concat (frames s) = []" and "frames s \<noteq> []"
    and "imc_check_until (make_env S sys prop) I (untimed (builder S) ''@'' sys) opts fuel k (new_imc s it) = Inr (res, p')"
    and "res \<noteq> PR_TRUE"
  shows "res = PR_FALSE \<and> (\<exists>n. int n \<le> k \<and> witnessed F sys prop n (pr_witness p')
        \<and> (\<forall>m < n. \<not> cex F sys (en_bad (make_env S sys prop)) m))
      \<or> res = PR_UNKNOWN \<and> (itp_never_throws I \<longrightarrow> (\<forall>m. int m \<le> k \<longrightarrow> \<not> cex F sys (en_bad (make_env S sys prop)) m))"
proof -
  let ?E = "make_env S sys prop"
  have e: "itp_engine ?E F frames (untimed (builder S) ''@'' sys) I" by (rule make_env_itp [OF assms(1-4)])
  note run = imc_run [OF assms(1-7)]
  show ?thesis
  proof (cases res)
    case PR_FALSE
    with run obtain i q where q: "i < nat (k + 1)" "itp_engine.imc_cex ?E F i q" "p' = compute_witness ?E q"
      by (auto simp: itp_engine.imc_result_def [OF e])
    have "witnessed F sys prop i (pr_witness p')"
      using itp_engine.imc_cex_witness [OF e q(2)] env_bad(1) [OF assms(1)] unfolding witnessed_def q(3) by simp
    moreover have "\<forall>m < i. \<not> cex F sys (en_bad ?E) m" using q(2) by (simp add: itp_engine.imc_cex_def [OF e])
    moreover have "int i \<le> k" using q(1) by linarith
    ultimately show ?thesis using PR_FALSE by blast
  next
    case PR_UNKNOWN
    have "\<not> cex F sys (en_bad ?E) m" if "itp_never_throws I" "int m \<le> k" for m
    proof -
      have "m < nat (k + 1)" using that(2) by linarith
      with run PR_UNKNOWN that(1) show ?thesis by (auto simp: itp_engine.imc_result_def [OF e])
    qed
    with PR_UNKNOWN show ?thesis by blast
  qed (use run assms(8) in \<open>auto simp: itp_engine.imc_result_def [OF e]\<close>)
qed

text \<open>C10: When the engine that uses interpolation sequences answers \<open>TRUE\<close>, with or without
  its debug check, the property holds in every reachable state, and the invariant it records is a
  formula over the state variables that holds initially, is kept by every step and implies the property.\<close>

theorem ismc_true_has_invariant:
  assumes "smt_engine S F frames" and "ts_wf sys" and "covered prop (set (ts_statevars sys))" and "interpolating I F"
    and "concat (frames s) = []" and "frames s \<noteq> []"
    and "ismc_check_until (make_env S sys prop) I (untimed (builder S) ''@'' sys) dbg k (new_ismc s it) = Inr (PR_TRUE, p')"
  shows "safe F sys (en_bad (make_env S sys prop)) \<and> (\<exists>iv. pr_invar p' = Some iv \<and> covered iv (set (ts_statevars sys))
    \<and> (\<forall>s. ts_initial F sys s \<longrightarrow> holds F s iv) \<and> (\<forall>s t. ts_step F sys s t \<and> holds F s iv \<longrightarrow> holds F t iv)
    \<and> (\<forall>s. wsorted s \<and> holds F s iv \<longrightarrow> holds F s prop))"
proof -
  let ?E = "make_env S sys prop"
  have e: "itp_engine ?E F frames (untimed (builder S) ''@'' sys) I" by (rule make_env_itp [OF assms(1-4)])
  from ismc_run [OF assms] have "itp_engine.ismc_proof ?E F p'" by (simp add: itp_engine.ismc_result_def [OF e])
  then show ?thesis using env_bad(1) [OF assms(1)] by (simp add: itp_engine.ismc_proof_def [OF e])
qed

text \<open>C15: When the engine that uses interpolation sequences answers otherwise, it answers
  \<open>FALSE\<close> with a witness of a shortest counterexample, not longer than the bound, or
  \<open>UNKNOWN\<close>, and then there is no counterexample within the bound, unless the interpolating
  solver threw an exception.\<close>

theorem ismc_other_answers:
  assumes "smt_engine S F frames" and "ts_wf sys" and "covered prop (set (ts_statevars sys))" and "interpolating I F"
    and "concat (frames s) = []" and "frames s \<noteq> []"
    and "ismc_check_until (make_env S sys prop) I (untimed (builder S) ''@'' sys) dbg k (new_ismc s it) = Inr (res, p')"
    and "res \<noteq> PR_TRUE"
  shows "res = PR_FALSE \<and> (\<exists>n. int n \<le> k \<and> witnessed F sys prop n (pr_witness p')
        \<and> (\<forall>m < n. \<not> cex F sys (en_bad (make_env S sys prop)) m))
      \<or> res = PR_UNKNOWN \<and> (itp_never_throws I \<longrightarrow> (\<forall>m. int m \<le> k \<longrightarrow> \<not> cex F sys (en_bad (make_env S sys prop)) m))"
proof -
  let ?E = "make_env S sys prop"
  have e: "itp_engine ?E F frames (untimed (builder S) ''@'' sys) I" by (rule make_env_itp [OF assms(1-4)])
  note run = ismc_run [OF assms(1-7)]
  show ?thesis
  proof (cases res)
    case PR_FALSE
    with run obtain i q where q: "i < nat (k + 1)" "itp_engine.ismc_cex ?E F i q" "p' = compute_witness ?E q"
      by (auto simp: itp_engine.ismc_result_def [OF e])
    have "witnessed F sys prop i (pr_witness p')"
      using itp_engine.ismc_cex_witness [OF e q(2)] env_bad(1) [OF assms(1)] unfolding witnessed_def q(3) by simp
    moreover have "\<forall>m < i. \<not> cex F sys (en_bad ?E) m" using q(2) by (simp add: itp_engine.ismc_cex_def [OF e])
    moreover have "int i \<le> k" using q(1) by linarith
    ultimately show ?thesis using PR_FALSE by blast
  next
    case PR_UNKNOWN
    have "\<not> cex F sys (en_bad ?E) m" if "itp_never_throws I" "int m \<le> k" for m
    proof -
      have "m < nat (k + 1)" using that(2) by linarith
      with run PR_UNKNOWN that(1) show ?thesis by (auto simp: itp_engine.ismc_result_def [OF e])
    qed
    with PR_UNKNOWN show ?thesis by blast
  qed (use run assms(8) in \<open>auto simp: itp_engine.ismc_result_def [OF e]\<close>)
qed

theorem imc_true_has_invariant_witness:
  "\<exists>p'. imc_check_until (make_env (enum_solver (\<lambda>_ _. BoolVal False) no_decider) demo_ts
        (Node (op0 Or) BOOL [vx, Node (op0 NotOp) BOOL [vx]])) (enum_itp (\<lambda>_ _. BoolVal False))
        (untimed (builder (enum_solver (\<lambda>_ _. BoolVal False) no_decider)) ''@'' demo_ts)
        default_imc_opts 4 3 (new_imc enum_init ()) = Inr (PR_TRUE, p')
    \<and> safe (\<lambda>_ _. BoolVal False) demo_ts (Node (op0 NotOp) BOOL [Node (op0 Or) BOOL [vx, Node (op0 NotOp) BOOL [vx]]])"
proof -
  let ?F = "\<lambda>_ _. BoolVal False" and ?S = "enum_solver (\<lambda>_ _. BoolVal False) no_decider"
  let ?goal = "Node (op0 Or) BOOL [vx, Node (op0 NotOp) BOOL [vx]]"
  let ?run = "imc_check_until (make_env ?S demo_ts ?goal) (enum_itp ?F)
      (untimed (builder ?S) ''@'' demo_ts) default_imc_opts 4 3 (new_imc enum_init ())"
  have "case ?run of Inl e \<Rightarrow> False | Inr (r, p) \<Rightarrow> r = PR_TRUE" by code_simp
  then obtain p' where p: "?run = Inr (PR_TRUE, p')" by (auto split: sum.splits)
  have "covered ?goal (set (ts_statevars demo_ts))" by (simp add: covered_def demo_fields)
  from imc_true_has_invariant [OF enum.smt_engine_axioms demo_wf this enum_itp_interpolating _ _ p]
  have "safe ?F demo_ts (en_bad (make_env ?S demo_ts ?goal))" by (simp add: enum_init_def)
  moreover have "en_bad (make_env ?S demo_ts ?goal) = Node (op0 NotOp) BOOL [?goal]"
    by (simp add: plain_builder_def plain_mk_term_def)
  ultimately show ?thesis using p by auto
qed

theorem imc_other_answers_witness:
  "\<exists>p' n. imc_check_until (make_env (enum_solver (\<lambda>_ _. BoolVal False) no_decider) demo_ts
        (Node (op0 NotOp) BOOL [vx])) (enum_itp (\<lambda>_ _. BoolVal False))
        (untimed (builder (enum_solver (\<lambda>_ _. BoolVal False) no_decider)) ''@'' demo_ts)
        default_imc_opts 4 3 (new_imc enum_init ()) = Inr (PR_FALSE, p')
    \<and> witnessed (\<lambda>_ _. BoolVal False) demo_ts (Node (op0 NotOp) BOOL [vx]) n (pr_witness p')"
proof -
  let ?F = "\<lambda>_ _. BoolVal False" and ?S = "enum_solver (\<lambda>_ _. BoolVal False) no_decider"
  let ?goal = "Node (op0 NotOp) BOOL [vx]"
  let ?run = "imc_check_until (make_env ?S demo_ts ?goal) (enum_itp ?F)
      (untimed (builder ?S) ''@'' demo_ts) default_imc_opts 4 3 (new_imc enum_init ())"
  have "case ?run of Inl e \<Rightarrow> False | Inr (r, p) \<Rightarrow> r = PR_FALSE" by code_simp
  then obtain p' where p: "?run = Inr (PR_FALSE, p')" by (auto split: sum.splits)
  have "covered ?goal (set (ts_statevars demo_ts))" by (simp add: covered_def demo_fields)
  from imc_other_answers [OF enum.smt_engine_axioms demo_wf this enum_itp_interpolating _ _ p]
  show ?thesis using p by (auto simp: enum_init_def)
qed

theorem ismc_true_has_invariant_witness:
  "\<exists>p'. ismc_check_until (make_env (enum_solver (\<lambda>_ _. BoolVal False) no_decider) demo_ts
        (Node (op0 Or) BOOL [vx, Node (op0 NotOp) BOOL [vx]])) (enum_itp (\<lambda>_ _. BoolVal False))
        (untimed (builder (enum_solver (\<lambda>_ _. BoolVal False) no_decider)) ''@'' demo_ts)
        True 3 (new_ismc enum_init ()) = Inr (PR_TRUE, p')
    \<and> safe (\<lambda>_ _. BoolVal False) demo_ts (Node (op0 NotOp) BOOL [Node (op0 Or) BOOL [vx, Node (op0 NotOp) BOOL [vx]]])"
proof -
  let ?F = "\<lambda>_ _. BoolVal False" and ?S = "enum_solver (\<lambda>_ _. BoolVal False) no_decider"
  let ?goal = "Node (op0 Or) BOOL [vx, Node (op0 NotOp) BOOL [vx]]"
  let ?run = "ismc_check_until (make_env ?S demo_ts ?goal) (enum_itp ?F)
      (untimed (builder ?S) ''@'' demo_ts) True 3 (new_ismc enum_init ())"
  have "case ?run of Inl e \<Rightarrow> False | Inr (r, p) \<Rightarrow> r = PR_TRUE" by code_simp
  then obtain p' where p: "?run = Inr (PR_TRUE, p')" by (auto split: sum.splits)
  have "covered ?goal (set (ts_statevars demo_ts))" by (simp add: covered_def demo_fields)
  from ismc_true_has_invariant [OF enum.smt_engine_axioms demo_wf this enum_itp_interpolating _ _ p]
  have "safe ?F demo_ts (en_bad (make_env ?S demo_ts ?goal))" by (simp add: enum_init_def)
  moreover have "en_bad (make_env ?S demo_ts ?goal) = Node (op0 NotOp) BOOL [?goal]"
    by (simp add: plain_builder_def plain_mk_term_def)
  ultimately show ?thesis using p by auto
qed

theorem ismc_other_answers_witness:
  "\<exists>p' n. ismc_check_until (make_env (enum_solver (\<lambda>_ _. BoolVal False) no_decider) demo_ts
        (Node (op0 NotOp) BOOL [vx])) (enum_itp (\<lambda>_ _. BoolVal False))
        (untimed (builder (enum_solver (\<lambda>_ _. BoolVal False) no_decider)) ''@'' demo_ts)
        True 3 (new_ismc enum_init ()) = Inr (PR_FALSE, p')
    \<and> witnessed (\<lambda>_ _. BoolVal False) demo_ts (Node (op0 NotOp) BOOL [vx]) n (pr_witness p')"
proof -
  let ?F = "\<lambda>_ _. BoolVal False" and ?S = "enum_solver (\<lambda>_ _. BoolVal False) no_decider"
  let ?goal = "Node (op0 NotOp) BOOL [vx]"
  let ?run = "ismc_check_until (make_env ?S demo_ts ?goal) (enum_itp ?F)
      (untimed (builder ?S) ''@'' demo_ts) True 3 (new_ismc enum_init ())"
  have "case ?run of Inl e \<Rightarrow> False | Inr (r, p) \<Rightarrow> r = PR_FALSE" by code_simp
  then obtain p' where p: "?run = Inr (PR_FALSE, p')" by (auto split: sum.splits)
  have "covered ?goal (set (ts_statevars demo_ts))" by (simp add: covered_def demo_fields)
  from ismc_other_answers [OF enum.smt_engine_axioms demo_wf this enum_itp_interpolating _ _ p]
  show ?thesis using p by (auto simp: enum_init_def)
qed

end
