(* ===== verification/Str_Util.thy ===== *)
theory Str_Util
  imports Pono_Prelude "HOL-Library.Word" "HOL-Library.Sublist" "HOL-Library.Char_ord"
begin

section \<open>String helpers (utils/str_util)\<close>

text \<open>
  The string functions that the printers and the reading of solver values use.  A position is a
  \<open>nat\<close>, a \<open>char\<close> of a digit vector an 8-bit word; a loop that need not end takes its
  rounds as fuel.  \<open>str_find\<close> and \<open>stoull\<close> are \<open>std::string::find\<close> and
  \<open>std::stoull\<close>.
\<close>

definition is_space :: "char \<Rightarrow> bool" where
  "is_space c \<longleftrightarrow> (of_char c :: nat) \<in> {9, 10, 11, 12, 13, 32}"

subsection \<open>Numbers as strings\<close>

definition digit_char :: "bool \<Rightarrow> nat \<Rightarrow> char" where
  "digit_char upper d = char_of (if d < 10 then 48 + d else (if upper then 65 else 97) + d - 10)"

primrec int_to_str_loop :: "nat \<Rightarrow> nat \<Rightarrow> bool \<Rightarrow> 64 word \<Rightarrow> string \<Rightarrow> string result" where
  "int_to_str_loop 0 b upper v acc = Inl OutOfFuel"
| "int_to_str_loop (Suc n) b upper v acc =
     (if v = 0 then Inr acc
      else int_to_str_loop n b upper (v div of_nat b) (digit_char upper (unat (v mod of_nat b)) # acc))"

definition int_to_str_custom_base :: "64 word \<Rightarrow> nat \<Rightarrow> bool \<Rightarrow> string result" where
  "int_to_str_custom_base v b upper =
     guardE (1 < b \<and> b \<le> 36) (UndefinedBehaviour ''assertion'')
       (if v = 0 then Inr ''0'' else int_to_str_loop 65 b upper v [])"

definition digit_val :: "char \<Rightarrow> nat option" where
  "digit_val c =
     (let n = of_char c in
      if 48 \<le> n \<and> n \<le> 57 then Some (n - 48)
      else if 97 \<le> n \<and> n \<le> 122 then Some (n - 87)
      else if 65 \<le> n \<and> n \<le> 90 then Some (n - 55) else None)"

definition digit_in :: "nat \<Rightarrow> char \<Rightarrow> bool" where
  "digit_in b c = (case digit_val c of Some d \<Rightarrow> d < b | None \<Rightarrow> False)"

definition str_value :: "nat \<Rightarrow> string \<Rightarrow> nat" where
  "str_value b ds = fold (\<lambda>c n. n * b + (case digit_val c of Some d \<Rightarrow> d | None \<Rightarrow> 0)) ds 0"

definition hex_prefix :: "string \<Rightarrow> bool" where
  "hex_prefix s \<longleftrightarrow> 2 < length s \<and> s ! 0 = CHR ''0'' \<and> s ! 1 \<in> {CHR ''x'', CHR ''X''} \<and> digit_in 16 (s ! 2)"

definition stoull :: "string \<Rightarrow> nat \<Rightarrow> 64 word result" where
  "stoull s base =
     (let s1 = dropWhile is_space s;
          sgn = s1 \<noteq> [] \<and> hd s1 \<in> {CHR ''-'', CHR ''+''};
          s2 = (if sgn then tl s1 else s1);
          b = (if base \<noteq> 0 then base else if hex_prefix s2 then 16
               else if s2 \<noteq> [] \<and> hd s2 = CHR ''0'' then 8 else 10);
          ds = takeWhile (digit_in b) (if b = 16 \<and> hex_prefix s2 then drop 2 s2 else s2);
          n = str_value b ds
      in guardE (ds \<noteq> []) InvalidArgument (guardE (n < 2 ^ 64) OutOfRange
           (Inr (if sgn \<and> hd s1 = CHR ''-'' then - of_nat n else of_nat n))))"

definition str_to_ulonglong :: "string \<Rightarrow> nat \<Rightarrow> 64 word result" where
  "str_to_ulonglong s base = stoull s base"

subsection \<open>Trimming, splitting, joining\<close>

definition str_left_trim :: "string \<Rightarrow> string" where
  "str_left_trim s = dropWhile is_space s"

definition str_right_trim :: "string \<Rightarrow> string" where
  "str_right_trim s = rev (dropWhile is_space (rev s))"

definition str_trim :: "string \<Rightarrow> string" where
  "str_trim s = str_right_trim (str_left_trim s)"

definition str_find :: "string \<Rightarrow> string \<Rightarrow> nat \<Rightarrow> nat option" where
  "str_find s d from = find (\<lambda>p. prefix d (drop p s)) [from..<Suc (length s)]"

definition substr :: "string \<Rightarrow> nat \<Rightarrow> nat \<Rightarrow> string result" where
  "substr s pos n = guardE (pos \<le> length s) OutOfRange (Inr (take n (drop pos s)))"

primrec split_loop :: "nat \<Rightarrow> string \<Rightarrow> string \<Rightarrow> nat \<Rightarrow> string list \<Rightarrow> string list result" where
  "split_loop 0 s d prv tokens = Inl OutOfFuel"
| "split_loop (Suc n) s d prv tokens =
     (let pos = (case str_find s d prv of Some p \<Rightarrow> p | None \<Rightarrow> length s) in
      bindE (substr s prv (pos - prv)) (\<lambda>token.
      let tokens' = (if token \<noteq> [] then tokens @ [token] else tokens);
          prv' = pos + length d
      in if pos < length s \<and> prv' < length s then split_loop n s d prv' tokens' else Inr tokens'))"

definition split_str :: "nat \<Rightarrow> string \<Rightarrow> string \<Rightarrow> string list result" where
  "split_str fuel s d = split_loop fuel s d 0 []"

function split_space_tab_enter :: "string \<Rightarrow> string list" where
  "split_space_tab_enter s =
     (let s1 = dropWhile is_space s
      in if s1 = [] then []
         else takeWhile (\<lambda>c. \<not> is_space c) s1 # split_space_tab_enter (dropWhile (\<lambda>c. \<not> is_space c) s1))"
  by pat_completeness auto

termination
proof (relation "measure length", simp_all)
  fix s assume "\<exists>x \<in> set s. \<not> is_space x"
  then have ne: "dropWhile is_space s \<noteq> []" by (simp add: dropWhile_eq_Nil_conv)
  then have "\<not> is_space (hd (dropWhile is_space s))" by (rule hd_dropWhile)
  then have "length (dropWhile (\<lambda>c. \<not> is_space c) (dropWhile is_space s)) < length (dropWhile is_space s)"
    using ne length_dropWhile_le [of "\<lambda>c. \<not> is_space c" "tl (dropWhile is_space s)"]
    by (cases "dropWhile is_space s") auto
  then show "length (dropWhile (\<lambda>c. \<not> is_space c) (dropWhile is_space s)) < length s"
    using length_dropWhile_le [of is_space s] by linarith
qed

definition join :: "string list \<Rightarrow> string \<Rightarrow> string" where
  "join ss delim = fst (fold (\<lambda>s (ret, d). (ret @ d @ s, delim)) ss ([], []))"

definition remove_white_space :: "string \<Rightarrow> string" where
  "remove_white_space s = filter (\<lambda>c. \<not> is_space c) s"

primrec replace_all_loop :: "nat \<Rightarrow> string \<Rightarrow> string \<Rightarrow> string \<Rightarrow> nat \<Rightarrow> string \<Rightarrow> string result" where
  "replace_all_loop 0 s a b from ret = Inl OutOfFuel"
| "replace_all_loop (Suc n) s a b from ret =
     (case str_find s a from of
        Some pos \<Rightarrow> bindE (substr s from (pos - from)) (\<lambda>t.
          replace_all_loop n s a b (pos + length a) (ret @ t @ b))
      | None \<Rightarrow> bindE (substr s from (length s)) (\<lambda>t. Inr (ret @ t)))"

definition replace_all :: "nat \<Rightarrow> string \<Rightarrow> string \<Rightarrow> string \<Rightarrow> string result" where
  "replace_all fuel s a b = replace_all_loop fuel s a b 0 []"

definition str_ends_with :: "string \<Rightarrow> string \<Rightarrow> bool" where
  "str_ends_with s suf \<longleftrightarrow> length suf \<le> length s \<and> drop (length s - length suf) s = suf"

definition str_starts_with :: "string \<Rightarrow> string \<Rightarrow> bool" where
  "str_starts_with s pre \<longleftrightarrow> length pre \<le> length s \<and> take (length pre) s = pre"

definition lookup_or_key :: "(string \<times> string) list \<Rightarrow> string \<Rightarrow> string" where
  "lookup_or_key m k = (case map_of m k of Some v \<Rightarrow> if v \<noteq> [] then v else k | None \<Rightarrow> k)"

subsection \<open>Decimal digit vectors, least digit first\<close>

text \<open>A digit is a \<open>char\<close>, which is signed: it is computed as an \<open>int\<close> and stored in 8 bits.\<close>

definition carry_digit :: "int \<Rightarrow> 8 word \<times> 8 word" where
  "carry_digit x =
     (let c = word_of_int x in if 10 \<le> sint (c :: 8 word) then (word_of_int (sint c mod 10), word_of_int (sint c div 10)) else (c, 0))"

fun mul2_loop :: "8 word \<Rightarrow> 8 word list \<Rightarrow> 8 word list" where
  "mul2_loop carry [] = (if carry \<noteq> 0 then [carry] else [])"
| "mul2_loop carry (d # ds) = (let (d', c) = carry_digit (sint d * 2 + sint carry) in d' # mul2_loop c ds)"

definition mul2 :: "8 word list \<Rightarrow> 8 word list" where
  "mul2 v = mul2_loop 0 v"

fun add1_loop :: "8 word \<Rightarrow> 8 word list \<Rightarrow> 8 word list" where
  "add1_loop carry [] = (if carry \<noteq> 0 then [carry] else [])"
| "add1_loop carry (d # ds) = (let (d', c) = carry_digit (sint d + sint carry) in d' # add1_loop c ds)"

definition add1 :: "8 word list \<Rightarrow> 8 word list" where
  "add1 v = add1_loop 1 v"

subsection \<open>The text of a number\<close>

lemma digit_char_val: "d < 36 \<Longrightarrow> digit_val (digit_char upper d) = Some d"
  by (auto simp: digit_val_def digit_char_def Let_def)

lemma digit_char_in: "d < b \<Longrightarrow> b \<le> 36 \<Longrightarrow> digit_in b (digit_char upper d)"
  by (simp add: digit_in_def digit_char_val)

lemma digit_char_zero: "d < 36 \<Longrightarrow> digit_char upper d = CHR ''0'' \<Longrightarrow> d = 0"
  using digit_char_val [of d upper] by (simp add: digit_val_def)

lemma digit_not_special:
  assumes "digit_in b c"
  shows "\<not> is_space c" and "c \<notin> {CHR ''-'', CHR ''+''}"
  using assms by (auto simp: digit_in_def digit_val_def is_space_def Let_def split: if_splits option.splits)

lemma str_value_append: "str_value b (xs @ [c]) = str_value b xs * b + (case digit_val c of Some d \<Rightarrow> d | None \<Rightarrow> 0)"
  by (simp add: str_value_def)

lemma word_div_base:
  fixes v :: "64 word"
  assumes "b \<le> 36"
  shows "unat (v div of_nat b) = unat v div b" and "unat (v mod of_nat b) = unat v mod b"
proof -
  have "unat (of_nat b :: 64 word) = b" using assms by (simp add: unat_of_nat)
  then show "unat (v div of_nat b) = unat v div b" "unat (v mod of_nat b) = unat v mod b"
    by (simp_all add: unat_div_distrib unat_mod_distrib)
qed

lemma int_to_str_loop_ok:
  assumes b: "1 < b" "b \<le> 36"
  shows "unat v < 2 ^ n \<Longrightarrow> \<exists>ds. int_to_str_loop (Suc n) b upper v acc = Inr (ds @ acc) \<and> list_all (digit_in b) ds
    \<and> str_value b ds = unat v \<and> (if v = 0 then ds = [] else ds \<noteq> [] \<and> hd ds \<noteq> CHR ''0'')"
proof (induction n arbitrary: v acc)
  case 0
  then have "v = 0" by (simp add: unat_eq_zero)
  then show ?case by (simp add: str_value_def)
next
  case (Suc n)
  let ?d = "unat (v mod of_nat b)"
  have d: "?d < b" using word_div_base(2) [OF b(2), of v] b(1) by simp
  show ?case
  proof (cases "v = 0")
    case False
    have q: "unat (v div of_nat b) = unat v div b" by (rule word_div_base(1) [OF b(2)])
    have "unat v div b \<le> unat v div 2" using b(1) by (intro div_le_mono2) simp_all
    with Suc.prems have "unat (v div of_nat b) < 2 ^ n" unfolding q by (simp add: div_less_iff_less_mult)
    from Suc.IH [OF this, of "digit_char upper ?d # acc"] obtain ds
      where ds: "int_to_str_loop (Suc n) b upper (v div of_nat b) (digit_char upper ?d # acc) = Inr (ds @ digit_char upper ?d # acc)"
        "list_all (digit_in b) ds" "str_value b ds = unat v div b" "if v div of_nat b = 0 then ds = [] else ds \<noteq> [] \<and> hd ds \<noteq> CHR ''0''"
      unfolding q by blast
    have val: "str_value b (ds @ [digit_char upper ?d]) = unat v"
      using ds(3) digit_char_val [of ?d upper] d b(2) word_div_base(2) [OF b(2), of v] by (simp add: str_value_append)
    have "hd (ds @ [digit_char upper ?d]) \<noteq> CHR ''0''"
    proof (cases "v div of_nat b = 0")
      case True
      then have "unat v div b = 0" using q by simp
      then have "?d = unat v" using word_div_base(2) [OF b(2), of v] b by (simp add: div_eq_0_iff)
      then have "?d \<noteq> 0" using False by (simp add: unat_eq_zero)
      then show ?thesis using digit_char_zero [of ?d upper] d b ds(4) True by auto
    next
      case False
      with ds(4) show ?thesis by simp
    qed
    with val ds(1,2) digit_char_in [OF d b(2)] False show ?thesis
      by (intro exI [of _ "ds @ [digit_char upper ?d]"]) simp
  qed (simp add: str_value_def)
qed

subsection \<open>Cutting a string at a delimiter\<close>

text \<open>The reference: the string before and after the first occurrence of a delimiter, and the pieces.\<close>

fun cut :: "string \<Rightarrow> string \<Rightarrow> (string \<times> string) option" where
  "cut d [] = None"
| "cut d (c # s) =
     (if prefix d (c # s) then Some ([], drop (length d) (c # s))
      else map_option (\<lambda>(x, y). (c # x, y)) (cut d s))"

lemma cut_Some: "cut d s = Some (x, y) \<Longrightarrow> s = x @ d @ y"
  by (induction d s arbitrary: x y rule: cut.induct) (auto simp: prefix_def split: if_splits)

function pieces :: "string \<Rightarrow> string \<Rightarrow> string list" where
  "pieces d s = (if d = [] then [s] else case cut d s of None \<Rightarrow> [s] | Some (x, y) \<Rightarrow> x # pieces d y)"
  by pat_completeness auto

termination
  by (relation "measure (\<lambda>(d, s). length s)") (auto dest: cut_Some)

declare pieces.simps [simp del]

lemma join_Cons: "join (x # ss) b = x @ concat (map (\<lambda>s. b @ s) ss)"
proof -
  have "fst (fold (\<lambda>s (ret, d). (ret @ d @ s, b)) ss (r, b)) = r @ concat (map (\<lambda>s. b @ s) ss)" for r
    by (induction ss arbitrary: r) simp_all
  then show ?thesis by (simp add: join_def)
qed

lemma join_pieces: "d \<noteq> [] \<Longrightarrow> join (pieces d s) d = s"
proof (induction d s rule: pieces.induct)
  case (1 d s)
  show ?case
  proof (cases "cut d s")
    case None
    with 1 show ?thesis by (subst pieces.simps) (simp add: join_Cons)
  next
    case (Some p)
    obtain x y where p: "p = (x, y)" by (cases p)
    with 1 Some have "join (pieces d y) d = y" by simp
    moreover obtain u us where "pieces d y = u # us" by (cases "pieces d y") (simp_all add: pieces.simps [of d y] split: option.splits if_splits prod.splits)
    ultimately show ?thesis using Some p 1(2) cut_Some [of d s x y] by (subst pieces.simps) (simp add: join_Cons)
  qed
qed

lemma pieces_no_delimiter: "d \<noteq> [] \<Longrightarrow> t \<in> set (pieces d s) \<Longrightarrow> \<not> sublist d t"
proof (induction d s rule: pieces.induct)
  case (1 d s)
  have none: "cut d u = None \<Longrightarrow> \<not> sublist d u" if "d \<noteq> []" for d u
    using that by (induction d u rule: cut.induct) (auto simp: sublist_Cons_right split: if_splits)
  have before: "cut d u = Some (x, y) \<Longrightarrow> \<not> sublist d x" if "d \<noteq> []" for d u x y
    using that
  proof (induction d u arbitrary: x rule: cut.induct)
    case (2 d c u)
    show ?case
    proof (cases "prefix d (c # u)")
      case False
      with 2 obtain x' where x: "x = c # x'" "cut d u = Some (x', y)" by auto
      have "c # u = x @ d @ y" using x(1) cut_Some [OF x(2)] by simp
      then have "\<not> prefix d x" using False prefix_prefix by metis
      with 2(1) [OF False x(2) 2(3)] x(1) show ?thesis by (auto simp: sublist_Cons_right)
    qed (use 2 in auto)
  qed auto
  show ?case
  proof (cases "cut d s")
    case None
    with 1(2,3) none show ?thesis by (simp add: pieces.simps [of d s])
  next
    case (Some p)
    obtain x y where p: "p = (x, y)" by (cases p)
    with Some 1(2,3) consider "t = x" | "t \<in> set (pieces d y)" by (auto simp: pieces.simps [of d s])
    then show ?thesis
    proof cases
      case 1
      with before [OF \<open>d \<noteq> []\<close>] Some p show ?thesis by simp
    next
      case 2
      with 1(1) [OF \<open>d \<noteq> []\<close> Some p [symmetric] \<open>d \<noteq> []\<close>] show ?thesis by blast
    qed
  qed
qed

text \<open>\<open>find\<close> from a position, as a cut of the rest.\<close>

lemma str_find_cut:
  assumes "d \<noteq> []" and "from \<le> length s"
  shows "str_find s d from = map_option (\<lambda>(x, y). from + length x) (cut d (drop from s))"
  using assms(2)
proof (induction "length s - from" arbitrary: "from")
  case 0
  then show ?case using assms(1) by (simp add: str_find_def)
next
  case (Suc n)
  then have l: "from < length s" by simp
  then have "[from..<Suc (length s)] = from # [Suc from..<Suc (length s)]" by (simp add: upt_rec)
  then have f: "str_find s d from = (if prefix d (drop from s) then Some from else str_find s d (Suc from))"
    by (simp add: str_find_def)
  have dr: "drop from s = s ! from # drop (Suc from) s" using l by (simp add: Cons_nth_drop_Suc)
  have "str_find s d (Suc from) = map_option (\<lambda>(x, y). Suc from + length x) (cut d (drop (Suc from) s))"
    using Suc l by simp
  then show ?case unfolding f dr by (cases "cut d (drop (Suc from) s)") auto
qed

lemma replace_all_loop_ok:
  "a \<noteq> [] \<Longrightarrow> from \<le> length s \<Longrightarrow> length s - from < n \<Longrightarrow>
    replace_all_loop n s a b from ret = Inr (ret @ join (pieces a (drop from s)) b)"
proof (induction n arbitrary: "from" ret)
  case (Suc n)
  show ?case
  proof (cases "cut a (drop from s)")
    case None
    with Suc.prems show ?thesis
      by (simp add: str_find_cut pieces.simps [of a "drop from s"] substr_def join_Cons)
  next
    case (Some p)
    obtain x y where p: "p = (x, y)" by (cases p)
    with Some have d: "drop from s = x @ a @ y" using cut_Some by blast
    let ?f = "from + length x + length a"
    have len: "length s - from = length x + length a + length y" using arg_cong [OF d, of length] by simp
    have f: "?f \<le> length s" using len Suc.prems(2) by simp
    have y: "drop ?f s = y" using d by (metis add.assoc append_eq_conv_conj drop_drop add.commute)
    have "0 < length a" using Suc.prems(1) by simp
    then have "length s - ?f < n" using Suc.prems(2,3) len by linarith
    from Suc.IH [OF Suc.prems(1) f this] y
    have "replace_all_loop n s a b ?f (ret @ x @ b) = Inr (ret @ x @ b @ join (pieces a y) b)" by simp
    moreover have "take (length x) (drop from s) = x" using d by simp
    moreover obtain u us where "pieces a y = u # us" by (cases "pieces a y") (simp_all add: pieces.simps [of a y] split: option.splits if_splits prod.splits)
    ultimately show ?thesis using Suc.prems(1,2) Some p
      by (simp add: str_find_cut substr_def pieces.simps [of a "drop from s"] join_Cons)
  qed
qed simp

lemma split_loop_ok:
  "d \<noteq> [] \<Longrightarrow> prv \<le> length s \<Longrightarrow> length s - prv < n \<Longrightarrow>
    split_loop n s d prv tokens = Inr (tokens @ filter (\<lambda>t. t \<noteq> []) (pieces d (drop prv s)))"
proof (induction n arbitrary: prv tokens)
  case (Suc n)
  show ?case
  proof (cases "cut d (drop prv s)")
    case None
    with Suc.prems show ?thesis
      by (simp add: str_find_cut pieces.simps [of d "drop prv s"] substr_def Let_def)
  next
    case (Some p)
    obtain x y where p: "p = (x, y)" by (cases p)
    with Some have dr: "drop prv s = x @ d @ y" using cut_Some by blast
    let ?f = "prv + length x + length d"
    have len: "length s - prv = length x + length d + length y" using arg_cong [OF dr, of length] by simp
    have y: "drop ?f s = y" using dr by (metis add.assoc append_eq_conv_conj drop_drop add.commute)
    have d0: "0 < length d" using Suc.prems(1) by simp
    have pos: "prv + length x < length s" using len d0 Suc.prems(2) by linarith
    have tk: "take (length x) (drop prv s) = x" using dr by simp
    have pc: "pieces d (drop prv s) = x # pieces d y"
      using Suc.prems(1) Some p by (simp add: pieces.simps [of d "drop prv s"])
    show ?thesis
    proof (cases "?f < length s")
      case True
      then have "length s - ?f < n" using Suc.prems(2,3) len d0 by linarith
      from Suc.IH [OF Suc.prems(1) _ this] True y
      have "split_loop n s d ?f (if x \<noteq> [] then tokens @ [x] else tokens)
          = Inr ((if x \<noteq> [] then tokens @ [x] else tokens) @ filter (\<lambda>t. t \<noteq> []) (pieces d y))" by simp
      with Suc.prems Some p pos tk pc True show ?thesis
        by (cases "x = []") (simp_all add: str_find_cut substr_def Let_def)
    next
      case False
      then have "length y = 0" using len Suc.prems(2) by linarith
      then have "y = []" by simp
      then have "pieces d y = [[]]" using Suc.prems(1) by (simp add: pieces.simps [of d "[]"])
      with Suc.prems Some p pos tk pc False show ?thesis by (simp add: str_find_cut substr_def Let_def)
    qed
  qed
qed simp

lemma find_empty: "from \<le> length s \<Longrightarrow> str_find s [] from = Some from"
  by (simp add: str_find_def upt_rec)

lemma replace_empty_loops: "from \<le> length s \<Longrightarrow> replace_all_loop n s [] b from ret = Inl OutOfFuel"
  by (induction n arbitrary: ret) (simp_all add: find_empty substr_def)

lemma split_empty_loops: "prv < length s \<Longrightarrow> split_loop n s [] prv ts = Inl OutOfFuel"
  by (induction n arbitrary: ts) (simp_all add: find_empty substr_def Let_def)

subsection \<open>Decimal arithmetic\<close>

definition digits_ok :: "8 word list \<Rightarrow> bool" where
  "digits_ok v \<longleftrightarrow> (\<forall>d \<in> set v. unat d < 10)"

definition decimal :: "8 word list \<Rightarrow> nat" where
  "decimal v = foldr (\<lambda>d n. unat d + 10 * n) v 0"

lemma small_sint:
  assumes "unat (w :: 8 word) < 128"
  shows "sint w = int (unat w)"
proof -
  have "uint w = int (unat w)" by simp
  moreover have "signed_take_bit 7 (int (unat w)) = int (unat w)"
  proof (rule signed_take_bit_int_eq_self)
    have "int (unat w) < int 128" using assms by (simp only: of_nat_less_iff)
    then show "int (unat w) < 2 ^ 7" by simp
    have "0 \<le> int (unat w)" by (rule of_nat_0_le_iff)
    moreover have "- (2 ^ 7) \<le> (0 :: int)" by simp
    ultimately show "- (2 ^ 7) \<le> int (unat w)" by (rule order_trans [rotated])
  qed
  ultimately show ?thesis by (simp only: sint_uint) simp
qed

lemma carry_digit_ok:
  assumes "x < 20" and "carry_digit (int x) = (d, c)"
  shows "unat d = x mod 10" and "unat c = x div 10"
proof -
  have u: "unat (word_of_int (int y) :: 8 word) = y" if "y < 128" for y
    using that by (simp add: unat_of_nat)
  then have s: "sint (word_of_int (int x) :: 8 word) = int x"
    using small_sint [of "word_of_int (int x)"] assms(1) by simp
  from assms(2) have "d = word_of_int (int (x mod 10)) \<and> c = word_of_int (int (x div 10))"
    unfolding carry_digit_def s Let_def by (auto simp: zmod_int zdiv_int split: if_splits)
  moreover have "x mod 10 < 128" "x div 10 < 128" using assms(1) by auto
  ultimately show "unat d = x mod 10" "unat c = x div 10" using u by simp_all
qed

lemma mul2_loop_ok:
  "digits_ok v \<Longrightarrow> unat c < 2 \<Longrightarrow> digits_ok (mul2_loop c v) \<and> decimal (mul2_loop c v) = 2 * decimal v + unat c"
proof (induction v arbitrary: c)
  case Nil
  then show ?case by (auto simp: digits_ok_def decimal_def)
next
  case (Cons d ds)
  obtain d' c' where q: "carry_digit (sint d * 2 + sint c) = (d', c')" by (rule prod.exhaust)
  have "unat d < 10" using Cons.prems by (simp add: digits_ok_def)
  then have x: "sint d * 2 + sint c = int (2 * unat d + unat c)" "2 * unat d + unat c < 20"
    using Cons.prems(2) by (simp_all add: small_sint)
  have e: "unat d' = (2 * unat d + unat c) mod 10" "unat c' = (2 * unat d + unat c) div 10"
    by (rule carry_digit_ok [OF x(2) q [unfolded x(1)]])+
  have "unat c' < 2" using e(2) x(2) by simp
  from Cons.IH [OF _ this] Cons.prems(1) have ih: "digits_ok (mul2_loop c' ds)"
    "decimal (mul2_loop c' ds) = 2 * decimal ds + unat c'" by (simp_all add: digits_ok_def)
  have "unat d' + 10 * unat c' = 2 * unat d + unat c" unfolding e by simp
  with ih e show ?case by (simp add: q decimal_def digits_ok_def)
qed

lemma add1_loop_ok:
  "digits_ok v \<Longrightarrow> unat c < 2 \<Longrightarrow> digits_ok (add1_loop c v) \<and> decimal (add1_loop c v) = decimal v + unat c"
proof (induction v arbitrary: c)
  case Nil
  then show ?case by (auto simp: digits_ok_def decimal_def)
next
  case (Cons d ds)
  obtain d' c' where q: "carry_digit (sint d + sint c) = (d', c')" by (rule prod.exhaust)
  have "unat d < 10" using Cons.prems by (simp add: digits_ok_def)
  then have x: "sint d + sint c = int (unat d + unat c)" "unat d + unat c < 20"
    using Cons.prems(2) by (simp_all add: small_sint)
  have e: "unat d' = (unat d + unat c) mod 10" "unat c' = (unat d + unat c) div 10"
    by (rule carry_digit_ok [OF x(2) q [unfolded x(1)]])+
  have "unat c' < 2" using e(2) x(2) by simp
  from Cons.IH [OF _ this] Cons.prems(1) have ih: "digits_ok (add1_loop c' ds)"
    "decimal (add1_loop c' ds) = decimal ds + unat c'" by (simp_all add: digits_ok_def)
  have "unat d' + 10 * unat c' = unat d + unat c" unfolding e by simp
  with ih e show ?case by (simp add: q decimal_def digits_ok_def)
qed

lemma digit_vector_ok:
  assumes "digits_ok v"
  shows "digits_ok (mul2 v)" and "decimal (mul2 v) = 2 * decimal v"
    and "digits_ok (add1 v)" and "decimal (add1 v) = Suc (decimal v)"
  using mul2_loop_ok [OF assms, of 0] add1_loop_ok [OF assms, of 1] by (simp_all add: mul2_def add1_def)

text \<open>C39: \<open>ReplaceAll\<close> cuts the string at the occurrences of the pattern, none of which is
  left in a piece, and joins the pieces with the replacement; it ends within one round per character.
  With an empty pattern it never ends.\<close>

theorem replace_all_exact:
  assumes "a \<noteq> []" and "length s < n"
  shows "replace_all n s a b = Inr (join (pieces a s) b) \<and> join (pieces a s) a = s
    \<and> (\<forall>t \<in> set (pieces a s). \<not> sublist a t) \<and> replace_all m s [] b = Inl OutOfFuel"
  using replace_all_loop_ok [OF assms(1), of 0 s n b "[]"] join_pieces [OF assms(1)] pieces_no_delimiter [OF assms(1)] assms(2)
  by (simp add: replace_all_def replace_empty_loops)

theorem replace_all_exact_witness:
  "replace_all 6 ''a bb)'' '')'' [] = Inr ''a bb'' \<and> replace_all 100 ''a'' [] ''b'' = Inl OutOfFuel"
proof -
  have "join (pieces '')'' ''a bb)'') [] = ''a bb''" by code_simp
  moreover have "'')'' \<noteq> []" "length ''a bb)'' < 6" by simp_all
  ultimately show ?thesis
    using replace_all_exact [of "'')''" "''a bb)''" 6 "[]" 0] replace_all_exact [of "'')''" "''a''" 6 "''b''" 100] by simp
qed

text \<open>C40: \<open>Split\<close> gives the non-empty pieces between the occurrences of the delimiter, in order,
  within one round per character; with an empty delimiter it never ends on a non-empty string.\<close>

theorem split_exact:
  assumes "d \<noteq> []" and "length s < n"
  shows "split_str n s d = Inr (filter (\<lambda>t. t \<noteq> []) (pieces d s)) \<and> join (pieces d s) d = s
    \<and> (\<forall>t \<in> set (pieces d s). \<not> sublist d t) \<and> split_str m (c # s) [] = Inl OutOfFuel"
  using split_loop_ok [OF assms(1), of 0 s n "[]"] join_pieces [OF assms(1)] pieces_no_delimiter [OF assms(1)] assms(2)
  by (simp add: split_str_def split_empty_loops)

theorem split_exact_witness:
  "split_str 9 '',a,,b'' '','' = Inr [''a'', ''b''] \<and> split_str 100 ''x'' [] = Inl OutOfFuel"
proof -
  have "pieces '','' '',a,,b'' = [[], ''a'', [], ''b'']" by code_simp
  moreover have "'','' \<noteq> []" "length '',a,,b'' < 9" by simp_all
  ultimately show ?thesis
    using split_exact [of "'',''" "'',a,,b''" 9 0] split_exact [of "'',''" "[]" 9 100 "CHR ''x''"] by simp
qed

text \<open>C37: A number printed in a base is read back: for every 64-bit value and every base from 2
  to 36, \<open>IntToStrCustomBase\<close> ends, and \<open>StrToULongLong\<close> of the text it gives is the
  value, in upper and in lower case.\<close>

theorem number_text_roundtrip:
  assumes "1 < b" and "b \<le> 36"
  shows "\<exists>s. int_to_str_custom_base v b upper = Inr s \<and> str_to_ulonglong s b = Inr v"
proof (cases "v = 0")
  case True
  have "digit_val CHR ''0'' = Some 0" by (simp add: digit_val_def)
  then have "str_to_ulonglong ''0'' b = Inr 0"
    using assms by (simp add: str_to_ulonglong_def stoull_def is_space_def hex_prefix_def digit_in_def str_value_def)
  with assms True show ?thesis by (simp add: int_to_str_custom_base_def)
next
  case False
  have "unat v < 2 ^ 64" using unsigned_less [of v] by simp
  from int_to_str_loop_ok [OF assms this, of upper "[]"] obtain ds where
    ds0: "int_to_str_loop (Suc 64) b upper v [] = Inr (ds @ [])" "list_all (digit_in b) ds" "str_value b ds = unat v"
      "if v = 0 then ds = [] else ds \<noteq> [] \<and> hd ds \<noteq> CHR ''0''" by blast
  have "(65 :: nat) = Suc 64" by simp
  then have ds: "int_to_str_loop 65 b upper v [] = Inr ds" "list_all (digit_in b) ds" "str_value b ds = unat v"
      "ds \<noteq> []" "hd ds \<noteq> CHR ''0''" using ds0 False by (simp_all only: append_Nil2 if_False not_False_eq_True)
  have "dropWhile is_space ds = ds" "hd ds \<notin> {CHR ''-'', CHR ''+''}"
    using ds(2,4) digit_not_special [of b "hd ds"] by (cases ds; simp)+
  moreover have "\<not> hex_prefix ds" using ds(4,5) by (cases ds) (simp_all add: hex_prefix_def)
  moreover have "takeWhile (digit_in b) ds = ds" using ds(2) by (simp only: takeWhile_eq_all_conv list_all_iff)
  moreover have "of_nat (unat v) = v" by simp
  ultimately have "str_to_ulonglong ds b = Inr v"
    using ds(3,4) assms(1) \<open>unat v < 2 ^ 64\<close>
    unfolding str_to_ulonglong_def stoull_def Let_def by (simp del: takeWhile_eq_all_conv)
  with ds(1) assms False show ?thesis by (simp add: int_to_str_custom_base_def)
qed

theorem number_text_roundtrip_witness:
  "int_to_str_custom_base 254 16 True = Inr ''FE'' \<and> str_to_ulonglong ''FE'' 16 = Inr 254"
proof -
  have s: "int_to_str_custom_base 254 16 True = Inr ''FE''" by code_simp
  then show ?thesis using number_text_roundtrip [of 16 254 True] by simp
qed

end
