(* ===== verification/Solver_Values.thy ===== *)
theory Solver_Values
  imports Str_Util Unroller
begin

section \<open>Reading the text of solver values (utils/partial_model, utils/syntax_analysis_common)\<close>

text \<open>
  A solver prints a bit-vector value as \<open>#b0101\<close> or \<open>(_ bv5 4)\<close> and a Boolean as
  \<open>true\<close>, \<open>false\<close>, or a bit-vector of width one.  These are the functions that read
  such texts; a failed \<open>assert\<close> is \<open>UndefinedBehaviour\<close>.
\<close>

abbreviation assertE :: "bool \<Rightarrow> 'a result \<Rightarrow> 'a result" where
  "assertE ok k \<equiv> guardE ok (UndefinedBehaviour ''assertion'') k"

definition extract_decimal_width :: "string \<Rightarrow> (string \<times> string) option" where
  "extract_decimal_width s =
     (if take 5 s \<noteq> ''(_ bv'' then None
      else case str_find s '' '' 5 of
             None \<Rightarrow> None
           | Some sp \<Rightarrow> (case str_find s '')'' sp of
               None \<Rightarrow> None
             | Some rp \<Rightarrow> Some (take (sp - 5) (drop 5 s), take (rp - (sp + 1)) (drop (sp + 1) s))))"

text \<open>The digits of a vector as text, the greatest first.\<close>

definition digits_text :: "8 word list \<Rightarrow> string" where
  "digits_text v = map (\<lambda>d. char_of (unat (d + 48))) (rev v)"

definition get_all_one :: "32 word \<Rightarrow> string" where
  "get_all_one width = digits_text (fold (\<lambda>_ out. add1 (mul2 out)) [1..<unat width] [1])"

text \<open>The cache of the texts of all-one values does not change what is answered.\<close>

definition convert_to_boolean_and_check :: "string \<Rightarrow> string \<Rightarrow> bool \<Rightarrow> bool result" where
  "convert_to_boolean_and_check dec width one =
     (if \<not> one then Inr (list_all (\<lambda>c. c = CHR ''0'') dec)
      else bindE (str_to_ulonglong width 10) (\<lambda>w.
        assertE (w \<noteq> 0) (Inr (dec = get_all_one (ucast w)))))"

definition is_all_zero :: "string \<Rightarrow> bool result" where
  "is_all_zero s =
     (if s = ''true'' then Inr False else if s = ''false'' then Inr True
      else assertE (2 < length s)
        (if take 2 s = ''#b'' then Inr (list_all (\<lambda>c. c = CHR ''0'') (drop 2 s))
         else case extract_decimal_width s of
             None \<Rightarrow> Inl (UndefinedBehaviour ''assertion'')
           | Some (dec, width) \<Rightarrow> assertE (width \<noteq> []) (convert_to_boolean_and_check dec width False)))"

definition is_all_one :: "string \<Rightarrow> nat \<Rightarrow> bool result" where
  "is_all_one s w =
     (if s = ''true'' then Inr True else if s = ''false'' then Inr False
      else assertE (2 < length s)
        (if take 2 s = ''#b'' then
           assertE (length s - 2 \<le> w) (Inr (\<not> length s - 2 < w \<and> list_all (\<lambda>c. c = CHR ''1'') (drop 2 s)))
         else case extract_decimal_width s of
             None \<Rightarrow> Inl (UndefinedBehaviour ''assertion'')
           | Some (dec, width) \<Rightarrow> assertE (width \<noteq> []) (convert_to_boolean_and_check dec width True)))"

subsection \<open>Values as decimal text (eval_val)\<close>

definition convert_bin_str_to_decimal :: "string \<Rightarrow> string" where
  "convert_bin_str_to_decimal s =
     digits_text (fold (\<lambda>c out. if c = CHR ''1'' then add1 (mul2 out) else mul2 out) s [0])"

definition eval_val :: "string \<Rightarrow> string result" where
  "eval_val val =
     (if val = ''true'' \<or> val = ''false'' then Inr (if val = ''true'' then ''1'' else ''0'')
      else if str_find val ''#b'' 0 \<noteq> Some 0 then
        (case extract_decimal_width val of None \<Rightarrow> Inl (UndefinedBehaviour ''assertion'') | Some (dec, w) \<Rightarrow> Inr dec)
      else let rest = dropWhile (\<lambda>c. c = CHR ''0'') (drop 2 val)
           in if rest = [] then Inr ''0'' else Inr (convert_bin_str_to_decimal rest))"

definition char_less :: "char \<Rightarrow> char \<Rightarrow> bool" where
  "char_less a b \<longleftrightarrow> sint (of_char a :: 8 word) < sint (of_char b :: 8 word)"

fun less_loop :: "string \<Rightarrow> string \<Rightarrow> bool" where
  "less_loop (a # as) (b # bs) =
     (if char_less a b then True else if char_less b a then False else less_loop as bs)"
| "less_loop _ _ = False"

definition eval_val_less :: "string \<Rightarrow> string \<Rightarrow> bool" where
  "eval_val_less sv sv' =
     (if length sv < length sv' then True else if length sv' < length sv then False else less_loop sv sv')"

definition name_sanitize :: "string \<Rightarrow> string" where
  "name_sanitize s =
     (if 2 < length s \<and> hd s = CHR ''|'' \<and> last s = CHR ''|'' then s
      else let alnum = (\<lambda>c. let n = (of_char c :: nat) in n \<in> {48..57} \<or> n \<in> {65..90} \<or> n \<in> {97..122});
               fine = (\<lambda>(i, c). alnum c \<or> c \<in> {CHR ''.'', CHR ''-''} \<or> c = CHR ''_'' \<and> i \<noteq> 0)
           in if list_all fine (enumerate 0 s) then s else ''|'' @ s @ ''|'')"

definition name_desanitize :: "string \<Rightarrow> string" where
  "name_desanitize s =
     (if 2 < length s \<and> hd s = CHR ''|'' \<and> last s = CHR ''|'' then take (length s - 2) (drop 1 s) else s)"

subsection \<open>What the texts mean\<close>

fun bits_value :: "string \<Rightarrow> nat" where
  "bits_value bs = fold (\<lambda>c n. 2 * n + (if c = CHR ''1'' then 1 else 0)) bs 0"

definition reads_as :: "string \<Rightarrow> val \<Rightarrow> bool" where
  "reads_as s v \<longleftrightarrow> (case v of
       BoolVal b \<Rightarrow> s \<in> (if b then {''true'', ''#b1''} else {''false'', ''#b0''})
     | BVVal w n \<Rightarrow> 0 < w \<and> w < 2 ^ 32 \<and> n < 2 ^ w \<and>
         ((\<exists>bs. s = ''#b'' @ bs \<and> length bs = w \<and> set bs \<subseteq> {CHR ''0'', CHR ''1''} \<and> bits_value bs = n)
          \<or> s = ''(_ bv'' @ nat_str n @ '' '' @ nat_str w @ '')'')
     | _ \<Rightarrow> False)"

lemma cut_single: "c \<notin> set x \<Longrightarrow> cut [c] (x @ c # y) = Some (x, y)"
  by (induction x) auto

lemma nat_str_no_char: "\<not> is_digit c \<Longrightarrow> c \<notin> set (nat_str n)"
  using nat_str_digits by blast

lemma extract_decimal_width_ok:
  "extract_decimal_width (''(_ bv'' @ nat_str n @ '' '' @ nat_str w @ '')'') = Some (nat_str n, nat_str w)"
proof -
  let ?s = "''(_ bv'' @ nat_str n @ '' '' @ nat_str w @ '')''" and ?k = "5 + length (nat_str n)"
  have d5: "drop 5 ?s = nat_str n @ CHR '' '' # nat_str w @ '')''" by simp
  have "CHR '' '' \<notin> set (nat_str n)" by (rule nat_str_no_char) simp
  from cut_single [OF this] have "cut '' '' (drop 5 ?s) = Some (nat_str n, nat_str w @ '')'')" unfolding d5 .
  then have sp: "str_find ?s '' '' 5 = Some ?k" by (subst str_find_cut) simp_all
  have dk: "drop ?k ?s = (CHR '' '' # nat_str w) @ CHR '')'' # []"
    by (simp only: drop_drop [symmetric] add.commute [of 5] d5) simp
  have "CHR '')'' \<notin> set (CHR '' '' # nat_str w)" using nat_str_no_char [of "CHR '')''" w] by simp
  from cut_single [OF this, of "[]"] have "cut '')'' (drop ?k ?s) = Some (CHR '' '' # nat_str w, [])" unfolding dk .
  then have rp: "str_find ?s '')'' ?k = Some (?k + Suc (length (nat_str w)))" by (subst str_find_cut) simp_all
  have "drop (Suc ?k) ?s = nat_str w @ '')''" using dk by (metis append_Cons drop_Suc list.sel(3) tl_drop)
  then have "take (length (nat_str w)) (drop (Suc ?k) ?s) = nat_str w" by simp
  with sp rp d5 show ?thesis by (simp add: extract_decimal_width_def)
qed

lemma digit_of_nat: "d < 10 \<Longrightarrow> digit_val (char_of (48 + d)) = Some d"
  using digit_char_val [of d True] by (simp add: digit_char_def)

lemma digit_in_10: "is_digit c \<Longrightarrow> digit_in 10 c"
  by (auto simp: digit_in_def digit_val_def Let_def)

lemma str_value_nat_str: "str_value 10 (nat_str n) = n"
proof (induction n rule: nat_str.induct)
  case (1 n)
  show ?case
  proof (cases "n < 10")
    case True
    then show ?thesis using digit_of_nat [of n] by (subst nat_str.simps) (simp add: str_value_def)
  next
    case False
    then show ?thesis using 1 digit_of_nat [of "n mod 10"] by (subst nat_str.simps) (simp add: str_value_append)
  qed
qed

lemma str_to_ulonglong_nat_str:
  assumes "n < 2 ^ 64"
  shows "str_to_ulonglong (nat_str n) 10 = Inr (of_nat n)"
proof -
  have d: "\<forall>c \<in> set (nat_str n). digit_in 10 c" using nat_str_digits digit_in_10 by blast
  then have h: "digit_in 10 (hd (nat_str n))" using nat_str_nonempty by simp
  have "dropWhile is_space (nat_str n) = nat_str n"
    using digit_not_special(1) [OF h] by (cases "nat_str n") simp_all
  moreover have "hd (nat_str n) \<notin> {CHR ''-'', CHR ''+''}" by (rule digit_not_special(2) [OF h])
  moreover have "takeWhile (digit_in 10) (nat_str n) = nat_str n" using d by (simp only: takeWhile_eq_all_conv)
  ultimately show ?thesis using assms nat_str_nonempty [of n] str_value_nat_str [of n]
    unfolding str_to_ulonglong_def stoull_def Let_def by (simp del: takeWhile_eq_all_conv)
qed

subsection \<open>Digit vectors as decimal text\<close>

definition vector_ok :: "8 word list \<Rightarrow> bool" where
  "vector_ok v \<longleftrightarrow> digits_ok v \<and> v \<noteq> [] \<and> (last v \<noteq> 0 \<or> v = [0])"

lemma digits_text_ok: "vector_ok v \<Longrightarrow> digits_text v = nat_str (decimal v)"
proof (induction v)
  case (Cons d v)
  have d: "unat d < 10" using Cons.prems by (simp add: vector_ok_def digits_ok_def)
  then have c: "unat (d + 48) = 48 + unat d" by (simp add: unat_word_ariths(1))
  show ?case
  proof (cases "v = []")
    case True
    with d c show ?thesis by (subst nat_str.simps) (simp add: digits_text_def decimal_def)
  next
    case False
    with Cons.prems have v: "vector_ok v" "last v \<noteq> 0" by (auto simp: vector_ok_def digits_ok_def)
    have "decimal v \<noteq> 0"
    proof
      assume "decimal v = 0"
      moreover have "unat x \<le> decimal u" if "x = last u" "u \<noteq> []" for u x
        using that by (induction u) (auto simp: decimal_def intro: le_trans)
      ultimately have "unat (last v) \<le> 0" using False by metis
      with v(2) show False by (simp add: unat_eq_zero)
    qed
    then have n: "\<not> decimal (d # v) < 10" "decimal (d # v) div 10 = decimal v" "decimal (d # v) mod 10 = unat d"
      using d by (simp_all add: decimal_def)
    have "digits_text (d # v) = digits_text v @ [char_of (48 + unat d)]" by (simp add: digits_text_def c)
    then show ?thesis using Cons.IH [OF v(1)] n by (subst nat_str.simps) simp
  qed
qed (simp add: vector_ok_def)

lemma mul2_loop_last: "digits_ok v \<Longrightarrow> v \<noteq> [] \<Longrightarrow> last v \<noteq> 0 \<Longrightarrow> unat c < 2 \<Longrightarrow>
  mul2_loop c v \<noteq> [] \<and> last (mul2_loop c v) \<noteq> 0"
proof (induction v arbitrary: c)
  case (Cons d ds)
  obtain d' c' where q: "carry_digit (sint d * 2 + sint c) = (d', c')" by (rule prod.exhaust)
  have dd: "unat d < 10" using Cons.prems(1) by (simp add: digits_ok_def)
  then have x: "sint d * 2 + sint c = int (2 * unat d + unat c)" "2 * unat d + unat c < 20"
    using Cons.prems(4) by (simp_all add: small_sint)
  have e: "unat d' = (2 * unat d + unat c) mod 10" "unat c' = (2 * unat d + unat c) div 10"
    by (rule carry_digit_ok [OF x(2) q [unfolded x(1)]])+
  have c': "unat c' < 2" using e(2) x(2) by simp
  show ?case
  proof (cases "ds = []")
    case True
    then have "0 < unat d" using Cons.prems(3) by (simp add: unat_gt_0)
    moreover have "unat d' + 10 * unat c' = 2 * unat d + unat c" unfolding e by simp
    ultimately have "d' \<noteq> 0" if "c' = 0" using that by (cases "d' = 0") simp_all
    with q True show ?thesis by simp
  next
    case False
    with Cons.IH [OF _ False _ c'] Cons.prems q show ?thesis by (simp add: digits_ok_def)
  qed
qed simp

lemma add1_loop_last: "digits_ok v \<Longrightarrow> v \<noteq> [] \<Longrightarrow> last v \<noteq> 0 \<or> v = [0] \<and> c = 1 \<Longrightarrow> unat c < 2 \<Longrightarrow>
  add1_loop c v \<noteq> [] \<and> last (add1_loop c v) \<noteq> 0"
proof (induction v arbitrary: c)
  case (Cons d ds)
  obtain d' c' where q: "carry_digit (sint d + sint c) = (d', c')" by (rule prod.exhaust)
  have dd: "unat d < 10" using Cons.prems(1) by (simp add: digits_ok_def)
  then have x: "sint d + sint c = int (unat d + unat c)" "unat d + unat c < 20"
    using Cons.prems(4) by (simp_all add: small_sint)
  have e: "unat d' = (unat d + unat c) mod 10" "unat c' = (unat d + unat c) div 10"
    by (rule carry_digit_ok [OF x(2) q [unfolded x(1)]])+
  have c': "unat c' < 2" using e(2) x(2) by simp
  show ?case
  proof (cases "ds = []")
    case True
    then have "0 < unat d + unat c" using Cons.prems(3) by (auto simp: unat_gt_0)
    moreover have "unat d' + 10 * unat c' = unat d + unat c" unfolding e by simp
    ultimately have "d' \<noteq> 0" if "c' = 0" using that by (cases "d' = 0") simp_all
    with q True show ?thesis by simp
  next
    case False
    with Cons.IH [OF _ False _ c'] Cons.prems(1,3) q show ?thesis by (simp add: digits_ok_def)
  qed
qed simp

lemma vector_step:
  assumes "vector_ok v"
  shows "vector_ok (mul2 v)" and "vector_ok (add1 (mul2 v))"
    and "decimal (mul2 v) = 2 * decimal v" and "decimal (add1 (mul2 v)) = 2 * decimal v + 1"
proof -
  note ok = digit_vector_ok [of v] digit_vector_ok(3,4) [of "mul2 v"]
  have m: "mul2 [0] = [0]" by (simp add: mul2_def carry_digit_def)
  show v: "vector_ok (mul2 v)"
  proof (cases "v = [0]")
    case True
    with m assms show ?thesis by simp
  next
    case False
    with assms ok(1) mul2_loop_last [of v 0] show ?thesis by (auto simp: vector_ok_def mul2_def [of v])
  qed
  have "vector_ok (add1 u)" if "vector_ok u" for u
    using that add1_loop_last [of u 1] digit_vector_ok(3) [of u] by (auto simp: vector_ok_def add1_def)
  with v show "vector_ok (add1 (mul2 v))" by blast
  show "decimal (mul2 v) = 2 * decimal v" "decimal (add1 (mul2 v)) = 2 * decimal v + 1"
    using assms ok by (simp_all add: vector_ok_def)
qed

lemma get_all_one_text:
  assumes "0 < unat w"
  shows "get_all_one w = nat_str (2 ^ unat w - 1)"
proof -
  have "vector_ok (fold (\<lambda>_ out. add1 (mul2 out)) [1..<Suc n] [1]) \<and>
      decimal (fold (\<lambda>_ out. add1 (mul2 out)) [1..<Suc n] [1]) = 2 ^ Suc n - 1" for n
  proof (induction n)
    case 0
    have "(1 :: 8 word) \<noteq> 0" by simp
    then show ?case by (simp add: vector_ok_def digits_ok_def decimal_def)
  next
    case (Suc n)
    let ?v = "fold (\<lambda>_ out. add1 (mul2 out)) [1..<Suc n] [1]"
    have e: "fold (\<lambda>_ out. add1 (mul2 out)) [1..<Suc (Suc n)] [1] = add1 (mul2 ?v)" by simp
    from Suc have v: "vector_ok ?v" "decimal ?v = 2 ^ Suc n - 1" by simp_all
    have "(1 :: nat) \<le> 2 ^ Suc n" by (rule one_le_power) simp
    then have "2 * (2 ^ Suc n - 1) + 1 = (2 :: nat) ^ Suc (Suc n) - 1" unfolding power_Suc [of _ "Suc n"] by linarith
    then show ?case unfolding e using vector_step(2,4) [OF v(1)] v(2) by simp
  qed
  from this [of "unat w - 1"] assms show ?thesis
    unfolding get_all_one_def using digits_text_ok by simp
qed

lemma convert_bin_str_ok: "convert_bin_str_to_decimal s = nat_str (bits_value s)"
proof -
  let ?f = "\<lambda>c out. if c = CHR ''1'' then add1 (mul2 out) else mul2 out"
  have "vector_ok (fold ?f s v) \<and> decimal (fold ?f s v)
      = fold (\<lambda>c n. 2 * n + (if c = CHR ''1'' then 1 else 0)) s (decimal v)" if "vector_ok v" for v
    using that
  proof (induction s arbitrary: v)
    case (Cons c s)
    then show ?case using vector_step [OF Cons.prems] by simp
  qed simp
  from this [of "[0]"] have "vector_ok (fold ?f s [0]) \<and> decimal (fold ?f s [0]) = bits_value s"
    by (simp add: vector_ok_def digits_ok_def decimal_def)
  then show ?thesis unfolding convert_bin_str_to_decimal_def using digits_text_ok by simp
qed

lemma bits_value_fold:
  "fold (\<lambda>c n. 2 * n + (if c = CHR ''1'' then 1 else 0)) bs m = 2 ^ length bs * m + bits_value bs"
proof (induction bs arbitrary: m)
  case (Cons b bs)
  show ?case using Cons [of "2 * m + (if b = CHR ''1'' then 1 else 0)"] Cons [of "if b = CHR ''1'' then 1 else 0"]
    by (simp add: algebra_simps)
qed simp

lemma bits_value_Cons [simp]: "bits_value (b # bs) = (if b = CHR ''1'' then 2 ^ length bs else 0) + bits_value bs"
  using bits_value_fold [of bs "if b = CHR ''1'' then 1 else 0"] by simp

declare bits_value.simps [simp del]

lemma bits_value_Nil [simp]: "bits_value [] = 0"
  by (simp add: bits_value.simps)

lemma bits_value_less: "bits_value bs < 2 ^ length bs"
  by (induction bs) auto

lemma bits_value_zero: "set bs \<subseteq> {CHR ''0'', CHR ''1''} \<Longrightarrow> bits_value bs = 0 \<longleftrightarrow> list_all (\<lambda>c. c = CHR ''0'') bs"
  by (induction bs) auto

lemma bits_value_ones: "set bs \<subseteq> {CHR ''0'', CHR ''1''} \<Longrightarrow>
  bits_value bs = 2 ^ length bs - 1 \<longleftrightarrow> list_all (\<lambda>c. c = CHR ''1'') bs"
proof (induction bs)
  case (Cons b bs)
  have l: "bits_value bs < 2 ^ length bs" by (rule bits_value_less)
  have p: "(1::nat) \<le> 2 ^ length bs" by (rule one_le_power) simp
  have "2 ^ length (b # bs) = 2 * (2 :: nat) ^ length bs" by simp
  then have "bits_value (b # bs) = 2 ^ length (b # bs) - 1 \<longleftrightarrow> b = CHR ''1'' \<and> bits_value bs = 2 ^ length bs - 1"
    using l p unfolding bits_value_Cons by (split if_split) linarith
  with Cons show ?case by simp
qed simp

lemma bits_value_strip: "bits_value (dropWhile (\<lambda>c. c = CHR ''0'') bs) = bits_value bs"
  by (induction bs) auto

lemma nat_str_zeros: "list_all (\<lambda>c. c = CHR ''0'') (nat_str n) \<longleftrightarrow> n = 0"
proof (induction n rule: nat_str.induct)
  case (1 n)
  have c: "char_of (48 + d) = CHR ''0'' \<longleftrightarrow> d = 0" if "d < 10" for d :: nat
  proof -
    have "CHR ''0'' = char_of (48 :: nat)" by code_simp
    then show ?thesis using char_of_inj [of "48 + d" 48] that by auto
  qed
  show ?case
  proof (cases "n < 10")
    case True
    then show ?thesis using c [of n] by (subst nat_str.simps) simp
  next
    case False
    then have "n div 10 \<noteq> 0" by simp
    with False 1 show ?thesis by (subst nat_str.simps) simp
  qed
qed

lemma is_all_zero_reads:
  assumes "reads_as s (BVVal w n)"
  shows "is_all_zero s = Inr (n = 0)"
proof -
  from assms consider bs where "s = ''#b'' @ bs" "length bs = w" "set bs \<subseteq> {CHR ''0'', CHR ''1''}" "bits_value bs = n" "0 < w"
    | "s = ''(_ bv'' @ nat_str n @ '' '' @ nat_str w @ '')''" by (auto simp: reads_as_def)
  then show ?thesis
  proof cases
    case 1
    with bits_value_zero [OF 1(3)] show ?thesis by (simp add: is_all_zero_def)
  next
    case 2
    have "is_all_zero s = convert_to_boolean_and_check (nat_str n) (nat_str w) False"
      using extract_decimal_width_ok [of n w] nat_str_nonempty [of w] unfolding is_all_zero_def 2 by simp
    then show ?thesis using nat_str_zeros by (simp add: convert_to_boolean_and_check_def)
  qed
qed

lemma is_all_one_reads:
  assumes "reads_as s (BVVal w n)"
  shows "is_all_one s w = Inr (n = 2 ^ w - 1)"
proof -
  from assms consider bs where "s = ''#b'' @ bs" "length bs = w" "set bs \<subseteq> {CHR ''0'', CHR ''1''}" "bits_value bs = n" "0 < w"
    | "s = ''(_ bv'' @ nat_str n @ '' '' @ nat_str w @ '')''" by (auto simp: reads_as_def)
  then show ?thesis
  proof cases
    case 1
    with bits_value_ones [OF 1(3)] show ?thesis by (simp add: is_all_one_def)
  next
    case 2
    have w: "0 < w" "w < 2 ^ 32" using assms by (simp_all add: reads_as_def)
    then have u: "unat (of_nat w :: 64 word) = w" by (simp add: unat_of_nat)
    then have "(of_nat w :: 64 word) \<noteq> 0" using w(1) by (metis unat_0 less_irrefl)
    moreover have "unat (ucast (of_nat w :: 64 word) :: 32 word) = w"
      using w by (simp add: unsigned_ucast_eq unat_of_nat take_bit_nat_eq_self)
    moreover have "str_to_ulonglong (nat_str w) 10 = Inr (of_nat w)" by (rule str_to_ulonglong_nat_str) (use w in simp)
    moreover have "is_all_one s w = convert_to_boolean_and_check (nat_str n) (nat_str w) True"
      using extract_decimal_width_ok [of n w] nat_str_nonempty [of w] unfolding is_all_one_def 2 by simp
    moreover have "nat_str n = nat_str (2 ^ w - 1) \<longleftrightarrow> n = 2 ^ w - 1" using nat_str_inj by blast
    ultimately show ?thesis using w(1) get_all_one_text [of "ucast (of_nat w :: 64 word)"]
      by (simp add: convert_to_boolean_and_check_def)
  qed
qed

lemma is_all_one_bool:
  assumes "reads_as s (BoolVal b)"
  shows "is_all_one s 1 = Inr b"
proof -
  from assms consider "s = ''true''" "b" | "s = ''false''" "\<not> b" | "s = ''#b1''" "b" | "s = ''#b0''" "\<not> b"
    by (simp add: reads_as_def split: if_splits) blast+
  then show ?thesis by cases (simp_all add: is_all_one_def)
qed

subsection \<open>The order of values\<close>

fun val_number :: "val \<Rightarrow> nat" where
  "val_number (BoolVal b) = (if b then 1 else 0)"
| "val_number (BVVal w n) = n"
| "val_number _ = 0"

lemma eval_val_reads:
  assumes "reads_as s v"
  shows "eval_val s = Inr (nat_str (val_number v))"
proof -
  have bin: "eval_val (''#b'' @ bs) = Inr (nat_str (bits_value bs))" for bs
  proof -
    have "str_find (''#b'' @ bs) ''#b'' 0 = Some 0" by (simp add: str_find_def upt_rec)
    then have e: "eval_val (''#b'' @ bs) = (let rest = dropWhile (\<lambda>c. c = CHR ''0'') bs
        in if rest = [] then Inr ''0'' else Inr (convert_bin_str_to_decimal rest))"
      by (simp add: eval_val_def del: dropWhile_eq_Nil_conv)
    show ?thesis
    proof (cases "dropWhile (\<lambda>c. c = CHR ''0'') bs = []")
      case True
      then have "bits_value bs = 0" using bits_value_strip [of bs] by (metis bits_value_Nil)
      moreover have "nat_str 0 = ''0''" by code_simp
      ultimately show ?thesis using True unfolding e Let_def by (simp del: dropWhile_eq_Nil_conv)
    next
      case False
      then show ?thesis unfolding e Let_def convert_bin_str_ok bits_value_strip by (simp only: if_False)
    qed
  qed
  have dec: "eval_val (''(_ bv'' @ nat_str n @ '' '' @ nat_str w @ '')'') = Inr (nat_str n)" for n w
  proof -
    have "str_find (''(_ bv'' @ nat_str n @ '' '' @ nat_str w @ '')'') ''#b'' 0 \<noteq> Some 0"
      by (auto simp: str_find_def find_Some_iff)
    then show ?thesis using extract_decimal_width_ok [of n w] by (simp add: eval_val_def)
  qed
  have one: "nat_str 0 = ''0''" "nat_str 1 = ''1''" by code_simp+
  show ?thesis
  proof (cases v)
    case (BoolVal b)
    with assms consider "s = ''true''" "b" | "s = ''false''" "\<not> b" | "s = ''#b'' @ ''1''" "b" | "s = ''#b'' @ ''0''" "\<not> b"
      by (auto simp: reads_as_def split: if_splits)
    then show ?thesis using BoolVal one bin [of "''1''"] bin [of "''0''"] by cases (simp_all add: eval_val_def)
  next
    case (BVVal w n)
    with assms bin dec show ?thesis by (auto simp: reads_as_def)
  qed (use assms in \<open>auto simp: reads_as_def\<close>)
qed

lemma less_loop_snoc: "length s = length t \<Longrightarrow>
  less_loop (s @ [x]) (t @ [y]) \<longleftrightarrow> less_loop s t \<or> s = t \<and> char_less x y"
proof (induction s t rule: list_induct2)
  case (Cons a s b t)
  have "char_less a b \<or> char_less b a" if "a \<noteq> b"
  proof -
    have "unat (of_char c :: 8 word) = of_char c" for c
    proof -
      have "(of_char c :: 8 word) = of_nat (of_char c)" by (rule of_nat_of_char [symmetric])
      moreover have "unat (of_nat (of_char c) :: 8 word) = of_char c mod 256" by (simp only: unat_of_nat) simp
      ultimately show ?thesis using of_char_mod_256 [of c, where 'a = nat] by simp
    qed
    then have "of_char a \<noteq> (of_char b :: 8 word)"
      using that of_char_eqI [of a b, where 'a = nat] by metis
    then have "sint (of_char a :: 8 word) \<noteq> sint (of_char b :: 8 word)" 
      using signed_word_eqI [where 'a = int and v = "of_char a :: 8 word" and w = "of_char b"] by blast
    then show ?thesis by (auto simp: char_less_def)
  qed
  moreover have "\<not> (char_less a b \<and> char_less b a)" by (auto simp: char_less_def)
  moreover have "\<not> char_less a a" by (simp add: char_less_def)
  ultimately show ?case using Cons.IH by auto
qed simp

lemma digit_char_less: "a < 10 \<Longrightarrow> b < 10 \<Longrightarrow> char_less (char_of (48 + a)) (char_of (48 + b)) \<longleftrightarrow> a < (b :: nat)"
proof -
  have s: "sint (of_char (char_of (48 + d :: nat)) :: 8 word) = int (48 + d)" if "d < 10" for d :: nat
  proof -
    have "(of_char (char_of (48 + d)) :: 8 word) = of_nat (of_char (char_of (48 + d)))" by (rule of_nat_of_char [symmetric])
    also have "of_char (char_of (48 + d)) = 48 + d" using that by simp
    finally have "of_char (char_of (48 + d)) = (of_nat (48 + d) :: 8 word)" .
    moreover have "unat (of_nat (48 + d) :: 8 word) = 48 + d" using that by (simp only: unat_of_nat) simp
    ultimately show ?thesis using small_sint [of "of_nat (48 + d)"] that by simp
  qed
  assume "a < 10" "b < 10"
  then show ?thesis by (simp only: char_less_def s) simp
qed

lemma nat_str_length_mono: "m \<le> n \<Longrightarrow> length (nat_str m) \<le> length (nat_str n)"
proof (induction m arbitrary: n rule: nat_str.induct)
  case (1 m)
  show ?case
  proof (cases "m < 10")
    case True
    then have "length (nat_str m) = 1" by (subst nat_str.simps) simp
    then show ?thesis using nat_str_nonempty [of n] by (cases "nat_str n") simp_all
  next
    case False
    with 1 have "length (nat_str (m div 10)) \<le> length (nat_str (n div 10))" "\<not> n < 10" by (simp_all add: div_le_mono)
    with False show ?thesis by (subst (1 2) nat_str.simps) simp
  qed
qed

lemma ten: "x < 10 \<Longrightarrow> y < 10 \<Longrightarrow> a < b \<or> a = b \<and> x < y \<longleftrightarrow> 10 * a + x < 10 * b + (y :: nat)"
  by arith

lemma nat_str_order: "eval_val_less (nat_str m) (nat_str n) \<longleftrightarrow> m < n"
proof -
  have loop: "length (nat_str m) = length (nat_str n) \<Longrightarrow> less_loop (nat_str m) (nat_str n) \<longleftrightarrow> m < n" for m n
  proof (induction m arbitrary: n rule: nat_str.induct)
    case (1 m)
    have one: "length (nat_str k) = 1 \<longleftrightarrow> k < 10" for k
      using nat_str_nonempty [of "k div 10"] by (subst nat_str.simps) auto
    show ?case
    proof (cases "m < 10")
      case True
      then have "n < 10" using 1(2) one by metis
      with True show ?thesis using digit_char_less [of m n] digit_char_less [of n m]
        by (subst (1 2) nat_str.simps) simp
    next
      case False
      then have n: "\<not> n < 10" using 1(2) one by metis
      have e: "nat_str k = nat_str (k div 10) @ [char_of (48 + k mod 10)]" if "\<not> k < 10" for k
        using that by (subst nat_str.simps) simp
      have len: "length (nat_str (m div 10)) = length (nat_str (n div 10))"
        using 1(2) e [OF False] e [OF n] by (metis length_append_singleton nat.inject)
      have "less_loop (nat_str m) (nat_str n) \<longleftrightarrow> m div 10 < n div 10 \<or> m div 10 = n div 10 \<and> m mod 10 < n mod 10"
        unfolding e [OF False] e [OF n] less_loop_snoc [OF len]
        using 1(1) [OF False len] digit_char_less [of "m mod 10" "n mod 10"] nat_str_inj [of "m div 10" "n div 10"] by auto
      also have "\<dots> \<longleftrightarrow> 10 * (m div 10) + m mod 10 < 10 * (n div 10) + n mod 10"
        by (rule ten) simp_all
      also have "\<dots> \<longleftrightarrow> m < n" by (simp only: mult_div_mod_eq)
      finally show ?thesis .
    qed
  qed
  show ?thesis
  proof (cases "length (nat_str m) = length (nat_str n)")
    case True
    with loop [OF True] show ?thesis by (simp add: eval_val_less_def)
  next
    case False
    then have "length (nat_str m) < length (nat_str n) \<longleftrightarrow> m < n"
      using nat_str_length_mono [of m n] nat_str_length_mono [of n m] by linarith
    moreover have "length (nat_str n) < length (nat_str m)" if "\<not> length (nat_str m) < length (nat_str n)"
      using False that by linarith
    ultimately show ?thesis unfolding eval_val_less_def by (simp split: if_split)
  qed
qed

text \<open>C35: The order that \<open>eval_val\<close> gives to the texts of solver values is the order of
  the numbers they denote, whatever of the two formats and whatever width each has.\<close>

theorem value_order_exact:
  assumes "reads_as s v" and "reads_as t u"
  shows "\<exists>x y. eval_val s = Inr x \<and> eval_val t = Inr y \<and> (eval_val_less x y \<longleftrightarrow> val_number v < val_number u)"
  using eval_val_reads [OF assms(1)] eval_val_reads [OF assms(2)] nat_str_order by blast

theorem value_order_exact_witness:
  "\<exists>x y. eval_val ''#b0101'' = Inr x \<and> eval_val ''(_ bv12 8)'' = Inr y \<and> eval_val_less x y"
proof -
  have n: "nat_str 12 = ''12''" "nat_str 8 = ''8''" by code_simp+
  have "reads_as ''#b0101'' (BVVal 4 5)"
  proof -
    have "\<exists>bs. ''#b0101'' = ''#b'' @ bs \<and> length bs = 4 \<and> set bs \<subseteq> {CHR ''0'', CHR ''1''} \<and> bits_value bs = 5"
      by (intro exI [of _ "''0101''"]) simp
    then show ?thesis unfolding reads_as_def val.case by (intro conjI disjI1) simp_all
  qed
  moreover have "reads_as ''(_ bv12 8)'' (BVVal 8 12)" unfolding reads_as_def by (simp add: n)
  ultimately show ?thesis using value_order_exact [of "''#b0101''" "BVVal 4 5" "''(_ bv12 8)''" "BVVal 8 12"] by simp
qed

text \<open>A name that is not quoted comes back from its sanitised form.\<close>

lemma name_roundtrip:
  assumes "\<not> (2 < length s \<and> hd s = CHR ''|'' \<and> last s = CHR ''|'')"
  shows "name_desanitize (name_sanitize s) = s"
proof (cases "s = []")
  case False
  then have q: "2 < length (''|'' @ s @ ''|'')" by (cases s) simp_all
  have "name_desanitize (''|'' @ s @ ''|'') = s" unfolding name_desanitize_def using q by simp
  moreover have "name_desanitize s = s" by (simp only: name_desanitize_def if_not_P [OF assms])
  ultimately show ?thesis unfolding name_sanitize_def Let_def if_not_P [OF assms] by (simp split: if_splits)
qed (simp add: name_sanitize_def name_desanitize_def)

end
