(* ===== verification/Ic3_Formula.thy ===== *)
theory Ic3_Formula
  imports Prover
begin

section \<open>The units of the IC3 frames (engines/ic3base)\<close>

text \<open>
  An \<open>IC3Formula\<close> is a cube or a clause: a term together with its conjuncts or disjuncts,
  which the constructor sorts by the identifiers of the terms.  The term of a default-constructed
  formula is null (\<open>None\<close>).  \<open>cube\<close> and \<open>clause\<close> state that the term and the
  children of a formula mean the same.
\<close>

record ic3_formula =
  if_term :: "tm option"
  if_children :: "tm list"
  if_disjunction :: bool

text \<open>\<open>std::sort\<close> of a vector of terms; equal terms are the same term.\<close>

primrec insort_tm :: "smt_builder \<Rightarrow> tm \<Rightarrow> tm list \<Rightarrow> tm list" where
  "insort_tm B t [] = [t]"
| "insort_tm B t (u # us) = (if term_less B u t then u # insort_tm B t us else t # u # us)"

definition sort_tms :: "smt_builder \<Rightarrow> tm list \<Rightarrow> tm list" where
  "sort_tms B ts = foldr (insort_tm B) ts []"

definition mk_formula :: "smt_builder \<Rightarrow> tm option \<Rightarrow> tm list \<Rightarrow> bool \<Rightarrow> ic3_formula" where
  "mk_formula B t cs n = \<lparr>if_term = t, if_children = sort_tms B cs, if_disjunction = n\<rparr>"

definition null_formula :: ic3_formula where
  "null_formula = \<lparr>if_term = None, if_children = [], if_disjunction = False\<rparr>"

text \<open>The term of a formula; no operation reads the term of a null formula.\<close>

definition fterm :: "ic3_formula \<Rightarrow> tm" where
  "fterm f = (case if_term f of Some t \<Rightarrow> t | None \<Rightarrow> tm_true)"

text \<open>A negation has one argument.\<close>

definition smart_not :: "smt_builder \<Rightarrow> tm \<Rightarrow> tm" where
  "smart_not B t = (if get_op t = Some (op0 NotOp) \<and> length (children t) = 1 then children t ! 0
     else mk_term B (op0 NotOp) [t])"

text \<open>The connection of a vector of terms; an empty vector makes \<open>at\<close> throw.\<close>

definition connect :: "smt_builder \<Rightarrow> primop \<Rightarrow> tm list \<Rightarrow> tm result" where
  "connect B p cs = (case cs of [] \<Rightarrow> Inl OutOfRange
     | c # cs \<Rightarrow> Inr (fold (\<lambda>d t. mk_term B (op0 p) [t, d]) cs c))"

definition ic3formula_disjunction :: "smt_builder \<Rightarrow> tm list \<Rightarrow> ic3_formula result" where
  "ic3formula_disjunction B c = bindE (connect B Or c) (\<lambda>t. Inr (mk_formula B (Some t) c True))"

definition ic3formula_conjunction :: "smt_builder \<Rightarrow> tm list \<Rightarrow> ic3_formula result" where
  "ic3formula_conjunction B c = bindE (connect B And c) (\<lambda>t. Inr (mk_formula B (Some t) c False))"

definition ic3formula_negate :: "smt_builder \<Rightarrow> ic3_formula \<Rightarrow> ic3_formula result" where
  "ic3formula_negate B u =
     (let neg = map (smart_not B) (if_children u); is_clause = if_disjunction u
      in bindE (connect B (if is_clause then And else Or) neg)
        (\<lambda>t. Inr (mk_formula B (Some t) neg (\<not> is_clause))))"

text \<open>\<open>std::includes\<close> on sorted ranges, and the subsumption of clauses.\<close>

fun incl_sorted :: "smt_builder \<Rightarrow> tm list \<Rightarrow> tm list \<Rightarrow> bool" where
  "incl_sorted B bs [] = True"
| "incl_sorted B [] (a # as) = False"
| "incl_sorted B (b # bs) (a # as) =
     (if term_less B a b then False
      else if term_less B b a then incl_sorted B bs (a # as) else incl_sorted B bs as)"

definition subsumes :: "smt_builder \<Rightarrow> ic3_formula \<Rightarrow> ic3_formula \<Rightarrow> bool" where
  "subsumes B a b = (length (if_children a) \<le> length (if_children b)
     \<and> incl_sorted B (if_children b) (if_children a))"

subsection \<open>What they mean\<close>

lemma set_insort_tm [simp]: "set (insort_tm B t us) = insert t (set us)"
  by (induction us) auto

lemma set_sort_tms [simp]: "set (sort_tms B ts) = set ts"
  by (induction ts) (simp_all add: sort_tms_def)

lemma length_insort_tm [simp]: "length (insort_tm B t us) = Suc (length us)"
  by (induction us) auto

lemma length_sort_tms [simp]: "length (sort_tms B ts) = length ts"
  by (induction ts) (simp_all add: sort_tms_def)

lemma sort_tms_Nil [simp]: "sort_tms B ts = [] \<longleftrightarrow> ts = []"
  by (metis length_0_conv length_sort_tms)

lemma mk_formula_simps [simp]:
  "if_term (mk_formula B t cs n) = t"
  "if_children (mk_formula B t cs n) = sort_tms B cs"
  "if_disjunction (mk_formula B t cs n) = n"
  "fterm (mk_formula B (Some u) cs n) = u"
  by (simp_all add: mk_formula_def fterm_def)

definition cube :: "theory_ops \<Rightarrow> ic3_formula \<Rightarrow> bool" where
  "cube F f \<longleftrightarrow> if_term f \<noteq> None \<and> if_children f \<noteq> [] \<and> \<not> if_disjunction f
     \<and> (\<forall>\<sigma>. holds F \<sigma> (fterm f) \<longleftrightarrow> all_hold F \<sigma> (if_children f))"

definition clause :: "theory_ops \<Rightarrow> ic3_formula \<Rightarrow> bool" where
  "clause F f \<longleftrightarrow> if_term f \<noteq> None \<and> if_children f \<noteq> [] \<and> if_disjunction f
     \<and> (\<forall>\<sigma>. holds F \<sigma> (fterm f) \<longleftrightarrow> (\<exists>c \<in> set (if_children f). holds F \<sigma> c))"

text \<open>A formula over the variables \<open>V\<close>, without function symbols.\<close>

definition syms_in :: "tm set \<Rightarrow> tm \<Rightarrow> bool" where
  "syms_in V t \<longleftrightarrow> (\<forall>x \<in> syms t. tm_of x \<in> V)"

definition over :: "tm set \<Rightarrow> ic3_formula \<Rightarrow> bool" where
  "over V f \<longleftrightarrow> syms_in V (fterm f) \<and> (\<forall>c \<in> set (if_children f). syms_in V c)"

lemma syms_in_covered: "syms_in V t \<Longrightarrow> covered t V"
  by (simp add: syms_in_def covered_def)

lemma syms_in_mono: "syms_in V t \<Longrightarrow> V \<subseteq> W \<Longrightarrow> syms_in W t"
  by (auto simp: syms_in_def)

lemma syms_in_Val [simp]: "syms_in V (Val v s)"
  by (simp add: syms_in_def)

lemma syms_in_Sym [simp]: "syms_in V (Sym n s) \<longleftrightarrow> Sym n s \<in> V"
  by (simp add: syms_in_def)

lemma connect_Inr_iff: "connect B p cs = Inr t \<longleftrightarrow> cs \<noteq> [] \<and> t = fold (\<lambda>d t. mk_term B (op0 p) [t, d]) (tl cs) (hd cs)"
  by (auto simp: connect_def split: list.splits)

context smt_terms
begin

lemma smart_not_holds [simp]: "holds F \<sigma> (smart_not B t) \<longleftrightarrow> \<not> holds F \<sigma> t"
  by (cases t) (auto simp: smart_not_def sem_op_def length_Suc_conv)

lemma syms_smart_not: "syms (smart_not B t) \<subseteq> syms t"
  using syms_mk1 [of "op0 NotOp" t] by (cases t) (auto simp: smart_not_def length_Suc_conv)

lemma syms_in_smart_not: "syms_in V t \<Longrightarrow> syms_in V (smart_not B t)"
  using syms_smart_not unfolding syms_in_def by blast

lemma syms_in_mk2: "syms_in V a \<Longrightarrow> syms_in V b \<Longrightarrow> syms_in V (mk_term B p [a, b])"
  using syms_mk2 [of p a b] unfolding syms_in_def by blast

lemma syms_in_mk1: "syms_in V a \<Longrightarrow> syms_in V (mk_term B p [a])"
  using syms_mk1 [of p a] unfolding syms_in_def by blast

lemma connect_And:
  assumes "connect B And cs = Inr t"
  shows "holds F \<sigma> t \<longleftrightarrow> all_hold F \<sigma> cs"
proof -
  have "holds F \<sigma> (fold (\<lambda>d t. mk_term B (op0 And) [t, d]) ds c) \<longleftrightarrow> holds F \<sigma> c \<and> all_hold F \<sigma> ds" for c ds
    by (induction ds arbitrary: c) auto
  with assms show ?thesis by (cases cs) (auto simp: connect_Inr_iff)
qed

lemma connect_Or:
  assumes "connect B Or cs = Inr t"
  shows "holds F \<sigma> t \<longleftrightarrow> (\<exists>c \<in> set cs. holds F \<sigma> c)"
proof -
  have "holds F \<sigma> (fold (\<lambda>d t. mk_term B (op0 Or) [t, d]) ds c) \<longleftrightarrow> holds F \<sigma> c \<or> (\<exists>d \<in> set ds. holds F \<sigma> d)" for c ds
    by (induction ds arbitrary: c) auto
  with assms show ?thesis by (cases cs) (auto simp: connect_Inr_iff)
qed

lemma connect_syms:
  assumes "connect B p cs = Inr t" and "\<And>c. c \<in> set cs \<Longrightarrow> syms_in V c"
  shows "syms_in V t"
proof -
  have "syms_in V (fold (\<lambda>d t. mk_term B (op0 p) [t, d]) ds c)"
    if "syms_in V c" "\<And>d. d \<in> set ds \<Longrightarrow> syms_in V d" for c ds
    using that by (induction ds arbitrary: c) (simp_all add: syms_in_mk2)
  with assms show ?thesis by (cases cs) (auto simp: connect_Inr_iff)
qed

lemma conjunction_cube:
  assumes "ic3formula_conjunction B cs = Inr f"
  shows "cube F f" and "set (if_children f) = set cs" and "length (if_children f) = length cs"
    and "(\<And>c. c \<in> set cs \<Longrightarrow> syms_in V c) \<Longrightarrow> over V f"
proof -
  from assms obtain t where t: "connect B And cs = Inr t" and f: "f = mk_formula B (Some t) cs False"
    by (auto simp: ic3formula_conjunction_def bindE_Inr_iff)
  show "cube F f" using connect_And [OF t] t by (auto simp: f cube_def connect_Inr_iff)
  show "set (if_children f) = set cs" "length (if_children f) = length cs" by (simp_all add: f)
  show "over V f" if "\<And>c. c \<in> set cs \<Longrightarrow> syms_in V c"
    using connect_syms [OF t that] that by (simp add: f over_def)
qed

lemma negate_cube:
  assumes "ic3formula_negate B u = Inr f" and "cube F u"
  shows "clause F f" and "holds F \<sigma> (fterm f) \<longleftrightarrow> \<not> holds F \<sigma> (fterm u)" and "over V u \<Longrightarrow> over V f"
proof -
  let ?n = "map (smart_not B) (if_children u)"
  from assms obtain t where t: "connect B Or ?n = Inr t" and f: "f = mk_formula B (Some t) ?n True"
    by (auto simp: ic3formula_negate_def bindE_Inr_iff cube_def Let_def)
  show "clause F f" using connect_Or [OF t] assms(2) by (auto simp: f clause_def cube_def)
  show "holds F \<sigma> (fterm f) \<longleftrightarrow> \<not> holds F \<sigma> (fterm u)"
    using connect_Or [OF t] assms(2) by (simp add: f cube_def)
  show "over V f" if "over V u"
    using connect_syms [OF t, of V] that syms_in_smart_not by (auto simp: f over_def)
qed

lemma negate_clause:
  assumes "ic3formula_negate B u = Inr f" and "clause F u"
  shows "cube F f" and "holds F \<sigma> (fterm f) \<longleftrightarrow> \<not> holds F \<sigma> (fterm u)" and "over V u \<Longrightarrow> over V f"
proof -
  let ?n = "map (smart_not B) (if_children u)"
  from assms obtain t where t: "connect B And ?n = Inr t" and f: "f = mk_formula B (Some t) ?n False"
    by (auto simp: ic3formula_negate_def bindE_Inr_iff clause_def Let_def)
  show "cube F f" using connect_And [OF t] assms(2) by (auto simp: f clause_def cube_def)
  show "holds F \<sigma> (fterm f) \<longleftrightarrow> \<not> holds F \<sigma> (fterm u)"
    using connect_And [OF t] assms(2) by (simp add: f clause_def)
  show "over V f" if "over V u"
    using connect_syms [OF t, of V] that syms_in_smart_not by (auto simp: f over_def)
qed

lemma incl_sorted_subset: "incl_sorted B bs as \<Longrightarrow> set as \<subseteq> set bs"
proof (induction bs arbitrary: as)
  case Nil
  then show ?case by (cases as) simp_all
next
  case (Cons b bs)
  show ?case
  proof (cases as)
    case (Cons a as')
    with Cons.prems term_less_total [of a b] Cons.IH [of as'] Cons.IH [of as] show ?thesis
      by (auto split: if_splits)
  qed simp
qed

text \<open>A clause implies the clauses it subsumes.\<close>

lemma subsumes_implies:
  assumes "subsumes B a b" and "clause F a" and "clause F b" and "holds F \<sigma> (fterm a)"
  shows "holds F \<sigma> (fterm b)"
  using assms incl_sorted_subset unfolding subsumes_def clause_def by blast

end

end
