(* ===== verification/Partial_Model.thy ===== *)
theory Partial_Model
  imports Solver_Values Ic3_Formula
begin

section \<open>Partial models (utils/partial_model)\<close>

text \<open>
  \<open>PartialModelGen\<close> walks a term in the solver's current model and keeps the variables that
  the value of the term depends on: below a connective it leaves out the arguments that another
  argument makes irrelevant.  The model reads the values through \<open>s_get_value\<close> and their
  texts through \<open>term_str\<close>.
\<close>

unbundle bit_operations_syntax

definition sort_width :: "smt_sort \<Rightarrow> nat result" where
  "sort_width st = (case st of BV w \<Rightarrow> Inr w | _ \<Rightarrow> Inl (SmtException ''get_width''))"

definition value_text :: "'s smt_solver \<Rightarrow> 's \<Rightarrow> tm \<Rightarrow> string" where
  "value_text S s t = term_str (builder S) (s_get_value S s t)"

definition true_here :: "'s smt_solver \<Rightarrow> 's \<Rightarrow> tm \<Rightarrow> bool result" where
  "true_here S s t = is_all_one (value_text S s t) 1"

definition false_here :: "'s smt_solver \<Rightarrow> 's \<Rightarrow> tm \<Rightarrow> bool result" where
  "false_here S s t = bindE (true_here S s t) (\<lambda>b. Inr (\<not> b))"

definition zero_here :: "'s smt_solver \<Rightarrow> 's \<Rightarrow> tm \<Rightarrow> bool result" where
  "zero_here S s t = is_all_zero (value_text S s t)"

definition ones_here :: "'s smt_solver \<Rightarrow> 's \<Rightarrow> tm \<Rightarrow> bool result" where
  "ones_here S s t = bindE (sort_width (get_sort t)) (is_all_one (value_text S s t))"

text \<open>The arguments that matter: one that decides alone by its test, else both.\<close>

definition deciding :: "'s smt_solver \<Rightarrow> 's \<Rightarrow> (tm \<Rightarrow> bool result) \<Rightarrow> (tm \<Rightarrow> bool result) \<Rightarrow> tm list \<Rightarrow> tm list result" where
  "deciding S s p q ts = (case ts of
       [l, r] \<Rightarrow> assertE (is_value (s_get_value S s l) \<and> is_value (s_get_value S s r))
         (bindE (p l) (\<lambda>x. if x then Inr [l] else bindE (q r) (\<lambda>y. if y then Inr [r] else Inr [l, r])))
     | _ \<Rightarrow> Inl (UndefinedBehaviour ''assertion''))"

definition rel_children :: "'s smt_solver \<Rightarrow> 's \<Rightarrow> op \<Rightarrow> tm list \<Rightarrow> tm list result" where
  "rel_children S s p ts =
     (if prim_op p = Ite then
        (case ts of
           [c, a, b] \<Rightarrow> assertE (is_value (s_get_value S s c))
             (bindE (true_here S s c) (\<lambda>x. Inr (if x then [c, a] else [c, b])))
         | _ \<Rightarrow> Inl (UndefinedBehaviour ''assertion''))
      else if prim_op p = Implies then deciding S s (false_here S s) (true_here S s) ts
      else if prim_op p = And then deciding S s (false_here S s) (false_here S s) ts
      else if prim_op p = Or then deciding S s (true_here S s) (true_here S s) ts
      else if prim_op p \<in> {BVAnd, BVNand} then deciding S s (zero_here S s) (zero_here S s) ts
      else if prim_op p \<in> {BVOr, BVNor} then deciding S s (ones_here S s) (ones_here S s) ts
      else if prim_op p = BVMul then deciding S s (zero_here S s) (zero_here S s) ts
      else Inr ts)"

lemma rel_children_subset: "rel_children S s p ts = Inr cs \<Longrightarrow> set cs \<subseteq> set ts"
  by (auto simp: rel_children_def deciding_def bindE_Inr_iff split: list.splits if_splits)

lemma rel_children_weight: "rel_children S s p ts = Inr cs \<Longrightarrow> sum_list (map f cs) \<le> sum_list (map (f :: tm \<Rightarrow> nat) ts)"
  by (auto simp: rel_children_def deciding_def bindE_Inr_iff split: list.splits if_splits)

text \<open>The measure of the walk: a visited node on the stack has only to be dropped.\<close>

definition walk_weight :: "tm list \<Rightarrow> tm list \<Rightarrow> nat" where
  "walk_weight stack walked = sum_list (map (\<lambda>t. if t \<in> set walked then 1 else 2 * tm_weight t) stack)"

lemma walk_weight_mono: "set walked \<subseteq> set walked' \<Longrightarrow> walk_weight stack walked' \<le> walk_weight stack walked"
proof (induction stack)
  case (Cons t stack)
  have "1 \<le> 2 * tm_weight t" by (cases t) simp_all
  with Cons show ?case by (auto simp: walk_weight_def)
qed (simp add: walk_weight_def)

lemma walk_weight_children: "walk_weight cs walked \<le> 2 * sum_list (map tm_weight cs)"
proof (induction cs)
  case (Cons t cs)
  have "1 \<le> 2 * tm_weight t" by (cases t) simp_all
  with Cons show ?case by (auto simp: walk_weight_def)
qed (simp add: walk_weight_def)

text \<open>The walk; the node stays on the stack below its children and is dropped when it comes up again.\<close>

function dfs_walk :: "'s smt_solver \<Rightarrow> 's \<Rightarrow> tm list \<Rightarrow> tm list \<Rightarrow> tm list \<Rightarrow> (tm list \<times> tm list) result" where
  "dfs_walk S s [] walked vars = Inr (walked, vars)"
| "dfs_walk S s (ast # stack) walked vars =
     (if ast \<in> set walked then dfs_walk S s stack walked vars
      else case get_op ast of
          None \<Rightarrow> dfs_walk S s stack (ast # walked)
            (if is_symbolic_const ast then List.insert ast vars else vars)
        | Some p \<Rightarrow> (case rel_children S s p (children ast) of
            Inl e \<Rightarrow> Inl e
          | Inr cs \<Rightarrow> dfs_walk S s (rev cs @ ast # stack) (ast # walked) vars))"
  by pat_completeness auto

termination
proof (relation "measure (\<lambda>(S, s, stack, walked, vars). walk_weight stack walked)", goal_cases)
  case (3 S s ast stack walked vars)
  have "0 < tm_weight ast" by (cases ast) simp_all
  moreover have "walk_weight stack (ast # walked) \<le> walk_weight stack walked" by (rule walk_weight_mono) auto
  moreover have "walk_weight (ast # stack) walked = 2 * tm_weight ast + walk_weight stack walked"
    using 3(1) by (simp add: walk_weight_def)
  ultimately show ?case by simp
next
  case (4 S s ast stack walked vars p cs)
  have "sum_list (map tm_weight cs) \<le> sum_list (map tm_weight (children ast))"
    by (rule rel_children_weight [OF 4(3)])
  then have "sum_list (map tm_weight cs) < tm_weight ast" using weight_children_less [of ast] by linarith
  moreover have "walk_weight (rev cs) (ast # walked) \<le> 2 * sum_list (map tm_weight (rev cs))" by (rule walk_weight_children)
  moreover have "sum_list (map tm_weight (rev cs)) = sum_list (map tm_weight cs)" by (simp flip: rev_map)
  moreover have "walk_weight stack (ast # walked) \<le> walk_weight stack walked" by (rule walk_weight_mono) auto
  moreover have "walk_weight (rev cs @ ast # stack) (ast # walked)
      = walk_weight (rev cs) (ast # walked) + 1 + walk_weight stack (ast # walked)" by (simp add: walk_weight_def)
  moreover have "walk_weight (ast # stack) walked = 2 * tm_weight ast + walk_weight stack walked"
    using 4(1) by (simp add: walk_weight_def)
  ultimately show ?case by simp
qed (simp_all add: walk_weight_def)

definition get_var_list_for_asts :: "'s smt_solver \<Rightarrow> 's \<Rightarrow> tm list \<Rightarrow> tm list \<Rightarrow> tm list result" where
  "get_var_list_for_asts S s asts out =
     bindE (foldE (\<lambda>ast (walked, vars). dfs_walk S s [ast] walked vars) asts ([], []))
       (\<lambda>(walked, vars). Inr (List.union vars out))"

definition get_var_list :: "'s smt_solver \<Rightarrow> 's \<Rightarrow> tm \<Rightarrow> tm list result" where
  "get_var_list S s ast = bindE (dfs_walk S s [ast] [] []) (\<lambda>(walked, vars). Inr vars)"

definition equality :: "'s smt_solver \<Rightarrow> 's \<Rightarrow> tm \<Rightarrow> tm" where
  "equality S s v = mk_term (builder S) (op0 Equal) [v, s_get_value S s v]"

definition conjoin :: "'s smt_solver \<Rightarrow> tm list \<Rightarrow> tm option" where
  "conjoin S eqs = fold (\<lambda>eq conj. Some (case conj of None \<Rightarrow> eq
     | Some c \<Rightarrow> mk_term (builder S) (op0 And) [c, eq])) eqs None"

definition get_partial_model :: "'s smt_solver \<Rightarrow> 's \<Rightarrow> tm \<Rightarrow> ic3_formula result" where
  "get_partial_model S s ast = bindE (get_var_list S s ast) (\<lambda>vars.
     let eqs = map (equality S s) vars
     in Inr (mk_formula (builder S) (conjoin S eqs) eqs False))"

definition get_partial_model_in_cube :: "'s smt_solver \<Rightarrow> 's \<Rightarrow> tm \<Rightarrow> (ic3_formula \<times> (tm \<times> tm) list \<times> tm option) result" where
  "get_partial_model_in_cube S s ast = bindE (get_var_list S s ast) (\<lambda>vars.
     let eqs = map (equality S s) vars
     in Inr (mk_formula (builder S) (conjoin S eqs) eqs False,
          map (\<lambda>v. (v, s_get_value S s v)) vars, conjoin S eqs))"

subsection \<open>What the walk keeps\<close>

text \<open>Closed under the arguments that matter, as far as the stack does not hold them.\<close>

definition walked_ok :: "'s smt_solver \<Rightarrow> 's \<Rightarrow> tm list \<Rightarrow> tm list \<Rightarrow> tm list \<Rightarrow> bool" where
  "walked_ok S s stack walked vars \<longleftrightarrow> (\<forall>t \<in> set walked.
     (get_op t = None \<longrightarrow> is_symbolic_const t \<longrightarrow> t \<in> set vars)
     \<and> (\<forall>p. get_op t = Some p \<longrightarrow> (\<exists>cs. rel_children S s p (children t) = Inr cs \<and> set cs \<subseteq> set walked \<union> set stack)))"

lemma dfs_walk_ok:
  "dfs_walk S s stack walked vars = Inr (walked', vars') \<Longrightarrow> walked_ok S s stack walked vars \<Longrightarrow>
    walked_ok S s [] walked' vars' \<and> set walked \<union> set stack \<subseteq> set walked' \<and> set vars \<subseteq> set vars'
    \<and> (\<forall>v \<in> set vars'. v \<in> set vars \<or> is_symbolic_const v)"
proof (induction S s stack walked vars rule: dfs_walk.induct)
  case (1 S s walked vars)
  then show ?case by simp
next
  case (2 S s ast stack walked vars)
  note run = 2(4) [unfolded dfs_walk.simps]
  show ?case
  proof (cases "ast \<in> set walked")
    case True
    then have "walked_ok S s stack walked vars" using 2(5) by (auto simp: walked_ok_def insert_absorb)
    with 2(1) [OF True] run True show ?thesis by auto
  next
    case new: False
    show ?thesis
    proof (cases "get_op ast")
      case None
      let ?vars = "if is_symbolic_const ast then List.insert ast vars else vars"
      have "walked_ok S s stack (ast # walked) ?vars" using 2(5) None by (fastforce simp: walked_ok_def)
      from 2(2) [OF new None _ this] run new None show ?thesis by (auto split: if_splits)
    next
      case (Some p)
      with run new obtain cs where cs: "rel_children S s p (children ast) = Inr cs"
        by (auto split: sum.splits)
      have "walked_ok S s (rev cs @ ast # stack) (ast # walked) vars"
        using 2(5) Some cs by (fastforce simp: walked_ok_def)
      from 2(3) [OF new Some cs _ this] run new Some cs show ?thesis by auto
    qed
  qed
qed

text \<open>When no assertion fails, the walk ends with an answer.\<close>

lemma dfs_walk_returns:
  "\<forall>t \<in> set stack. \<forall>u \<in> subterms t. \<forall>p. get_op u = Some p \<longrightarrow> (\<exists>cs. rel_children S s p (children u) = Inr cs) \<Longrightarrow>
    \<exists>w v. dfs_walk S s stack walked vars = Inr (w, v)"
proof (induction S s stack walked vars rule: dfs_walk.induct)
  case (2 S s ast stack walked vars)
  show ?case
  proof (cases "ast \<in> set walked")
    case True
    with 2(1) [OF True] 2(4) show ?thesis by simp
  next
    case new: False
    show ?thesis
    proof (cases "get_op ast")
      case None
      with 2(2) [OF new None] 2(4) new show ?thesis by simp
    next
      case (Some p)
      with 2(4) obtain cs where cs: "rel_children S s p (children ast) = Inr cs" by fastforce
      have "set cs \<subseteq> set (children ast)" by (rule rel_children_subset [OF cs])
      then have "subterms u \<subseteq> subterms ast" if "u \<in> set cs" for u
        using that subterms_unfold [of ast] by blast
      with 2(4) have "\<forall>t \<in> set (rev cs @ ast # stack). \<forall>u \<in> subterms t. \<forall>p. get_op u = Some p \<longrightarrow>
          (\<exists>cs. rel_children S s p (children u) = Inr cs)"
        by (simp only: set_append set_rev list.set ball_Un) blast
      with 2(3) [OF new Some cs] new Some cs show ?thesis by simp
    qed
  qed
qed simp

subsection \<open>What a partial model decides\<close>

definition two_bits :: "tm list \<Rightarrow> bool" where
  "two_bits ts \<longleftrightarrow> (case ts of
     [l, r] \<Rightarrow> (case get_sort l of BV w \<Rightarrow> 0 < w \<and> w < 2 ^ 32 \<and> get_sort r = BV w | _ \<Rightarrow> False) | _ \<Rightarrow> False)"

fun node_ok :: "tm \<Rightarrow> bool" where
  "node_ok (Node p st ts) \<longleftrightarrow>
     (if prim_op p = Ite then length ts = 3 \<and> get_sort (hd ts) = BOOL
      else if prim_op p \<in> {Implies, And, Or} then length ts = 2 \<and> list_all (\<lambda>t. get_sort t = BOOL) ts
      else if prim_op p \<in> {BVAnd, BVNand, BVOr, BVNor, BVMul} then p = op0 (prim_op p) \<and> two_bits ts
      else True)"
| "node_ok (ConstArr t st) \<longleftrightarrow> syms t = {}"
| "node_ok _ \<longleftrightarrow> True"

text \<open>
  The hypotheses: the meaning of the bit-vector operators whose arguments are left out, values that
  respect the sorts, and a model whose values print as the reading functions expect.
\<close>

definition bitwise_ok :: "theory_ops \<Rightarrow> bool" where
  "bitwise_ok F \<longleftrightarrow> (\<forall>w a b. a < 2 ^ w \<longrightarrow> b < 2 ^ w \<longrightarrow>
       F (op0 BVAnd) [BVVal w a, BVVal w b] = BVVal w (a AND b)
     \<and> F (op0 BVNand) [BVVal w a, BVVal w b] = BVVal w (2 ^ w - 1 - (a AND b))
     \<and> F (op0 BVOr) [BVVal w a, BVVal w b] = BVVal w (a OR b)
     \<and> F (op0 BVNor) [BVVal w a, BVVal w b] = BVVal w (2 ^ w - 1 - (a OR b))
     \<and> F (op0 BVMul) [BVVal w a, BVVal w b] = BVVal w (a * b mod 2 ^ w))"

definition sorted_term :: "theory_ops \<Rightarrow> tm \<Rightarrow> bool" where
  "sorted_term F t \<longleftrightarrow> (\<forall>\<rho> u. wsorted \<rho> \<longrightarrow> u \<in> subterms t \<longrightarrow> eval F \<rho> u \<in> carrier (get_sort u))"

definition printed_model :: "'s smt_solver \<Rightarrow> 's \<Rightarrow> theory_ops \<Rightarrow> assignment \<Rightarrow> bool" where
  "printed_model S s F \<sigma> \<longleftrightarrow> (\<forall>t. s_get_value S s t = Val (eval F \<sigma> t) (get_sort t))
     \<and> (\<forall>b. reads_as (term_str (builder S) (Val (BoolVal b) BOOL)) (BoolVal b))
     \<and> (\<forall>w n. 0 < w \<longrightarrow> w < 2 ^ 32 \<longrightarrow> n < 2 ^ w \<longrightarrow> reads_as (term_str (builder S) (Val (BVVal w n) (BV w))) (BVVal w n))"

lemma model_tests:
  assumes m: "printed_model S s F \<sigma>"
  shows "is_value (s_get_value S s t)"
    and "get_sort t = BOOL \<Longrightarrow> eval F \<sigma> t \<in> carrier BOOL \<Longrightarrow> true_here S s t = Inr (holds F \<sigma> t)"
    and "get_sort t = BOOL \<Longrightarrow> eval F \<sigma> t \<in> carrier BOOL \<Longrightarrow> false_here S s t = Inr (\<not> holds F \<sigma> t)"
    and "get_sort t = BV w \<Longrightarrow> 0 < w \<Longrightarrow> w < 2 ^ 32 \<Longrightarrow> eval F \<sigma> t \<in> carrier (BV w) \<Longrightarrow>
      zero_here S s t = Inr (eval F \<sigma> t = BVVal w 0)"
    and "get_sort t = BV w \<Longrightarrow> 0 < w \<Longrightarrow> w < 2 ^ 32 \<Longrightarrow> eval F \<sigma> t \<in> carrier (BV w) \<Longrightarrow>
      ones_here S s t = Inr (eval F \<sigma> t = BVVal w (2 ^ w - 1))"
proof -
  have v: "s_get_value S s t = Val (eval F \<sigma> t) (get_sort t)" using m by (simp add: printed_model_def)
  then show "is_value (s_get_value S s t)" by simp
  show b: "true_here S s t = Inr (holds F \<sigma> t)" if "get_sort t = BOOL" "eval F \<sigma> t \<in> carrier BOOL"
  proof -
    from that(2) obtain b where b: "eval F \<sigma> t = BoolVal b" by auto
    have "reads_as (value_text S s t) (BoolVal b)" using m that(1) by (simp add: value_text_def v b printed_model_def)
    from is_all_one_bool [OF this] show ?thesis by (simp add: true_here_def b)
  qed
  then show "false_here S s t = Inr (\<not> holds F \<sigma> t)" if "get_sort t = BOOL" "eval F \<sigma> t \<in> carrier BOOL"
    using that by (simp add: false_here_def)
  assume w: "get_sort t = BV w" "0 < w" "w < 2 ^ 32" "eval F \<sigma> t \<in> carrier (BV w)"
  then obtain n where n: "eval F \<sigma> t = BVVal w n" "n < 2 ^ w" by auto
  then have "reads_as (value_text S s t) (BVVal w n)"
    using m w(1-3) by (simp add: value_text_def v printed_model_def)
  note rd = is_all_zero_reads [OF this] is_all_one_reads [OF this]
  show "zero_here S s t = Inr (eval F \<sigma> t = BVVal w 0)" by (simp add: zero_here_def rd n)
  show "ones_here S s t = Inr (eval F \<sigma> t = BVVal w (2 ^ w - 1))"
    using w(1) by (simp add: ones_here_def sort_width_def rd n)
qed

lemma deciding_eq:
  assumes "\<forall>t. is_value (s_get_value S s t)" and "p l = Inr x" and "q r = Inr y"
  shows "deciding S s p q [l, r] = Inr (if x then [l] else if y then [r] else [l, r])"
  using assms by (simp add: deciding_def)

lemma or_ones: "a < 2 ^ w \<Longrightarrow> (2 ^ w - 1) OR a = (2 ^ w - 1 :: nat)" "a < 2 ^ w \<Longrightarrow> a OR (2 ^ w - 1) = (2 ^ w - 1 :: nat)"
proof -
  assume "a < 2 ^ w"
  then have a: "a = take_bit w a" by (simp add: take_bit_nat_eq_self)
  have "mask w OR take_bit w a = mask w" by (rule bit_eqI) (auto simp: bit_simps)
  then show "(2 ^ w - 1) OR a = 2 ^ w - 1" "a OR (2 ^ w - 1) = 2 ^ w - 1"
    using a by (simp_all add: mask_eq_exp_minus_1 or.commute)
qed

lemma bitwise_zero:
  assumes "bitwise_ok F" and "q \<in> {BVAnd, BVNand, BVMul}" and "n < 2 ^ k" and "m < 2 ^ k"
  shows "F (op0 q) [BVVal k 0, BVVal k n] = F (op0 q) [BVVal k 0, BVVal k m]"
    and "F (op0 q) [BVVal k n, BVVal k 0] = F (op0 q) [BVVal k m, BVVal k 0]"
  using assms(2-4) assms(1) [unfolded bitwise_ok_def, rule_format, of 0 k] assms(1) [unfolded bitwise_ok_def, rule_format, of _ k 0]
  by auto

lemma bitwise_ones:
  assumes "bitwise_ok F" and "q \<in> {BVOr, BVNor}" and "n < 2 ^ k" and "m < 2 ^ k"
  shows "F (op0 q) [BVVal k (2 ^ k - 1), BVVal k n] = F (op0 q) [BVVal k (2 ^ k - 1), BVVal k m]"
    and "F (op0 q) [BVVal k n, BVVal k (2 ^ k - 1)] = F (op0 q) [BVVal k m, BVVal k (2 ^ k - 1)]"
  using assms(2-4) assms(1) [unfolded bitwise_ok_def, rule_format, of "2 ^ k - 1" k]
    assms(1) [unfolded bitwise_ok_def, rule_format, of _ k "2 ^ k - 1"] or_ones [OF assms(3)] or_ones [OF assms(4)]
  by auto

text \<open>A decided node: the arguments that matter fix its value.\<close>

lemma rel_children_decide:
  assumes m: "printed_model S s F \<sigma>" and F: "bitwise_ok F" and w: "wsorted \<sigma>" "wsorted \<rho>"
    and ok: "node_ok (Node p st ts)" and so: "sorted_term F (Node p st ts)"
  shows "\<exists>cs. rel_children S s p ts = Inr cs
    \<and> ((\<forall>c \<in> set cs. eval F \<rho> c = eval F \<sigma> c) \<longrightarrow> eval F \<rho> (Node p st ts) = eval F \<sigma> (Node p st ts))"
proof -
  note tests = model_tests [OF m]
  have val: "\<forall>t. is_value (s_get_value S s t)" using tests(1) by blast
  have car: "eval F \<tau> c \<in> carrier (get_sort c)" if "c \<in> set ts" "wsorted \<tau>" for c \<tau>
  proof -
    have "c \<in> subterms (Node p st ts)" using that(1) by (auto intro: bexI [of _ c])
    then show ?thesis using so that(2) by (simp only: sorted_term_def)
  qed
  consider "prim_op p = Ite" | "prim_op p \<in> {Implies, And, Or}" | "prim_op p \<in> {BVAnd, BVNand, BVMul}"
    | "prim_op p \<in> {BVOr, BVNor}" | "prim_op p \<notin> {Ite, Implies, And, Or, BVAnd, BVNand, BVMul, BVOr, BVNor}" by blast
  then show ?thesis
  proof cases
    case 1
    with ok have l: "length ts = 3" "get_sort (hd ts) = BOOL" by simp_all
    then obtain c a b where ts: "ts = [c, a, b]" by (auto simp: length_Suc_conv eval_nat_numeral)
    have c: "true_here S s c = Inr (holds F \<sigma> c)" using tests(2) [of c] car [of c] w(1) l(2) ts by simp
    have "sem_op F p [u, v, x] = (if is_tt u then v else x)" for u v x using 1 by (simp add: sem_op_def)
    with 1 ts c val show ?thesis by (simp add: rel_children_def)
  next
    case 2
    with ok have l: "length ts = 2" "list_all (\<lambda>t. get_sort t = BOOL) ts" by (auto split: if_splits)
    then obtain a b where ts: "ts = [a, b]" by (auto simp: length_Suc_conv eval_nat_numeral)
    have ca: "eval F \<tau> a \<in> carrier BOOL" "eval F \<tau> b \<in> carrier BOOL" if "wsorted \<tau>" for \<tau>
      using car [of a \<tau>] car [of b \<tau>] l(2) ts that by simp_all
    have sb: "get_sort a = BOOL" "get_sort b = BOOL" using l(2) ts by simp_all
    note ta = tests(2,3) [OF sb(1) ca(1) [OF w(1)]] and tb = tests(2,3) [OF sb(2) ca(2) [OF w(1)]]
    from 2 consider "prim_op p = Implies" | "prim_op p = And" | "prim_op p = Or" by blast
    then show ?thesis
    proof cases
      case 1
      then have "rel_children S s p ts = deciding S s (false_here S s) (true_here S s) [a, b]" by (simp add: rel_children_def ts)
      with deciding_eq [where p = "false_here S s" and q = "true_here S s", OF val ta(2) tb(1)]
      show ?thesis using 1 by (auto simp: ts sem_op_def)
    next
      case 2
      then have "rel_children S s p ts = deciding S s (false_here S s) (false_here S s) [a, b]" by (simp add: rel_children_def ts)
      with deciding_eq [where p = "false_here S s" and q = "false_here S s", OF val ta(2) tb(2)]
      show ?thesis using 2 by (auto simp: ts sem_op_def)
    next
      case 3
      then have "rel_children S s p ts = deciding S s (true_here S s) (true_here S s) [a, b]" by (simp add: rel_children_def ts)
      with deciding_eq [where p = "true_here S s" and q = "true_here S s", OF val ta(1) tb(1)]
      show ?thesis using 3 by (auto simp: ts sem_op_def)
    qed
  next
    case 3
    have pp: "p = op0 (prim_op p)" "two_bits ts" using 3 ok by (auto split: if_splits)
    then obtain a b k where ts: "ts = [a, b]" and k: "get_sort a = BV k" "get_sort b = BV k" "0 < k" "k < 2 ^ 32"
      by (auto simp: two_bits_def split: list.splits smt_sort.splits)
    have ca: "\<exists>n. eval F \<tau> a = BVVal k n \<and> n < 2 ^ k" "\<exists>n. eval F \<tau> b = BVVal k n \<and> n < 2 ^ k" if "wsorted \<tau>" for \<tau>
      using car [of a \<tau>] car [of b \<tau>] k(1,2) ts that by auto
    note ta = tests(4) [OF k(1,3,4)] and tb = tests(4) [OF k(2,3,4)]
    have rc: "rel_children S s p ts = Inr (if eval F \<sigma> a = BVVal k 0 then [a] else if eval F \<sigma> b = BVVal k 0 then [b] else [a, b])"
      using 3 deciding_eq [where p = "zero_here S s" and q = "zero_here S s", OF val ta tb] car [of a \<sigma>] car [of b \<sigma>] w(1) k(1,2) ts
      by (auto simp: rel_children_def)
    have ev: "eval F \<tau> (Node p st ts) = F p [eval F \<tau> a, eval F \<tau> b]" for \<tau>
    proof -
      have "core_sem (prim_op p) vs = None" for vs using 3 by auto
      then show ?thesis by (simp add: ts sem_op_def)
    qed
    have z: "F p [BVVal k 0, BVVal k n] = F p [BVVal k 0, BVVal k m]" "F p [BVVal k n, BVVal k 0] = F p [BVVal k m, BVVal k 0]"
      if "n < 2 ^ k" "m < 2 ^ k" for n m
      using bitwise_zero [OF F 3 that] pp(1) by simp_all
    obtain na nb ma mb where n: "eval F \<sigma> a = BVVal k na" "na < 2 ^ k" "eval F \<sigma> b = BVVal k nb" "nb < 2 ^ k"
      "eval F \<rho> a = BVVal k ma" "ma < 2 ^ k" "eval F \<rho> b = BVVal k mb" "mb < 2 ^ k"
      using ca [OF w(1)] ca [OF w(2)] by blast
    show ?thesis unfolding rc ev by (rule exI, rule conjI [OF refl]) (use n z(1) [OF n(4,8)] z(2) [OF n(2,6)] in \<open>simp split: if_split\<close>)
  next
    case 4
    have pp: "p = op0 (prim_op p)" "two_bits ts" using 4 ok by (auto split: if_splits)
    then obtain a b k where ts: "ts = [a, b]" and k: "get_sort a = BV k" "get_sort b = BV k" "0 < k" "k < 2 ^ 32"
      by (auto simp: two_bits_def split: list.splits smt_sort.splits)
    have ca: "\<exists>n. eval F \<tau> a = BVVal k n \<and> n < 2 ^ k" "\<exists>n. eval F \<tau> b = BVVal k n \<and> n < 2 ^ k" if "wsorted \<tau>" for \<tau>
      using car [of a \<tau>] car [of b \<tau>] k(1,2) ts that by auto
    let ?o = "BVVal k (2 ^ k - 1)"
    note ta = tests(5) [OF k(1,3,4)] and tb = tests(5) [OF k(2,3,4)]
    have rc: "rel_children S s p ts = Inr (if eval F \<sigma> a = ?o then [a] else if eval F \<sigma> b = ?o then [b] else [a, b])"
      using 4 deciding_eq [where p = "ones_here S s" and q = "ones_here S s", OF val ta tb] car [of a \<sigma>] car [of b \<sigma>] w(1) k(1,2) ts
      by (auto simp: rel_children_def)
    have ev: "eval F \<tau> (Node p st ts) = F p [eval F \<tau> a, eval F \<tau> b]" for \<tau>
    proof -
      have "core_sem (prim_op p) vs = None" for vs using 4 by auto
      then show ?thesis by (simp add: ts sem_op_def)
    qed
    have z: "F p [?o, BVVal k n] = F p [?o, BVVal k m]" "F p [BVVal k n, ?o] = F p [BVVal k m, ?o]"
      if "n < 2 ^ k" "m < 2 ^ k" for n m
      using bitwise_ones [OF F 4 that] pp(1) by simp_all
    obtain na nb ma mb where n: "eval F \<sigma> a = BVVal k na" "na < 2 ^ k" "eval F \<sigma> b = BVVal k nb" "nb < 2 ^ k"
      "eval F \<rho> a = BVVal k ma" "ma < 2 ^ k" "eval F \<rho> b = BVVal k mb" "mb < 2 ^ k"
      using ca [OF w(1)] ca [OF w(2)] by blast
    show ?thesis unfolding rc ev by (rule exI, rule conjI [OF refl]) (use n z(1) [OF n(4,8)] z(2) [OF n(2,6)] in \<open>simp split: if_split\<close>)
  next
    case 5
    then have "rel_children S s p ts = Inr ts" by (simp add: rel_children_def)
    moreover have "eval F \<rho> (Node p st ts) = eval F \<sigma> (Node p st ts)" if "\<forall>c \<in> set ts. eval F \<rho> c = eval F \<sigma> c"
      using that by (simp cong: map_cong)
    ultimately show ?thesis by blast
  qed
qed

lemma walked_decides:
  assumes m: "printed_model S s F \<sigma>" and F: "bitwise_ok F" and w: "wsorted \<sigma>" "wsorted \<rho>"
    and ok: "walked_ok S s [] walked vars" and vars: "\<forall>v \<in> set vars. eval F \<rho> v = eval F \<sigma> v"
    and funs: "\<forall>x. is_fun_sort (snd x) \<longrightarrow> \<rho> x = \<sigma> x"
  shows "t \<in> set walked \<Longrightarrow> \<forall>u \<in> subterms t. node_ok u \<Longrightarrow> sorted_term F t \<Longrightarrow> eval F \<rho> t = eval F \<sigma> t"
proof (induction t)
  case (Sym n st)
  show ?case
  proof (cases "is_fun_sort st")
    case True
    with funs show ?thesis by simp
  next
    case False
    with Sym ok have "Sym n st \<in> set vars" by (auto simp: walked_ok_def)
    with vars show ?thesis by blast
  qed
next
  case (ConstArr u st)
  then have "syms u = {}" by auto
  then have "eval F \<rho> u = eval F \<sigma> u" by (intro eval_cong) auto
  then show ?case by simp
next
  case (Node p st ts)
  have n: "node_ok (Node p st ts)" using Node.prems(2) subterms_refl by blast
  from rel_children_decide [OF m F w n Node.prems(3)] obtain cs where cs: "rel_children S s p ts = Inr cs"
    and dec: "(\<forall>c \<in> set cs. eval F \<rho> c = eval F \<sigma> c) \<longrightarrow> eval F \<rho> (Node p st ts) = eval F \<sigma> (Node p st ts)" by blast
  have "set cs \<subseteq> set walked" using ok Node.prems(1) cs by (fastforce simp: walked_ok_def)
  moreover have sub: "set cs \<subseteq> set ts" by (rule rel_children_subset [OF cs])
  moreover have "\<forall>u \<in> subterms c. node_ok u" "sorted_term F c" if "c \<in> set ts" for c
  proof -
    have "subterms c \<subseteq> subterms (Node p st ts)" using that by auto
    then show "\<forall>u \<in> subterms c. node_ok u" "sorted_term F c"
      using Node.prems(2,3) unfolding sorted_term_def by blast+
  qed
  ultimately have "\<forall>c \<in> set cs. eval F \<rho> c = eval F \<sigma> c" using Node.IH by blast
  with dec show ?case by blast
qed simp_all

lemma rel_children_total:
  assumes m: "printed_model S s F \<sigma>" and F: "bitwise_ok F" and w: "wsorted \<sigma>"
    and ok: "\<forall>u \<in> subterms t. node_ok u" and so: "sorted_term F t"
  shows "\<forall>u \<in> subterms t. \<forall>p. get_op u = Some p \<longrightarrow> (\<exists>cs. rel_children S s p (children u) = Inr cs)"
proof (intro ballI allI impI)
  fix u p assume u: "u \<in> subterms t" "get_op u = Some p"
  then obtain st ts where n: "u = Node p st ts" by (cases u) auto
  have "subterms u \<subseteq> subterms t" using u(1) by (induction t) auto
  then have "sorted_term F u" using so unfolding sorted_term_def by blast
  with rel_children_decide [OF m F w w, of p st ts] ok u(1) n
  show "\<exists>cs. rel_children S s p (children u) = Inr cs" by auto
qed

text \<open>The cube means that the variables have the values of the model.\<close>

lemma conjoin_holds:
  assumes "smt_terms (builder S) F"
  shows "conjoin S (e # es) \<noteq> None" and "holds F \<rho> (the (conjoin S (e # es))) \<longleftrightarrow> all_hold F \<rho> (e # es)"
proof -
  let ?f = "\<lambda>eq conj. Some (case conj of None \<Rightarrow> eq | Some c \<Rightarrow> mk_term (builder S) (op0 And) [c, eq])"
  have "\<exists>c'. fold ?f es (Some c) = Some c' \<and> (holds F \<rho> c' \<longleftrightarrow> holds F \<rho> c \<and> all_hold F \<rho> es)" for c
  proof (induction es arbitrary: c)
    case (Cons x es)
    from Cons [of "mk_term (builder S) (op0 And) [c, x]"] show ?case
      by (simp add: smt_terms.holds_And [OF assms])
  qed simp
  from this [of e] show "conjoin S (e # es) \<noteq> None" "holds F \<rho> (the (conjoin S (e # es))) \<longleftrightarrow> all_hold F \<rho> (e # es)"
    by (auto simp: conjoin_def)
qed

subsection \<open>A solver that prints its values\<close>

fun print_term :: "tm \<Rightarrow> string" where
  "print_term (Val (BVVal w n) st) = ''(_ bv'' @ nat_str n @ '' '' @ nat_str w @ '')''"
| "print_term t = plain_str t"

definition printing_solver :: "theory_ops \<Rightarrow> decider \<Rightarrow> enum_state smt_solver" where
  "printing_solver F D = (enum_solver F D)\<lparr>builder := plain_builder\<lparr>term_str := print_term\<rparr>\<rparr>"

definition bitwise_sem :: theory_ops where
  "bitwise_sem p vs = (case vs of
       [BVVal w a, BVVal w' b] \<Rightarrow> BVVal w
         (if p = op0 BVAnd then a AND b else if p = op0 BVNand then 2 ^ w - 1 - (a AND b)
          else if p = op0 BVOr then a OR b else if p = op0 BVNor then 2 ^ w - 1 - (a OR b)
          else if p = op0 BVMul then a * b mod 2 ^ w else 0)
     | _ \<Rightarrow> BoolVal False)"

lemma bitwise_sem_ok: "bitwise_ok bitwise_sem"
  by (simp add: bitwise_ok_def bitwise_sem_def)

lemma printing_terms: "smt_terms (builder (printing_solver F D)) F"
proof -
  have "term_str (plain_builder\<lparr>term_str := print_term\<rparr>) (Sym n st) = n" for n st by simp
  then show ?thesis using plain.smt_terms_axioms [of F]
    unfolding smt_terms_def printing_solver_def by simp
qed

interpretation printing: smt_terms "builder (printing_solver F D)" F for F D
  by (rule printing_terms)

lemma printing_model: "printed_model (printing_solver F D) s F (e_model s)"
  by (simp add: printed_model_def printing_solver_def reads_as_def)

lemma and_bound: "a < 2 ^ w \<Longrightarrow> b < 2 ^ w \<Longrightarrow> a AND b < (2 :: nat) ^ w"
  by (metis take_bit_and take_bit_nat_eq_self take_bit_nat_less_exp)

text \<open>C13: In a model of the solver the walk of \<open>PartialModelGen\<close> ends without a failed assertion,
  and the cube it returns holds in the model and decides the term: every assignment that satisfies the
  cube, and interprets the functions as the model does, gives the term the value it has in the model.\<close>

theorem partial_model_decides:
  assumes "smt_terms (builder S) F" and "bitwise_ok F" and "printed_model S s F \<sigma>" and "wsorted \<sigma>"
    and "\<forall>u \<in> subterms t. node_ok u" and "sorted_term F t"
  shows "\<exists>f. get_partial_model S s t = Inr f \<and> \<not> if_disjunction f \<and> all_hold F \<sigma> (if_children f)
    \<and> (\<forall>\<rho>. if_children f \<noteq> [] \<longrightarrow> (holds F \<rho> (the (if_term f)) \<longleftrightarrow> all_hold F \<rho> (if_children f)))
    \<and> (\<forall>\<rho>. wsorted \<rho> \<and> (\<forall>x. is_fun_sort (snd x) \<longrightarrow> \<rho> x = \<sigma> x) \<and> all_hold F \<rho> (if_children f)
        \<longrightarrow> eval F \<rho> t = eval F \<sigma> t)"
proof -
  have "\<forall>t' \<in> set [t]. \<forall>u \<in> subterms t'. \<forall>p. get_op u = Some p \<longrightarrow> (\<exists>cs. rel_children S s p (children u) = Inr cs)"
    using rel_children_total [OF assms(3,2,4,5,6)] by simp
  from dfs_walk_returns [OF this] obtain walked vars where run: "dfs_walk S s [t] [] [] = Inr (walked, vars)" by blast
  have "walked_ok S s [t] [] []" by (simp add: walked_ok_def)
  from dfs_walk_ok [OF run this] have ok: "walked_ok S s [] walked vars" "t \<in> set walked"
    "\<forall>v \<in> set vars. is_symbolic_const v" by auto
  let ?eqs = "map (equality S s) vars"
  have f: "get_partial_model S s t = Inr (mk_formula (builder S) (conjoin S ?eqs) ?eqs False)"
    using run by (simp add: get_partial_model_def get_var_list_def Let_def)
  have val: "s_get_value S s v = Val (eval F \<sigma> v) (get_sort v)" for v using assms(3) by (simp add: printed_model_def)
  have eq: "holds F \<rho> (equality S s v) \<longleftrightarrow> eval F \<rho> v = eval F \<sigma> v" for \<rho> v
    by (simp add: equality_def val smt_terms.holds_Equal [OF assms(1)])
  have "eval F \<rho> t = eval F \<sigma> t"
    if "wsorted \<rho>" "\<forall>x. is_fun_sort (snd x) \<longrightarrow> \<rho> x = \<sigma> x" "all_hold F \<rho> ?eqs" for \<rho>
    by (rule walked_decides [OF assms(3,2,4) that(1) ok(1) _ that(2) ok(2) assms(5,6)]) (use that(3) eq in simp)
  moreover have "holds F \<rho> (the (conjoin S ?eqs)) \<longleftrightarrow> all_hold F \<rho> ?eqs" if "?eqs \<noteq> []" for \<rho>
    using conjoin_holds(2) [OF assms(1)] that by (cases ?eqs) simp_all
  moreover have "all_hold F \<sigma> ?eqs" using eq by simp
  ultimately show ?thesis unfolding f by (intro exI conjI) auto
qed

text \<open>The second argument of the conjunction is left out where the first is zero.\<close>

definition cone_term :: tm where
  "cone_term = Node (op0 Equal) BOOL
     [Node (op0 BVAnd) (BV 4) [Sym ''a'' (BV 4), Sym ''b'' (BV 4)], Sym ''c'' (BV 4)]"

theorem partial_model_decides_witness:
  "\<exists>f. get_partial_model (printing_solver bitwise_sem no_decider) enum_init cone_term = Inr f
    \<and> length (if_children f) = 2
    \<and> (\<forall>\<rho>. wsorted \<rho> \<and> (\<forall>x. is_fun_sort (snd x) \<longrightarrow> \<rho> x = row_env [] x) \<and> all_hold bitwise_sem \<rho> (if_children f)
        \<longrightarrow> eval bitwise_sem \<rho> cone_term = BoolVal True)"
proof -
  let ?S = "printing_solver bitwise_sem no_decider"
  have w: "wsorted (row_env [])" by (rule wsorted_row_env) simp
  have m: "printed_model ?S enum_init bitwise_sem (row_env [])"
    using printing_model [of bitwise_sem no_decider enum_init] by (simp add: enum_init_def)
  have so: "sorted_term bitwise_sem cone_term"
    unfolding sorted_term_def
  proof (intro allI impI)
    fix \<rho> u assume r: "wsorted \<rho>" and u: "u \<in> subterms cone_term"
    have v: "\<exists>k. \<rho> (n, BV 4) = BVVal 4 k \<and> k < 2 ^ 4" for n
    proof -
      have "\<rho> (n, BV 4) \<in> carrier (BV 4)" using r unfolding wsorted_def by blast
      then show ?thesis by auto
    qed
    from v [of "''a''"] v [of "''b''"] obtain i j where ij: "\<rho> (''a'', BV 4) = BVVal 4 i" "i < 2 ^ 4"
      "\<rho> (''b'', BV 4) = BVVal 4 j" "j < 2 ^ 4" by blast
    have e: "eval bitwise_sem \<rho> (Node (op0 BVAnd) (BV 4) [Sym ''a'' (BV 4), Sym ''b'' (BV 4)]) = BVVal 4 (i AND j)"
      by (simp add: sem_op_def ij bitwise_sem_def)
    have "eval bitwise_sem \<rho> cone_term \<in> carrier BOOL" by (simp add: cone_term_def sem_op_def)
    with u v e and_bound [OF ij(2,4)] show "eval bitwise_sem \<rho> u \<in> carrier (get_sort u)"
      by (auto simp: cone_term_def)
  qed
  have ok: "\<forall>u \<in> subterms cone_term. node_ok u" by (auto simp: cone_term_def two_bits_def)
  have len: "case get_partial_model ?S enum_init cone_term of Inl e \<Rightarrow> False | Inr f \<Rightarrow> length (if_children f) = 2"
    by code_simp
  have one: "eval bitwise_sem (row_env []) cone_term = BoolVal True" by code_simp
  from partial_model_decides [OF printing_terms bitwise_sem_ok m w ok so, unfolded one] obtain f where
    f: "get_partial_model ?S enum_init cone_term = Inr f"
    "\<forall>\<rho>. wsorted \<rho> \<and> (\<forall>x. is_fun_sort (snd x) \<longrightarrow> \<rho> x = row_env [] x) \<and> all_hold bitwise_sem \<rho> (if_children f)
        \<longrightarrow> eval bitwise_sem \<rho> cone_term = BoolVal True" by blast
  with len show ?thesis by simp
qed

end
