(* ===== verification/Ts_Operations.thy ===== *)
theory Ts_Operations
  imports Ts_Invariant
begin

section \<open>All operations that build and change a system\<close>

text \<open>
  Besides the calls of \<open>ts_call\<close>, which front ends and most modifiers use, the classes have
  operations with which variables of an existing solver become variables of a system
  (\<open>add_statevar\<close>, \<open>add_inputvar\<close>), that replace the whole behaviour of a relational system
  (\<open>set_behavior\<close>), promote the inputs of a term or take updates away (\<open>drop_state_updates\<close>).
  \<open>op_ok\<close> states what the code leaves to the caller: the arguments of \<open>add_statevar\<close> and
  \<open>add_inputvar\<close> are symbols of the solver, a new next-state variable is not in use and has the
  sort of its state variable, and the initial states are over state variables, which
  \<open>set_behavior\<close>, unlike \<open>set_init\<close>, does not check.

  \<open>replace_terms\<close> and \<open>rebuild_trans_based_on_coi\<close> are not in the language: they leave variables
  in \<open>next_map_\<close> that are not state variables any more (the code says that the reduction to the
  cone of influence is to take care of the variables).
\<close>

datatype ts_op =
    Call ts_call
  | SetBehavior tm tm
  | AddStatevar tm tm
  | AddInputvar tm
  | PromoteInputvarsIn tm
  | DropStateUpdates "tm list"

fun do_op :: "smt_builder \<Rightarrow> ts_op \<Rightarrow> ts \<Rightarrow> ts result" where
  "do_op B (Call c) ts = do_call B c ts"
| "do_op B (SetBehavior i t) ts = set_behavior B i t ts"
| "do_op B (AddStatevar cv nv) ts = add_statevar B cv nv ts"
| "do_op B (AddInputvar v) ts = add_inputvar B v ts"
| "do_op B (PromoteInputvarsIn t) ts = promote_inputvars_in B t ts"
| "do_op B (DropStateUpdates svs) ts = drop_state_updates B svs ts"

definition solver_symbol :: "tm \<Rightarrow> ts \<Rightarrow> bool" where
  "solver_symbol v ts \<longleftrightarrow> is_symbolic_const v \<and> fst (sym_of v) \<in> set (ts_declared ts)"

fun op_ok :: "ts_op \<Rightarrow> ts \<Rightarrow> bool" where
  "op_ok (Call c) ts = call_ok c ts"
| "op_ok (SetBehavior i t) ts = (\<not> ts_functional ts \<and> only_curr ts i)"
| "op_ok (AddStatevar cv nv) ts = (solver_symbol cv ts \<and> solver_symbol nv ts \<and> cv \<noteq> nv \<and> get_sort nv = get_sort cv
     \<and> nv \<notin> set (ts_statevars ts) \<and> nv \<notin> set (ts_inputvars ts) \<and> nv \<notin> set (ts_next_statevars ts))"
| "op_ok (AddInputvar v) ts = solver_symbol v ts"
| "op_ok _ ts = True"

fun run_ops :: "smt_builder \<Rightarrow> ts_op list \<Rightarrow> ts \<Rightarrow> ts result" where
  "run_ops B [] ts = Inr ts"
| "run_ops B (c # cs) ts =
     guardE (op_ok c ts) (PonoException ''operation not allowed'') (bindE (do_op B c ts) (run_ops B cs))"

text \<open>The operations that make a system less determined and do not reset its flag.\<close>

fun resets_flag :: "ts_op \<Rightarrow> bool" where
  "resets_flag (AddStatevar cv nv) = False"
| "resets_flag (DropStateUpdates svs) = (svs = [])"
| "resets_flag _ = True"

subsection \<open>Every operation keeps the invariant\<close>

lemma do_call_keeps_wf:
  assumes B: "smt_terms B F" and wf: "ts_wf ts" and ok: "call_ok c ts" and c: "do_call B c ts = Inr ts'"
  shows "ts_wf ts'"
  using c ok
proof (cases c)
  case (MakeInputvar n s)
  with c ok show ?thesis using make_inputvar_wf [OF wf] by (force simp: bindE_Inr_iff)
next
  case (MakeStatevar n s)
  with c ok show ?thesis using make_statevar_wf [OF wf] by (force simp: bindE_Inr_iff)
qed (auto dest: set_init_wf [OF wf] constrain_init_wf [OF B wf] assign_next_wf [OF B wf]
    add_constraint_wf [OF B wf] add_invar_add_constraint constrain_inputs_wf [OF B wf]
    name_term_wf [OF wf] promote_inputvar_wf [OF B wf] set_trans_wf [OF wf]
    constrain_trans_wf [OF B wf])

lemma set_behavior_wf:
  assumes "ts_wf ts" and "\<not> ts_functional ts" and "only_curr ts i" and "set_behavior B i t ts = Inr ts'"
  shows "ts_wf ts' \<and> (det_ok ts \<longrightarrow> det_ok ts')"
proof -
  let ?ts = "ts\<lparr>ts_init := i\<rparr>"
  have "ts_wf ?ts" using assms(1,3) by (simp add: ts_wf_def only_curr_iff forms_ok_init)
  moreover have "set_trans B t ?ts = Inr ts'" using assms(4) by (simp add: set_behavior_def)
  ultimately show ?thesis using set_trans_wf [of ?ts B t ts'] assms(2) by simp
qed

lemma add_statevar_flag:
  "add_statevar B cv nv ts = Inr ts' \<Longrightarrow>
    add_statevar B cv nv (ts\<lparr>ts_deterministic := d\<rparr>) = Inr (ts'\<lparr>ts_deterministic := d\<rparr>)"
  by (auto simp: add_statevar_def name_term_def Let_def bindE_Inr_iff)

lemma add_statevar_keeps_wf:
  assumes wf: "ts_wf ts" and ok: "op_ok (AddStatevar cv nv) ts" and a: "add_statevar B cv nv ts = Inr ts'"
  shows "ts_wf ts'"
proof -
  let ?ts = "ts\<lparr>ts_deterministic := False\<rparr>"
  have "ts_wf ?ts" using wf by (simp add: ts_wf_def)
  from add_statevar_wf [OF this _ _ _ _ _ _ _ _ add_statevar_flag [OF a, of False]] ok
  have "ts_wf (ts'\<lparr>ts_deterministic := False\<rparr>)" by (auto simp: solver_symbol_def ts_vars_def)
  then show ?thesis by (simp add: ts_wf_def)
qed

lemma promote_inputvars_in_wf:
  assumes B: "smt_terms B F" and wf: "ts_wf ts" and d: "det_ok ts" and p: "promote_inputvars_in B t ts = Inr ts'"
  shows "ts_wf ts' \<and> det_ok ts'"
  by (rule foldE_invariant [OF p [unfolded promote_inputvars_in_def], where P = "\<lambda>ts. ts_wf ts \<and> det_ok ts"])
    (use wf d promote_inputvar_wf [OF B] in \<open>auto split: if_splits\<close>)

lemma promote_inputvars_in_keeps_wf:
  assumes B: "smt_terms B F" and wf: "ts_wf ts" and p: "promote_inputvars_in B t ts = Inr ts'"
  shows "ts_wf ts'"
  by (rule foldE_invariant [OF p [unfolded promote_inputvars_in_def], where P = ts_wf])
    (use wf promote_inputvar_wf [OF B] in \<open>auto split: if_splits\<close>)

text \<open>The transition relation that is rebuilt from the updates mentions variables of the system only.\<close>

lemma update_conjuncts_covered:
  assumes B: "smt_terms B F" and wf: "ts_wf ts" and ups: "set ups \<subseteq> set (ts_state_updates ts)"
    and f: "foldE (update_conjunct B ts) ups tr = Inr tr'" and tr: "covered tr (ts_vars ts)"
  shows "covered tr' (ts_vars ts)"
  using f tr ups
proof (induction ups arbitrary: tr)
  case (Cons e ups)
  obtain v u where e: "e = (v, u)" by (cases e)
  from Cons.prems(1) obtain tr1 where u1: "update_conjunct B ts e tr = Inr tr1"
    and r1: "foldE (update_conjunct B ts) ups tr1 = Inr tr'"
    by (auto simp: bindE_Inr_iff)
  then obtain nv where nv: "map_of (ts_next_map ts) v = Some nv"
    and r: "foldE (update_conjunct B ts) ups (mk_term B (op0 And) [tr, mk_term B (op0 Equal) [nv, u]]) = Inr tr'"
    by (auto simp: update_conjunct_def bindE_Inr_iff e)
  have n: "nv \<in> set (ts_next_statevars ts)" using next_symbol [OF wf nv] by blast
  then have "nv \<in> ts_vars ts" by (simp add: ts_vars_def)
  then have "covered nv (ts_vars ts)" using wf_symbolic [OF wf, of nv] by (cases nv) (auto simp: covered_def)
  moreover have "covered u (ts_vars ts)"
    using Cons.prems(3) wf_parts(3) [OF wf] by (intro covered_vars(2)) (auto simp: forms_ok_def e)
  ultimately have "covered (mk_term B (op0 And) [tr, mk_term B (op0 Equal) [nv, u]]) (ts_vars ts)"
    using Cons.prems(2) by (intro covered_mk2 [OF B])
  with Cons.IH [OF r] Cons.prems(3) show ?case by simp
qed simp

lemma drop_one_wf:
  assumes "ts_wf ts" and "is_curr_var ts sv"
  shows "ts_wf (ts\<lparr>ts_state_updates := AList.delete sv (ts_state_updates ts),
    ts_no_state_updates := List.insert sv (ts_no_state_updates ts)\<rparr>)"
proof -
  let ?ts = "ts\<lparr>ts_state_updates := AList.delete sv (ts_state_updates ts),
    ts_no_state_updates := List.insert sv (ts_no_state_updates ts)\<rparr>"
  note wfp = wf_parts [OF assms(1)]
  have sub: "set (AList.delete sv (ts_state_updates ts)) \<subseteq> set (ts_state_updates ts)"
    by (auto simp: AList.delete_eq)
  have dom: "fst ` set (AList.delete sv (ts_state_updates ts)) = fst ` set (ts_state_updates ts) - {sv}"
    by (force simp: AList.delete_eq)
  have "forms_ok ?ts" using wfp(3) sub by (auto simp: forms_ok_def ts_vars_def)
  moreover have "updates_ok ?ts"
    using wfp(4) assms(2) dom AList.distinct_delete [of "ts_state_updates ts" sv]
    by (auto simp: updates_ok_def is_curr_var_def)
  ultimately show ?thesis using wfp by (simp add: ts_wf_def)
qed

lemma drop_state_updates_wf:
  assumes B: "smt_terms B F" and wf: "ts_wf ts" and d: "drop_state_updates B svs ts = Inr ts'"
  shows "ts_wf ts'"
proof -
  from d obtain ts1 tr where s: "foldE (\<lambda>sv ts. guardE (is_curr_var ts sv)
         (PonoException ''Got non-state var in drop_state_updates'')
         (Inr (ts\<lparr>ts_state_updates := AList.delete sv (ts_state_updates ts),
            ts_no_state_updates := List.insert sv (ts_no_state_updates ts)\<rparr>))) svs ts = Inr ts1"
    and tr: "foldE (update_conjunct B ts1) (ts_state_updates ts1) tm_true = Inr tr"
    and ts': "ts' = ts1\<lparr>ts_trans := tr\<rparr>"
    by (auto simp: drop_state_updates_def bindE_Inr_iff)
  have wf1: "ts_wf ts1" by (rule foldE_invariant [OF s, where P = ts_wf]) (use wf drop_one_wf in auto)
  have "covered tr (ts_vars ts1)" by (rule update_conjuncts_covered [OF B wf1 subset_refl tr]) simp
  with wf1 show ?thesis by (simp add: ts' ts_wf_def forms_ok_trans)
qed

lemma do_op_wf:
  assumes B: "smt_terms B F" and wf: "ts_wf ts" and ok: "op_ok c ts" and c: "do_op B c ts = Inr ts'"
  shows "ts_wf ts'" and "resets_flag c \<Longrightarrow> det_ok ts \<Longrightarrow> det_ok ts'"
proof -
  have "ts_wf ts' \<and> (resets_flag c \<and> det_ok ts \<longrightarrow> det_ok ts')"
  proof (cases c)
    case (Call k)
    with c ok have k: "do_call B k ts = Inr ts'" "call_ok k ts" by simp_all
    show ?thesis using do_call_keeps_wf [OF B wf k(2,1)] do_call_wf [OF B wf k(2) _ k(1)] by blast
  next
    case (SetBehavior i t)
    with ok have "\<not> ts_functional ts" "only_curr ts i" by simp_all
    from set_behavior_wf [OF wf this, of B t ts'] c SetBehavior show ?thesis by simp
  next
    case (AddStatevar cv nv)
    with c ok add_statevar_keeps_wf [OF wf] show ?thesis by simp
  next
    case (AddInputvar v)
    with c ok have v: "is_symbolic_const v" "fst (sym_of v) \<in> set (ts_declared ts)" "add_inputvar B v ts = Inr ts'"
      by (simp_all add: solver_symbol_def)
    from add_inputvar_wf [OF wf v] show ?thesis by simp
  next
    case (PromoteInputvarsIn t)
    with c promote_inputvars_in_wf [OF B wf] promote_inputvars_in_keeps_wf [OF B wf] show ?thesis by simp
  next
    case (DropStateUpdates svs)
    have "det_ok ts'" if "svs = []" "det_ok ts"
      using that c DropStateUpdates by (auto simp: drop_state_updates_def bindE_Inr_iff)
    with c DropStateUpdates drop_state_updates_wf [OF B wf] show ?thesis by simp
  qed
  then show "ts_wf ts'" "resets_flag c \<Longrightarrow> det_ok ts \<Longrightarrow> det_ok ts'" by simp_all
qed

lemma run_ops_wf:
  assumes B: "smt_terms B F"
  shows "ts_wf ts \<Longrightarrow> run_ops B cs ts = Inr ts' \<Longrightarrow>
    ts_wf ts' \<and> (list_all resets_flag cs \<and> det_ok ts \<longrightarrow> det_ok ts')"
proof (induction cs arbitrary: ts)
  case (Cons c cs)
  from Cons.prems(2) obtain u where u: "op_ok c ts" "do_op B c ts = Inr u" "run_ops B cs u = Inr ts'"
    by (auto simp: bindE_Inr_iff)
  note d = do_op_wf [OF B Cons.prems(1) u(1,2)]
  from Cons.IH [OF d(1) u(3)] d(2) show ?case by simp
qed simp

subsection \<open>Properties\<close>

text \<open>C12: Whatever sequence of operations builds a system from an empty one without throwing,
  the system is well formed (variables declared and disjoint, \<open>next_map_\<close> and \<open>curr_map_\<close>
  inverse to each other on the state variables, \<open>init_\<close> over state variables only,
  \<open>trans_\<close>, updates and constraints over the system's variables, every state variable of a
  functional system either updated or listed as not updated).  When it is built without
  \<open>drop_state_updates\<close> and \<open>add_statevar\<close>, a system that says it is deterministic is functional,
  has no constraint and an update for every state variable.  The operations are those of
  \<open>ts_op\<close>, under the conditions of \<open>op_ok\<close>; \<open>replace_terms\<close> and
  \<open>rebuild_trans_based_on_coi\<close> are not among them.\<close>

theorem operations_keep_wf:
  assumes "smt_terms B F" and "ts0 \<in> {empty_rts tab, empty_fts tab}"
    and "run_ops B ops ts0 = Inr ts"
  shows "ts_wf ts \<and> (list_all resets_flag ops \<longrightarrow> det_ok ts)"
proof -
  have "ts_wf ts0" using assms(2) ts_wf_empty_fts ts_wf_empty_rts by blast
  moreover have "det_ok ts0" using assms(2) by (auto simp: det_ok_def empty_rts_def empty_fts_def empty_ts_def)
  ultimately show ?thesis using run_ops_wf [OF assms(1) _ assms(3)] by blast
qed

theorem operations_keep_wf_witness:
  "\<exists>ts ts'. run_ops plain_builder (map Call demo_calls) (empty_fts []) = Inr ts \<and> ts_deterministic ts \<and> ts_wf ts \<and> det_ok ts
     \<and> run_ops plain_builder [AddInputvar (Sym ''j'' BOOL), AddStatevar (Sym ''y'' BOOL) (Sym ''z'' BOOL),
          DropStateUpdates [Sym ''y'' BOOL], SetBehavior (Sym ''y'' BOOL) (Sym ''z'' BOOL)] (empty_rts [''j'', ''y'', ''z'']) = Inr ts'
     \<and> ts_wf ts'"
proof -
  have "case run_ops plain_builder (map Call demo_calls) (empty_fts []) of Inl e \<Rightarrow> False | Inr ts \<Rightarrow> ts_deterministic ts"
    by code_simp
  then obtain ts where ts: "run_ops plain_builder (map Call demo_calls) (empty_fts []) = Inr ts" "ts_deterministic ts"
    by (auto split: sum.splits)
  have "case run_ops plain_builder [AddInputvar (Sym ''j'' BOOL), AddStatevar (Sym ''y'' BOOL) (Sym ''z'' BOOL),
      DropStateUpdates [Sym ''y'' BOOL], SetBehavior (Sym ''y'' BOOL) (Sym ''z'' BOOL)] (empty_rts [''j'', ''y'', ''z'']) of
      Inl e \<Rightarrow> False | Inr ts \<Rightarrow> True" by code_simp
  then obtain ts' where ts': "run_ops plain_builder [AddInputvar (Sym ''j'' BOOL), AddStatevar (Sym ''y'' BOOL) (Sym ''z'' BOOL),
      DropStateUpdates [Sym ''y'' BOOL], SetBehavior (Sym ''y'' BOOL) (Sym ''z'' BOOL)] (empty_rts [''j'', ''y'', ''z'']) = Inr ts'"
    by (auto split: sum.splits)
  have "list_all resets_flag (map Call demo_calls)" by (simp add: list_all_iff)
  with operations_keep_wf [OF plain.smt_terms_axioms _ ts(1), of "[]"]
    operations_keep_wf [OF plain.smt_terms_axioms _ ts', of "[''j'', ''y'', ''z'']"] ts ts'
  show ?thesis by blast
qed

text \<open>The two operations leave the flag of \<open>is_deterministic\<close> set.\<close>

lemma drop_state_updates_breaks_det:
  "case run_ops plain_builder (map Call demo_calls @ [DropStateUpdates [Sym ''x'' BOOL]]) (empty_fts []) of
     Inl e \<Rightarrow> False
   | Inr ts \<Rightarrow> ts_deterministic ts \<and> ts_state_updates ts = []"
  by code_simp

lemma add_statevar_breaks_det:
  "case run_ops plain_builder (map Call demo_calls @ [AddStatevar (Sym ''y'' BOOL) (Sym ''z'' BOOL)]) (empty_fts [''y'', ''z'']) of
     Inl e \<Rightarrow> False
   | Inr ts \<Rightarrow> ts_deterministic ts \<and> map_of (ts_state_updates ts) (Sym ''y'' BOOL) = None \<and> Sym ''y'' BOOL \<in> set (ts_statevars ts)"
  by code_simp

end
