(* ===== verification/Ic3_Base.thy ===== *)
theory Ic3_Base
  imports Ic3_Formula Kinduction
begin

section \<open>The base class of the IC3 engines (engines/ic3base)\<close>

text \<open>
  The record \<open>ic3\<close> holds the data members of \<open>IC3Base\<close>; \<open>ic_data\<close> is what a derived
  class adds.  \<open>ic3_env\<close> holds what does not change during a run: the prover's environment, the
  options, and

  \<^item> what is outside the repository: the unsat-core reducer (\<open>reduce_assump_unsatcore\<close>, \<open>None\<close>
    for a failure), the element a \<open>std::priority_queue\<close> puts on top (the standard leaves the order
    of equal goals open), \<open>is_lit\<close>, whether the solver supports \<open>reset_assertions\<close>;
  \<^item> whether the program was compiled with assertions (\<open>ie_debug\<close>): a failed assertion is then an
    exception, and without it execution goes on;
  \<^item> the virtual functions that a flavour of IC3 overrides.

  A signal handler sets \<open>g_terminate_requested\<close> once and for all.  \<open>ic_request\<close> is the number
  of its reads that still find it unset: \<open>Some 0\<close> when a request has arrived, \<open>None\<close> when none
  will.  The incremental dumps of the frames are in
  \<open>Ic3_Dump\<close>; writing them to a file is not part of the model.
\<close>

subsection \<open>State\<close>

record ic3_opts =
  io_pregen :: bool
  io_indgen :: bool
  io_gen_max_iter :: nat
  io_random_seed :: nat

definition default_ic3_opts :: ic3_opts where
  "default_ic3_opts = \<lparr>io_pregen = True, io_indgen = True, io_gen_max_iter = 2, io_random_seed = 0\<rparr>"

datatype proof_goal = ProofGoal (pg_target: ic3_formula) (pg_idx: nat) (pg_next: "proof_goal option")

datatype refine_result = REFINE_NONE | REFINE_SUCCESS | REFINE_FAIL

record ('s, 'd) ic3 = "'s prover" +
  ic_context :: nat
  ic_checks :: nat
  ic_reset_failed :: bool
  ic_cex :: "tm list"
  ic_approx :: bool
  ic_frames :: "ic3_formula list list"
  ic_frame_labels :: "tm list"
  ic_trans_label :: tm
  ic_bad_label :: tm
  ic_labels :: "(tm \<times> tm) list"
  ic_symtab :: "string list"
  ic_request :: "nat option"
  ic_data :: 'd

record ('s, 'd) ic3_env =
  ie_prover :: "'s prover_env"
  ie_opts :: ic3_opts
  ie_reduce :: "tm \<Rightarrow> tm list \<Rightarrow> nat \<Rightarrow> nat \<Rightarrow> tm list option"
  ie_top :: "proof_goal list \<Rightarrow> nat"
  ie_lit :: "tm \<Rightarrow> bool"
  ie_resets :: bool
  ie_debug :: bool
  fl_check_ts :: "exn option"
  fl_setup :: "('s, 'd) ic3 \<Rightarrow> ('s, 'd) ic3"
  fl_model :: "('s, 'd) ic3 \<Rightarrow> ic3_formula result"
  fl_valid :: "ic3_formula \<Rightarrow> bool"
  fl_pregen :: "nat \<Rightarrow> tm \<Rightarrow> ic3_formula \<Rightarrow> ('s, 'd) ic3 \<Rightarrow> ic3_formula result"
  fl_refine :: "('s, 'd) ic3 \<Rightarrow> refine_result \<times> ('s, 'd) ic3"

abbreviation ie_solver :: "('s, 'd) ic3_env \<Rightarrow> 's smt_solver" where
  "ie_solver N \<equiv> en_solver (ie_prover N)"

abbreviation ie_builder :: "('s, 'd) ic3_env \<Rightarrow> smt_builder" where
  "ie_builder N \<equiv> builder (ie_solver N)"

abbreviation ie_ts :: "('s, 'd) ic3_env \<Rightarrow> ts" where
  "ie_ts N \<equiv> en_ts (ie_prover N)"

abbreviation ie_bad :: "('s, 'd) ic3_env \<Rightarrow> tm" where
  "ie_bad N \<equiv> en_bad (ie_prover N)"

text \<open>An assertion of the program.\<close>

definition dassert :: "('s, 'd) ic3_env \<Rightarrow> bool \<Rightarrow> 'a result \<Rightarrow> 'a result" where
  "dassert N ok k = guardE (ie_debug N \<longrightarrow> ok) (UndefinedBehaviour ''assertion'') k"

definition new_ic3 :: "string list \<Rightarrow> nat option \<Rightarrow> 'd \<Rightarrow> 's \<Rightarrow> ('s, 'd) ic3" where
  "new_ic3 tab request d s = \<lparr>pr_solver = s, pr_initialized = False, pr_reached_k = -1, pr_witness = [], pr_invar = None,
     ic_context = 0, ic_checks = 0, ic_reset_failed = False, ic_cex = [], ic_approx = False, ic_frames = [],
     ic_frame_labels = [], ic_trans_label = tm_true, ic_bad_label = tm_true, ic_labels = [], ic_symtab = tab,
     ic_request = request, ic_data = d\<rparr>"

definition frontier_idx :: "('s, 'd) ic3 \<Rightarrow> nat" where
  "frontier_idx p = length (ic_frames p) - 1"

definition push_solver_context :: "('s, 'd) ic3_env \<Rightarrow> ('s, 'd) ic3 \<Rightarrow> ('s, 'd) ic3" where
  "push_solver_context N p = (on_solver (s_push (ie_solver N)) p)\<lparr>ic_context := ic_context p + 1\<rparr>"

definition pop_solver_context :: "('s, 'd) ic3_env \<Rightarrow> ('s, 'd) ic3 \<Rightarrow> ('s, 'd) ic3" where
  "pop_solver_context N p = (on_solver (s_pop (ie_solver N)) p)\<lparr>ic_context := ic_context p - 1\<rparr>"

definition ic3_assert :: "('s, 'd) ic3_env \<Rightarrow> tm list \<Rightarrow> ('s, 'd) ic3 \<Rightarrow> ('s, 'd) ic3" where
  "ic3_assert N ts = on_solver (asserts (ie_solver N) ts)"

definition ic3_check_assuming :: "('s, 'd) ic3_env \<Rightarrow> tm list \<Rightarrow> ('s, 'd) ic3 \<Rightarrow> smt_result \<times> ('s, 'd) ic3" where
  "ic3_check_assuming N as p =
     (let (r, s) = s_check_assuming (ie_solver N) as (pr_solver p)
      in (r, p\<lparr>pr_solver := s, ic_checks := ic_checks p + 1\<rparr>))"

abbreviation ic3_check :: "('s, 'd) ic3_env \<Rightarrow> ('s, 'd) ic3 \<Rightarrow> smt_result \<times> ('s, 'd) ic3" where
  "ic3_check N \<equiv> ic3_check_assuming N []"

subsection \<open>Frames\<close>

definition ic3_implies :: "('s, 'd) ic3_env \<Rightarrow> tm \<Rightarrow> tm \<Rightarrow> tm" where
  "ic3_implies N l t = mk_term (ie_builder N) (op0 Implies) [l, t]"

definition push_frame :: "('s, 'd) ic3_env \<Rightarrow> ('s, 'd) ic3 \<Rightarrow> ('s, 'd) ic3 result" where
  "push_frame N p =
     bindE (make_symbol (''__frame_label_'' @ nat_str (length (ic_frames p))) BOOL (ic_symtab p)) (\<lambda>(l, tab).
       let p1 = p\<lparr>ic_symtab := tab, ic_frame_labels := ic_frame_labels p @ [l], ic_frames := ic_frames p @ [[]]\<rparr>
       in Inr (if length (ic_frames p1) > 1
               then ic3_assert N [ic3_implies N l (smart_not (ie_builder N) (ie_bad N))] p1 else p1))"

definition constrain_frame_label :: "('s, 'd) ic3_env \<Rightarrow> nat \<Rightarrow> ic3_formula \<Rightarrow> ('s, 'd) ic3 \<Rightarrow> ('s, 'd) ic3" where
  "constrain_frame_label N i c p = ic3_assert N [ic3_implies N (ic_frame_labels p ! i) (fterm c)] p"

text \<open>A new clause removes the clauses it subsumes from the frames up to its own.\<close>

definition drop_subsumed :: "smt_builder \<Rightarrow> nat \<Rightarrow> ic3_formula \<Rightarrow> ic3_formula list list \<Rightarrow> ic3_formula list list" where
  "drop_subsumed B i c fs = map (\<lambda>(j, Fj). if 1 \<le> j \<and> j \<le> i then filter (\<lambda>d. \<not> subsumes B c d) Fj else Fj)
     (enumerate 0 fs)"

definition constrain_frame :: "('s, 'd) ic3_env \<Rightarrow> nat \<Rightarrow> ic3_formula \<Rightarrow> bool \<Rightarrow> ('s, 'd) ic3 \<Rightarrow> ('s, 'd) ic3 result" where
  "constrain_frame N i c new p =
     guardE (i < length (ic_frames p)) OutOfRange
       (let fs = (if new then drop_subsumed (ie_builder N) i c (ic_frames p) else ic_frames p)
        in Inr (constrain_frame_label N i c (p\<lparr>ic_frames := fs[i := fs ! i @ [c]]\<rparr>)))"

text \<open>The constraints of the frames below \<open>i\<close> are disabled by their negated labels.\<close>

definition frame_label_formulas :: "('s, 'd) ic3_env \<Rightarrow> nat \<Rightarrow> ('s, 'd) ic3 \<Rightarrow> tm list" where
  "frame_label_formulas N i p = map (\<lambda>(j, l). if j < i then mk_term (ie_builder N) (op0 NotOp) [l] else l)
     (enumerate 0 (ic_frame_labels p))"

definition assert_frame_labels :: "('s, 'd) ic3_env \<Rightarrow> nat \<Rightarrow> ('s, 'd) ic3 \<Rightarrow> ('s, 'd) ic3" where
  "assert_frame_labels N i p = ic3_assert N (frame_label_formulas N i p) p"

definition get_frame_term :: "'s prover_env \<Rightarrow> nat \<Rightarrow> ('s, 'd) ic3 \<Rightarrow> tm" where
  "get_frame_term E i p =
     (if i = 0 then ts_init (en_ts E)
      else mk_term (builder (en_solver E)) (op0 And)
        [fold (\<lambda>u t. mk_term (builder (en_solver E)) (op0 And) [t, fterm u]) (concat (drop i (ic_frames p))) tm_true,
         smart_not (builder (en_solver E)) (en_bad E)])"

definition assert_trans_label :: "('s, 'd) ic3_env \<Rightarrow> ('s, 'd) ic3 \<Rightarrow> ('s, 'd) ic3" where
  "assert_trans_label N p = ic3_assert N [ic_trans_label p] p"

text \<open>Also when the solver does not know, the two terms count as disjoint.\<close>

definition check_intersects :: "('s, 'd) ic3_env \<Rightarrow> tm \<Rightarrow> tm \<Rightarrow> ('s, 'd) ic3 \<Rightarrow> bool \<times> ('s, 'd) ic3" where
  "check_intersects N a b p =
     (let (r, p1) = ic3_check N (ic3_assert N [a, b] (push_solver_context N p))
      in (r = SAT, pop_solver_context N p1))"

definition check_intersects_initial :: "('s, 'd) ic3_env \<Rightarrow> tm \<Rightarrow> ('s, 'd) ic3 \<Rightarrow> bool \<times> ('s, 'd) ic3" where
  "check_intersects_initial N t p = check_intersects N (ic_frame_labels p ! 0) t p"

text \<open>The conjuncts are sorted by their hash values.\<close>

definition make_and :: "smt_builder \<Rightarrow> tm list \<Rightarrow> tm" where
  "make_and B ts = (case sort_key (term_hash B) ts of [] \<Rightarrow> tm_true
     | t # us \<Rightarrow> fold (\<lambda>u a. mk_term B (op0 And) [a, u]) us t)"

text \<open>The reducer appends to \<open>to_keep\<close>; its failure is a failed assertion.\<close>

definition fix_if_intersects_initial :: "('s, 'd) ic3_env \<Rightarrow> tm list \<Rightarrow> tm list \<Rightarrow> tm list result" where
  "fix_if_intersects_initial N to_keep rem =
     (if rem = [] then Inr to_keep
      else case ie_reduce N (mk_term (ie_builder N) (op0 And) [ts_init (ie_ts N), make_and (ie_builder N) to_keep])
             rem (io_gen_max_iter (ie_opts N)) (io_random_seed (ie_opts N)) of
          Some red \<Rightarrow> Inr (to_keep @ red)
        | None \<Rightarrow> dassert N False (Inr to_keep))"

subsection \<open>Labels for unsatisfiable cores\<close>

definition label_name :: "smt_builder \<Rightarrow> tm \<Rightarrow> nat \<Rightarrow> string" where
  "label_name B t i = ''assump_'' @ nat_str (term_hash B t) @ ''_'' @ nat_str i"

text \<open>A name that is taken makes the loop try the next one; one of \<open>length tab + 1\<close> is free.\<close>

fun label_symbol :: "smt_builder \<Rightarrow> tm \<Rightarrow> nat \<Rightarrow> nat \<Rightarrow> string list \<Rightarrow> (tm \<times> string list) result" where
  "label_symbol B t 0 i tab = Inl OutOfFuel"
| "label_symbol B t (Suc n) i tab =
     (case make_symbol (label_name B t i) BOOL tab of
        Inr r \<Rightarrow> Inr r
      | Inl e \<Rightarrow> label_symbol B t n (Suc i) tab)"

definition label :: "('s, 'd) ic3_env \<Rightarrow> tm \<Rightarrow> ('s, 'd) ic3 \<Rightarrow> (tm \<times> ('s, 'd) ic3) result" where
  "label N t p =
     (case map_of (ic_labels p) t of
        Some l \<Rightarrow> Inr (l, p)
      | None \<Rightarrow>
          bindE (if ie_lit N t then Inr (t, ic_symtab p)
                 else label_symbol (ie_builder N) t (Suc (length (ic_symtab p))) 0 (ic_symtab p))
            (\<lambda>(l, tab). Inr (l, p\<lparr>ic_symtab := tab, ic_labels := AList.update t l (ic_labels p)\<rparr>)))"

definition is_global_label :: "('s, 'd) ic3 \<Rightarrow> tm \<Rightarrow> bool" where
  "is_global_label p l \<longleftrightarrow> l = ic_trans_label p \<or> l = ic_bad_label p \<or> l \<in> set (ic_frame_labels p)"

definition label_child :: "('s, 'd) ic3_env \<Rightarrow> tm \<Rightarrow> tm list \<times> ('s, 'd) ic3 \<Rightarrow> (tm list \<times> ('s, 'd) ic3) result" where
  "label_child N cc = (\<lambda>(assumps, p).
     let ccnext = next_tm (ie_builder N) (ie_ts N) cc
     in bindE (label N ccnext p) (\<lambda>(l, p1).
          Inr (assumps @ [l], if l \<noteq> ccnext \<and> \<not> is_global_label p1 l
             then ic3_assert N [ic3_implies N l ccnext] p1 else p1)))"

subsection \<open>Predecessors and relative induction\<close>

definition get_input_values :: "'s prover_env \<Rightarrow> ('s, 'd) ic3 \<Rightarrow> tm list" where
  "get_input_values E p = map (\<lambda>iv. mk_term (builder (en_solver E)) (op0 Equal)
     [iv, s_get_value (en_solver E) (pr_solver p) iv]) (ts_inputvars (en_ts E))"

definition get_next_state_values :: "'s prover_env \<Rightarrow> ('s, 'd) ic3 \<Rightarrow> tm list" where
  "get_next_state_values E p = map (\<lambda>sv. let nv = next_tm (builder (en_solver E)) (en_ts E) sv
     in mk_term (builder (en_solver E)) (op0 Equal) [nv, s_get_value (en_solver E) (pr_solver p) nv])
     (ts_statevars (en_ts E))"

definition predecessor_generalization_and_fix :: "('s, 'd) ic3_env \<Rightarrow> nat \<Rightarrow> tm \<Rightarrow> ic3_formula \<Rightarrow> ('s, 'd) ic3
    \<Rightarrow> ic3_formula result" where
  "predecessor_generalization_and_fix N i c pred p =
     bindE (fl_pregen N i c pred p) (\<lambda>pred1.
       if ic_approx p \<and> 2 \<le> i then
         let dropped = filter (\<lambda>cc. cc \<notin> set (if_children pred1)) (if_children pred);
             formula = mk_term (ie_builder N) (op0 And) [get_frame_term (ie_prover N) (i - 2) p, fterm pred1]
         in (case ie_reduce N formula dropped 0 0 of
               Some red \<Rightarrow> ic3formula_conjunction (ie_builder N) (if_children pred1 @ red)
             | None \<Rightarrow> dassert N False (ic3formula_conjunction (ie_builder N) (if_children pred1)))
       else Inr pred1)"

definition get_predecessor :: "('s, 'd) ic3_env \<Rightarrow> nat \<Rightarrow> tm \<Rightarrow> ('s, 'd) ic3 \<Rightarrow> ic3_formula result" where
  "get_predecessor N i c p = bindE (fl_model N p) (\<lambda>out.
     if io_pregen (ie_opts N) then predecessor_generalization_and_fix N i c out p else Inr out)"

text \<open>The conjuncts whose labels are in the core, and the others.\<close>

definition core_generalization :: "('s, 'd) ic3_env \<Rightarrow> tm list \<Rightarrow> ic3_formula \<Rightarrow> ('s, 'd) ic3 \<Rightarrow> ic3_formula result" where
  "core_generalization N assumps c p =
     (let core = s_unsat_core (ie_solver N) (pr_solver p)
      in if assumps = [] \<or> core = [] then Inr c
         else bindE (fix_if_intersects_initial N
             (map snd (filter (\<lambda>(a, cc). a \<in> set core) (zip assumps (if_children c))))
             (map snd (filter (\<lambda>(a, cc). a \<notin> set core) (zip assumps (if_children c)))))
           (ic3formula_conjunction (ie_builder N)))"

text \<open>
  \<open>out\<close> is the formula of the caller that a satisfiable check without \<open>get_pred\<close> leaves
  unchanged.  The last assertions call the solver, so they are evaluated only when compiled in.
\<close>

definition check_predecessor :: "('s, 'd) ic3_env \<Rightarrow> nat \<Rightarrow> ic3_formula \<Rightarrow> ('s, 'd) ic3 \<Rightarrow> ('s, 'd) ic3 result" where
  "check_predecessor N i out p =
     (if \<not> ie_debug N then Inr p
      else let (b1, p1) = (if i \<noteq> 1 then (True, p) else check_intersects_initial N (fterm out) p)
      in dassert N b1
        (let (b2, p2) = (if i < 2 then (False, p1) else check_intersects N (fterm out) (get_frame_term (ie_prover N) (i - 2) p1) p1)
         in dassert N (\<not> b2) (Inr p2)))"

definition rel_ind_query :: "('s, 'd) ic3_env \<Rightarrow> nat \<Rightarrow> ic3_formula \<Rightarrow> ('s, 'd) ic3
    \<Rightarrow> (smt_result \<times> tm list \<times> ('s, 'd) ic3) result" where
  "rel_ind_query N i c p =
     bindE (foldE (label_child N) (if_children c)
         ([], assert_trans_label N (ic3_assert N [mk_term (ie_builder N) (op0 NotOp) [fterm c]]
                (assert_frame_labels N (i - 1) (push_solver_context N p)))))
       (\<lambda>(assumps, p1). let (r, p2) = ic3_check_assuming N assumps p1 in Inr (r, assumps, p2))"

definition rel_ind_check :: "('s, 'd) ic3_env \<Rightarrow> nat \<Rightarrow> ic3_formula \<Rightarrow> ic3_formula \<Rightarrow> bool \<Rightarrow> ('s, 'd) ic3
    \<Rightarrow> (bool \<times> ic3_formula \<times> ('s, 'd) ic3) result" where
  "rel_ind_check N i c out get_pred p =
     bindE (rel_ind_query N i c p) (\<lambda>(r, assumps, p1).
     bindE (if r = SAT
            then bindE (if get_pred then get_predecessor N i (fterm c) p1 else Inr out)
              (\<lambda>o1. dassert N (fl_valid N o1) (Inr o1))
            else dassert N (r = UNSAT) (core_generalization N assumps c p1)) (\<lambda>o1.
       let p2 = pop_solver_context N p1
       in bindE (if r = SAT \<and> get_pred then check_predecessor N i o1 p2 else Inr p2)
            (\<lambda>p3. Inr (r = UNSAT, o1, p3))))"

subsection \<open>Generalising a blocked cube\<close>

fun generalization_loop :: "('s, 'd) ic3_env \<Rightarrow> nat \<Rightarrow> nat \<Rightarrow> tm list \<Rightarrow> tm list \<Rightarrow> ic3_formula \<Rightarrow> nat \<Rightarrow> ('s, 'd) ic3
    \<Rightarrow> (tm list \<times> ('s, 'd) ic3) result" where
  "generalization_loop N i 0 cs necessary out j p = Inl OutOfFuel"
| "generalization_loop N i (Suc n) cs necessary out j p =
     (if \<not> (j < length cs \<and> 1 < length cs) then Inr (cs, p)
      else if cs ! j \<in> set necessary then generalization_loop N i n cs necessary out (j + 1) p
      else bindE (ic3formula_conjunction (ie_builder N) (take j cs @ drop (Suc j) cs)) (\<lambda>gen.
        let (hit, p1) = check_intersects_initial N (fterm gen) p
        in bindE (if hit then Inr (False, out, p1) else rel_ind_check N i gen out False p1) (\<lambda>(ok, out1, p2).
             if ok then generalization_loop N i n (if_children out1) necessary out1 0 p2
             else generalization_loop N i n (if_children gen @ [cs ! j]) ((cs ! j) # necessary) out1 j p2)))"

definition inductive_generalization :: "('s, 'd) ic3_env \<Rightarrow> nat \<Rightarrow> nat \<Rightarrow> ic3_formula \<Rightarrow> ('s, 'd) ic3
    \<Rightarrow> (ic3_formula \<times> ('s, 'd) ic3) result" where
  "inductive_generalization N n i c p =
     bindE (generalization_loop N i n (if_children c) [] null_formula 0 p) (\<lambda>(cs, p1).
     bindE (ic3formula_conjunction (ie_builder N) cs) (\<lambda>gen.
       let (hit, p2) = (if ie_debug N then check_intersects_initial N (fterm gen) p1 else (False, p1))
       in dassert N (\<not> hit) (bindE (ic3formula_negate (ie_builder N) gen) (\<lambda>block. Inr (block, p2)))))"

fun highest_loop :: "('s, 'd) ic3_env \<Rightarrow> nat \<Rightarrow> nat \<Rightarrow> ic3_formula \<Rightarrow> ic3_formula \<Rightarrow> ('s, 'd) ic3
    \<Rightarrow> (nat \<times> ic3_formula \<times> ('s, 'd) ic3) result" where
  "highest_loop N 0 j cb gen p = Inr (j, cb, p)"
| "highest_loop N (Suc n) j cb gen p =
     bindE (rel_ind_check N (j + 1) cb gen False p) (\<lambda>(ok, gen1, p1).
       if ok then highest_loop N n (j + 1) gen1 cb p1 else Inr (j, cb, p1))"

definition find_highest_frame :: "('s, 'd) ic3_env \<Rightarrow> nat \<Rightarrow> ic3_formula \<Rightarrow> ('s, 'd) ic3
    \<Rightarrow> (nat \<times> ic3_formula \<times> ('s, 'd) ic3) result" where
  "find_highest_frame N i u p =
     bindE (ic3formula_negate (ie_builder N) u) (\<lambda>cb.
     bindE (highest_loop N (frontier_idx p - i) i cb null_formula p) (\<lambda>(j, cube1, p1).
     bindE (ic3formula_negate (ie_builder N) cube1) (\<lambda>u1. Inr (j, u1, p1))))"

subsection \<open>Blocking\<close>

fun goal_chain :: "proof_goal \<Rightarrow> tm list" where
  "goal_chain (ProofGoal c i n) = fterm c # (case n of None \<Rightarrow> [] | Some g \<Rightarrow> goal_chain g)"

definition reconstruct_trace :: "('s, 'd) ic3_env \<Rightarrow> proof_goal \<Rightarrow> ('s, 'd) ic3 \<Rightarrow> ('s, 'd) ic3 result" where
  "reconstruct_trace N pg p =
     (let (hit, p1) = (if ie_debug N then check_intersects_initial N (fterm (pg_target pg)) p else (True, p))
      in dassert N hit (Inr (p1\<lparr>ic_cex := goal_chain pg @ [ie_bad N]\<rparr>)))"

definition reaches_bad :: "('s, 'd) ic3_env \<Rightarrow> ('s, 'd) ic3 \<Rightarrow> (bool \<times> ic3_formula \<times> ('s, 'd) ic3) result" where
  "reaches_bad N p =
     (let p0 = assert_frame_labels N (frontier_idx p) (push_solver_context N p);
          (r, p1) = ic3_check N (ic3_assert N [next_tm (ie_builder N) (ie_ts N) (ie_bad N), ic_trans_label p0] p0)
      in bindE (if r = SAT then get_predecessor N (length (ic_frames p1)) (ie_bad N) p1 else Inr null_formula) (\<lambda>out.
         dassert N (r = SAT \<longrightarrow> fl_valid N out)
           (guardE (r \<noteq> UNKNOWN) (PonoException ''Bad state check in IC3 returned unknown'')
             (Inr (r = SAT, out, pop_solver_context N p1)))))"

definition is_blocked :: "('s, 'd) ic3_env \<Rightarrow> proof_goal \<Rightarrow> ('s, 'd) ic3 \<Rightarrow> (bool \<times> ('s, 'd) ic3) result" where
  "is_blocked N pg p =
     bindE (ic3formula_negate (ie_builder N) (pg_target pg)) (\<lambda>n.
       if list_ex (\<lambda>c. subsumes (ie_builder N) c n) (concat (drop (pg_idx pg) (ic_frames p))) then Inr (True, p)
       else let (r, p1) = ic3_check N (ic3_assert N [fterm (pg_target pg)]
                  (assert_frame_labels N (pg_idx pg) (push_solver_context N p)))
            in Inr (r = UNSAT, pop_solver_context N p1))"

definition poll_terminate :: "('s, 'd) ic3 \<Rightarrow> bool \<times> ('s, 'd) ic3" where
  "poll_terminate p =
     (case ic_request p of
        None \<Rightarrow> (False, p)
      | Some 0 \<Rightarrow> (True, p)
      | Some (Suc n) \<Rightarrow> (False, p\<lparr>ic_request := Some n\<rparr>))"

definition remove_nth :: "nat \<Rightarrow> 'a list \<Rightarrow> 'a list" where
  "remove_nth k xs = take k xs @ drop (Suc k) xs"

text \<open>
  The inner loop of \<open>block_all\<close>: \<open>None\<close> when the queue is empty, \<open>Some\<close> for a
  return from \<open>block_all\<close>.  Every loop inside it gets the fuel \<open>f\<close>.
\<close>

fun block_goals :: "('s, 'd) ic3_env \<Rightarrow> nat \<Rightarrow> nat \<Rightarrow> proof_goal list \<Rightarrow> ('s, 'd) ic3
    \<Rightarrow> (bool option \<times> ('s, 'd) ic3) result" where
  "block_goals N f 0 q p = Inl OutOfFuel"
| "block_goals N f (Suc n) q p =
     (if q = [] then Inr (None, p)
      else let (stop, p0) = poll_terminate p in
        if stop then Inr (Some True, p0)
        else let k = ie_top N q; pg = q ! k; q1 = remove_nth k q in
          if pg_idx pg = 0 then bindE (reconstruct_trace N pg p0) (\<lambda>p1. Inr (Some False, p1))
          else bindE (is_blocked N pg p0) (\<lambda>(blocked, p1).
            if blocked then block_goals N f n q1 p1
            else bindE (rel_ind_check N (pg_idx pg) (pg_target pg) null_formula True p1) (\<lambda>(ok, collateral, p2).
              if ok then
                bindE (if io_indgen (ie_opts N) then inductive_generalization N f (pg_idx pg) collateral p2
                       else bindE (ic3formula_negate (ie_builder N) collateral) (\<lambda>u. Inr (u, p2))) (\<lambda>(u, p3).
                bindE (find_highest_frame N (pg_idx pg) u p3) (\<lambda>(idx, u1, p4).
                bindE (constrain_frame N idx u1 True p4) (\<lambda>p5.
                  block_goals N f n (if idx < frontier_idx p5
                      then q1 @ [ProofGoal (pg_target pg) (idx + 1) (pg_next pg)] else q1) p5)))
              else block_goals N f n (q @ [ProofGoal collateral (pg_idx pg - 1) (Some pg)]) p2)))"

fun block_all :: "('s, 'd) ic3_env \<Rightarrow> nat \<Rightarrow> nat \<Rightarrow> ('s, 'd) ic3 \<Rightarrow> (bool \<times> ('s, 'd) ic3) result" where
  "block_all N f 0 p = Inl OutOfFuel"
| "block_all N f (Suc n) p =
     bindE (reaches_bad N p) (\<lambda>(reached, goal, p1).
       if \<not> reached then Inr (True, p1)
       else bindE (block_goals N f f [ProofGoal goal (frontier_idx p1) None] p1) (\<lambda>(res, p2).
         case res of Some b \<Rightarrow> Inr (b, p2) | None \<Rightarrow> block_all N f n p2))"

subsection \<open>Propagation\<close>

text \<open>The clauses that stay are collected in \<open>kept\<close>, the prefix of the frame that the code overwrites.\<close>

fun propagate_loop :: "('s, 'd) ic3_env \<Rightarrow> nat \<Rightarrow> ic3_formula list \<Rightarrow> ic3_formula list \<Rightarrow> ic3_formula \<Rightarrow> ('s, 'd) ic3
    \<Rightarrow> (ic3_formula list \<times> ('s, 'd) ic3) result" where
  "propagate_loop N i [] kept gen p = Inr (kept, p)"
| "propagate_loop N i (c # cs) kept gen p =
     bindE (ic3formula_negate (ie_builder N) c) (\<lambda>u.
     bindE (rel_ind_check N (i + 1) u gen False p) (\<lambda>(ok, gen1, p1).
       if ok then
         bindE (ic3formula_negate (ie_builder N) gen1) (\<lambda>d.
         bindE (constrain_frame N (i + 1) d False p1) (propagate_loop N i cs kept gen1))
       else propagate_loop N i cs (kept @ [c]) gen1 p1))"

definition propagate :: "('s, 'd) ic3_env \<Rightarrow> nat \<Rightarrow> ('s, 'd) ic3 \<Rightarrow> (bool \<times> ('s, 'd) ic3) result" where
  "propagate N i p =
     bindE (propagate_loop N i (ic_frames p ! i) [] null_formula p) (\<lambda>(kept, p1).
       Inr (kept = [], p1\<lparr>ic_frames := (ic_frames p1)[i := kept]\<rparr>))"

text \<open>The loop over the frames in \<open>step\<close>; \<open>Some j\<close>: every clause of frame \<open>j\<close> moved on.\<close>

fun propagate_frames :: "('s, 'd) ic3_env \<Rightarrow> nat list \<Rightarrow> ('s, 'd) ic3 \<Rightarrow> (nat option \<times> ('s, 'd) ic3) result" where
  "propagate_frames N [] p = Inr (None, p)"
| "propagate_frames N (j # js) p =
     bindE (propagate N j p) (\<lambda>(all, p1). if all then Inr (Some j, p1) else propagate_frames N js p1)"

definition frame_formulas :: "('s, 'd) ic3_env \<Rightarrow> ('s, 'd) ic3 \<Rightarrow> nat \<Rightarrow> tm list" where
  "frame_formulas N p i =
     (if 0 < i then [ic3_implies N (ic_frame_labels p ! i) (smart_not (ie_builder N) (ie_bad N))] else [])
      @ map (\<lambda>c. ic3_implies N (ic_frame_labels p ! i) (fterm c)) (ic_frames p ! i)"

definition reset_solver :: "('s, 'd) ic3_env \<Rightarrow> ('s, 'd) ic3 \<Rightarrow> ('s, 'd) ic3" where
  "reset_solver N p =
     (if ic_reset_failed p then p
      else if \<not> ie_resets N then p\<lparr>ic_reset_failed := True, ic_checks := 0\<rparr>
      else (ic3_assert N ([ic3_implies N (ic_frame_labels p ! 0) (ts_init (ie_ts N)),
              ic3_implies N (ic_trans_label p) (ts_trans (ie_ts N)),
              ic3_implies N (ic_bad_label p) (ie_bad N)]
            @ concat (map (frame_formulas N p) [0..<length (ic_frames p)]))
           (on_solver (s_reset_assertions (ie_solver N)) p))\<lparr>ic_checks := 0\<rparr>)"

subsection \<open>The engine\<close>

definition base_initialize :: "('s, 'd) ic3_env \<Rightarrow> ('s, 'd) ic3 \<Rightarrow> ('s, 'd) ic3 result" where
  "base_initialize N p =
     bindE (prover_initialize (ie_prover N) p) (\<lambda>p1.
     case fl_check_ts N of Some e \<Rightarrow> Inl e | None \<Rightarrow>
     bindE (push_frame N (p1\<lparr>ic_frames := [], ic_frame_labels := []\<rparr>)) (\<lambda>p2.
     bindE (push_frame N (ic3_assert N [ic3_implies N (ic_frame_labels p2 ! 0) (ts_init (ie_ts N))] p2)) (\<lambda>p3.
     bindE (make_symbol ''__trans_label'' BOOL (ic_symtab p3)) (\<lambda>(tl, tab1).
     bindE (make_symbol ''__bad_label'' BOOL tab1) (\<lambda>(bl, tab2).
       Inr (ic3_assert N [ic3_implies N tl (ts_trans (ie_ts N)), ic3_implies N bl (ie_bad N)]
         (p3\<lparr>ic_symtab := tab2, ic_trans_label := tl, ic_bad_label := bl\<rparr>)))))))"

definition ic3_initialize :: "('s, 'd) ic3_env \<Rightarrow> ('s, 'd) ic3 \<Rightarrow> ('s, 'd) ic3 result" where
  "ic3_initialize N p = (if pr_initialized p then Inr p else bindE (base_initialize N p) (\<lambda>p1. Inr (fl_setup N p1)))"

definition step_0 :: "('s, 'd) ic3_env \<Rightarrow> ('s, 'd) ic3 \<Rightarrow> (bool \<times> ('s, 'd) ic3) result" where
  "step_0 N p =
     (let (r, p1) = ic3_check N (ic3_assert N [ic_frame_labels p ! 0, ie_bad N] (push_solver_context N p));
          p2 = pop_solver_context N p1
      in if r = SAT then Inr (False, p2\<lparr>ic_cex := [ie_bad N]\<rparr>)
         else dassert N (r = UNSAT) (Inr (True, p2\<lparr>pr_reached_k := 0\<rparr>)))"

definition step_1 :: "('s, 'd) ic3_env \<Rightarrow> ('s, 'd) ic3 \<Rightarrow> (prover_result \<times> ('s, 'd) ic3) result" where
  "step_1 N p =
     (let (r, p1) = ic3_check N (ic3_assert N
            [ic_frame_labels p ! 0, ic_trans_label p, next_tm (ie_builder N) (ie_ts N) (ie_bad N)] (push_solver_context N p))
      in if r = SAT then bindE (fl_model N p1) (\<lambda>c.
             bindE (reconstruct_trace N (ProofGoal c 0 None) (pop_solver_context N p1)) (\<lambda>p2. Inr (PR_FALSE, p2)))
         else dassert N (r = UNSAT) (Inr (PR_UNKNOWN, (pop_solver_context N p1)\<lparr>pr_reached_k := 1\<rparr>)))"

definition step_01 :: "('s, 'd) ic3_env \<Rightarrow> ('s, 'd) ic3 \<Rightarrow> (prover_result \<times> ('s, 'd) ic3) result" where
  "step_01 N p =
     bindE (if pr_reached_k p < 0 then step_0 N p else Inr (True, p)) (\<lambda>(ok, p1).
       if \<not> ok then Inr (PR_FALSE, p1) else step_1 N p1)"

definition ic3_step :: "('s, 'd) ic3_env \<Rightarrow> nat \<Rightarrow> int \<Rightarrow> ('s, 'd) ic3 \<Rightarrow> (prover_result \<times> ('s, 'd) ic3) result" where
  "ic3_step N f i p =
     (if i \<le> pr_reached_k p then Inr (PR_UNKNOWN, p)
      else if pr_reached_k p < 1 then step_01 N p
      else dassert N (pr_reached_k p = int (frontier_idx p))
        (bindE (block_all N f f p) (\<lambda>(blocked, p1).
          if \<not> blocked then Inr (PR_FALSE, p1)
          else bindE (push_frame N p1) (\<lambda>p2.
               bindE (propagate_frames N [1..<frontier_idx p2] p2) (\<lambda>(res, p3).
                 case res of
                   Some j \<Rightarrow> Inr (PR_TRUE, p3\<lparr>pr_invar := Some (get_frame_term (ie_prover N) (j + 1) p3)\<rparr>)
                 | None \<Rightarrow> Inr (PR_UNKNOWN, (reset_solver N p3)\<lparr>pr_reached_k := pr_reached_k p3 + 1\<rparr>))))))"

text \<open>A successful refinement repeats the bound; \<open>m\<close> counts the rounds of the loop.\<close>

fun ic3_loop :: "('s, 'd) ic3_env \<Rightarrow> nat \<Rightarrow> nat \<Rightarrow> int \<Rightarrow> int \<Rightarrow> ('s, 'd) ic3 \<Rightarrow> (prover_result \<times> ('s, 'd) ic3) result" where
  "ic3_loop N f 0 k i p = Inl OutOfFuel"
| "ic3_loop N f (Suc m) k i p =
     (if \<not> i \<le> k then Inr (PR_UNKNOWN, p)
      else let (stop, p0) = poll_terminate p in
        if stop then Inr (PR_UNKNOWN, p0)
        else bindE (ic3_step N f i p0) (\<lambda>(res, p1).
          if res = PR_FALSE then
            (case fl_refine N p1 of
               (REFINE_SUCCESS, p2) \<Rightarrow> ic3_loop N f m k i p2
             | (REFINE_NONE, p2) \<Rightarrow> Inr (PR_FALSE, p2)
             | (REFINE_FAIL, p2) \<Rightarrow> Inr (PR_UNKNOWN, p2))
          else guardE (i + 1 < 2 ^ 31) (UndefinedBehaviour ''signed overflow'')
            (if res \<noteq> PR_UNKNOWN then Inr (res, p1) else ic3_loop N f m k (i + 1) p1)))"

definition ic3_check_until :: "('s, 'd) ic3_env \<Rightarrow> nat \<Rightarrow> nat \<Rightarrow> int \<Rightarrow> ('s, 'd) ic3 \<Rightarrow> (prover_result \<times> ('s, 'd) ic3) result" where
  "ic3_check_until N f m k p =
     bindE (ic3_initialize N p) (\<lambda>p1. ic3_loop N f m k (pr_reached_k p1 + 1) p1)"

subsection \<open>Witnesses\<close>

definition ic3_witness_length :: "('s, 'd) ic3 \<Rightarrow> nat" where
  "ic3_witness_length p = length (ic_cex p) - 1"

text \<open>The stored trace guides the search; when it leads nowhere the solver searches freely.\<close>

definition ic3_compute_witness :: "('s, 'd) ic3_env \<Rightarrow> ('s, 'd) ic3 \<Rightarrow> bool \<times> ('s, 'd) ic3" where
  "ic3_compute_witness N p =
     (if ic_reset_failed p then (False, p)
      else let S = ie_solver N; E = ie_prover N; n = ic3_witness_length p;
          s = asserts S ([en_at E (ts_init (ie_ts N)) 0] @ map (en_at E (ts_trans (ie_ts N))) [0..<n]
                @ [en_at E (ie_bad N) n]) (s_reset_assertions S (pr_solver p));
          (r, s1) = s_check_assuming S (map (\<lambda>t. en_at E (ic_cex p ! t) t) [0..<n]) s;
          (r2, s2) = (if r = SAT then (r, s1) else s_check S s1)
      in if r2 = SAT
         then (True, p\<lparr>pr_solver := s2, pr_witness := pr_witness p @ map (witness_map E s2) [0..<Suc n]\<rparr>)
         else (False, p\<lparr>pr_solver := s2\<rparr>))"

end
