(* ===== verification/Ic3_Frames.thy ===== *)
theory Ic3_Frames
  imports Ic3_Base
begin

section \<open>What the frames of IC3 mean\<close>

text \<open>
  States here are compared on the state variables and the functions (\<open>same_state\<close>), because a
  cube says nothing of the inputs.  \<open>exact f c\<close>: every state of the cube \<open>f\<close> has a step
  into \<open>c\<close>.  \<open>frame p i s\<close> is the meaning of the \<open>i\<close>-th frame, and \<open>frames_ok m p\<close>
  the invariant of the algorithm: the clauses hold initially, a step leads from each frame into the
  next, and no bad state is a step away from the first \<open>m\<close> frames.
\<close>

context smt_terms
begin

lemma make_and_holds: "holds F \<sigma> (make_and B ts) \<longleftrightarrow> all_hold F \<sigma> ts"
proof -
  have "holds F \<sigma> (fold (\<lambda>u a. mk_term B (op0 And) [a, u]) us t) \<longleftrightarrow> holds F \<sigma> t \<and> all_hold F \<sigma> us" for us t
    by (induction us arbitrary: t) auto
  moreover have "all_hold F \<sigma> (sort_key (term_hash B) ts) = all_hold F \<sigma> ts" by simp
  ultimately show ?thesis unfolding make_and_def by (auto split: list.splits simp del: set_sort)
qed

end

locale ic3_system = smt_terms B F
  for B :: smt_builder and F :: theory_ops +
  fixes sys :: ts and bad :: tm
  assumes sys_wf: "ts_wf sys"
    and bad_syms: "syms_in (set (ts_statevars sys)) bad"
    and init_syms: "syms_in (set (ts_statevars sys)) (ts_init sys)"
    and trans_syms: "syms_in (ts_vars sys) (ts_trans sys)"
begin

abbreviation "SV \<equiv> set (ts_statevars sys)"
abbreviation "IV \<equiv> set (ts_inputvars sys)"
abbreviation "nextof \<equiv> next_tm B sys"
abbreviation "stepof \<equiv> ts_step F sys"

definition same_state :: "assignment \<Rightarrow> assignment \<Rightarrow> bool" where
  "same_state s u \<longleftrightarrow> agree_funs s u \<and> (\<forall>v \<in> SV. s (sym_of v) = u (sym_of v))"

lemma same_state_eval:
  assumes "same_state s u" and "syms_in SV c"
  shows "eval F s c = eval F u c"
proof (rule eval_cong)
  fix x assume "x \<in> syms c"
  then have "tm_of x \<in> SV" using assms(2) by (simp add: syms_in_def)
  then have "s (sym_of (tm_of x)) = u (sym_of (tm_of x))" using assms(1) unfolding same_state_def by blast
  then show "s x = u x" by simp
qed

lemma same_state_refl [simp]: "same_state s s"
  by (simp add: same_state_def)

text \<open>A step reads the current variables of its first state and the state variables of its second.\<close>

lemma pair_env_cong:
  assumes "\<forall>v \<in> SV \<union> IV. s (sym_of v) = s' (sym_of v)" and "\<forall>v \<in> SV. t (sym_of v) = t' (sym_of v)"
    and "tm_of x \<in> ts_vars sys"
  shows "pair_env sys s t x = pair_env sys s' t' x"
proof (cases "map_of (ts_curr_map sys) (tm_of x)")
  case None
  then have "tm_of x \<notin> set (ts_next_statevars sys)" using wf_curr_keys [OF sys_wf] by (simp add: map_of_None_iff)
  with assms(3) have "tm_of x \<in> SV \<union> IV" by (auto simp: ts_vars_def)
  with assms(1) have "s (sym_of (tm_of x)) = s' (sym_of (tm_of x))" by blast
  with None show ?thesis by (simp add: pair_env_def)
next
  case (Some v)
  then have "map_of (ts_next_map sys) v = Some (tm_of x)" using wf_maps_inverse [OF sys_wf] by blast
  then have "v \<in> SV" using next_symbol [OF sys_wf] by blast
  with assms(2) Some show ?thesis by (simp add: pair_env_def)
qed

lemma step_cong:
  assumes "stepof s t" and "wsorted s'" and "wsorted t'" and "agree_funs s' t'"
    and "\<forall>v \<in> SV \<union> IV. s (sym_of v) = s' (sym_of v)" and "\<forall>v \<in> SV. t (sym_of v) = t' (sym_of v)"
  shows "stepof s' t'"
proof -
  have "eval F (pair_env sys s t) (ts_trans sys) = eval F (pair_env sys s' t') (ts_trans sys)"
    by (intro eval_cong pair_env_cong [OF assms(5,6)]) (use trans_syms in \<open>simp add: syms_in_def\<close>)
  with assms show ?thesis by (simp add: ts_step_def)
qed

text \<open>A model of the transition relation is a step to the state it gives the next variables.\<close>

definition shift :: "assignment \<Rightarrow> assignment" where
  "shift \<sigma> x = (case map_of (ts_next_map sys) (tm_of x) of Some nv \<Rightarrow> \<sigma> (sym_of nv) | None \<Rightarrow> \<sigma> x)"

lemma shift_wsorted:
  assumes "wsorted \<sigma>"
  shows "wsorted (shift \<sigma>)"
  unfolding wsorted_def
proof (intro allI)
  fix n st
  show "shift \<sigma> (n, st) \<in> carrier st"
  proof (cases "map_of (ts_next_map sys) (Sym n st)")
    case None
    then show ?thesis using assms by (simp add: shift_def wsorted_def)
  next
    case (Some nv)
    then have "nv \<in> ts_vars sys" using next_symbol [OF sys_wf] by (auto simp: ts_vars_def)
    then obtain m st' where nv: "nv = Sym m st'" using wf_symbolic [OF sys_wf] is_symbolic_constE by blast
    have "get_sort nv = st" using wf_parts(2) [OF sys_wf] Some unfolding maps_ok_def by force
    with nv Some assms show ?thesis by (simp add: shift_def wsorted_def)
  qed
qed

lemma pair_env_shift: "pair_env sys \<sigma> (shift \<sigma>) = \<sigma>"
proof
  fix x
  show "pair_env sys \<sigma> (shift \<sigma>) x = \<sigma> x"
  proof (cases "map_of (ts_curr_map sys) (tm_of x)")
    case None
    then show ?thesis by (simp add: pair_env_def)
  next
    case (Some v)
    then have n: "map_of (ts_next_map sys) v = Some (tm_of x)" using wf_maps_inverse [OF sys_wf] by blast
    then have "v \<in> ts_vars sys" using next_symbol [OF sys_wf] by (auto simp: ts_vars_def)
    then have "tm_of (sym_of v) = v" using wf_symbolic [OF sys_wf] by simp
    with n Some show ?thesis by (simp add: pair_env_def shift_def)
  qed
qed

lemma shift_funs: "agree_funs \<sigma> (shift \<sigma>)"
proof -
  have "map_of (ts_next_map sys) (Sym n st) = None" if "is_fun_sort st" for n st
  proof (rule ccontr)
    assume "map_of (ts_next_map sys) (Sym n st) \<noteq> None"
    then obtain nv where "map_of (ts_next_map sys) (Sym n st) = Some nv" by blast
    then have "Sym n st \<in> ts_vars sys" using next_symbol [OF sys_wf] by (auto simp: ts_vars_def)
    with wf_not_fun [OF sys_wf] that show False by blast
  qed
  then show ?thesis by (simp add: agree_funs_def shift_def)
qed

lemma model_step:
  assumes "wsorted \<sigma>" and "holds F \<sigma> (ts_trans sys)"
  shows "stepof \<sigma> (shift \<sigma>)"
  using assms shift_wsorted shift_funs by (simp add: ts_step_def pair_env_shift)

lemma eval_nextof:
  assumes "agree_funs s t" and "syms_in SV c"
  shows "eval F (pair_env sys s t) (nextof c) = eval F t c"
  by (rule eval_next_tm [OF smt_terms_axioms sys_wf syms_in_covered [OF assms(2)] assms(1)])

lemma eval_shift: "syms_in SV c \<Longrightarrow> eval F (shift \<sigma>) c = eval F \<sigma> (nextof c)"
  using eval_nextof [OF shift_funs, of c \<sigma>] by (simp add: pair_env_shift)

lemma eval_curr:
  assumes "syms_in SV c"
  shows "eval F (pair_env sys s t) c = eval F s c"
  by (rule eval_pair_current [OF sys_wf covered_mono [OF syms_in_covered [OF assms]]]) auto

lemma nextof_syms:
  assumes "syms_in SV c"
  shows "syms_in (ts_vars sys) (nextof c)"
proof (cases "map_of (ts_next_map sys) c")
  case (Some nv)
  then have "nv \<in> ts_vars sys" using next_symbol [OF sys_wf] by (auto simp: ts_vars_def)
  then show ?thesis using wf_symbolic [OF sys_wf, of nv] Some
    by (cases nv) (auto simp: next_tm_def)
next
  case None
  have "syms (substitute B c (ts_next_map sys)) \<subseteq> subst_syms (ts_next_map sys) (syms c)"
    by (rule syms_substitute [OF sym_map_next [OF sys_wf]])
  moreover have "tm_of y \<in> ts_vars sys" if y: "y \<in> subst_syms (ts_next_map sys) (syms c)" for y
  proof -
    from y obtain x where x: "x \<in> syms c"
      "y \<in> (case map_of (ts_next_map sys) (tm_of x) of None \<Rightarrow> {x} | Some u \<Rightarrow> syms u)"
      by (auto simp: subst_syms_def)
    with assms have "tm_of x \<in> SV" by (simp add: syms_in_def)
    then obtain nv where nv: "map_of (ts_next_map sys) (tm_of x) = Some nv" using next_map_total [OF sys_wf] by blast
    then have "nv \<in> ts_vars sys" using next_symbol [OF sys_wf] by (auto simp: ts_vars_def)
    with wf_symbolic [OF sys_wf, of nv] x nv show ?thesis by (cases nv) auto
  qed
  ultimately show ?thesis using None by (auto simp: syms_in_def next_tm_def)
qed

lemma same_state_pair: "same_state s (pair_env sys s t)"
proof -
  have "pair_env sys s t (n, st) = s (n, st)" if "is_fun_sort st" for n st
    using pair_env_current [OF sys_wf, of "(n, st)"] wf_not_fun [OF sys_wf, of n st] that by (auto simp: ts_vars_def)
  moreover have "pair_env sys s t (sym_of v) = s (sym_of v)" if v: "v \<in> SV" for v
  proof -
    have "v \<in> ts_vars sys" using v by (simp add: ts_vars_def)
    then have "tm_of (sym_of v) = v" using wf_symbolic [OF sys_wf] by simp
    with pair_env_current [OF sys_wf, of "sym_of v"] v wf_disjoint(1) [OF sys_wf] show ?thesis by auto
  qed
  ultimately show ?thesis by (simp add: same_state_def agree_funs_def)
qed

subsection \<open>Exact cubes\<close>

definition exact :: "ic3_formula \<Rightarrow> tm \<Rightarrow> bool" where
  "exact f c \<longleftrightarrow> (\<forall>s. wsorted s \<and> holds F s (fterm f) \<longrightarrow> (\<exists>u t. same_state s u \<and> stepof u t \<and> holds F t c))"

text \<open>The state of \<open>\<tau>\<close> with the inputs and next state of a model.\<close>

definition graft :: "assignment \<Rightarrow> assignment \<Rightarrow> assignment" where
  "graft \<tau> \<sigma> x = (if tm_of x \<in> IV \<or> tm_of x \<in> set (ts_next_statevars sys) then \<sigma> x else \<tau> x)"

lemma graft_wsorted: "wsorted \<tau> \<Longrightarrow> wsorted \<sigma> \<Longrightarrow> wsorted (graft \<tau> \<sigma>)"
  by (simp add: wsorted_def graft_def)

lemma graft_funs: "agree_funs \<tau> (graft \<tau> \<sigma>)"
proof -
  have "Sym n st \<notin> IV" "Sym n st \<notin> set (ts_next_statevars sys)" if "is_fun_sort st" for n st
    using wf_not_fun [OF sys_wf, of n st] that by (auto simp: ts_vars_def)
  then show ?thesis by (auto simp: agree_funs_def graft_def)
qed

lemma graft_current: "v \<in> SV \<Longrightarrow> graft \<tau> \<sigma> (sym_of v) = \<tau> (sym_of v)"
proof -
  assume v: "v \<in> SV"
  then have "v \<in> ts_vars sys" by (simp add: ts_vars_def)
  then have "tm_of (sym_of v) = v" using wf_symbolic [OF sys_wf] by simp
  with v wf_disjoint [OF sys_wf] show ?thesis by (auto simp: graft_def)
qed

lemma graft_same: "same_state \<tau> (graft \<tau> \<sigma>)"
  using graft_funs graft_current by (simp add: same_state_def)

lemma graft_other:
  assumes "v \<in> IV \<union> set (ts_next_statevars sys)"
  shows "graft \<tau> \<sigma> (sym_of v) = \<sigma> (sym_of v)"
proof -
  have "v \<in> ts_vars sys" using assms by (auto simp: ts_vars_def)
  then have "tm_of (sym_of v) = v" using wf_symbolic [OF sys_wf] by simp
  with assms show ?thesis by (auto simp: graft_def)
qed

lemma graft_step:
  assumes "wsorted \<tau>" and "wsorted \<sigma>" and "holds F (graft \<tau> \<sigma>) (ts_trans sys)"
    and "holds F (graft \<tau> \<sigma>) (nextof c)" and "syms_in SV c"
  shows "\<exists>u t. same_state \<tau> u \<and> stepof u t \<and> holds F t c"
proof (intro exI conjI)
  show "same_state \<tau> (graft \<tau> \<sigma>)" by (rule graft_same)
  show "stepof (graft \<tau> \<sigma>) (shift (graft \<tau> \<sigma>))" by (rule model_step [OF graft_wsorted [OF assms(1,2)] assms(3)])
  show "holds F (shift (graft \<tau> \<sigma>)) c" using assms(4) eval_shift [OF assms(5)] by simp
qed

lemma graft_equal:
  assumes "\<forall>v \<in> SV. \<tau> (sym_of v) = \<sigma> (sym_of v)" and "syms_in (ts_vars sys) t"
  shows "eval F (graft \<tau> \<sigma>) t = eval F \<sigma> t"
proof (rule eval_cong)
  fix x assume "x \<in> syms t"
  then have "tm_of x \<in> ts_vars sys" using assms(2) by (simp add: syms_in_def)
  then consider "tm_of x \<in> SV" | "tm_of x \<in> IV \<union> set (ts_next_statevars sys)" by (auto simp: ts_vars_def)
  then show "graft \<tau> \<sigma> x = \<sigma> x"
  proof cases
    case 1
    from graft_current [OF 1, of \<tau> \<sigma>] assms(1) 1 show ?thesis by force
  next
    case 2
    from graft_other [OF 2, of \<tau> \<sigma>] show ?thesis by simp
  qed
qed

text \<open>A cube that fixes every state variable to its value in a model is exact.\<close>

definition determines :: "assignment \<Rightarrow> ic3_formula \<Rightarrow> bool" where
  "determines \<sigma> f \<longleftrightarrow> (\<forall>\<tau>. wsorted \<tau> \<and> holds F \<tau> (fterm f) \<longrightarrow> (\<forall>v \<in> SV. \<tau> (sym_of v) = \<sigma> (sym_of v)))"

lemma determined_exact:
  assumes "determines \<sigma> f" and "wsorted \<sigma>" and "holds F \<sigma> (ts_trans sys)" and "holds F \<sigma> (nextof c)"
    and "syms_in SV c"
  shows "exact f c"
  unfolding exact_def
proof (intro allI impI)
  fix \<tau> assume t: "wsorted \<tau> \<and> holds F \<tau> (fterm f)"
  with assms(1) have eq: "\<forall>v \<in> SV. \<tau> (sym_of v) = \<sigma> (sym_of v)" unfolding determines_def by blast
  show "\<exists>u t. same_state \<tau> u \<and> stepof u t \<and> holds F t c"
    using graft_step [of \<tau> \<sigma> c] t assms graft_equal [OF eq trans_syms] graft_equal [OF eq nextof_syms [OF assms(5)]]
    by simp
qed

subsection \<open>Chains of exact cubes are counterexamples\<close>

fun chain_ok :: "proof_goal \<Rightarrow> bool" where
  "chain_ok (ProofGoal f i n) \<longleftrightarrow> cube F f \<and> over SV f
     \<and> (case n of None \<Rightarrow> exact f bad | Some g \<Rightarrow> exact f (fterm (pg_target g)) \<and> chain_ok g)"

lemma chain_segment:
  "chain_ok g \<Longrightarrow> wsorted s \<Longrightarrow> holds F s (fterm (pg_target g)) \<Longrightarrow>
    \<exists>\<pi>. same_state s (\<pi> 0) \<and> segment F sys \<pi> (length (goal_chain g)) \<and> holds F (\<pi> (length (goal_chain g))) bad"
proof (induction g arbitrary: s rule: goal_chain.induct)
  case (1 f i n)
  show ?case
  proof (cases n)
    case None
    with 1(2-4) obtain u t where u: "same_state s u" "stepof u t" "holds F t bad" by (auto simp: exact_def)
    let ?\<pi> = "\<lambda>k. if k = 0 then u else t"
    have "segment F sys ?\<pi> 1" using u(2) ts_stepD [OF u(2)] by (simp add: segment_def)
    with u None show ?thesis by (intro exI [of _ ?\<pi>]) simp
  next
    case (Some g)
    with 1(2-4) obtain u t where u: "same_state s u" "stepof u t" "holds F t (fterm (pg_target g))"
      and g: "chain_ok g" by (auto simp: exact_def)
    let ?n = "length (goal_chain g)"
    from 1(1) [OF Some g ts_stepD(2) [OF u(2)] u(3)] obtain \<rho> where r: "same_state t (\<rho> 0)" "segment F sys \<rho> ?n"
      "holds F (\<rho> ?n) bad" by blast
    have "wsorted (\<rho> 0)" using r(2) by (simp add: segment_def)
    then have st: "stepof u (\<rho> 0)"
      using step_cong [OF u(2) ts_stepD(1) [OF u(2)], of "\<rho> 0"] r(1) ts_stepD(3) [OF u(2)]
      by (simp add: same_state_def agree_funs_def)
    let ?\<pi> = "\<lambda>k. case k of 0 \<Rightarrow> u | Suc j \<Rightarrow> \<rho> j"
    have "segment F sys ?\<pi> (Suc ?n)"
      using r(2) st ts_stepD(1) [OF u(2)] unfolding segment_def by (auto split: nat.splits)
    with u(1) r(3) Some show ?thesis by (intro exI [of _ ?\<pi>]) simp
  qed
qed

lemma chain_cex:
  assumes "chain_ok g" and "ts_initial F sys s" and "holds F s (fterm (pg_target g))"
  shows "cex F sys bad (length (goal_chain g))"
proof -
  have "wsorted s" using assms(2) by (simp add: ts_initial_def)
  from chain_segment [OF assms(1) this assms(3)] obtain \<pi> where p: "same_state s (\<pi> 0)"
    "segment F sys \<pi> (length (goal_chain g))" "holds F (\<pi> (length (goal_chain g))) bad" by blast
  have "ts_initial F sys (\<pi> 0)"
    using assms(2) same_state_eval [OF p(1) init_syms] p(2) by (simp add: ts_initial_def segment_def)
  with p show ?thesis by (auto simp: cex_def ts_path_def)
qed

end

end
