(* ===== verification/Ic3_Invariant.thy ===== *)
theory Ic3_Invariant
  imports Ic3_Frames
begin

section \<open>The invariant of IC3 and what solver answers say about frames\<close>

text \<open>
  The locale \<open>ic3_engine\<close> is the contract between the base class and a flavour: a flavour's
  cube of a model fixes every state variable, and its generalisation of a predecessor keeps the
  cube exact.  The solver always answers and the reducer fails only on satisfiable input.
  \<open>model_of s \<sigma>\<close>: the last check of the solver found \<open>\<sigma>\<close>.
\<close>

locale ic3_engine =
  smt_engine "ie_solver N" F frames + ic3_system "ie_builder N" F "ie_ts N" "ie_bad N"
  for N :: "('s, 'd) ic3_env" and F :: theory_ops and frames :: "'s \<Rightarrow> tm list list" +
  fixes Q :: "'d \<Rightarrow> bool"
  assumes decides: "s_check_assuming (ie_solver N) as s \<noteq> (UNKNOWN, s')"
    and reduce_core: "ie_reduce N h ts k r = Some red \<Longrightarrow> set red \<subseteq> set ts \<and> \<not> satisfiable F (h # red)"
    and reduce_fails: "ie_reduce N h ts k r = None \<Longrightarrow> satisfiable F (h # ts)"
    and top_in: "q \<noteq> [] \<Longrightarrow> ie_top N q < length q"
    and data_setup: "\<exists>d. Q d \<and> fl_setup N p = p\<lparr>ic_data := d\<rparr>"
    and no_refinement: "fl_refine N p = (REFINE_NONE, p)"
    and model_cube: "wsorted \<sigma> \<Longrightarrow> (\<And>t. s_get_value (ie_solver N) (pr_solver p) t = Val (eval F \<sigma> t) (get_sort t)) \<Longrightarrow>
      Q (ic_data p) \<Longrightarrow> fl_model N p = Inr f \<Longrightarrow>
      cube F f \<and> over (set (ts_statevars (ie_ts N))) f \<and> holds F \<sigma> (fterm f) \<and> determines \<sigma> f"
    and pregen_exact: "wsorted \<sigma> \<Longrightarrow> (\<And>t. s_get_value (ie_solver N) (pr_solver p) t = Val (eval F \<sigma> t) (get_sort t)) \<Longrightarrow>
      Q (ic_data p) \<Longrightarrow> cube F f \<and> over (set (ts_statevars (ie_ts N))) f \<and> holds F \<sigma> (fterm f) \<and> determines \<sigma> f \<Longrightarrow>
      syms_in (set (ts_statevars (ie_ts N))) c \<Longrightarrow> holds F \<sigma> (ts_trans (ie_ts N)) \<Longrightarrow>
      holds F \<sigma> (next_tm (ie_builder N) (ie_ts N) c) \<Longrightarrow> \<not> holds F \<sigma> c \<Longrightarrow>
      holds F \<sigma> (get_frame_term (ie_prover N) (i - 1) p) \<Longrightarrow> 1 \<le> i \<Longrightarrow>
      fl_pregen N i c f p = Inr g \<Longrightarrow>
      cube F g \<and> over (set (ts_statevars (ie_ts N))) g \<and> holds F \<sigma> (fterm g) \<and> exact g c"
begin

abbreviation "S \<equiv> ie_solver N"
abbreviation "B \<equiv> ie_builder N"
abbreviation "sys \<equiv> ie_ts N"
abbreviation "bad \<equiv> ie_bad N"

subsection \<open>Frames\<close>

definition clauses :: "nat \<Rightarrow> ('s, 'd) ic3 \<Rightarrow> ic3_formula set" where
  "clauses i p = set (concat (drop i (ic_frames p)))"

definition frame :: "('s, 'd) ic3 \<Rightarrow> nat \<Rightarrow> assignment \<Rightarrow> bool" where
  "frame p i s \<longleftrightarrow> (if i = 0 then holds F s (ts_init sys)
     else (\<forall>c \<in> clauses i p. holds F s (fterm c)) \<and> \<not> holds F s bad)"

lemma frame_term: "holds F s (get_frame_term (ie_prover N) i p) \<longleftrightarrow> frame p i s"
proof -
  have "holds F s (fold (\<lambda>u t. mk_term B (op0 And) [t, fterm u]) us t) \<longleftrightarrow> holds F s t \<and> (\<forall>u \<in> set us. holds F s (fterm u))"
    for us t by (induction us arbitrary: t) auto
  then show ?thesis by (simp add: get_frame_term_def frame_def clauses_def)
qed

lemma clauses_mono: "i \<le> j \<Longrightarrow> clauses j p \<subseteq> clauses i p"
  unfolding clauses_def using set_drop_subset_set_drop [of i j "ic_frames p"] by auto

lemma clauses_level: "c \<in> clauses i p \<longleftrightarrow> (\<exists>j. i \<le> j \<and> j < length (ic_frames p) \<and> c \<in> set (ic_frames p ! j))"
proof
  assume "c \<in> clauses i p"
  then obtain G where "G \<in> set (drop i (ic_frames p))" "c \<in> set G" by (auto simp: clauses_def)
  then obtain k where "k < length (drop i (ic_frames p))" "c \<in> set (drop i (ic_frames p) ! k)"
    by (metis in_set_conv_nth)
  then show "\<exists>j. i \<le> j \<and> j < length (ic_frames p) \<and> c \<in> set (ic_frames p ! j)"
    by (intro exI [of _ "i + k"]) simp
next
  assume "\<exists>j. i \<le> j \<and> j < length (ic_frames p) \<and> c \<in> set (ic_frames p ! j)"
  then obtain j where j: "i \<le> j" "j < length (ic_frames p)" "c \<in> set (ic_frames p ! j)" by blast
  then have "drop i (ic_frames p) ! (j - i) = ic_frames p ! j" "j - i < length (drop i (ic_frames p))" by simp_all
  with j(3) show "c \<in> clauses i p" unfolding clauses_def by (metis UN_I nth_mem set_concat)
qed

definition frames_ok :: "nat \<Rightarrow> ('s, 'd) ic3 \<Rightarrow> bool" where
  "frames_ok m p \<longleftrightarrow> 2 \<le> length (ic_frames p) \<and> ic_frames p ! 0 = []
     \<and> (\<forall>c \<in> clauses 0 p. clause F c \<and> over SV c)
     \<and> (\<forall>s. ts_initial F sys s \<longrightarrow> \<not> holds F s bad \<and> (\<forall>c \<in> clauses 0 p. holds F s (fterm c)))
     \<and> (\<forall>j c s t. 1 \<le> j \<and> j < length (ic_frames p) \<and> c \<in> set (ic_frames p ! j) \<and> stepof s t \<and> frame p (j - 1) s
          \<longrightarrow> holds F t (fterm c))
     \<and> (\<forall>i s t. i < m \<and> stepof s t \<and> frame p i s \<longrightarrow> \<not> holds F t bad)"

lemma frames_okD:
  assumes "frames_ok m p"
  shows "2 \<le> length (ic_frames p)" and "ic_frames p ! 0 = []"
    and "\<And>c. c \<in> clauses i p \<Longrightarrow> clause F c \<and> over SV c"
    and "\<And>s. ts_initial F sys s \<Longrightarrow> \<not> holds F s bad"
    and "\<And>s c. ts_initial F sys s \<Longrightarrow> c \<in> clauses i p \<Longrightarrow> holds F s (fterm c)"
  using assms clauses_mono [of 0 i p] unfolding frames_ok_def by blast+

lemma frame_mono:
  assumes "frames_ok m p" and "i \<le> j" and "wsorted s" and "frame p i s"
  shows "frame p j s"
proof (cases "i = 0")
  case True
  with assms(3,4) have "ts_initial F sys s" by (simp add: ts_initial_def frame_def)
  with frames_okD [OF assms(1)] assms(4) True show ?thesis by (auto simp: frame_def)
next
  case False
  with assms(2,4) clauses_mono [OF assms(2), of p] show ?thesis by (auto simp: frame_def)
qed

text \<open>A step leads from each of the first frames into the next one.\<close>

lemma frame_step:
  assumes "frames_ok m p" and "i < m" and "stepof s t" and "frame p i s"
  shows "frame p (Suc i) t"
proof -
  have "holds F t (fterm c)" if c: "c \<in> clauses (Suc i) p" for c
  proof -
    from c obtain j where j: "Suc i \<le> j" "j < length (ic_frames p)" "c \<in> set (ic_frames p ! j)"
      by (auto simp: clauses_level)
    have "frame p (j - 1) s" using frame_mono [OF assms(1) _ ts_stepD(1) [OF assms(3)] assms(4)] j(1) by simp
    with assms(1,3) j show ?thesis unfolding frames_ok_def by (metis Suc_le_D Suc_le_mono le0 One_nat_def)
  qed
  moreover have "\<not> holds F t bad" using assms unfolding frames_ok_def by blast
  ultimately show ?thesis by (simp add: frame_def)
qed

lemma frame_same:
  assumes "frames_ok m p" and "same_state s u"
  shows "frame p i s \<longleftrightarrow> frame p i u"
proof -
  have "holds F s (fterm c) \<longleftrightarrow> holds F u (fterm c)" if "c \<in> clauses i p" for c
    using frames_okD(3) [OF assms(1) that] same_state_eval [OF assms(2)] by (simp add: over_def)
  then show ?thesis
    using same_state_eval [OF assms(2) init_syms] same_state_eval [OF assms(2) bad_syms] by (auto simp: frame_def)
qed

lemma frames_reach:
  assumes "frames_ok m p" and "reach F sys n s" and "n \<le> m"
  shows "frame p n s" and "\<not> holds F s bad"
proof -
  have "frame p n s \<and> \<not> holds F s bad"
    using assms(2,3)
  proof (induction rule: reach.induct)
    case (reach_init s)
    with frames_okD(4) [OF assms(1)] show ?case by (simp add: frame_def ts_initial_def)
  next
    case (reach_step n s s')
    then have "frame p (Suc n) s'" using frame_step [OF assms(1)] by simp
    then show ?case by (simp add: frame_def)
  qed
  then show "frame p n s" "\<not> holds F s bad" by simp_all
qed

lemma frames_no_cex: "frames_ok m p \<Longrightarrow> n \<le> m \<Longrightarrow> \<not> cex F sys bad n"
  using frames_reach(2) by (auto simp: cex_reach)

text \<open>When frame \<open>j\<close> has no clause of its own, frame \<open>j + 1\<close> is an inductive invariant.\<close>

lemma fixed_point:
  assumes "frames_ok m p" and "1 \<le> j" and "j < m" and "ic_frames p ! j = []" and "j < length (ic_frames p)"
  shows "ts_initial F sys s \<Longrightarrow> frame p (Suc j) s"
    and "frame p (Suc j) s \<Longrightarrow> stepof s t \<Longrightarrow> frame p (Suc j) t"
    and "frame p (Suc j) s \<Longrightarrow> \<not> holds F s bad"
proof -
  show "ts_initial F sys s \<Longrightarrow> frame p (Suc j) s"
    using frame_mono [OF assms(1), of 0 "Suc j" s] by (simp add: frame_def ts_initial_def)
  have "clauses j p = clauses (Suc j) p"
    using assms(4,5) unfolding clauses_def by (metis Cons_nth_drop_Suc append_Nil concat.simps(2))
  then have "frame p (Suc j) s = frame p j s" using assms(2) by (simp add: frame_def)
  then show "frame p (Suc j) s \<Longrightarrow> stepof s t \<Longrightarrow> frame p (Suc j) t"
    using frame_step [OF assms(1,3)] by blast
  show "frame p (Suc j) s \<Longrightarrow> \<not> holds F s bad" by (simp add: frame_def)
qed

subsection \<open>Labels\<close>

definition label_sym :: "string list \<Rightarrow> tm \<Rightarrow> bool" where
  "label_sym tab l \<longleftrightarrow> (\<exists>n. l = Sym n BOOL \<and> n \<in> set tab \<and> n \<notin> set (ts_declared sys))"

definition own_labels :: "('s, 'd) ic3 \<Rightarrow> tm set" where
  "own_labels p = {l. \<exists>t. map_of (ic_labels p) t = Some l \<and> l \<noteq> t}"

definition global_labels :: "('s, 'd) ic3 \<Rightarrow> tm list" where
  "global_labels p = ic_trans_label p # ic_bad_label p # ic_frame_labels p"

definition labels_ok :: "('s, 'd) ic3 \<Rightarrow> bool" where
  "labels_ok p \<longleftrightarrow> length (ic_frame_labels p) = length (ic_frames p)
     \<and> set (ts_declared sys) \<subseteq> set (ic_symtab p)
     \<and> (\<forall>l \<in> set (global_labels p) \<union> own_labels p. label_sym (ic_symtab p) l)
     \<and> distinct (global_labels p) \<and> set (global_labels p) \<inter> own_labels p = {}
     \<and> (\<forall>t l. map_of (ic_labels p) t = Some l \<longrightarrow> syms_in (ts_vars sys) t)
     \<and> (\<forall>t t' l. map_of (ic_labels p) t = Some l \<and> map_of (ic_labels p) t' = Some l \<and> l \<noteq> t \<and> l \<noteq> t' \<longrightarrow> t = t')"

lemma label_not_var:
  assumes "label_sym tab l"
  shows "l \<notin> ts_vars sys"
proof -
  from assms obtain n where "l = Sym n BOOL" "n \<notin> set (ts_declared sys)" by (auto simp: label_sym_def)
  with fresh_var [OF sys_wf] show ?thesis by simp
qed

text \<open>The labels can take any values; a term's own label can take the value of the term.\<close>

lemma label_model:
  assumes "labels_ok p" and "wsorted \<tau>"
  obtains \<sigma> where "wsorted \<sigma>" and "\<And>t. syms_in (ts_vars sys) t \<Longrightarrow> eval F \<sigma> t = eval F \<tau> t"
    and "\<And>i. i < length (ic_frames p) \<Longrightarrow> holds F \<sigma> (ic_frame_labels p ! i) \<longleftrightarrow> fv i"
    and "holds F \<sigma> (ic_trans_label p) \<longleftrightarrow> tv" and "holds F \<sigma> (ic_bad_label p) \<longleftrightarrow> bv"
    and "\<And>t l. map_of (ic_labels p) t = Some l \<Longrightarrow> holds F \<sigma> l \<longleftrightarrow> holds F \<tau> t"
proof -
  let ?G = "global_labels p" and ?L = "ic_frame_labels p"
  define g where "g l = (if l = ic_trans_label p then Some tv else if l = ic_bad_label p then Some bv
    else if l \<in> set ?L then Some (fv (SOME i. i < length ?L \<and> ?L ! i = l))
    else if l \<in> own_labels p then Some (holds F \<tau> (SOME t. map_of (ic_labels p) t = Some l \<and> l \<noteq> t)) else None)" for l
  define \<sigma> where "\<sigma> x = (case g (tm_of x) of Some b \<Rightarrow> BoolVal b | None \<Rightarrow> \<tau> x)" for x
  have lab: "label_sym (ic_symtab p) l" if "g l \<noteq> None" for l
  proof -
    have "l \<in> set ?G \<union> own_labels p" using that by (simp add: g_def global_labels_def split: if_splits)
    with assms(1) show ?thesis unfolding labels_ok_def by blast
  qed
  have "\<sigma> (n, st) \<in> carrier st" for n st
  proof (cases "g (Sym n st)")
    case None
    then show ?thesis using assms(2) by (simp add: \<sigma>_def wsorted_def)
  next
    case (Some b)
    with lab [of "Sym n st"] have "st = BOOL" by (auto simp: label_sym_def)
    with Some show ?thesis by (simp add: \<sigma>_def)
  qed
  then have w: "wsorted \<sigma>" by (simp add: wsorted_def)
  have e: "eval F \<sigma> t = eval F \<tau> t" if t: "syms_in (ts_vars sys) t" for t
  proof (rule eval_cong)
    fix x assume "x \<in> syms t"
    with t have "tm_of x \<in> ts_vars sys" by (simp add: syms_in_def)
    then have "g (tm_of x) = None" using lab label_not_var by blast
    then show "\<sigma> x = \<tau> x" by (simp add: \<sigma>_def)
  qed
  have val: "holds F \<sigma> l \<longleftrightarrow> b" if l: "g l = Some b" for l b
  proof -
    from lab [of l] l obtain n where "l = Sym n BOOL" by (auto simp: label_sym_def)
    with l show ?thesis by (simp add: \<sigma>_def)
  qed
  have dist: "distinct ?G" and len: "length ?L = length (ic_frames p)" and dj: "set ?G \<inter> own_labels p = {}"
    and cache: "\<And>t l. map_of (ic_labels p) t = Some l \<Longrightarrow> syms_in (ts_vars sys) t"
    and inj: "\<And>t t' l. map_of (ic_labels p) t = Some l \<Longrightarrow> map_of (ic_labels p) t' = Some l \<Longrightarrow> l \<noteq> t \<Longrightarrow> l \<noteq> t' \<Longrightarrow> t = t'"
    using assms(1) unfolding labels_ok_def by blast+
  show thesis
  proof (rule that [OF w e])
    show "holds F \<sigma> (ic_trans_label p) \<longleftrightarrow> tv" by (rule val) (simp add: g_def)
    show "holds F \<sigma> (ic_bad_label p) \<longleftrightarrow> bv" by (rule val) (use dist in \<open>auto simp: g_def global_labels_def\<close>)
  next
    fix i assume "i < length (ic_frames p)"
    then have i: "i < length ?L" using len by simp
    have "(SOME k. k < length ?L \<and> ?L ! k = ?L ! i) = i"
      by (rule some_equality) (use i dist in \<open>auto simp: global_labels_def nth_eq_iff_index_eq\<close>)
    with i dist show "holds F \<sigma> (?L ! i) \<longleftrightarrow> fv i"
      by (intro val) (auto simp: g_def global_labels_def dest: nth_mem)
  next
    fix t l assume t: "map_of (ic_labels p) t = Some l"
    show "holds F \<sigma> l \<longleftrightarrow> holds F \<tau> t"
    proof (cases "l = t")
      case True
      with e cache [OF t] show ?thesis by simp
    next
      case False
      with t have own: "l \<in> own_labels p" by (auto simp: own_labels_def)
      have "(SOME u. map_of (ic_labels p) u = Some l \<and> l \<noteq> u) = t"
        by (rule some_equality) (use t False inj in auto)
      moreover have "l \<notin> set ?G" using own dj by blast
      ultimately show ?thesis by (intro val) (use own in \<open>auto simp: g_def global_labels_def\<close>)
    qed
  qed
qed

subsection \<open>The solver at the base level\<close>

definition obeys :: "('s, 'd) ic3 \<Rightarrow> assignment \<Rightarrow> bool" where
  "obeys p \<sigma> \<longleftrightarrow> (\<forall>i < length (ic_frames p). holds F \<sigma> (ic_frame_labels p ! i) \<longrightarrow> frame p i \<sigma>)
     \<and> (holds F \<sigma> (ic_trans_label p) \<longrightarrow> holds F \<sigma> (ts_trans sys))
     \<and> (holds F \<sigma> (ic_bad_label p) \<longrightarrow> holds F \<sigma> bad)"

text \<open>The label of a frame activates at least the frame's own clauses.\<close>

definition activates :: "('s, 'd) ic3 \<Rightarrow> assignment \<Rightarrow> bool" where
  "activates p \<sigma> \<longleftrightarrow> (holds F \<sigma> (ic_frame_labels p ! 0) \<longrightarrow> holds F \<sigma> (ts_init sys))
     \<and> (holds F \<sigma> (ic_trans_label p) \<longrightarrow> holds F \<sigma> (ts_trans sys))
     \<and> (\<forall>i. 1 \<le> i \<and> i < length (ic_frames p) \<and> holds F \<sigma> (ic_frame_labels p ! i) \<longrightarrow>
          \<not> holds F \<sigma> bad \<and> (\<forall>c \<in> set (ic_frames p ! i). holds F \<sigma> (fterm c)))"

definition solver_ok :: "('s, 'd) ic3 \<Rightarrow> bool" where
  "solver_ok p \<longleftrightarrow> (\<forall>\<sigma>. wsorted \<sigma> \<and> obeys p \<sigma> \<longrightarrow> (\<forall>t \<in> asserted (pr_solver p). holds F \<sigma> t))
     \<and> (\<forall>\<sigma>. (\<forall>t \<in> asserted (pr_solver p). holds F \<sigma> t) \<longrightarrow> activates p \<sigma>)"

definition engine_ok :: "('s, 'd) ic3 \<Rightarrow> bool" where
  "engine_ok p \<longleftrightarrow> labels_ok p \<and> solver_ok p \<and> \<not> ic_approx p \<and> Q (ic_data p) \<and> frames (pr_solver p) \<noteq> []"

text \<open>An unsatisfiable query at frame \<open>i\<close>: no such state exists.\<close>

lemma frame_formulas_hold:
  assumes "labels_ok p" and "\<And>j. j < length (ic_frames p) \<Longrightarrow> holds F \<sigma> (ic_frame_labels p ! j) \<longleftrightarrow> i \<le> j"
  shows "all_hold F \<sigma> (frame_label_formulas N i p)"
proof -
  have len: "length (ic_frame_labels p) = length (ic_frames p)" using assms(1) by (simp add: labels_ok_def)
  have "holds F \<sigma> (if j < i then mk_term B (op0 NotOp) [l] else l)" if "(j, l) \<in> set (enumerate 0 (ic_frame_labels p))" for j l
  proof -
    from that have "j < length (ic_frames p)" "ic_frame_labels p ! j = l" by (auto simp: in_set_enumerate_eq len)
    with assms(2) [of j] show ?thesis by auto
  qed
  then show ?thesis unfolding frame_label_formulas_def by auto
qed

lemma query_model:
  assumes "engine_ok p" and "frames_ok m p" and "wsorted \<tau>" and "frame p i \<tau>" and "holds F \<tau> (ts_trans sys)"
  obtains \<sigma> where "wsorted \<sigma>" and "\<And>t. syms_in (ts_vars sys) t \<Longrightarrow> eval F \<sigma> t = eval F \<tau> t"
    and "\<And>t. t \<in> asserted (pr_solver p) \<Longrightarrow> holds F \<sigma> t"
    and "all_hold F \<sigma> (frame_label_formulas N i p)" and "holds F \<sigma> (ic_trans_label p)"
    and "\<And>t l. map_of (ic_labels p) t = Some l \<Longrightarrow> holds F \<sigma> l \<longleftrightarrow> holds F \<tau> t"
proof -
  have lab: "labels_ok p" using assms(1) by (simp add: engine_ok_def)
  obtain \<sigma> where s: "wsorted \<sigma>" "\<And>t. syms_in (ts_vars sys) t \<Longrightarrow> eval F \<sigma> t = eval F \<tau> t"
    "\<And>j. j < length (ic_frames p) \<Longrightarrow> holds F \<sigma> (ic_frame_labels p ! j) \<longleftrightarrow> i \<le> j"
    "holds F \<sigma> (ic_trans_label p) \<longleftrightarrow> True" "holds F \<sigma> (ic_bad_label p) \<longleftrightarrow> False"
    "\<And>t l. map_of (ic_labels p) t = Some l \<Longrightarrow> holds F \<sigma> l \<longleftrightarrow> holds F \<tau> t"
    by (rule label_model [OF lab assms(3), where fv = "\<lambda>j. i \<le> j" and tv = True and bv = False]) blast
  have sv: "SV \<subseteq> ts_vars sys" by (auto simp: ts_vars_def)
  have "frame p j \<sigma> \<longleftrightarrow> frame p j \<tau>" for j
  proof -
    have "eval F \<sigma> (fterm c) = eval F \<tau> (fterm c)" if "c \<in> clauses j p" for c
      using frames_okD(3) [OF assms(2) that] s(2) syms_in_mono [OF _ sv] by (simp add: over_def)
    then show ?thesis using s(2) syms_in_mono [OF init_syms sv] syms_in_mono [OF bad_syms sv] by (auto simp: frame_def)
  qed
  then have "obeys p \<sigma>"
    using s(3,4,5) frame_mono [OF assms(2) _ assms(3,4)] s(2) [OF trans_syms] assms(5) by (simp add: obeys_def)
  with assms(1) s(1) have "\<And>t. t \<in> asserted (pr_solver p) \<Longrightarrow> holds F \<sigma> t" by (auto simp: engine_ok_def solver_ok_def)
  with that [OF s(1,2)] s(4,6) frame_formulas_hold [OF lab s(3)] show thesis by blast
qed

text \<open>A satisfiable one: the model is a state of the frame.\<close>

lemma query_frame:
  assumes "engine_ok p" and "frames_ok m p" and "\<And>t. t \<in> asserted (pr_solver p) \<Longrightarrow> holds F \<sigma> t"
    and "all_hold F \<sigma> (frame_label_formulas N i p)" and "i < length (ic_frames p)"
  shows "frame p i \<sigma>"
proof -
  have len: "length (ic_frame_labels p) = length (ic_frames p)" using assms(1) by (simp add: engine_ok_def labels_ok_def)
  have act: "activates p \<sigma>" using assms(1,3) by (simp add: engine_ok_def solver_ok_def)
  have lab: "holds F \<sigma> (ic_frame_labels p ! j)" if "i \<le> j" "j < length (ic_frames p)" for j
  proof -
    have "(j, ic_frame_labels p ! j) \<in> set (enumerate 0 (ic_frame_labels p))" using that len by (simp add: in_set_enumerate_eq)
    then have "ic_frame_labels p ! j \<in> set (frame_label_formulas N i p)"
      using that(1) unfolding frame_label_formulas_def by force
    with assms(4) show ?thesis by blast
  qed
  show ?thesis
  proof (cases "i = 0")
    case True
    with act lab [of 0] assms(5) show ?thesis by (simp add: frame_def activates_def)
  next
    case False
    have "holds F \<sigma> (fterm c)" if "c \<in> clauses i p" for c
      using that act lab False unfolding clauses_level activates_def by (metis One_nat_def Suc_leI le_trans neq0_conv)
    with False act lab [of i] assms(5) show ?thesis by (auto simp: frame_def activates_def)
  qed
qed

end

end
