(* ===== verification/Ic3_Queries.thy ===== *)
theory Ic3_Queries
  imports Ic3_Invariant
begin

section \<open>The queries of IC3\<close>

text \<open>
  Every query works above the base level of the assertion stack and restores it: \<open>keeps p q\<close>
  says that only the caches of labels, the counters and the solver's model may differ.  The main
  result is \<open>rel_ind\<close>: what the two answers of a relative-induction check mean for the frames.
\<close>

context ic3_engine
begin

definition model_of :: "'s \<Rightarrow> assignment \<Rightarrow> bool" where
  "model_of s \<sigma> \<longleftrightarrow> wsorted \<sigma> \<and> (\<forall>t. s_get_value S s t = Val (eval F \<sigma> t) (get_sort t))"

definition same_members :: "('s, 'd) ic3 \<Rightarrow> ('s, 'd) ic3 \<Rightarrow> bool" where
  "same_members p q \<longleftrightarrow> ic_frames q = ic_frames p \<and> ic_frame_labels q = ic_frame_labels p
     \<and> ic_trans_label q = ic_trans_label p \<and> ic_bad_label q = ic_bad_label p \<and> ic_approx q = ic_approx p
     \<and> ic_data q = ic_data p \<and> pr_reached_k q = pr_reached_k p \<and> ic_request q = ic_request p
     \<and> pr_witness q = pr_witness p \<and> ic_reset_failed q = ic_reset_failed p"

definition keeps :: "('s, 'd) ic3 \<Rightarrow> ('s, 'd) ic3 \<Rightarrow> bool" where
  "keeps p q \<longleftrightarrow> same_members p q \<and> frames (pr_solver q) = frames (pr_solver p) \<and> (labels_ok p \<longrightarrow> labels_ok q)"

lemma same_members_refl [simp]: "same_members p p"
  by (simp add: same_members_def)

lemma same_members_trans: "same_members p q \<Longrightarrow> same_members q r \<Longrightarrow> same_members p r"
  by (simp add: same_members_def)

lemma keeps_refl [simp]: "keeps p p"
  by (simp add: keeps_def)

lemma keeps_trans: "keeps p q \<Longrightarrow> keeps q r \<Longrightarrow> keeps p r"
  by (auto simp: keeps_def dest: same_members_trans)

lemma frame_cong: "ic_frames q = ic_frames p \<Longrightarrow> frame q = frame p"
  by (simp add: frame_def clauses_def fun_eq_iff)

lemma frames_ok_cong: "ic_frames q = ic_frames p \<Longrightarrow> frames_ok m q = frames_ok m p"
  using frame_cong [of q p] unfolding frames_ok_def clauses_def by simp

lemma solver_ok_cong:
  assumes "same_members p q" and "asserted (pr_solver q) = asserted (pr_solver p)"
  shows "solver_ok q = solver_ok p"
proof -
  note m = assms(1) [unfolded same_members_def]
  have f: "frame q = frame p" using frame_cong m by blast
  have "ic_frames q = ic_frames p" "ic_frame_labels q = ic_frame_labels p" "ic_trans_label q = ic_trans_label p"
    "ic_bad_label q = ic_bad_label p" using m by blast+
  note m' = this f
  have o: "obeys q \<sigma> = obeys p \<sigma>" "activates q \<sigma> = activates p \<sigma>" for \<sigma> unfolding obeys_def activates_def m' by (rule refl)+
  show ?thesis unfolding solver_ok_def assms(2) o by (rule refl)
qed

lemma keeps_ok:
  assumes "keeps p q"
  shows "engine_ok p \<Longrightarrow> engine_ok q" and "frames_ok m q = frames_ok m p" and "frame q = frame p"
    and "ic_frames q = ic_frames p" and "frontier_idx q = frontier_idx p"
proof -
  have "asserted (pr_solver q) = asserted (pr_solver p)" using assms by (simp add: keeps_def asserted_def)
  with solver_ok_cong [of p q] assms show "engine_ok p \<Longrightarrow> engine_ok q"
    by (simp add: engine_ok_def keeps_def same_members_def)
  show f: "ic_frames q = ic_frames p" using assms by (simp add: keeps_def same_members_def)
  show "frames_ok m q = frames_ok m p" "frame q = frame p" using frames_ok_cong [OF f] frame_cong [OF f] by blast+
  show "frontier_idx q = frontier_idx p" using f by (simp add: frontier_idx_def)
qed

subsection \<open>Single checks\<close>

lemma ic3_assert_fields [simp]:
  "same_members p (ic3_assert N ts p)" "ic_labels (ic3_assert N ts p) = ic_labels p"
  "ic_symtab (ic3_assert N ts p) = ic_symtab p" "pr_solver (ic3_assert N ts p) = asserts S ts (pr_solver p)"
  by (simp_all add: ic3_assert_def on_solver_def same_members_def)

lemma push_fields [simp]:
  "same_members p (push_solver_context N p)" "ic_labels (push_solver_context N p) = ic_labels p"
  "ic_symtab (push_solver_context N p) = ic_symtab p" "pr_solver (push_solver_context N p) = s_push S (pr_solver p)"
  by (simp_all add: push_solver_context_def on_solver_def same_members_def)

lemma pop_fields [simp]:
  "same_members p (pop_solver_context N p)" "ic_labels (pop_solver_context N p) = ic_labels p"
  "ic_symtab (pop_solver_context N p) = ic_symtab p" "pr_solver (pop_solver_context N p) = s_pop S (pr_solver p)"
  by (simp_all add: pop_solver_context_def on_solver_def same_members_def)

lemma labels_ok_cong:
  "same_members p q \<Longrightarrow> ic_labels q = ic_labels p \<Longrightarrow> ic_symtab q = ic_symtab p \<Longrightarrow> labels_ok q = labels_ok p"
  by (simp add: labels_ok_def same_members_def own_labels_def global_labels_def)

lemma asserted_asserts [simp]: "asserted (asserts S ts s) = set ts \<union> asserted s"
  unfolding asserts_def by (induction ts arbitrary: s) auto

lemma tl_asserts:
  assumes "frames s \<noteq> []"
  shows "tl (frames (asserts S ts s)) = tl (frames s)" and "frames (asserts S ts s) \<noteq> []"
proof -
  have "tl (frames (asserts S ts s)) = tl (frames s) \<and> frames (asserts S ts s) \<noteq> []"
    using assms unfolding asserts_def
  proof (induction ts arbitrary: s)
    case (Cons t ts)
    from Cons.prems have "tl (frames (s_assert S t s)) = tl (frames s)" "frames (s_assert S t s) \<noteq> []"
      by (simp_all add: frames_assert split: list.splits)
    with Cons.IH [of "s_assert S t s"] show ?case by simp
  qed simp
  then show "tl (frames (asserts S ts s)) = tl (frames s)" "frames (asserts S ts s) \<noteq> []" by simp_all
qed

lemma check_assuming_spec:
  assumes "ic3_check_assuming N as p = (r, q)"
  shows "same_members p q" and "ic_labels q = ic_labels p" and "ic_symtab q = ic_symtab p"
    and "frames (pr_solver q) = frames (pr_solver p)" and "r \<noteq> UNKNOWN"
    and "r = SAT \<Longrightarrow> \<exists>\<sigma>. model_of (pr_solver q) \<sigma> \<and> (\<forall>t \<in> asserted (pr_solver p) \<union> set as. holds F \<sigma> t)"
    and "r = UNSAT \<Longrightarrow> set (s_unsat_core S (pr_solver q)) \<subseteq> set as
      \<and> (\<forall>\<sigma>. wsorted \<sigma> \<longrightarrow> (\<exists>t \<in> asserted (pr_solver p) \<union> set (s_unsat_core S (pr_solver q)). \<not> holds F \<sigma> t))"
proof -
  obtain s where c: "s_check_assuming S as (pr_solver p) = (r, s)"
    and q: "q = p\<lparr>pr_solver := s, ic_checks := ic_checks p + 1\<rparr>"
    using assms by (auto simp: ic3_check_assuming_def Let_def split: prod.splits)
  show "same_members p q" "ic_labels q = ic_labels p" "ic_symtab q = ic_symtab p"
    by (simp_all add: q same_members_def)
  show "frames (pr_solver q) = frames (pr_solver p)" using frames_check [OF c] by (simp add: q)
  show "r \<noteq> UNKNOWN" using decides c by metis
  show "\<exists>\<sigma>. model_of (pr_solver q) \<sigma> \<and> (\<forall>t \<in> asserted (pr_solver p) \<union> set as. holds F \<sigma> t)" if "r = SAT"
  proof (rule check_SAT_model [OF c [unfolded that]])
    fix \<sigma> assume "wsorted \<sigma>" "\<And>t. t \<in> asserted (pr_solver p) \<Longrightarrow> holds F \<sigma> t"
      "\<And>t. t \<in> set as \<Longrightarrow> holds F \<sigma> t" "\<And>t. s_get_value S s t = Val (eval F \<sigma> t) (get_sort t)"
    then show ?thesis by (intro exI [of _ \<sigma>]) (auto simp: model_of_def q)
  qed
  show "set (s_unsat_core S (pr_solver q)) \<subseteq> set as
      \<and> (\<forall>\<sigma>. wsorted \<sigma> \<longrightarrow> (\<exists>t \<in> asserted (pr_solver p) \<union> set (s_unsat_core S (pr_solver q)). \<not> holds F \<sigma> t))"
    if "r = UNSAT"
    using core_UNSAT [OF c [unfolded that]] unfolding q satisfiable_def asserted_def by auto
qed

text \<open>Push, assert, check, pop.\<close>

lemma query_spec:
  assumes "ic3_check N (ic3_assert N X (push_solver_context N p)) = (r, q)"
  shows "keeps p (pop_solver_context N q)" and "same_members p q" and "r \<noteq> UNKNOWN"
    and "r = SAT \<Longrightarrow> \<exists>\<sigma>. model_of (pr_solver q) \<sigma> \<and> (\<forall>t \<in> asserted (pr_solver p) \<union> set X. holds F \<sigma> t)"
    and "r = UNSAT \<Longrightarrow> wsorted \<sigma> \<Longrightarrow> \<exists>t \<in> asserted (pr_solver p) \<union> set X. \<not> holds F \<sigma> t"
proof -
  let ?p = "ic3_assert N X (push_solver_context N p)"
  note c = check_assuming_spec [OF assms]
  have fr: "tl (frames (pr_solver ?p)) = frames (pr_solver p)"
    using tl_asserts(1) [of "s_push S (pr_solver p)" X] by (simp add: frames_push)
  have as: "asserted (pr_solver ?p) = set X \<union> asserted (pr_solver p)" by simp
  show m: "same_members p q" using c(1) same_members_trans [OF _ same_members_trans] push_fields(1) ic3_assert_fields(1) by metis
  have l: "ic_labels q = ic_labels p" "ic_symtab q = ic_symtab p" using c(2,3) by simp_all
  show "keeps p (pop_solver_context N q)"
    using m l c(4) fr labels_ok_cong [of p "pop_solver_context N q"] same_members_trans [OF m pop_fields(1)]
    by (simp add: keeps_def frames_pop)
  show "r \<noteq> UNKNOWN" by (rule c(5))
  show "\<exists>\<sigma>. model_of (pr_solver q) \<sigma> \<and> (\<forall>t \<in> asserted (pr_solver p) \<union> set X. holds F \<sigma> t)" if "r = SAT"
    using c(6) [OF that] unfolding as by auto
  show "\<exists>t \<in> asserted (pr_solver p) \<union> set X. \<not> holds F \<sigma> t" if "r = UNSAT" "wsorted \<sigma>"
    using c(7) [OF that(1)] that(2) unfolding as by auto
qed

lemma assert_append: "ic3_assert N Y (ic3_assert N X p) = ic3_assert N (X @ Y) p"
  by (simp add: ic3_assert_def on_solver_def asserts_def)

lemma assert_labels: "assert_frame_labels N i (push_solver_context N p)
    = ic3_assert N (frame_label_formulas N i p) (push_solver_context N p)"
  by (simp add: assert_frame_labels_def frame_label_formulas_def push_solver_context_def on_solver_def)

text \<open>A negative answer of \<open>check_intersects_initial\<close>: no initial state is in the formula.\<close>

lemma check_intersects_spec:
  assumes "check_intersects N a b p = (hit, q)"
  shows "keeps p q"
  using assms query_spec(1) by (auto simp: check_intersects_def Let_def split: prod.splits)

lemma intersects_initial:
  assumes "check_intersects_initial N t p = (hit, q)" and "engine_ok p" and "ic_frames p \<noteq> []"
  shows "hit \<Longrightarrow> \<exists>s. ts_initial F sys s \<and> holds F s t"
    and "syms_in SV t \<Longrightarrow> \<not> hit \<Longrightarrow> ts_initial F sys s \<Longrightarrow> \<not> holds F s t"
proof -
  note e = assms(2,3)
  let ?X = "[ic_frame_labels p ! 0, t]"
  obtain r q' where c: "ic3_check N (ic3_assert N ?X (push_solver_context N p)) = (r, q')"
    and q: "q = pop_solver_context N q'" "hit = (r = SAT)"
    using assms(1) by (auto simp: check_intersects_initial_def check_intersects_def Let_def split: prod.splits)
  show "\<exists>s. ts_initial F sys s \<and> holds F s t" if hit
  proof -
    from query_spec(4) [OF c] that q(2) obtain \<sigma> where m: "model_of (pr_solver q') \<sigma>"
      "\<forall>t \<in> asserted (pr_solver p). holds F \<sigma> t" "holds F \<sigma> (ic_frame_labels p ! 0)" "holds F \<sigma> t" by auto
    have "activates p \<sigma>" using e(1) m(2) by (simp add: engine_ok_def solver_ok_def)
    with m(1,3) have "ts_initial F sys \<sigma>" by (simp add: activates_def ts_initial_def model_of_def)
    with m(4) show ?thesis by blast
  qed
  show "\<not> holds F s t" if t: "syms_in SV t" and h: "\<not> hit" and s: "ts_initial F sys s"
  proof
    assume ht: "holds F s t"
    from h query_spec(3) [OF c] have "r = UNSAT" using q(2) by (cases r) simp_all
    have lab: "labels_ok p" using e(1) by (simp add: engine_ok_def)
    have w: "wsorted s" using s by (simp add: ts_initial_def)
    obtain \<sigma> where m: "wsorted \<sigma>" "\<And>t. syms_in (ts_vars sys) t \<Longrightarrow> eval F \<sigma> t = eval F s t"
      "\<And>j. j < length (ic_frames p) \<Longrightarrow> holds F \<sigma> (ic_frame_labels p ! j) \<longleftrightarrow> j = 0"
      "holds F \<sigma> (ic_trans_label p) \<longleftrightarrow> False" "holds F \<sigma> (ic_bad_label p) \<longleftrightarrow> False"
      by (rule label_model [OF lab w, where fv = "\<lambda>j. j = 0" and tv = False and bv = False]) blast
    have sv: "SV \<subseteq> ts_vars sys" by (auto simp: ts_vars_def)
    have i: "holds F \<sigma> (ts_init sys)" using m(2) [OF syms_in_mono [OF init_syms sv]] s by (simp add: ts_initial_def)
    have "obeys p \<sigma>" using m(3,4,5) i by (auto simp: obeys_def frame_def)
    then have "\<forall>u \<in> asserted (pr_solver p). holds F \<sigma> u" using e(1) m(1) by (simp add: engine_ok_def solver_ok_def)
    moreover have "holds F \<sigma> (ic_frame_labels p ! 0)" using m(3) [of 0] e(2) by simp
    moreover have "holds F \<sigma> t" using m(2) [OF syms_in_mono [OF t sv]] ht by simp
    ultimately show False using query_spec(5) [OF c \<open>r = UNSAT\<close> m(1)] by auto
  qed
qed

lemma intersects_initial_spec:
  assumes "check_intersects_initial N t p = (hit, q)"
  shows "keeps p q"
    and "engine_ok p \<Longrightarrow> frames_ok m p \<Longrightarrow> syms_in SV t \<Longrightarrow> \<not> hit \<Longrightarrow> ts_initial F sys s \<Longrightarrow> \<not> holds F s t"
proof -
  show "keeps p q" using check_intersects_spec assms by (simp add: check_intersects_initial_def)
  show "engine_ok p \<Longrightarrow> frames_ok m p \<Longrightarrow> syms_in SV t \<Longrightarrow> \<not> hit \<Longrightarrow> ts_initial F sys s \<Longrightarrow> \<not> holds F s t"
    using intersects_initial(2) [OF assms] frames_okD(1) by fastforce
qed

subsection \<open>Labels of the conjuncts\<close>

lemma label_symbol_fresh:
  "label_symbol b t n i tab = Inr (l, tab') \<Longrightarrow> \<exists>m. l = Sym m BOOL \<and> m \<notin> set tab \<and> tab' = m # tab"
proof (induction n arbitrary: i)
  case (Suc n)
  show ?case
  proof (cases "make_symbol (label_name b t i) BOOL tab")
    case (Inr r)
    with Suc.prems show ?thesis by (auto simp: make_symbol_def)
  next
    case (Inl e)
    with Suc.prems Suc.IH show ?thesis by simp
  qed
qed simp

lemma label_spec:
  assumes "label N t p = Inr (l, q)" and "labels_ok p" and t: "syms_in (ts_vars sys) t"
  shows "same_members p q" and "pr_solver q = pr_solver p" and "labels_ok q"
    and "map_of (ic_labels q) t = Some l" and "\<And>u m. map_of (ic_labels p) u = Some m \<Longrightarrow> map_of (ic_labels q) u = Some m"
    and "l \<noteq> t \<Longrightarrow> \<not> is_global_label q l"
proof -
  have "same_members p q \<and> pr_solver q = pr_solver p \<and> labels_ok q \<and> map_of (ic_labels q) t = Some l
      \<and> (\<forall>u m. map_of (ic_labels p) u = Some m \<longrightarrow> map_of (ic_labels q) u = Some m)"
  proof (cases "map_of (ic_labels p) t")
    case (Some l')
    with assms(1,2) show ?thesis by (simp add: label_def)
  next
    case None
    with assms(1) obtain tab where tab: "(if ie_lit N t then Inr (t, ic_symtab p)
        else label_symbol B t (Suc (length (ic_symtab p))) 0 (ic_symtab p)) = Inr (l, tab)"
      and q: "q = p\<lparr>ic_symtab := tab, ic_labels := AList.update t l (ic_labels p)\<rparr>"
      by (auto simp: label_def bindE_Inr_iff)
    have m: "same_members p q" by (simp add: q same_members_def)
    have g: "global_labels q = global_labels p" by (simp add: q global_labels_def)
    have new: "map_of (ic_labels q) u = (if u = t then Some l else map_of (ic_labels p) u)" for u
      by (simp add: q)
    have "labels_ok q"
    proof (cases "l = t")
      case True
      have o: "own_labels q = own_labels p"
        unfolding own_labels_def new using None True by (metis (lifting) option.distinct(1) option.inject)
      have "set (ic_symtab p) \<subseteq> set tab"
      proof (cases "ie_lit N t")
        case False
        then have "label_symbol B t (Suc (length (ic_symtab p))) 0 (ic_symtab p) = Inr (l, tab)" using tab by simp
        from label_symbol_fresh [OF this] show ?thesis by auto
      qed (use tab in simp)
      then have ls: "label_sym (ic_symtab p) m \<Longrightarrow> label_sym (ic_symtab q) m" for m by (auto simp: label_sym_def q)
      have "\<forall>u k. map_of (ic_labels q) u = Some k \<longrightarrow> syms_in (ts_vars sys) u"
        using assms(2) t unfolding new labels_ok_def by (metis (full_types))
      moreover have "length (ic_frame_labels q) = length (ic_frames q)" "set (ts_declared sys) \<subseteq> set (ic_symtab q)"
        using assms(2) \<open>set (ic_symtab p) \<subseteq> set tab\<close> by (auto simp: labels_ok_def q)
      moreover have "distinct (global_labels q)" "set (global_labels q) \<inter> own_labels q = {}"
        using assms(2) by (auto simp: labels_ok_def g o)
      moreover have "\<forall>k \<in> set (global_labels q) \<union> own_labels q. label_sym (ic_symtab q) k"
        using assms(2) ls unfolding labels_ok_def g o by blast
      moreover have "\<forall>t1 t2 k. map_of (ic_labels q) t1 = Some k \<and> map_of (ic_labels q) t2 = Some k \<and> k \<noteq> t1 \<and> k \<noteq> t2
          \<longrightarrow> t1 = t2"
        using assms(2) True unfolding new labels_ok_def by (metis option.inject)
      ultimately show ?thesis unfolding labels_ok_def by blast
    next
      case False
      with tab have "label_symbol B t (Suc (length (ic_symtab p))) 0 (ic_symtab p) = Inr (l, tab)"
        by (auto split: if_splits)
      from label_symbol_fresh [OF this] obtain m where fr: "l = Sym m BOOL" "m \<notin> set (ic_symtab p)" "tab = m # ic_symtab p"
        by blast
      have dec: "set (ts_declared sys) \<subseteq> set (ic_symtab p)"
        and old: "\<forall>k \<in> set (global_labels p) \<union> own_labels p. label_sym (ic_symtab p) k"
        using assms(2) unfolding labels_ok_def by blast+
      have "\<not> label_sym (ic_symtab p) l" using fr(1,2) by (simp add: label_sym_def)
      with old have fresh: "l \<notin> set (global_labels p) \<union> own_labels p" by blast
      have o: "own_labels q = insert l (own_labels p)"
      proof (intro set_eqI iffI)
        fix k assume "k \<in> own_labels q"
        then obtain u where "(if u = t then Some l else map_of (ic_labels p) u) = Some k" "k \<noteq> u"
          unfolding own_labels_def new by blast
        then show "k \<in> insert l (own_labels p)" by (cases "u = t") (auto simp: own_labels_def)
      next
        fix k assume "k \<in> insert l (own_labels p)"
        then have "\<exists>u. (if u = t then Some l else map_of (ic_labels p) u) = Some k \<and> k \<noteq> u"
        proof
          assume "k = l"
          with False show ?thesis by (intro exI [of _ t]) simp
        next
          assume "k \<in> own_labels p"
          then obtain u where u: "map_of (ic_labels p) u = Some k" "k \<noteq> u" unfolding own_labels_def by blast
          with None have "u \<noteq> t" by auto
          with u show ?thesis by (intro exI [of _ u]) simp
        qed
        then show "k \<in> own_labels q" unfolding own_labels_def new by blast
      qed
      have nl: "label_sym (ic_symtab q) l" using fr dec by (auto simp: label_sym_def q)
      have ol: "label_sym (ic_symtab p) k \<Longrightarrow> label_sym (ic_symtab q) k" for k by (auto simp: label_sym_def q fr(3))
      have inj: "t1 = t2" if "map_of (ic_labels q) t1 = Some k" "map_of (ic_labels q) t2 = Some k" "k \<noteq> t1" "k \<noteq> t2" for t1 t2 k
      proof -
        have old_key: "k \<noteq> l" if "map_of (ic_labels p) u = Some k" "k \<noteq> u" for u
          using that fresh by (auto simp: own_labels_def)
        with that assms(2) show ?thesis unfolding new labels_ok_def by (metis option.inject)
      qed
      have "\<forall>u k. map_of (ic_labels q) u = Some k \<longrightarrow> syms_in (ts_vars sys) u"
        using assms(2) t unfolding new labels_ok_def by (metis (full_types))
      moreover have "length (ic_frame_labels q) = length (ic_frames q)" "set (ts_declared sys) \<subseteq> set (ic_symtab q)"
        using assms(2) dec by (auto simp: labels_ok_def q fr(3))
      moreover have "distinct (global_labels q)" "set (global_labels q) \<inter> own_labels q = {}"
        using assms(2) fresh by (auto simp: labels_ok_def g o)
      moreover have "\<forall>k \<in> set (global_labels q) \<union> own_labels q. label_sym (ic_symtab q) k"
        using old ol nl unfolding g o by blast
      ultimately show ?thesis using inj unfolding labels_ok_def by blast
    qed
    with m new None show ?thesis by (auto simp: q)
  qed
  then show "same_members p q" "pr_solver q = pr_solver p" "map_of (ic_labels q) t = Some l"
    "\<And>u m. map_of (ic_labels p) u = Some m \<Longrightarrow> map_of (ic_labels q) u = Some m" and lab: "labels_ok q" by blast+
  assume "l \<noteq> t"
  with \<open>map_of (ic_labels q) t = Some l\<close> have "l \<in> own_labels q" unfolding own_labels_def by blast
  moreover have "set (global_labels q) \<inter> own_labels q = {}" using lab unfolding labels_ok_def by blast
  ultimately show "\<not> is_global_label q l" by (auto simp: is_global_label_def global_labels_def)
qed

definition label_links :: "('s, 'd) ic3 \<Rightarrow> tm set" where
  "label_links p = {ic3_implies N l t | l t. map_of (ic_labels p) t = Some l}"

lemma label_links_mono:
  "(\<And>u m. map_of (ic_labels p) u = Some m \<Longrightarrow> map_of (ic_labels q) u = Some m) \<Longrightarrow> label_links p \<subseteq> label_links q"
  unfolding label_links_def by blast

lemma label_children_spec:
  assumes "foldE (label_child N) cs (as, p) = Inr (as', q)" and "labels_ok p" and "frames (pr_solver p) \<noteq> []"
    and "\<And>c. c \<in> set cs \<Longrightarrow> syms_in SV c"
  shows "same_members p q \<and> labels_ok q \<and> tl (frames (pr_solver q)) = tl (frames (pr_solver p))
    \<and> (\<forall>u m. map_of (ic_labels p) u = Some m \<longrightarrow> map_of (ic_labels q) u = Some m)
    \<and> asserted (pr_solver p) \<subseteq> asserted (pr_solver q) \<and> asserted (pr_solver q) \<subseteq> asserted (pr_solver p) \<union> label_links q
    \<and> (\<exists>ls. as' = as @ ls \<and> length ls = length cs \<and> (\<forall>k < length cs. map_of (ic_labels q) (nextof (cs ! k)) = Some (ls ! k)
          \<and> (ls ! k = nextof (cs ! k) \<or> ic3_implies N (ls ! k) (nextof (cs ! k)) \<in> asserted (pr_solver q))))"
  using assms
proof (induction cs arbitrary: as p)
  case Nil
  then show ?case by simp
next
  case (Cons c cs)
  let ?t = "nextof c"
  from Cons.prems(1) obtain l p1 where l: "label N ?t p = Inr (l, p1)"
    and r: "foldE (label_child N) cs (as @ [l], if l \<noteq> ?t \<and> \<not> is_global_label p1 l
        then ic3_assert N [ic3_implies N l ?t] p1 else p1) = Inr (as', q)"
    by (auto simp: label_child_def [of N c] bindE_Inr_iff Let_def)
  have "syms_in (ts_vars sys) ?t" using nextof_syms Cons.prems(4) by simp
  note s = label_spec [OF l Cons.prems(2) this]
  let ?p = "if l \<noteq> ?t \<and> \<not> is_global_label p1 l then ic3_assert N [ic3_implies N l ?t] p1 else p1"
  have p2: "same_members p1 ?p" "ic_labels ?p = ic_labels p1" "ic_symtab ?p = ic_symtab p1" by simp_all
  have fr: "tl (frames (pr_solver ?p)) = tl (frames (pr_solver p)) \<and> frames (pr_solver ?p) \<noteq> []"
    using tl_asserts [of "pr_solver p1" "[ic3_implies N l ?t]"] s(2) Cons.prems(3) by simp
  have as: "asserted (pr_solver ?p) = (if l \<noteq> ?t then {ic3_implies N l ?t} else {}) \<union> asserted (pr_solver p)"
    using s(2,6) by auto
  have "labels_ok ?p" using labels_ok_cong [OF p2] s(3) by simp
  from Cons.IH [OF r this conjunct2 [OF fr]] Cons.prems(4) obtain ls where
    ih: "same_members ?p q" "labels_ok q" "tl (frames (pr_solver q)) = tl (frames (pr_solver ?p))"
      "\<forall>u m. map_of (ic_labels ?p) u = Some m \<longrightarrow> map_of (ic_labels q) u = Some m"
      "asserted (pr_solver ?p) \<subseteq> asserted (pr_solver q)" "asserted (pr_solver q) \<subseteq> asserted (pr_solver ?p) \<union> label_links q"
      "as' = (as @ [l]) @ ls" "length ls = length cs"
      "\<forall>k < length cs. map_of (ic_labels q) (nextof (cs ! k)) = Some (ls ! k)
          \<and> (ls ! k = nextof (cs ! k) \<or> ic3_implies N (ls ! k) (nextof (cs ! k)) \<in> asserted (pr_solver q))"
    by auto
  have lq: "map_of (ic_labels q) ?t = Some l" using ih(4) s(4) p2(2) by simp
  then have "ic3_implies N l ?t \<in> label_links q" by (auto simp: label_links_def)
  then have up: "asserted (pr_solver q) \<subseteq> asserted (pr_solver p) \<union> label_links q" using ih(6) unfolding as
    by (cases "l = ?t") auto
  have lo: "asserted (pr_solver p) \<subseteq> asserted (pr_solver q)" "l = ?t \<or> ic3_implies N l ?t \<in> asserted (pr_solver q)"
    using ih(5) unfolding as by (auto split: if_splits)
  have ext: "\<forall>u m. map_of (ic_labels p) u = Some m \<longrightarrow> map_of (ic_labels q) u = Some m"
    using s(5) ih(4) p2(2) by simp
  have el: "\<forall>k < length (c # cs). map_of (ic_labels q) (nextof ((c # cs) ! k)) = Some ((l # ls) ! k)
      \<and> ((l # ls) ! k = nextof ((c # cs) ! k) \<or> ic3_implies N ((l # ls) ! k) (nextof ((c # cs) ! k)) \<in> asserted (pr_solver q))"
    using ih(9) lq lo(2) by (auto simp: nth_Cons split: nat.splits)
  have sm: "same_members p q" using same_members_trans [OF s(1) same_members_trans [OF p2(1) ih(1)]] .
  have tlq: "tl (frames (pr_solver q)) = tl (frames (pr_solver p))" using ih(3) fr by simp
  show ?case
    by (intro conjI sm ih(2) tlq ext lo(1) up exI [of _ "l # ls"] el) (use ih(7,8) in simp_all)
qed

subsection \<open>Relative induction\<close>

text \<open>What the query at frame \<open>i - 1\<close> leaves for both answers.\<close>

lemma rel_ind_query_spec:
  assumes run: "rel_ind_query N i c p = Inr (r, as, q)" and e: "engine_ok p" and c: "over SV c" "cube F c"
  shows "keeps p (pop_solver_context N q)" and "same_members p q" and "r \<noteq> UNKNOWN"
    and "r = SAT \<Longrightarrow> \<exists>\<sigma>. model_of (pr_solver q) \<sigma> \<and> (\<forall>t \<in> asserted (pr_solver p). holds F \<sigma> t)
      \<and> all_hold F \<sigma> (frame_label_formulas N (i - 1) p) \<and> \<not> holds F \<sigma> (fterm c) \<and> holds F \<sigma> (ic_trans_label p)
      \<and> (\<forall>d \<in> set (if_children c). holds F \<sigma> (nextof d))"
    and "length as = length (if_children c)"
    and "r = UNSAT \<Longrightarrow> frames_ok m p \<Longrightarrow> wsorted \<tau> \<Longrightarrow> frame p (i - 1) \<tau> \<Longrightarrow> holds F \<tau> (ts_trans sys) \<Longrightarrow>
      \<not> holds F \<tau> (fterm c) \<Longrightarrow>
      \<exists>k < length (if_children c). as ! k \<in> set (s_unsat_core S (pr_solver q)) \<and> \<not> holds F \<tau> (nextof (if_children c ! k))"
proof -
  let ?cs = "if_children c"
  let ?X = "frame_label_formulas N (i - 1) p @ [mk_term B (op0 NotOp) [fterm c], ic_trans_label p]"
  let ?p = "ic3_assert N ?X (push_solver_context N p)"
  have "assert_trans_label N (ic3_assert N [mk_term B (op0 NotOp) [fterm c]]
      (assert_frame_labels N (i - 1) (push_solver_context N p))) = ?p"
    unfolding assert_labels assert_append assert_trans_label_def
    by (simp add: ic3_assert_def push_solver_context_def on_solver_def asserts_def)
  note start = this
  from run obtain as0 p1 where kids0: "foldE (label_child N) ?cs ([], ?p) = Inr (as0, p1)"
    and "(let (r, p2) = ic3_check_assuming N as0 p1 in Inr (r, as0, p2)) = (Inr (r, as, q) :: _ result)"
    unfolding rel_ind_query_def start bindE_Inr_iff by auto
  then have chk: "ic3_check_assuming N as p1 = (r, q)" and "as0 = as" by (auto split: prod.splits)
  with kids0 have kids: "foldE (label_child N) ?cs ([], ?p) = Inr (as, p1)" by simp
  have lab: "labels_ok p" using e by (simp add: engine_ok_def)
  have sm: "same_members p ?p" using same_members_trans push_fields(1) ic3_assert_fields(1) by metis
  have lp: "labels_ok ?p" using labels_ok_cong [OF sm] lab by simp
  have fr: "tl (frames (pr_solver ?p)) = frames (pr_solver p)" "frames (pr_solver ?p) \<noteq> []"
    using tl_asserts [of "s_push S (pr_solver p)" ?X] by (simp_all add: frames_push)
  have ap: "asserted (pr_solver ?p) = set ?X \<union> asserted (pr_solver p)" by simp
  have "syms_in SV d" if "d \<in> set ?cs" for d using c that by (simp add: over_def)
  from label_children_spec [OF kids lp fr(2) this] obtain ls where k:
    "same_members ?p p1" "labels_ok p1" "tl (frames (pr_solver p1)) = tl (frames (pr_solver ?p))"
    "\<forall>u m. map_of (ic_labels ?p) u = Some m \<longrightarrow> map_of (ic_labels p1) u = Some m"
    "asserted (pr_solver ?p) \<subseteq> asserted (pr_solver p1)"
    "asserted (pr_solver p1) \<subseteq> asserted (pr_solver ?p) \<union> label_links p1"
    "as = [] @ ls" "length ls = length ?cs"
    "\<forall>k < length ?cs. map_of (ic_labels p1) (nextof (?cs ! k)) = Some (ls ! k)
       \<and> (ls ! k = nextof (?cs ! k) \<or> ic3_implies N (ls ! k) (nextof (?cs ! k)) \<in> asserted (pr_solver p1))"
    by blast
  note ck = check_assuming_spec [OF chk]
  show mq: "same_members p q" using same_members_trans [OF sm same_members_trans [OF k(1) ck(1)]] .
  have lq: "labels_ok q" using labels_ok_cong [OF ck(1-3)] k(2) by simp
  let ?q = "pop_solver_context N q"
  show kp: "keeps p ?q"
    using same_members_trans [OF mq pop_fields(1)] ck(4) k(3) fr(1) labels_ok_cong [of q ?q] lq
    by (simp add: keeps_def frames_pop)
  show "r \<noteq> UNKNOWN" by (rule ck(5))
  show len: "length as = length ?cs" using k(7,8) by simp
  show "\<exists>\<sigma>. model_of (pr_solver q) \<sigma> \<and> (\<forall>t \<in> asserted (pr_solver p). holds F \<sigma> t)
      \<and> all_hold F \<sigma> (frame_label_formulas N (i - 1) p) \<and> \<not> holds F \<sigma> (fterm c) \<and> holds F \<sigma> (ic_trans_label p)
      \<and> (\<forall>d \<in> set ?cs. holds F \<sigma> (nextof d))" if sat: "r = SAT"
  proof -
    from ck(6) [OF sat] obtain \<sigma> where s: "model_of (pr_solver q) \<sigma>" "\<forall>t \<in> asserted (pr_solver p1) \<union> set as. holds F \<sigma> t" by blast
    have "holds F \<sigma> (nextof d)" if d: "d \<in> set ?cs" for d
    proof -
      from d obtain j where j: "j < length ?cs" "d = ?cs ! j" by (auto simp: in_set_conv_nth)
      then have "as ! j \<in> set as" using len by simp
      with s(2) have l: "holds F \<sigma> (ls ! j)" using k(7) by auto
      from k(9) j(1) consider "ls ! j = nextof (?cs ! j)" | "ic3_implies N (ls ! j) (nextof (?cs ! j)) \<in> asserted (pr_solver p1)" by blast
      then show ?thesis
      proof cases
        case 2
        with s(2) have "holds F \<sigma> (ic3_implies N (ls ! j) (nextof (?cs ! j)))" by blast
        with l j(2) show ?thesis by (simp add: ic3_implies_def)
      qed (use l j(2) in simp)
    qed
    moreover have "\<forall>t \<in> set ?X \<union> asserted (pr_solver p). holds F \<sigma> t" using s(2) k(5) unfolding ap by blast
    ultimately show ?thesis using s(1) by (intro exI [of _ \<sigma>]) auto
  qed
  show "\<exists>k < length ?cs. as ! k \<in> set (s_unsat_core S (pr_solver q)) \<and> \<not> holds F \<tau> (nextof (?cs ! k))"
    if "r = UNSAT" "frames_ok m p" "wsorted \<tau>" "frame p (i - 1) \<tau>" "holds F \<tau> (ts_trans sys)" "\<not> holds F \<tau> (fterm c)"
  proof -
    note prems = that
    have fq: "frames_ok m ?q" "frame ?q (i - 1) \<tau>" using keeps_ok [OF kp] that(2,4) by simp_all
    obtain \<sigma> where s: "wsorted \<sigma>" "\<And>t. syms_in (ts_vars sys) t \<Longrightarrow> eval F \<sigma> t = eval F \<tau> t"
      "\<And>t. t \<in> asserted (pr_solver ?q) \<Longrightarrow> holds F \<sigma> t" "all_hold F \<sigma> (frame_label_formulas N (i - 1) ?q)"
      "holds F \<sigma> (ic_trans_label ?q)" "\<And>t l. map_of (ic_labels ?q) t = Some l \<Longrightarrow> holds F \<sigma> l \<longleftrightarrow> holds F \<tau> t"
      by (rule query_model [OF keeps_ok(1) [OF kp e] fq(1) prems(3) fq(2) prems(5)]) blast
    have mem: "ic_frame_labels ?q = ic_frame_labels p" "ic_trans_label ?q = ic_trans_label p" "ic_labels ?q = ic_labels p1"
      using kp ck(2) by (simp_all add: keeps_def same_members_def)
    have "asserted (pr_solver ?q) = asserted (pr_solver p)" using kp by (simp add: keeps_def asserted_def)
    then have "holds F \<sigma> t" if "t \<in> asserted (pr_solver p)" for t using s(3) that by blast
    moreover have "all_hold F \<sigma> ?X"
    proof -
      have "frame_label_formulas N (i - 1) ?q = frame_label_formulas N (i - 1) p" by (simp add: frame_label_formulas_def mem(1))
      moreover have "syms_in (ts_vars sys) (fterm c)" using c(1) by (auto simp: over_def syms_in_def ts_vars_def)
      then have "\<not> holds F \<sigma> (fterm c)" using s(2) prems(6) by simp
      ultimately show ?thesis using s(4,5) mem(2) by auto
    qed
    moreover have "holds F \<sigma> t" if "t \<in> label_links p1" for t
    proof -
      from that obtain l u where u: "map_of (ic_labels p1) u = Some l" "t = ic3_implies N l u" by (auto simp: label_links_def)
      have "syms_in (ts_vars sys) u" using k(2) u(1) unfolding labels_ok_def by blast
      with s(2) s(6) [of u l] u mem(3) show ?thesis by (simp add: ic3_implies_def)
    qed
    ultimately have "\<forall>t \<in> asserted (pr_solver p1). holds F \<sigma> t" using k(6) unfolding ap by auto
    with ck(7) [OF prems(1)] s(1) obtain l where l: "l \<in> set (s_unsat_core S (pr_solver q))" "\<not> holds F \<sigma> l" "l \<in> set as" by blast
    then obtain j where j: "j < length ?cs" "as ! j = l" using len by (auto simp: in_set_conv_nth)
    with k(7,9) have "map_of (ic_labels p1) (nextof (?cs ! j)) = Some l" by simp
    with s(6) l(2) mem(3) have "\<not> holds F \<tau> (nextof (?cs ! j))" by simp
    with j l(1) show ?thesis by blast
  qed
qed

text \<open>The core keeps what makes the query unsatisfiable, and the cube stays disjoint from the initial states.\<close>

lemma core_generalization_spec:
  assumes run: "core_generalization N as c q = Inr g" and c: "cube F c" "over SV c" and len: "length as = length (if_children c)"
  shows "cube F g" and "over SV g" and "set (if_children g) \<subseteq> set (if_children c)"
    and "\<And>k. k < length (if_children c) \<Longrightarrow> as ! k \<in> set (s_unsat_core S (pr_solver q)) \<Longrightarrow> if_children c ! k \<in> set (if_children g)"
    and "(\<And>s. ts_initial F sys s \<Longrightarrow> \<not> holds F s (fterm c)) \<Longrightarrow> ts_initial F sys s \<Longrightarrow> \<not> holds F s (fterm g)"
proof -
  let ?core = "set (s_unsat_core S (pr_solver q))" and ?cs = "if_children c"
  let ?keep = "map snd (filter (\<lambda>(a, cc). a \<in> ?core) (zip as ?cs))"
  let ?rem = "map snd (filter (\<lambda>(a, cc). a \<notin> ?core) (zip as ?cs))"
  have parts: "set ?keep \<union> set ?rem = set ?cs"
  proof -
    have "snd ` set (zip as ?cs) = set ?cs" using len by (metis set_map map_snd_zip)
    then show ?thesis by force
  qed
  have kept: "?cs ! k \<in> set ?keep" if "k < length ?cs" "as ! k \<in> ?core" for k
  proof -
    have "(as ! k, ?cs ! k) \<in> set (zip as ?cs)" using that(1) len by (metis length_zip min.idem nth_mem nth_zip)
    with that(2) show ?thesis by force
  qed
  have "cube F g \<and> over SV g \<and> set (if_children g) \<subseteq> set ?cs
    \<and> (\<forall>k < length ?cs. as ! k \<in> ?core \<longrightarrow> ?cs ! k \<in> set (if_children g))
    \<and> ((\<forall>s. ts_initial F sys s \<longrightarrow> \<not> holds F s (fterm c)) \<longrightarrow> (\<forall>s. ts_initial F sys s \<longrightarrow> \<not> holds F s (fterm g)))"
  proof (cases "as = [] \<or> s_unsat_core S (pr_solver q) = []")
    case True
    with run have "g = c" by (simp add: core_generalization_def Let_def)
    with c show ?thesis by auto
  next
    case False
    with run obtain gen where fx: "fix_if_intersects_initial N ?keep ?rem = Inr gen"
      and g: "ic3formula_conjunction B gen = Inr g"
      by (auto simp: core_generalization_def Let_def bindE_Inr_iff)
    let ?f = "mk_term B (op0 And) [ts_init sys, make_and B ?keep]"
    have gen: "set ?keep \<subseteq> set gen \<and> set gen \<subseteq> set ?cs
      \<and> ((\<forall>s. ts_initial F sys s \<longrightarrow> \<not> all_hold F s ?cs) \<longrightarrow> (\<forall>s. ts_initial F sys s \<longrightarrow> \<not> all_hold F s gen))"
    proof (cases "?rem = []")
      case True
      with fx have "gen = ?keep" by (simp add: fix_if_intersects_initial_def)
      with parts True show ?thesis by simp
    next
      case False
      let ?r = "ie_reduce N ?f ?rem (io_gen_max_iter (ie_opts N)) (io_random_seed (ie_opts N))"
      show ?thesis
      proof (cases ?r)
        case (Some red)
        with fx False have gen: "gen = ?keep @ red" by (simp add: fix_if_intersects_initial_def)
        from reduce_core [OF Some] have red: "set red \<subseteq> set ?rem" "\<not> satisfiable F (?f # red)" by blast+
        have "\<not> all_hold F s gen" if "ts_initial F sys s" for s
        proof
          assume "all_hold F s gen"
          then have "all_hold F s ?keep" "all_hold F s red" unfolding gen by simp_all
          then have "all_hold F s (?f # red)" using that by (simp add: make_and_holds ts_initial_def)
          with red(2) that show False by (auto simp: satisfiable_def ts_initial_def)
        qed
        with red(1) parts show ?thesis unfolding gen by auto
      next
        case None
        from reduce_fails [OF None] obtain \<sigma> where "wsorted \<sigma>" "all_hold F \<sigma> (?f # ?rem)" by (auto simp: satisfiable_def)
        then have "ts_initial F sys \<sigma>" "all_hold F \<sigma> ?keep" "all_hold F \<sigma> ?rem" by (simp_all add: ts_initial_def make_and_holds)
        moreover from this(2,3) have "all_hold F \<sigma> ?cs" using parts by blast
        moreover have "gen = ?keep"
          using fx False None by (simp add: fix_if_intersects_initial_def dassert_def guardE_def split: if_splits)
        ultimately show ?thesis using parts by blast
      qed
    qed
    have gs: "set (if_children g) = set gen" by (rule conjunction_cube(2) [OF g])
    have cg: "cube F g" by (rule conjunction_cube(1) [OF g])
    have "over SV g" by (rule conjunction_cube(4) [OF g]) (use gen c(2) in \<open>auto simp: over_def\<close>)
    moreover have "\<forall>k < length ?cs. as ! k \<in> ?core \<longrightarrow> ?cs ! k \<in> set (if_children g)"
      using kept gen unfolding gs by blast
    moreover have "holds F s (fterm c) \<longleftrightarrow> all_hold F s ?cs" "holds F s (fterm g) \<longleftrightarrow> all_hold F s gen" for s
      using c(1) cg gs by (simp_all add: cube_def)
    ultimately show ?thesis using cg gs gen by auto
  qed
  then show "cube F g" "over SV g" "set (if_children g) \<subseteq> set ?cs"
    "\<And>k. k < length ?cs \<Longrightarrow> as ! k \<in> ?core \<Longrightarrow> ?cs ! k \<in> set (if_children g)"
    "(\<And>s. ts_initial F sys s \<Longrightarrow> \<not> holds F s (fterm c)) \<Longrightarrow> ts_initial F sys s \<Longrightarrow> \<not> holds F s (fterm g)" by blast+
qed

text \<open>A predecessor from a model of the frame, the transition relation and the next version of \<open>c\<close>.\<close>

lemma get_predecessor_spec:
  assumes run: "get_predecessor N i c p = Inr g" and m: "model_of (pr_solver p) \<sigma>" and p: "\<not> ic_approx p" "Q (ic_data p)"
    and c: "syms_in SV c" "holds F \<sigma> (ts_trans sys)" "holds F \<sigma> (nextof c)" "\<not> holds F \<sigma> c" "frame p (i - 1) \<sigma>" "1 \<le> i"
  shows "cube F g \<and> over SV g \<and> holds F \<sigma> (fterm g) \<and> exact g c"
proof -
  from run obtain f where f: "fl_model N p = Inr f"
    and g: "(if io_pregen (ie_opts N) then predecessor_generalization_and_fix N i c f p else Inr f) = Inr g"
    by (auto simp: get_predecessor_def bindE_Inr_iff)
  have w: "wsorted \<sigma>" and v: "\<And>t. s_get_value S (pr_solver p) t = Val (eval F \<sigma> t) (get_sort t)"
    using m by (simp_all add: model_of_def)
  note full = model_cube [OF w v p(2) f]
  show ?thesis
  proof (cases "io_pregen (ie_opts N)")
    case True
    with g p(1) have "fl_pregen N i c f p = Inr g"
      by (auto simp: predecessor_generalization_and_fix_def bindE_Inr_iff)
    from pregen_exact [OF w v p(2) full c(1-4) _ c(6) this] c(5) show ?thesis by (simp add: frame_term)
  next
    case False
    with g full determined_exact [of \<sigma> f c] w c(1-3) show ?thesis by simp
  qed
qed

lemma check_predecessor_keeps: "check_predecessor N i g p = Inr q \<Longrightarrow> keeps p q"
proof -
  assume run: "check_predecessor N i g p = Inr q"
  show "keeps p q"
  proof (cases "ie_debug N")
    case False
    with run show ?thesis by (simp add: check_predecessor_def)
  next
    case True
    with run obtain b1 p1 b2 where 1: "(if i \<noteq> 1 then (True, p) else check_intersects_initial N (fterm g) p) = (b1, p1)"
      and 2: "(if i < 2 then (False, p1) else check_intersects N (fterm g) (get_frame_term (ie_prover N) (i - 2) p1) p1) = (b2, q)"
      by (auto simp: check_predecessor_def dassert_def Let_def split: prod.splits)
    have "keeps p p1" using 1 intersects_initial_spec(1) by (cases "i \<noteq> 1") auto
    moreover have "keeps p1 q" using 2 check_intersects_spec by (cases "i < 2") auto
    ultimately show ?thesis by (rule keeps_trans)
  qed
qed

text \<open>
  The relative-induction check.  A positive answer: from the frame before \<open>i\<close>, outside the
  cube, no step leads into the generalised cube.  A negative one: an exact predecessor in that frame.
\<close>

lemma rel_ind:
  assumes run: "rel_ind_check N i c g0 get_pred p = Inr (ok, g, q)"
    and e: "engine_ok p" and f: "frames_ok m p" and c: "cube F c" "over SV c" and i: "1 \<le> i" "i \<le> length (ic_frames p)"
  shows "keeps p q"
    and "ok \<Longrightarrow> cube F g \<and> over SV g \<and> set (if_children g) \<subseteq> set (if_children c)
      \<and> (\<forall>s t. stepof s t \<and> frame p (i - 1) s \<and> \<not> holds F s (fterm c) \<longrightarrow> \<not> holds F t (fterm g))
      \<and> ((\<forall>s. ts_initial F sys s \<longrightarrow> \<not> holds F s (fterm c)) \<longrightarrow> (\<forall>s. ts_initial F sys s \<longrightarrow> \<not> holds F s (fterm g)))"
    and "\<not> ok \<Longrightarrow> get_pred \<Longrightarrow> cube F g \<and> over SV g \<and> exact g (fterm c)
      \<and> (\<exists>s. wsorted s \<and> frame p (i - 1) s \<and> holds F s (fterm g))"
proof -
  from run obtain r as p1 where qy: "rel_ind_query N i c p = Inr (r, as, p1)"
    and rest: "bindE (if r = SAT then bindE (if get_pred then get_predecessor N i (fterm c) p1 else Inr g0)
          (\<lambda>o1. dassert N (fl_valid N o1) (Inr o1))
        else dassert N (r = UNSAT) (core_generalization N as c p1))
      (\<lambda>o1. let p2 = pop_solver_context N p1 in bindE (if r = SAT \<and> get_pred then check_predecessor N i o1 p2 else Inr p2)
        (\<lambda>p3. Inr (r = UNSAT, o1, p3))) = Inr (ok, g, q)"
    unfolding rel_ind_check_def by (elim bindE_InrE) auto
  from rest obtain o1 where out: "(if r = SAT then bindE (if get_pred then get_predecessor N i (fterm c) p1 else Inr g0)
          (\<lambda>o1. dassert N (fl_valid N o1) (Inr o1))
        else dassert N (r = UNSAT) (core_generalization N as c p1)) = Inr o1"
    and fin: "(let p2 = pop_solver_context N p1 in bindE (if r = SAT \<and> get_pred then check_predecessor N i o1 p2 else Inr p2)
        (\<lambda>p3. Inr (r = UNSAT, o1, p3))) = Inr (ok, g, q)"
    by (rule bindE_InrE)
  note s = rel_ind_query_spec [OF qy e c(2,1)]
  have g: "g = o1" "ok = (r = UNSAT)" using fin by (auto simp: bindE_Inr_iff Let_def)
  have "keeps (pop_solver_context N p1) q" using fin check_predecessor_keeps by (auto simp: bindE_Inr_iff Let_def split: if_splits)
  with s(1) show "keeps p q" by (rule keeps_trans)
  show "cube F g \<and> over SV g \<and> set (if_children g) \<subseteq> set (if_children c)
      \<and> (\<forall>s t. stepof s t \<and> frame p (i - 1) s \<and> \<not> holds F s (fterm c) \<longrightarrow> \<not> holds F t (fterm g))
      \<and> ((\<forall>s. ts_initial F sys s \<longrightarrow> \<not> holds F s (fterm c)) \<longrightarrow> (\<forall>s. ts_initial F sys s \<longrightarrow> \<not> holds F s (fterm g)))"
    if ok: ok
  proof -
    have r: "r = UNSAT" using ok g(2) by simp
    then have "core_generalization N as c p1 = Inr g" using out g(1) by (simp add: dassert_def)
    note cg = core_generalization_spec [OF this c s(5)]
    have "\<not> holds F t (fterm g)" if st: "stepof x t" "frame p (i - 1) x" "\<not> holds F x (fterm c)" for x t
    proof
      assume h: "holds F t (fterm g)"
      let ?\<tau> = "pair_env sys x t"
      have w: "wsorted ?\<tau>" by (rule wsorted_pair_env [OF sys_wf ts_stepD(1,2) [OF st(1)]])
      have fr: "frame p (i - 1) ?\<tau>" using frame_same [OF f same_state_pair] st(2) by simp
      have "\<not> holds F ?\<tau> (fterm c)" using same_state_eval [OF same_state_pair] c(2) st(3) by (simp add: over_def)
      from s(6) [OF r f w fr ts_stepD(4) [OF st(1)] this] obtain k where k: "k < length (if_children c)"
        "as ! k \<in> set (s_unsat_core S (pr_solver p1))" "\<not> holds F ?\<tau> (nextof (if_children c ! k))" by blast
      from cg(4) [OF k(1,2)] have "if_children c ! k \<in> set (if_children g)" .
      moreover have "syms_in SV (if_children c ! k)" using c(2) k(1) by (simp add: over_def)
      ultimately show False using k(3) eval_nextof [OF ts_stepD(3) [OF st(1)]] h cg(1) by (simp add: cube_def)
    qed
    with cg(1,2,3,5) show ?thesis by blast
  qed
  show "cube F g \<and> over SV g \<and> exact g (fterm c) \<and> (\<exists>s. wsorted s \<and> frame p (i - 1) s \<and> holds F s (fterm g))"
    if "\<not> ok" get_pred
  proof -
    have r: "r = SAT" using that(1) g(2) s(3) by (cases r) simp_all
    with out that(2) g(1) have gp: "get_predecessor N i (fterm c) p1 = Inr g"
      by (auto simp: bindE_Inr_iff dassert_def)
    from s(4) [OF r] obtain \<sigma> where m: "model_of (pr_solver p1) \<sigma>" "\<forall>t \<in> asserted (pr_solver p). holds F \<sigma> t"
      "all_hold F \<sigma> (frame_label_formulas N (i - 1) p)" "\<not> holds F \<sigma> (fterm c)" "holds F \<sigma> (ic_trans_label p)"
      "\<forall>d \<in> set (if_children c). holds F \<sigma> (nextof d)" by blast
    have w: "wsorted \<sigma>" using m(1) by (simp add: model_of_def)
    have fr: "frame p (i - 1) \<sigma>" using query_frame [OF e f _ m(3)] m(2) i by simp
    have "activates p \<sigma>" using e m(2) by (simp add: engine_ok_def solver_ok_def)
    then have tr: "holds F \<sigma> (ts_trans sys)" using m(5) by (simp add: activates_def)
    have kids: "holds F (shift \<sigma>) d" if "d \<in> set (if_children c)" for d
      using m(6) that eval_shift [of d \<sigma>] c(2) by (simp add: over_def)
    have "holds F (shift \<sigma>) (fterm c)" using kids c(1) by (simp add: cube_def)
    then have nx: "holds F \<sigma> (nextof (fterm c))" using c(2) eval_shift [of "fterm c" \<sigma>] by (simp add: over_def)
    have p1: "\<not> ic_approx p1" "Q (ic_data p1)" "frame p1 = frame p"
      using s(2) e frame_cong [of p1 p] by (simp_all add: same_members_def engine_ok_def)
    have "syms_in SV (fterm c)" using c(2) by (simp add: over_def)
    from get_predecessor_spec [OF gp m(1) p1(1,2) this tr nx m(4) _ i(1)] fr p1(3) w show ?thesis by auto
  qed
qed

end

end
