(* ===== verification/Ic3_Blocking.thy ===== *)
theory Ic3_Blocking
  imports Ic3_Queries
begin

section \<open>The blocking phase of IC3\<close>

text \<open>
  A cube can be blocked at frame \<open>i\<close> when it is disjoint from the initial states and its negation
  is inductive relative to the frame before (\<open>blockable\<close>); generalisation and lifting to higher
  frames keep this.  Adding a clause strengthens the frames, which keeps every goal of the queue
  valid: its cube is exact towards its successor and disjoint from the frame before its own.
\<close>

context ic3_engine
begin

subsection \<open>Changing the clauses of the frames\<close>

definition candidate :: "('s, 'd) ic3 \<Rightarrow> nat \<Rightarrow> ic3_formula \<Rightarrow> bool" where
  "candidate p i u \<longleftrightarrow> clause F u \<and> over SV u \<and> (\<forall>s. ts_initial F sys s \<longrightarrow> holds F s (fterm u))
     \<and> (\<forall>s t. stepof s t \<and> frame p (i - 1) s \<and> holds F s (fterm u) \<longrightarrow> holds F t (fterm u))"

text \<open>The frames get stronger, by clauses that are candidates and whose implications are asserted.\<close>

definition strengthens :: "('s, 'd) ic3 \<Rightarrow> ('s, 'd) ic3 \<Rightarrow> bool" where
  "strengthens p q \<longleftrightarrow> length (ic_frames q) = length (ic_frames p) \<and> ic_frames q ! 0 = []
     \<and> (\<forall>j d. j < length (ic_frames p) \<and> d \<in> set (ic_frames q ! j) \<longrightarrow> d \<in> set (ic_frames p ! j)
          \<or> 1 \<le> j \<and> candidate p j d \<and> ic3_implies N (ic_frame_labels p ! j) (fterm d) \<in> asserted (pr_solver q))
     \<and> (\<forall>k s. frame q k s \<longrightarrow> frame p k s)
     \<and> asserted (pr_solver p) \<subseteq> asserted (pr_solver q)
     \<and> (\<forall>t \<in> asserted (pr_solver q). t \<in> asserted (pr_solver p) \<or> (\<exists>j d. 1 \<le> j \<and> j < length (ic_frames p)
          \<and> d \<in> set (ic_frames q ! j) \<and> t = ic3_implies N (ic_frame_labels p ! j) (fterm d)))"

definition same_context :: "('s, 'd) ic3 \<Rightarrow> ('s, 'd) ic3 \<Rightarrow> bool" where
  "same_context p q \<longleftrightarrow> same_members p (q\<lparr>ic_frames := ic_frames p\<rparr>) \<and> ic_labels q = ic_labels p \<and> ic_symtab q = ic_symtab p
     \<and> frames (pr_solver q) \<noteq> []"

lemma frame_clause: "frame q k s \<Longrightarrow> 1 \<le> k \<Longrightarrow> c \<in> clauses k q \<Longrightarrow> holds F s (fterm c)"
  by (simp add: frame_def)

lemma strengthens_frames:
  assumes f: "frames_ok m p" and st: "strengthens p q"
  shows "frames_ok m q"
proof -
  note st = st [unfolded strengthens_def]
  have lev: "(d \<in> set (ic_frames p ! j) \<or> 1 \<le> j \<and> candidate p j d) \<and> j < length (ic_frames p)"
    if "d \<in> clauses k q" "d \<in> set (ic_frames q ! j)" "j < length (ic_frames q)" for d j k
    using st that by metis
  have old: "d \<in> clauses 0 p \<or> (\<exists>j. 1 \<le> j \<and> j < length (ic_frames p) \<and> d \<in> set (ic_frames q ! j) \<and> candidate p j d)"
    if d: "d \<in> clauses 0 q" for d
  proof -
    from d obtain j where j: "j < length (ic_frames q)" "d \<in> set (ic_frames q ! j)" unfolding clauses_level by blast
    with st have "d \<in> set (ic_frames p ! j) \<or> 1 \<le> j \<and> candidate p j d" "j < length (ic_frames p)" by metis+
    with j(2) show ?thesis unfolding clauses_level by blast
  qed
  have 1: "clause F d \<and> over SV d" "ts_initial F sys s \<Longrightarrow> holds F s (fterm d)" if "d \<in> clauses 0 q" for d s
    using old [OF that] frames_okD(3,5) [OF f] unfolding candidate_def by blast+
  have 2: "holds F t (fterm d)"
    if j: "1 \<le> j" "j < length (ic_frames q)" "d \<in> set (ic_frames q ! j)" and s: "stepof s t" "frame q (j - 1) s" for j d s t
  proof -
    have jp: "j < length (ic_frames p)" and fp: "frame p (j - 1) s" using j(2) s(2) st by simp_all
    from st j(3) jp consider "d \<in> set (ic_frames p ! j)" | "candidate p j d" by metis
    then show ?thesis
    proof cases
      case 1
      with f j(1) jp s(1) fp show ?thesis unfolding frames_ok_def by blast
    next
      case 2
      have "holds F s (fterm d)"
      proof (cases "j - 1 = 0")
        case True
        with fp s(1) have "ts_initial F sys s" by (simp add: frame_def ts_initial_def ts_step_def)
        with 2 show ?thesis by (simp add: candidate_def)
      next
        case False
        have "d \<in> clauses (j - 1) q" using j(2,3) unfolding clauses_level by (intro exI [of _ j]) simp
        with False s(2) show ?thesis by (simp add: frame_def)
      qed
      with 2 s(1) fp show ?thesis unfolding candidate_def by blast
    qed
  qed
  have 3: "\<not> holds F t bad" if "i < m" "stepof s t" "frame q i s" for i s t
    using f st that unfolding frames_ok_def by blast
  have 4: "\<not> holds F s bad" if "ts_initial F sys s" for s by (rule frames_okD(4) [OF f that])
  have 5: "2 \<le> length (ic_frames q)" "ic_frames q ! 0 = []" using st frames_okD(1) [OF f] by simp_all
  show ?thesis unfolding frames_ok_def using 1 2 3 4 5 by blast
qed

lemma strengthens_engine:
  assumes e: "engine_ok p" and f: "frames_ok m p" and st: "strengthens p q" and c: "same_context p q"
  shows "engine_ok q"
proof -
  note st = st [unfolded strengthens_def]
  have mem: "ic_frame_labels q = ic_frame_labels p" "ic_trans_label q = ic_trans_label p" "ic_bad_label q = ic_bad_label p"
    "ic_approx q = ic_approx p" "ic_data q = ic_data p" "ic_labels q = ic_labels p" "ic_symtab q = ic_symtab p"
    using c by (simp_all add: same_context_def same_members_def)
  have len: "length (ic_frames q) = length (ic_frames p)" using st by blast
  have "labels_ok q = labels_ok p" unfolding labels_ok_def global_labels_def own_labels_def mem len by (rule refl)
  then have lab: "labels_ok q" using e by (simp add: engine_ok_def)
  have up: "holds F \<sigma> t" if s: "wsorted \<sigma>" "obeys q \<sigma>" and t: "t \<in> asserted (pr_solver q)" for \<sigma> t
  proof -
    have "obeys p \<sigma>" using s(2) st unfolding obeys_def mem len by blast
    with e s(1) have old: "\<forall>t \<in> asserted (pr_solver p). holds F \<sigma> t" by (simp add: engine_ok_def solver_ok_def)
    from st t consider "t \<in> asserted (pr_solver p)" | j d where "1 \<le> j" "j < length (ic_frames p)" "d \<in> set (ic_frames q ! j)"
      "t = ic3_implies N (ic_frame_labels p ! j) (fterm d)" by blast
    then show ?thesis
    proof cases
      case 1
      with old show ?thesis by blast
    next
      case 2
      have "holds F \<sigma> (fterm d)" if h: "holds F \<sigma> (ic_frame_labels p ! j)"
      proof -
        have "frame q j \<sigma>" using s(2) h 2(2) unfolding obeys_def mem len by blast
        moreover have "d \<in> clauses j q" using 2(2,3) len unfolding clauses_level by auto
        ultimately show ?thesis using frame_clause 2(1) by blast
      qed
      with 2(4) show ?thesis by (simp add: ic3_implies_def)
    qed
  qed
  have lo: "activates q \<sigma>" if h: "\<forall>t \<in> asserted (pr_solver q). holds F \<sigma> t" for \<sigma>
  proof -
    have "activates p \<sigma>" using e h st unfolding engine_ok_def solver_ok_def by blast
    note act = this [unfolded activates_def]
    have "holds F \<sigma> (fterm d)" if j: "1 \<le> j" "j < length (ic_frames q)" "holds F \<sigma> (ic_frame_labels q ! j)" "d \<in> set (ic_frames q ! j)" for j d
    proof -
      have jp: "j < length (ic_frames p)" and l: "holds F \<sigma> (ic_frame_labels p ! j)" using j(2,3) mem(1) len by simp_all
      from st j(4) jp consider "d \<in> set (ic_frames p ! j)" | "ic3_implies N (ic_frame_labels p ! j) (fterm d) \<in> asserted (pr_solver q)" by metis
      then show ?thesis
      proof cases
        case 1
        with act j(1) jp l show ?thesis by blast
      next
        case 2
        with h have "holds F \<sigma> (ic3_implies N (ic_frame_labels p ! j) (fterm d))" by blast
        with l show ?thesis by (simp add: ic3_implies_def)
      qed
    qed
    moreover have "\<not> holds F \<sigma> bad" if "1 \<le> j" "j < length (ic_frames q)" "holds F \<sigma> (ic_frame_labels q ! j)" for j
      using act that mem(1) len by simp
    ultimately have "\<forall>i. 1 \<le> i \<and> i < length (ic_frames q) \<and> holds F \<sigma> (ic_frame_labels q ! i) \<longrightarrow>
        \<not> holds F \<sigma> bad \<and> (\<forall>c \<in> set (ic_frames q ! i). holds F \<sigma> (fterm c))" by blast
    moreover have "(holds F \<sigma> (ic_frame_labels q ! 0) \<longrightarrow> holds F \<sigma> (ts_init sys))
        \<and> (holds F \<sigma> (ic_trans_label q) \<longrightarrow> holds F \<sigma> (ts_trans sys))" using act unfolding mem by blast
    ultimately show ?thesis unfolding activates_def by blast
  qed
  from lab up lo e mem(4,5) c show ?thesis
    unfolding engine_ok_def solver_ok_def same_context_def by simp
qed

lemma drop_subsumed_nth:
  "j < length fs \<Longrightarrow> drop_subsumed b i c fs ! j = (if 1 \<le> j \<and> j \<le> i then filter (\<lambda>d. \<not> subsumes b c d) (fs ! j) else fs ! j)"
  by (simp add: drop_subsumed_def nth_enumerate_eq)

lemma length_drop_subsumed [simp]: "length (drop_subsumed b i c fs) = length fs"
  by (simp add: drop_subsumed_def)

lemma constrain_frame_ok:
  assumes run: "constrain_frame N i u new p = Inr q" and e: "engine_ok p" and f: "frames_ok m p"
    and u: "candidate p i u" and i: "1 \<le> i"
  shows "engine_ok q" and "frames_ok m q" and "strengthens p q" and "pr_reached_k q = pr_reached_k p" and "ic_request q = ic_request p"
    and "ic_reset_failed q = ic_reset_failed p" and "pr_witness q = pr_witness p"
    and "frame q i s \<Longrightarrow> holds F s (fterm u)" and "u \<in> set (ic_frames q ! i)"
    and "\<not> new \<Longrightarrow> j < length (ic_frames p) \<Longrightarrow> ic_frames q ! j = (if j = i then ic_frames p ! i @ [u] else ic_frames p ! j)"
proof -
  let ?fs = "if new then drop_subsumed B i u (ic_frames p) else ic_frames p"
  from run have il: "i < length (ic_frames p)"
    and q: "q = constrain_frame_label N i u (p\<lparr>ic_frames := ?fs[i := ?fs ! i @ [u]]\<rparr>)"
    by (auto simp: constrain_frame_def Let_def)
  have fq: "ic_frames q = ?fs[i := ?fs ! i @ [u]]" and aq: "asserted (pr_solver q)
      = insert (ic3_implies N (ic_frame_labels p ! i) (fterm u)) (asserted (pr_solver p))"
    by (simp_all add: q constrain_frame_label_def ic3_assert_def on_solver_def)
  have len: "length (ic_frames q) = length (ic_frames p)" by (simp add: fq)
  have lev: "ic_frames q ! j = (if j = i then ?fs ! i @ [u] else ?fs ! j)" if "j < length (ic_frames p)" for j
    using that il by (simp add: fq nth_list_update)
  have sub: "d \<in> set (ic_frames p ! j) \<or> j = i \<and> d = u" if "j < length (ic_frames p)" "d \<in> set (ic_frames q ! j)" for j d
    using that lev [OF that(1)] drop_subsumed_nth [OF that(1), of B i u] by (auto split: if_splits)
  have sup: "d \<in> set (ic_frames q ! j) \<or> 1 \<le> j \<and> j \<le> i \<and> subsumes B u d" if "j < length (ic_frames p)" "d \<in> set (ic_frames p ! j)" for j d
    using that lev [OF that(1)] drop_subsumed_nth [OF that(1), of B i u] by auto
  show uq: "u \<in> set (ic_frames q ! i)" using lev [OF il] by simp
  have "frame p k s" if h: "frame q k s" for k s
  proof (cases "k = 0")
    case False
    have "holds F s (fterm d)" if d: "d \<in> clauses k p" for d
    proof -
      from d obtain j where j: "k \<le> j" "j < length (ic_frames p)" "d \<in> set (ic_frames p ! j)" by (auto simp: clauses_level)
      from sup [OF j(2,3)] consider "d \<in> set (ic_frames q ! j)" | "j \<le> i" "subsumes B u d" by blast
      then show ?thesis
      proof cases
        case 1
        then have "d \<in> clauses k q" using j(1,2) len unfolding clauses_level by auto
        with h False show ?thesis by (simp add: frame_def)
      next
        case 2
        have "u \<in> clauses k q" using uq j(1) il len 2(1) unfolding clauses_level by (intro exI [of _ i]) simp
        with h False have "holds F s (fterm u)" by (simp add: frame_def)
        with subsumes_implies [OF 2(2)] u frames_okD(3) [OF f d] show ?thesis by (simp add: candidate_def)
      qed
    qed
    with h False show ?thesis by (simp add: frame_def)
  qed (use h in \<open>simp add: frame_def\<close>)
  moreover have "ic_frames q ! 0 = []"
  proof -
    have "0 < length (ic_frames p)" using il by linarith
    then show ?thesis using lev [of 0] drop_subsumed_nth [of 0 "ic_frames p" B i u] frames_okD(2) [OF f] i by simp
  qed
  moreover have "\<exists>j d. 1 \<le> j \<and> j < length (ic_frames p) \<and> d \<in> set (ic_frames q ! j)
      \<and> ic3_implies N (ic_frame_labels p ! i) (fterm u) = ic3_implies N (ic_frame_labels p ! j) (fterm d)"
    using i il uq by blast
  ultimately show st: "strengthens p q"
    unfolding strengthens_def aq using len sub u i by blast
  have ctx: "same_context p q"
    using e tl_asserts(2) [of "pr_solver p"]
    by (simp add: same_context_def same_members_def q constrain_frame_label_def ic3_assert_def on_solver_def engine_ok_def)
  show "engine_ok q" by (rule strengthens_engine [OF e f st ctx])
  show "frames_ok m q" by (rule strengthens_frames [OF f st])
  show "pr_reached_k q = pr_reached_k p" "ic_request q = ic_request p" "ic_reset_failed q = ic_reset_failed p"
    "pr_witness q = pr_witness p"
    using ctx by (simp_all add: same_context_def same_members_def)
  have "u \<in> clauses i q" using uq il len unfolding clauses_level by auto
  then show "frame q i s \<Longrightarrow> holds F s (fterm u)" using frame_clause i by blast
  show "ic_frames q ! j = (if j = i then ic_frames p ! i @ [u] else ic_frames p ! j)" if "\<not> new" "j < length (ic_frames p)"
    using lev [OF that(2)] that(1) by simp
qed

subsection \<open>Generalising what can be blocked\<close>

definition blockable :: "('s, 'd) ic3 \<Rightarrow> nat \<Rightarrow> tm \<Rightarrow> tm set \<Rightarrow> bool" where
  "blockable p i T X \<longleftrightarrow> (\<forall>c \<in> X. syms_in SV c) \<and> (\<forall>s. ts_initial F sys s \<longrightarrow> (\<exists>c \<in> X. \<not> holds F s c))
     \<and> (\<forall>s t. stepof s t \<and> frame p (i - 1) s \<and> (\<exists>c \<in> X. \<not> holds F s c) \<longrightarrow> (\<exists>c \<in> X. \<not> holds F t c))
     \<and> (\<forall>s. holds F s T \<longrightarrow> (\<forall>c \<in> X. holds F s c))"

lemma rel_ind_blockable:
  assumes run: "rel_ind_check N i c g0 gp p = Inr (True, g, q)" and e: "engine_ok p" and f: "frames_ok m p"
    and c: "cube F c" "over SV c" and i: "1 \<le> i" "i \<le> length (ic_frames p)"
    and d: "\<And>s. ts_initial F sys s \<Longrightarrow> \<not> holds F s (fterm c)" and T: "\<And>s. holds F s T \<Longrightarrow> holds F s (fterm c)"
  shows "cube F g" and "over SV g" and "blockable q i T (set (if_children g))" and "keeps p q"
proof -
  note r = rel_ind [OF run e f c i]
  show k: "keeps p q" by (rule r(1))
  from r(2) show g: "cube F g" "over SV g" by simp_all
  have fr: "frame q = frame p" by (rule keeps_ok(3) [OF k])
  have sub: "set (if_children g) \<subseteq> set (if_children c)" using r(2) by simp
  have 1: "\<forall>c \<in> set (if_children g). syms_in SV c" using g(2) by (simp add: over_def)
  have hg: "\<not> holds F s (fterm g) \<longleftrightarrow> (\<exists>c \<in> set (if_children g). \<not> holds F s c)" for s using g(1) by (simp add: cube_def)
  have weak: "holds F s (fterm c) \<Longrightarrow> holds F s (fterm g)" for s using sub g(1) c(1) by (auto simp: cube_def)
  have 2: "\<forall>s. ts_initial F sys s \<longrightarrow> (\<exists>c \<in> set (if_children g). \<not> holds F s c)" using r(2) d hg by blast
  have 3: "\<forall>s t. stepof s t \<and> frame q (i - 1) s \<and> (\<exists>c \<in> set (if_children g). \<not> holds F s c)
      \<longrightarrow> (\<exists>c \<in> set (if_children g). \<not> holds F t c)"
    using r(2) weak unfolding fr hg [symmetric] by blast
  have 4: "\<forall>s. holds F s T \<longrightarrow> (\<forall>c \<in> set (if_children g). holds F s c)" using T weak hg by blast
  show "blockable q i T (set (if_children g))" unfolding blockable_def using 1 2 3 4 by blast
qed

lemma blockable_cong: "frame q = frame p \<Longrightarrow> blockable q i T X = blockable p i T X"
  by (simp add: blockable_def)

lemma generalization_loop_ok:
  "generalization_loop N i n cs nec out j p = Inr (cs', q) \<Longrightarrow> engine_ok p \<Longrightarrow> frames_ok m p \<Longrightarrow>
    1 \<le> i \<Longrightarrow> i \<le> length (ic_frames p) \<Longrightarrow> blockable p i T (set cs) \<Longrightarrow> keeps p q \<and> blockable q i T (set cs')"
proof (induction n arbitrary: cs nec out j p)
  case (Suc n)
  note e = Suc.prems(2) and f = Suc.prems(3) and i = Suc.prems(4,5) and b = Suc.prems(6)
  consider (stop) "\<not> (j < length cs \<and> 1 < length cs)" | (skip) "j < length cs \<and> 1 < length cs" "cs ! j \<in> set nec"
    | (drop) "j < length cs \<and> 1 < length cs" "cs ! j \<notin> set nec" by blast
  then show ?case
  proof cases
    case stop
    with Suc.prems(1) b show ?thesis by auto
  next
    case skip
    then have "generalization_loop N i n cs nec out (j + 1) p = Inr (cs', q)" using Suc.prems(1) by simp
    from Suc.IH [OF this e f i b] show ?thesis .
  next
    case drop
    let ?cs = "take j cs @ drop (Suc j) cs"
    have sc: "set ?cs \<subseteq> set cs" "set cs = insert (cs ! j) (set ?cs)"
      using id_take_nth_drop [of j cs] drop(1) by (auto dest: in_set_takeD in_set_dropD) (metis Un_iff insert_iff list.simps(15) set_append)
    from Suc.prems(1) drop obtain gen where gen: "ic3formula_conjunction B ?cs = Inr gen"
      and rest: "(let (hit, p1) = check_intersects_initial N (fterm gen) p
        in bindE (if hit then Inr (False, out, p1) else rel_ind_check N i gen out False p1) (\<lambda>(ok, out1, p2).
             if ok then generalization_loop N i n (if_children out1) nec out1 0 p2
             else generalization_loop N i n (if_children gen @ [cs ! j]) ((cs ! j) # nec) out1 j p2)) = Inr (cs', q)"
      by (auto simp: bindE_Inr_iff)
    obtain hit p1 where hit: "check_intersects_initial N (fterm gen) p = (hit, p1)" by (rule prod.exhaust)
    with rest obtain ok out1 p2 where ri: "(if hit then Inr (False, out, p1) else rel_ind_check N i gen out False p1) = Inr (ok, out1, p2)"
      and go: "(if ok then generalization_loop N i n (if_children out1) nec out1 0 p2
             else generalization_loop N i n (if_children gen @ [cs ! j]) ((cs ! j) # nec) out1 j p2) = Inr (cs', q)"
      by (auto simp: bindE_Inr_iff)
    have cg: "cube F gen" "set (if_children gen) = set ?cs" by (rule conjunction_cube [OF gen])+
    have og: "over SV gen" by (rule conjunction_cube(4) [OF gen]) (use b sc in \<open>auto simp: blockable_def\<close>)
    note k1 = intersects_initial_spec(1) [OF hit]
    have e1: "engine_ok p1" and f1: "frames_ok m p1" and i1: "i \<le> length (ic_frames p1)"
      using keeps_ok [OF k1] e f i(2) by simp_all
    show ?thesis
    proof (cases ok)
      case True
      with ri have nh: "\<not> hit" and rc: "rel_ind_check N i gen out False p1 = Inr (True, out1, p2)" by (auto split: if_splits)
      have dis: "\<not> holds F s (fterm gen)" if "ts_initial F sys s" for s
        using intersects_initial_spec(2) [OF hit e f _ nh that] og by (simp add: over_def)
      have TT: "holds F s (fterm gen)" if "holds F s T" for s
        using b cg sc that unfolding blockable_def cube_def by blast
      note rb = rel_ind_blockable [OF rc e1 f1 cg(1) og i(1) i1 dis TT]
      have "engine_ok p2" "frames_ok m p2" "i \<le> length (ic_frames p2)" using keeps_ok [OF rb(4)] e1 f1 i1 by simp_all
      from Suc.IH [OF _ this(1,2) i(1) this(3) rb(3)] go True
      have "keeps p2 q \<and> blockable q i T (set cs')" by simp
      with keeps_trans [OF k1 keeps_trans [OF rb(4)]] show ?thesis by blast
    next
      case False
      have k2: "keeps p1 p2"
      proof (cases hit)
        case False
        with ri have "rel_ind_check N i gen out False p1 = Inr (ok, out1, p2)" by simp
        from rel_ind(1) [OF this e1 f1 cg(1) og i(1) i1] show ?thesis .
      qed (use ri in simp)
      note k = keeps_trans [OF k1 k2]
      have "set (if_children gen @ [cs ! j]) = set cs" using cg(2) sc(2) by auto
      then have b2: "blockable p2 i T (set (if_children gen @ [cs ! j]))"
        using b blockable_cong [OF keeps_ok(3) [OF k]] by (simp only:)
      have "engine_ok p2" "frames_ok m p2" "i \<le> length (ic_frames p2)" using keeps_ok [OF k] e f i(2) by simp_all
      from Suc.IH [OF _ this(1,2) i(1) this(3) b2] go False
      have "keeps p2 q \<and> blockable q i T (set cs')" by simp
      with keeps_trans [OF k] show ?thesis by blast
    qed
  qed
qed simp

text \<open>The negation of a cube that can be blocked is a candidate clause.\<close>

lemma negate_candidate:
  assumes "ic3formula_negate B g = Inr u" and "cube F g" and "over SV g" and "blockable p i T (set (if_children g))"
  shows "candidate p i u" and "\<And>s. holds F s T \<Longrightarrow> \<not> holds F s (fterm u)"
proof -
  note n = negate_cube [OF assms(1,2)]
  have h: "holds F s (fterm u) \<longleftrightarrow> (\<exists>c \<in> set (if_children g). \<not> holds F s c)" for s
    using n(2) assms(2) by (simp add: cube_def)
  show "candidate p i u" using n(1) n(3) [OF assms(3)] assms(4) unfolding candidate_def blockable_def h by blast
  show "\<And>s. holds F s T \<Longrightarrow> \<not> holds F s (fterm u)" using assms(4) unfolding blockable_def h by blast
qed

lemma inductive_generalization_ok:
  assumes run: "inductive_generalization N n i c p = Inr (u, q)" and e: "engine_ok p" and f: "frames_ok m p"
    and i: "1 \<le> i" "i \<le> length (ic_frames p)" and b: "blockable p i T (set (if_children c))"
  shows "keeps p q" and "candidate q i u" and "\<And>s. holds F s T \<Longrightarrow> \<not> holds F s (fterm u)"
proof -
  from run obtain cs p1 where lp: "generalization_loop N i n (if_children c) [] null_formula 0 p = Inr (cs, p1)"
    and rest: "bindE (ic3formula_conjunction B cs) (\<lambda>gen.
       let (hit, p2) = (if ie_debug N then check_intersects_initial N (fterm gen) p1 else (False, p1))
       in dassert N (\<not> hit) (bindE (ic3formula_negate B gen) (\<lambda>block. Inr (block, p2)))) = Inr (u, q)"
    by (auto simp: inductive_generalization_def elim!: bindE_InrE)
  from rest obtain gen where gen: "ic3formula_conjunction B cs = Inr gen"
    and rest2: "(let (hit, p2) = (if ie_debug N then check_intersects_initial N (fterm gen) p1 else (False, p1))
       in dassert N (\<not> hit) (bindE (ic3formula_negate B gen) (\<lambda>block. Inr (block, p2)))) = Inr (u, q)"
    by (rule bindE_InrE)
  obtain hit p2 where "(if ie_debug N then check_intersects_initial N (fterm gen) p1 else (False, p1)) = (hit, p2)"
    by (rule prod.exhaust)
  with rest2 have hit: "(if ie_debug N then check_intersects_initial N (fterm gen) p1 else (False, p1)) = (hit, q)"
    and neg: "ic3formula_negate B gen = Inr u"
    by (auto simp: bindE_Inr_iff dassert_def)
  from generalization_loop_ok [OF lp e f i b] have l: "keeps p p1" "blockable p1 i T (set cs)" by blast+
  have k: "keeps p1 q" using hit intersects_initial_spec(1) by (cases "ie_debug N") auto
  show "keeps p q" by (rule keeps_trans [OF l(1) k])
  note g = conjunction_cube [OF gen]
  have "over SV gen" by (rule g(4)) (use l(2) in \<open>auto simp: blockable_def\<close>)
  moreover have "blockable q i T (set (if_children gen))" using l(2) g(2) blockable_cong [OF keeps_ok(3) [OF k]] by simp
  ultimately show "candidate q i u" "\<And>s. holds F s T \<Longrightarrow> \<not> holds F s (fterm u)"
    using negate_candidate [OF neg g(1)] by blast+
qed

lemma highest_loop_ok:
  "highest_loop N n j cb g0 p = Inr (k, cb', q) \<Longrightarrow> engine_ok p \<Longrightarrow> frames_ok m p \<Longrightarrow> 1 \<le> j \<Longrightarrow> j + n < length (ic_frames p) \<Longrightarrow>
    cube F cb \<Longrightarrow> over SV cb \<Longrightarrow> blockable p j T (set (if_children cb)) \<Longrightarrow>
    keeps p q \<and> j \<le> k \<and> k \<le> j + n \<and> cube F cb' \<and> over SV cb' \<and> blockable q k T (set (if_children cb'))"
proof (induction n arbitrary: j cb g0 p)
  case (Suc n)
  note e = Suc.prems(2) and f = Suc.prems(3) and j = Suc.prems(4,5) and c = Suc.prems(6,7) and b = Suc.prems(8)
  from Suc.prems(1) obtain ok g1 p1 where ri: "rel_ind_check N (j + 1) cb g0 False p = Inr (ok, g1, p1)"
    and go: "(if ok then highest_loop N n (j + 1) g1 cb p1 else Inr (j, cb, p1)) = Inr (k, cb', q)"
    by (auto simp: bindE_Inr_iff)
  have j1: "1 \<le> j + 1" "j + 1 \<le> length (ic_frames p)" using j by simp_all
  show ?case
  proof (cases ok)
    case True
    have dis: "\<not> holds F s (fterm cb)" if "ts_initial F sys s" for s
      using b that c(1) unfolding blockable_def cube_def by blast
    have TT: "holds F s (fterm cb)" if "holds F s T" for s
      using b that c(1) unfolding blockable_def cube_def by blast
    have ri': "rel_ind_check N (j + 1) cb g0 False p = Inr (True, g1, p1)" using ri True by simp
    note rb = rel_ind_blockable [OF ri' e f c j1 dis TT]
    have "engine_ok p1" "frames_ok m p1" "j + 1 + n < length (ic_frames p1)" using keeps_ok [OF rb(4)] e f j(2) by simp_all
    from Suc.IH [OF _ this(1,2) j1(1) this(3) rb(1-3)] go True
    have "keeps p1 q \<and> j + 1 \<le> k \<and> k \<le> j + 1 + n \<and> cube F cb' \<and> over SV cb' \<and> blockable q k T (set (if_children cb'))" by simp
    with keeps_trans [OF rb(4)] show ?thesis by auto
  next
    case False
    note k = rel_ind(1) [OF ri e f c j1]
    from go False have "k = j" "cb' = cb" "q = p1" by simp_all
    with k c b blockable_cong [OF keeps_ok(3) [OF k]] show ?thesis by simp
  qed
qed auto

lemma find_highest_frame_ok:
  assumes run: "find_highest_frame N i u p = Inr (k, u', q)" and e: "engine_ok p" and f: "frames_ok m p"
    and i: "1 \<le> i" "i \<le> frontier_idx p" and c: "candidate p i u" and T: "\<And>s. holds F s T \<Longrightarrow> \<not> holds F s (fterm u)"
  shows "keeps p q" and "candidate q k u'" and "\<And>s. holds F s T \<Longrightarrow> \<not> holds F s (fterm u')" and "i \<le> k" and "k \<le> frontier_idx p"
proof -
  from run obtain cb cb' where n: "ic3formula_negate B u = Inr cb"
    and h: "highest_loop N (frontier_idx p - i) i cb null_formula p = Inr (k, cb', q)"
    and n': "ic3formula_negate B cb' = Inr u'"
    by (auto simp: find_highest_frame_def bindE_Inr_iff)
  have cl: "clause F u" "over SV u" using c by (simp_all add: candidate_def)
  note ng = negate_clause [OF n cl(1)]
  have hb: "(\<exists>c \<in> set (if_children cb). \<not> holds F s c) \<longleftrightarrow> holds F s (fterm u)" for s
    using ng(1) ng(2) [of s] unfolding cube_def by blast
  have ov: "over SV cb" by (rule ng(3) [OF cl(2)])
  have "(\<forall>c \<in> set (if_children cb). holds F s c) \<longleftrightarrow> \<not> holds F s (fterm u)" for s using hb [of s] by blast
  then have b: "blockable p i T (set (if_children cb))"
    using c T ov unfolding blockable_def hb candidate_def over_def by blast
  have "i + (frontier_idx p - i) < length (ic_frames p)" using i frames_okD(1) [OF f] by (simp add: frontier_idx_def)
  from highest_loop_ok [OF h e f i(1) this ng(1) ov b]
  have r: "keeps p q" "i \<le> k" "k \<le> i + (frontier_idx p - i)" "cube F cb'" "over SV cb'" "blockable q k T (set (if_children cb'))" by blast+
  show "keeps p q" "i \<le> k" "k \<le> frontier_idx p" using r(1-3) i(2) by simp_all
  show "candidate q k u'" "\<And>s. holds F s T \<Longrightarrow> \<not> holds F s (fterm u')" using negate_candidate [OF n' r(4-6)] by blast+
qed

end

end
