(* ===== verification/Ic3_Goals.thy ===== *)
theory Ic3_Goals
  imports Ic3_Blocking
begin

section \<open>The proof goals of IC3\<close>

text \<open>
  A proof goal \<open>(c, i)\<close> is good when its chain of cubes leads to a bad state and \<open>c\<close> is
  disjoint from frame \<open>i - 1\<close>; a goal at index 0 contains an initial state.  Blocking keeps every
  goal of the queue good, because the frames only get stronger: the loop ends with a counterexample
  of the length of a chain, with an empty queue, or early because a request to terminate has arrived.
\<close>

lemma bindE_pairE:
  assumes "bindE x (\<lambda>(a, b). f a b) = Inr r"
  obtains a b where "x = Inr (a, b)" and "f a b = Inr r"
  using assms by (rule bindE_InrE) auto

lemma bindE_tripleE:
  assumes "bindE x (\<lambda>(a, b, c). f a b c) = Inr r"
  obtains a b c where "x = Inr (a, b, c)" and "f a b c = Inr r"
  using assms by (rule bindE_InrE) auto

context ic3_engine
begin

definition tightens :: "nat \<Rightarrow> ('s, 'd) ic3 \<Rightarrow> ('s, 'd) ic3 \<Rightarrow> bool" where
  "tightens m p q \<longleftrightarrow> engine_ok q \<and> frames_ok m q \<and> length (ic_frames q) = length (ic_frames p)
     \<and> (\<forall>k s. frame q k s \<longrightarrow> frame p k s) \<and> pr_reached_k q = pr_reached_k p
     \<and> (ic_request p = Some 0 \<longrightarrow> ic_request q = Some 0)
     \<and> pr_witness q = pr_witness p \<and> ic_reset_failed q = ic_reset_failed p"

lemma tightens_refl: "engine_ok p \<Longrightarrow> frames_ok m p \<Longrightarrow> tightens m p p"
  by (simp add: tightens_def)

lemma tightens_trans: "tightens m p q \<Longrightarrow> tightens m q r \<Longrightarrow> tightens m p r"
  by (simp add: tightens_def)

lemma keeps_tightens: "keeps p q \<Longrightarrow> engine_ok p \<Longrightarrow> frames_ok m p \<Longrightarrow> tightens m p q"
  using keeps_ok(1-4) [of p q] by (simp add: tightens_def keeps_def same_members_def)

lemma constrain_tightens:
  assumes "constrain_frame N i u new p = Inr q" and "engine_ok p" and "frames_ok m p" and "candidate p i u" and "1 \<le> i"
  shows "tightens m p q"
  using constrain_frame_ok(1-7) [OF assms] by (simp add: tightens_def strengthens_def)

lemma tightens_frontier: "tightens m p q \<Longrightarrow> frontier_idx q = frontier_idx p"
  by (simp add: tightens_def frontier_idx_def)

text \<open>The frames and the solver are fit for a search at the frontier.\<close>

definition searching :: "nat \<Rightarrow> ('s, 'd) ic3 \<Rightarrow> bool" where
  "searching m p \<longleftrightarrow> engine_ok p \<and> frames_ok m p \<and> frontier_idx p = m \<and> 1 \<le> m"

lemma searching_tightens: "searching m p \<Longrightarrow> tightens m p q \<Longrightarrow> searching m q"
  using tightens_frontier [of m p q] by (simp add: searching_def tightens_def)

fun goal_ok :: "('s, 'd) ic3 \<Rightarrow> proof_goal \<Rightarrow> bool" where
  "goal_ok p (ProofGoal c i n) \<longleftrightarrow> chain_ok (ProofGoal c i n) \<and> i \<le> frontier_idx p
     \<and> (if i = 0 then \<exists>s. ts_initial F sys s \<and> holds F s (fterm c) else \<forall>s. holds F s (fterm c) \<longrightarrow> wsorted s \<longrightarrow> \<not> frame p (i - 1) s)"

lemma goal_ok_tightens: "goal_ok p g \<Longrightarrow> tightens m p q \<Longrightarrow> goal_ok q g"
  by (cases g) (auto simp: tightens_def frontier_idx_def split: if_splits)

lemma goals_ok_tightens: "\<forall>g \<in> set gs. goal_ok p g \<Longrightarrow> tightens m p q \<Longrightarrow> \<forall>g \<in> set gs. goal_ok q g"
  using goal_ok_tightens by blast

lemma chain_ok_index: "chain_ok (ProofGoal c i n) = chain_ok (ProofGoal c j n)"
  by simp

lemma goal_not_initial:
  assumes "goal_ok p (ProofGoal c i n)" and "frames_ok m p" and "i \<noteq> 0" and "ts_initial F sys s"
  shows "\<not> holds F s (fterm c)"
proof
  assume h: "holds F s (fterm c)"
  have w: "wsorted s" "frame p 0 s" using assms(4) by (simp_all add: ts_initial_def frame_def)
  have "frame p (i - 1) s" by (rule frame_mono [OF assms(2) _ w]) simp
  with assms(1,3) h w(1) show False by auto
qed

text \<open>A predecessor of a good goal is a good goal one frame below.\<close>

lemma predecessor_goal:
  assumes g: "goal_ok p (ProofGoal c i n)" and i: "i \<noteq> 0" and f: "frames_ok m p" and m: "i \<le> m"
    and c: "cube F d" "over SV d" "exact d (fterm c)" and s: "wsorted s" "frame p (i - 1) s" "holds F s (fterm d)"
  shows "goal_ok p (ProofGoal d (i - 1) (Some (ProofGoal c i n)))"
proof -
  have ch: "chain_ok (ProofGoal d (i - 1) (Some (ProofGoal c i n)))" using g c by simp
  have "\<not> frame p (i - 2) u" if u: "holds F u (fterm d)" "wsorted u" "i - 1 \<noteq> 0" for u
  proof
    assume fr: "frame p (i - 2) u"
    from c(3) u obtain v t where v: "same_state u v" "stepof v t" "holds F t (fterm c)" unfolding exact_def by blast
    have "frame p (i - 2) v" using frame_same [OF f v(1)] fr by simp
    from frame_step [OF f _ v(2) this] u(3) m have "frame p (Suc (i - 2)) t" by simp
    then have "frame p (i - 1) t" using u(3) by (simp add: Suc_diff_Suc numeral_2_eq_2)
    with g i v(3) ts_stepD(2) [OF v(2)] show False by simp
  qed
  moreover have "ts_initial F sys s" if "i - 1 = 0" using s that by (simp add: frame_def ts_initial_def)
  ultimately show ?thesis using ch g s(3) by (auto simp: numeral_2_eq_2)
qed

subsection \<open>One goal\<close>

lemma is_blocked_keeps: "is_blocked N g p = Inr (b, q) \<Longrightarrow> keeps p q"
proof -
  assume run: "is_blocked N g p = Inr (b, q)"
  have "q = p \<or> (\<exists>r p1. ic3_check N (ic3_assert N (frame_label_formulas N (pg_idx g) p @ [fterm (pg_target g)])
      (push_solver_context N p)) = (r, p1) \<and> q = pop_solver_context N p1)"
    using run by (auto simp: is_blocked_def bindE_Inr_iff assert_labels assert_append Let_def split: if_splits prod.splits)
  with query_spec(1) show "keeps p q" by fastforce
qed

lemma reconstruct_cex:
  assumes "reconstruct_trace N g p = Inr q" and "chain_ok g" and "ts_initial F sys s" and "holds F s (fterm (pg_target g))"
  shows "cex F sys bad (ic3_witness_length q)"
proof -
  have "ic_cex q = goal_chain g @ [bad]"
    using assms(1) by (auto simp: reconstruct_trace_def dassert_def Let_def split: prod.splits if_splits)
  then show ?thesis using chain_cex [OF assms(2-4)] by (simp add: ic3_witness_length_def)
qed

lemma block_goal:
  assumes s: "searching m p" and g: "goal_ok p (ProofGoal c i n)" "i \<noteq> 0"
    and ri: "rel_ind_check N i c null_formula True p = Inr (True, d, p2)"
    and ig: "(if io_indgen (ie_opts N) then inductive_generalization N f i d p2
         else bindE (ic3formula_negate B d) (\<lambda>u. Inr (u, p2))) = Inr (u, p3)"
    and fh: "find_highest_frame N i u p3 = Inr (k, u1, p4)" and cf: "constrain_frame N k u1 True p4 = Inr p5"
  shows "tightens m p p5" and "k < frontier_idx p5 \<Longrightarrow> goal_ok p5 (ProofGoal c (k + 1) n)"
proof -
  have e: "engine_ok p" and f: "frames_ok m p" and m: "frontier_idx p = m" using s by (simp_all add: searching_def)
  have cc: "cube F c" "over SV c" and im: "i \<le> m" and i: "1 \<le> i" "i \<le> length (ic_frames p)"
    using g m by (auto simp: frontier_idx_def)
  let ?T = "fterm c"
  have rb: "cube F d" "over SV d" "blockable p2 i ?T (set (if_children d))" "keeps p p2"
    using rel_ind_blockable [OF ri e f cc i goal_not_initial [OF g(1) f g(2)], of ?T] by blast+
  have t2: "tightens m p p2" by (rule keeps_tightens [OF rb(4) e f])
  have e2: "engine_ok p2" "frames_ok m p2" "i \<le> length (ic_frames p2)" using t2 i by (simp_all add: tightens_def)
  have 3: "keeps p2 p3 \<and> candidate p3 i u \<and> (\<forall>s. holds F s ?T \<longrightarrow> \<not> holds F s (fterm u))"
  proof (cases "io_indgen (ie_opts N)")
    case True
    with ig inductive_generalization_ok [OF _ e2(1,2) i(1) e2(3) rb(3)] show ?thesis by auto
  next
    case False
    with ig have "ic3formula_negate B d = Inr u" "p3 = p2" by (auto simp: bindE_Inr_iff)
    with negate_candidate [OF _ rb(1,2,3)] show ?thesis by auto
  qed
  have t3: "tightens m p2 p3" using keeps_tightens 3 e2 by blast
  have fr: "frontier_idx p3 = m" using tightens_frontier t2 t3 m by metis
  have e3: "engine_ok p3" "frames_ok m p3" using t3 by (simp_all add: tightens_def)
  have 4: "keeps p3 p4" "candidate p4 k u1" "\<And>s. holds F s ?T \<Longrightarrow> \<not> holds F s (fterm u1)" "i \<le> k" "k \<le> m"
    using find_highest_frame_ok [OF fh e3 i(1), of ?T] 3 im fr by auto
  have t4: "tightens m p3 p4" by (rule keeps_tightens [OF 4(1) e3])
  have e4: "engine_ok p4" "frames_ok m p4" "1 \<le> k" using t4 4(4) i(1) by (simp_all add: tightens_def)
  note t5 = constrain_tightens [OF cf e4(1,2) 4(2) e4(3)]
  show "tightens m p p5" using t2 t3 t4 t5 tightens_trans by blast
  assume k: "k < frontier_idx p5"
  have "\<not> frame p5 k s" if "holds F s ?T" for s
    using 4(3) [OF that] constrain_frame_ok(8) [OF cf e4(1,2) 4(2) e4(3)] by blast
  with k g(1) show "goal_ok p5 (ProofGoal c (k + 1) n)" by simp
qed

subsection \<open>Reading the request to terminate\<close>

lemma engine_ok_request: "engine_ok (p\<lparr>ic_request := x\<rparr>) = engine_ok p"
proof -
  let ?q = "p\<lparr>ic_request := x\<rparr>"
  have fld: "ic_frames ?q = ic_frames p" "ic_frame_labels ?q = ic_frame_labels p" "ic_trans_label ?q = ic_trans_label p"
    "ic_bad_label ?q = ic_bad_label p" "ic_approx ?q = ic_approx p" "ic_data ?q = ic_data p" "ic_labels ?q = ic_labels p"
    "ic_symtab ?q = ic_symtab p" "pr_solver ?q = pr_solver p" by simp_all
  show ?thesis
    unfolding engine_ok_def labels_ok_def own_labels_def global_labels_def solver_ok_def obeys_def activates_def
      frame_cong [OF fld(1)] fld by (rule refl)
qed

lemma poll_terminate_ok:
  assumes "poll_terminate p = (stop, q)"
  shows "\<exists>x. q = p\<lparr>ic_request := x\<rparr> \<and> (ic_request p = Some 0 \<longrightarrow> x = Some 0)" and "stop \<longleftrightarrow> ic_request p = Some 0"
proof -
  have same: "\<exists>x. p = p\<lparr>ic_request := x\<rparr> \<and> (ic_request p = Some 0 \<longrightarrow> x = Some 0)"
    by (rule exI [of _ "ic_request p"]) simp
  consider "ic_request p = None \<or> ic_request p = Some 0" | n where "ic_request p = Some (Suc n)"
    by (metis not0_implies_Suc option.exhaust)
  then have "(\<exists>x. q = p\<lparr>ic_request := x\<rparr> \<and> (ic_request p = Some 0 \<longrightarrow> x = Some 0)) \<and> (stop \<longleftrightarrow> ic_request p = Some 0)"
  proof cases
    case 1
    then have "q = p" "stop \<longleftrightarrow> ic_request p = Some 0" using assms unfolding poll_terminate_def by auto
    with same show ?thesis by blast
  next
    case 2
    then have "q = p\<lparr>ic_request := Some n\<rparr>" "\<not> stop" using assms unfolding poll_terminate_def by auto
    with 2 show ?thesis by auto
  qed
  then show "\<exists>x. q = p\<lparr>ic_request := x\<rparr> \<and> (ic_request p = Some 0 \<longrightarrow> x = Some 0)" "stop \<longleftrightarrow> ic_request p = Some 0"
    by blast+
qed

lemma poll_tightens:
  assumes "poll_terminate p = (stop, q)" and "engine_ok p" and "frames_ok m p"
  shows "tightens m p q" and "stop \<Longrightarrow> ic_request q = Some 0"
proof -
  obtain x where x: "q = p\<lparr>ic_request := x\<rparr>" "ic_request p = Some 0 \<longrightarrow> x = Some 0"
    using poll_terminate_ok(1) [OF assms(1)] by blast
  have "frame q = frame p" by (rule frame_cong) (simp add: x(1))
  moreover have "frames_ok m q = frames_ok m p" by (rule frames_ok_cong) (simp add: x(1))
  moreover have "engine_ok q = engine_ok p" by (simp only: x(1) engine_ok_request)
  ultimately show "tightens m p q" using assms(2,3) x(2) by (simp add: tightens_def x(1))
  show "stop \<Longrightarrow> ic_request q = Some 0" using x poll_terminate_ok(2) [OF assms(1)] by simp
qed

subsection \<open>The queue\<close>

lemma set_remove_nth: "set (remove_nth k xs) \<subseteq> set xs"
  by (auto simp: remove_nth_def dest: in_set_takeD in_set_dropD)

text \<open>One round for a goal above index 0 leads to another round with good goals.\<close>

lemma goal_round:
  assumes s: "searching m p0" and gi: "goal_ok p0 (ProofGoal c i nx)" and i0: "i \<noteq> 0"
    and ok: "\<forall>g \<in> set gs. goal_ok p0 g" and q1: "\<forall>g \<in> set gs1. goal_ok p0 g"
    and run: "bindE (is_blocked N (ProofGoal c i nx) p0) (\<lambda>(blocked, p1). if blocked then block_goals N f n gs1 p1
        else bindE (rel_ind_check N i c null_formula True p1) (\<lambda>(ok, collateral, p2).
          if ok then
            bindE (if io_indgen (ie_opts N) then inductive_generalization N f i collateral p2
                   else bindE (ic3formula_negate B collateral) (\<lambda>u. Inr (u, p2))) (\<lambda>(u, p3).
            bindE (find_highest_frame N i u p3) (\<lambda>(idx, u1, p4).
            bindE (constrain_frame N idx u1 True p4) (\<lambda>p5.
              block_goals N f n (if idx < frontier_idx p5 then gs1 @ [ProofGoal c (idx + 1) nx] else gs1) p5)))
          else block_goals N f n (gs @ [ProofGoal collateral (i - 1) (Some (ProofGoal c i nx))]) p2)) = Inr (res, q)"
  shows "\<exists>gs' p5. tightens m p0 p5 \<and> block_goals N f n gs' p5 = Inr (res, q) \<and> (\<forall>g \<in> set gs'. goal_ok p5 g)"
proof -
  have e: "engine_ok p0" and f: "frames_ok m p0" using s by (simp_all add: searching_def)
  have later: ?thesis if "tightens m p0 p5" "block_goals N f n gs' p5 = Inr (res, q)" "\<forall>g \<in> set gs'. goal_ok p5 g" for gs' p5
    using that by blast
  from run obtain blocked p1 where bl: "is_blocked N (ProofGoal c i nx) p0 = Inr (blocked, p1)"
    and rest: "(if blocked then block_goals N f n gs1 p1
        else bindE (rel_ind_check N i c null_formula True p1) (\<lambda>(ok, collateral, p2).
          if ok then
            bindE (if io_indgen (ie_opts N) then inductive_generalization N f i collateral p2
                   else bindE (ic3formula_negate B collateral) (\<lambda>u. Inr (u, p2))) (\<lambda>(u, p3).
            bindE (find_highest_frame N i u p3) (\<lambda>(idx, u1, p4).
            bindE (constrain_frame N idx u1 True p4) (\<lambda>p5.
              block_goals N f n (if idx < frontier_idx p5 then gs1 @ [ProofGoal c (idx + 1) nx] else gs1) p5)))
          else block_goals N f n (gs @ [ProofGoal collateral (i - 1) (Some (ProofGoal c i nx))]) p2)) = Inr (res, q)"
    by (rule bindE_pairE)
  have k1: "keeps p0 p1" by (rule is_blocked_keeps [OF bl])
  have t1: "tightens m p0 p1" by (rule keeps_tightens [OF k1 e f])
  have g1: "goal_ok p1 (ProofGoal c i nx)" by (rule goal_ok_tightens [OF gi t1])
  have s1: "searching m p1" by (rule searching_tightens [OF s t1])
  have e1: "engine_ok p1" "frames_ok m p1" and m1: "frontier_idx p1 = m" using s1 by (simp_all add: searching_def)
  show ?thesis
  proof (cases blocked)
    case True
    with rest later [OF t1] goals_ok_tightens [OF q1 t1] show ?thesis by simp
  next
    case nb: False
    with rest obtain ok d p2 where ri: "rel_ind_check N i c null_formula True p1 = Inr (ok, d, p2)"
      and go: "(if ok then
            bindE (if io_indgen (ie_opts N) then inductive_generalization N f i d p2
                   else bindE (ic3formula_negate B d) (\<lambda>u. Inr (u, p2))) (\<lambda>(u, p3).
            bindE (find_highest_frame N i u p3) (\<lambda>(idx, u1, p4).
            bindE (constrain_frame N idx u1 True p4) (\<lambda>p5.
              block_goals N f n (if idx < frontier_idx p5 then gs1 @ [ProofGoal c (idx + 1) nx] else gs1) p5)))
          else block_goals N f n (gs @ [ProofGoal d (i - 1) (Some (ProofGoal c i nx))]) p2) = Inr (res, q)"
      by simp (elim bindE_InrE, auto)
    have cc: "cube F c" "over SV c" and im: "i \<le> m" and i: "1 \<le> i" "i \<le> length (ic_frames p1)"
      using g1 i0 m1 by (auto simp: frontier_idx_def)
    show ?thesis
    proof (cases ok)
      case True
      with go obtain u p3 idx u1 p4 p5 where
        "(if io_indgen (ie_opts N) then inductive_generalization N f i d p2
           else bindE (ic3formula_negate B d) (\<lambda>u. Inr (u, p2))) = Inr (u, p3)"
        "find_highest_frame N i u p3 = Inr (idx, u1, p4)" "constrain_frame N idx u1 True p4 = Inr p5"
        and r: "block_goals N f n (if idx < frontier_idx p5 then gs1 @ [ProofGoal c (idx + 1) nx] else gs1) p5 = Inr (res, q)"
        by simp (elim bindE_InrE, auto elim!: bindE_InrE)
      note steps = this(1-3)
      have ri': "rel_ind_check N i c null_formula True p1 = Inr (True, d, p2)" using ri True by simp
      note bg = block_goal [OF s1 g1 i0 ri' steps]
      have t: "tightens m p0 p5" by (rule tightens_trans [OF t1 bg(1)])
      show ?thesis by (rule later [OF t r]) (use goals_ok_tightens [OF q1 t] bg(2) in auto)
    next
      case False
      note rs = rel_ind [OF ri e1 cc i]
      have t2: "tightens m p1 p2" by (rule keeps_tightens [OF rs(1) e1])
      have t: "tightens m p0 p2" by (rule tightens_trans [OF t1 t2])
      from rs(3) False obtain x where d: "cube F d" "over SV d" "exact d (fterm c)"
        and x: "wsorted x" "frame p1 (i - 1) x" "holds F x (fterm d)" by blast
      have "goal_ok p1 (ProofGoal d (i - 1) (Some (ProofGoal c i nx)))"
        by (rule predecessor_goal [OF g1 i0 e1(2) im d x])
      from goal_ok_tightens [OF this t2] goals_ok_tightens [OF ok t]
      have "\<forall>g \<in> set (gs @ [ProofGoal d (i - 1) (Some (ProofGoal c i nx))]). goal_ok p2 g"
        by (simp del: goal_ok.simps)
      moreover have "block_goals N f n (gs @ [ProofGoal d (i - 1) (Some (ProofGoal c i nx))]) p2 = Inr (res, q)"
        using go False by simp
      ultimately show ?thesis by (intro later [OF t])
    qed
  qed
qed

lemma block_goals_ok:
  "block_goals N f n gs p = Inr (res, q) \<Longrightarrow> searching m p \<Longrightarrow> \<forall>g \<in> set gs. goal_ok p g \<Longrightarrow>
    (case res of None \<Rightarrow> tightens m p q
     | Some b \<Rightarrow> if b then tightens m p q \<and> ic_request q = Some 0 else cex F sys bad (ic3_witness_length q))"
proof (induction n arbitrary: gs p)
  case (Suc n)
  note s' = Suc.prems(2) and ok' = Suc.prems(3)
  have e': "engine_ok p" "frames_ok m p" using s' by (simp_all add: searching_def)
  show ?case
  proof (cases "gs = []")
    case True
    with Suc.prems(1) tightens_refl [OF e'] show ?thesis by auto
  next
    case False
    obtain stop p0 where poll: "poll_terminate p = (stop, p0)" by (rule prod.exhaust)
    note t0 = poll_tightens [OF poll e']
    have s: "searching m p0" by (rule searching_tightens [OF s' t0(1)])
    have ok: "\<forall>g \<in> set gs. goal_ok p0 g" by (rule goals_ok_tightens [OF ok' t0(1)])
    obtain c i nx where g: "gs ! ie_top N gs = ProofGoal c i nx" by (cases "gs ! ie_top N gs")
    have gi: "goal_ok p0 (ProofGoal c i nx)" using ok top_in [OF False] g by (metis nth_mem)
    let ?q1 = "remove_nth (ie_top N gs) gs"
    have q1: "\<forall>g \<in> set ?q1. goal_ok p0 g" using ok set_remove_nth [of "ie_top N gs" gs] by blast
    have later: ?thesis if t: "tightens m p0 p5" and r: "block_goals N f n gs' p5 = Inr (res, q)" and gs': "\<forall>g \<in> set gs'. goal_ok p5 g"
      for gs' p5
    proof -
      from Suc.IH [OF r searching_tightens [OF s t] gs'] tightens_trans [OF tightens_trans [OF t0(1) t]]
      show ?thesis by (auto split: option.splits if_splits)
    qed
    show ?thesis
    proof (cases "stop \<or> i = 0")
      case True
      show ?thesis
      proof (cases stop)
        case True
        with Suc.prems(1) False poll t0 show ?thesis by (auto simp: Let_def)
      next
        case ns: False
        with Suc.prems(1) False poll g True obtain "reconstruct_trace N (ProofGoal c i nx) p0 = Inr q" "res = Some False"
          by (auto simp: bindE_Inr_iff Let_def)
        moreover obtain s0 where "ts_initial F sys s0" "holds F s0 (fterm c)" using gi True ns by auto
        moreover have "chain_ok (ProofGoal c i nx)" using gi by simp
        ultimately show ?thesis using reconstruct_cex by force
      qed
    next
      case go_on: False
      then have i0: "i \<noteq> 0" by simp
      have "bindE (is_blocked N (ProofGoal c i nx) p0) (\<lambda>(blocked, p1). if blocked then block_goals N f n ?q1 p1
            else bindE (rel_ind_check N i c null_formula True p1) (\<lambda>(ok, collateral, p2).
              if ok then
                bindE (if io_indgen (ie_opts N) then inductive_generalization N f i collateral p2
                       else bindE (ic3formula_negate B collateral) (\<lambda>u. Inr (u, p2))) (\<lambda>(u, p3).
                bindE (find_highest_frame N i u p3) (\<lambda>(idx, u1, p4).
                bindE (constrain_frame N idx u1 True p4) (\<lambda>p5.
                  block_goals N f n (if idx < frontier_idx p5 then ?q1 @ [ProofGoal c (idx + 1) nx] else ?q1) p5)))
              else block_goals N f n (gs @ [ProofGoal collateral (i - 1) (Some (ProofGoal c i nx))]) p2)) = Inr (res, q)"
        using Suc.prems(1) False poll g go_on by (simp add: Let_def cong: if_cong)
      from goal_round [OF s gi i0 ok q1 this] later show ?thesis by blast
    qed
  qed
qed simp

subsection \<open>Bad states one step from the frontier\<close>

lemma frames_ok_Suc:
  assumes "frames_ok m p" and "\<And>s t. stepof s t \<Longrightarrow> frame p m s \<Longrightarrow> \<not> holds F t bad"
  shows "frames_ok (Suc m) p"
proof -
  have "\<not> holds F t bad" if "i < Suc m" "stepof s t" "frame p i s" for i s t
  proof (cases "i = m")
    case True
    with that assms(2) show ?thesis by blast
  next
    case False
    with that(1) have "i < m" by simp
    with assms(1) that(2,3) show ?thesis unfolding frames_ok_def by blast
  qed
  with assms(1) show ?thesis unfolding frames_ok_def by blast
qed

lemma reaches_bad_ok:
  assumes run: "reaches_bad N p = Inr (reached, g, q)" and s: "searching m p"
  shows "tightens m p q" and "\<not> reached \<Longrightarrow> frames_ok (Suc m) q" and "reached \<Longrightarrow> goal_ok q (ProofGoal g (frontier_idx q) None)"
proof -
  have e: "engine_ok p" and f: "frames_ok m p" and m: "frontier_idx p = m" "1 \<le> m" using s by (simp_all add: searching_def)
  have len: "length (ic_frames p) = Suc m" using m by (simp add: frontier_idx_def)
  let ?X = "frame_label_formulas N m p @ [nextof bad, ic_trans_label p]"
  have tl: "ic_trans_label (ic3_assert N ts (push_solver_context N p)) = ic_trans_label p" for ts
    by (simp add: ic3_assert_def on_solver_def push_solver_context_def)
  obtain r p1 where ck: "ic3_check N (ic3_assert N ?X (push_solver_context N p)) = (r, p1)" by (rule prod.exhaust)
  with run have rest: "bindE (if r = SAT then get_predecessor N (length (ic_frames p1)) bad p1 else Inr null_formula) (\<lambda>out.
         dassert N (r = SAT \<longrightarrow> fl_valid N out)
           (guardE (r \<noteq> UNKNOWN) (PonoException ''Bad state check in IC3 returned unknown'')
             (Inr (r = SAT, out, pop_solver_context N p1)))) = Inr (reached, g, q)"
    by (simp add: reaches_bad_def Let_def assert_labels assert_append tl m(1))
  from rest obtain out where out: "(if r = SAT then get_predecessor N (length (ic_frames p1)) bad p1 else Inr null_formula) = Inr out"
    and fin: "reached = (r = SAT)" "g = out" "q = pop_solver_context N p1"
    by (auto simp: bindE_Inr_iff dassert_def guardE_def split: if_splits)
  note qs = query_spec [OF ck]
  show t: "tightens m p q" unfolding fin(3) by (rule keeps_tightens [OF qs(1) e f])
  have fq: "frame q = frame p" "ic_frames q = ic_frames p" using keeps_ok(3,4) [OF qs(1)] by (simp_all add: fin(3))
  show "frames_ok (Suc m) q" if nr: "\<not> reached"
  proof -
    have r: "r = UNSAT" using nr fin(1) qs(3) by (cases r) simp_all
    have "\<not> holds F t bad" if st: "stepof x t" "frame p m x" for x t
    proof
      assume h: "holds F t bad"
      let ?\<tau> = "pair_env sys x t"
      have w: "wsorted ?\<tau>" by (rule wsorted_pair_env [OF sys_wf ts_stepD(1,2) [OF st(1)]])
      have fr: "frame p m ?\<tau>" using frame_same [OF f same_state_pair] st(2) by simp
      obtain \<sigma> where sg: "wsorted \<sigma>" "\<And>t. syms_in (ts_vars sys) t \<Longrightarrow> eval F \<sigma> t = eval F ?\<tau> t"
        "\<And>t. t \<in> asserted (pr_solver p) \<Longrightarrow> holds F \<sigma> t" "all_hold F \<sigma> (frame_label_formulas N m p)"
        "holds F \<sigma> (ic_trans_label p)"
        by (rule query_model [OF e f w fr ts_stepD(4) [OF st(1)]]) blast
      have "holds F \<sigma> (nextof bad)" using sg(2) [OF nextof_syms [OF bad_syms]] eval_nextof [OF ts_stepD(3) [OF st(1)] bad_syms] h by simp
      with qs(5) [OF r sg(1)] sg(3-5) show False by auto
    qed
    moreover have "frames_ok m q" using t by (simp add: tightens_def)
    ultimately show ?thesis by (intro frames_ok_Suc) (simp_all add: fq(1))
  qed
  show "goal_ok q (ProofGoal g (frontier_idx q) None)" if re: reached
  proof -
    have r: "r = SAT" using re fin(1) by simp
    from qs(4) [OF r] obtain \<sigma> where sg: "model_of (pr_solver p1) \<sigma>" "\<forall>t \<in> asserted (pr_solver p). holds F \<sigma> t" "all_hold F \<sigma> ?X" by auto
    have fr: "frame p m \<sigma>" using query_frame [OF e f, of \<sigma> m] sg(2,3) len by simp
    have "activates p \<sigma>" using e sg(2) by (simp add: engine_ok_def solver_ok_def)
    then have tr: "holds F \<sigma> (ts_trans sys)" using sg(3) by (simp add: activates_def)
    have nb: "\<not> holds F \<sigma> bad" using fr m(2) by (simp add: frame_def)
    have p1: "ic_frames p1 = ic_frames p" "\<not> ic_approx p1" "Q (ic_data p1)" "frame p1 = frame p"
      using qs(2) e frame_cong [of p1 p] by (simp_all add: same_members_def engine_ok_def)
    have "get_predecessor N (Suc m) bad p1 = Inr g" using out r fin(2) p1(1) len by simp
    from get_predecessor_spec [OF this sg(1) p1(2,3) bad_syms tr _ nb] sg(3) fr p1(4)
    have c: "cube F g" "over SV g" "exact g bad" by simp_all
    have "\<not> frame p (m - 1) u" if u: "holds F u (fterm g)" "wsorted u" for u
    proof
      assume fu: "frame p (m - 1) u"
      from c(3) u obtain v t where v: "same_state u v" "stepof v t" "holds F t bad" unfolding exact_def by blast
      have "frame p (m - 1) v" using frame_same [OF f v(1)] fu by simp
      with f v(2,3) m(2) show False unfolding frames_ok_def by (metis One_nat_def Suc_le_eq diff_less zero_less_one)
    qed
    moreover have "frontier_idx q = m" using tightens_frontier [OF t] m(1) by simp
    ultimately show ?thesis using c m(2) by (simp add: fq)
  qed
qed

lemma block_all_ok:
  "block_all N f n p = Inr (b, q) \<Longrightarrow> searching m p \<Longrightarrow>
    (if b then tightens m p q \<and> (frames_ok (Suc m) q \<or> ic_request q = Some 0) else cex F sys bad (ic3_witness_length q))"
proof (induction n arbitrary: p)
  case (Suc n)
  note s = Suc.prems(2)
  from Suc.prems(1) obtain reached g p1 where rb: "reaches_bad N p = Inr (reached, g, p1)"
    and go: "(if \<not> reached then Inr (True, p1)
       else bindE (block_goals N f f [ProofGoal g (frontier_idx p1) None] p1) (\<lambda>(res, p2).
         case res of Some b \<Rightarrow> Inr (b, p2) | None \<Rightarrow> block_all N f n p2)) = Inr (b, q)"
    by simp (elim bindE_InrE, auto)
  note r = reaches_bad_ok [OF rb s]
  have s1: "searching m p1" by (rule searching_tightens [OF s r(1)])
  show ?case
  proof (cases reached)
    case False
    with go r show ?thesis by simp
  next
    case True
    with go obtain res p2 where bg: "block_goals N f f [ProofGoal g (frontier_idx p1) None] p1 = Inr (res, p2)"
      and go2: "(case res of Some b \<Rightarrow> Inr (b, p2) | None \<Rightarrow> block_all N f n p2) = Inr (b, q)"
      by simp (elim bindE_InrE, auto)
    have "\<forall>g' \<in> set [ProofGoal g (frontier_idx p1) None]. goal_ok p1 g'" using r(3) [OF True] by (simp del: goal_ok.simps)
    note ok = block_goals_ok [OF bg s1 this]
    show ?thesis
    proof (cases res)
      case None
      then have t: "tightens m p p2" using ok tightens_trans [OF r(1)] by simp
      from Suc.IH [OF _ searching_tightens [OF s t]] go2 None tightens_trans [OF t] show ?thesis
        by (auto split: if_splits)
    next
      case (Some b')
      with go2 ok tightens_trans [OF r(1)] show ?thesis by (auto split: if_splits)
    qed
  qed
qed simp

end

end
