(* ===== verification/Ic3_Run.thy ===== *)
theory Ic3_Run
  imports Ic3_Goals
begin

section \<open>A run of IC3\<close>

text \<open>
  Propagation and the solver reset keep the invariant; \<open>run_ok\<close> is what holds between two steps
  of the engine, and \<open>check_ok\<close> what the answer of a run from a new engine means.
\<close>

context ic3_engine
begin

subsection \<open>A new frame\<close>

lemma clauses_push: "clauses k (p\<lparr>ic_frames := ic_frames p @ [[]]\<rparr>) = clauses k p"
  by (cases "k \<le> length (ic_frames p)") (simp_all add: clauses_def)

lemma labels_push:
  assumes lab: "labels_ok p" and n: "n \<notin> set (ic_symtab p)"
  shows "labels_ok (p\<lparr>ic_symtab := n # ic_symtab p, ic_frame_labels := ic_frame_labels p @ [Sym n BOOL],
    ic_frames := ic_frames p @ [[]]\<rparr>)" (is "labels_ok ?q")
proof -
  have len: "length (ic_frame_labels p) = length (ic_frames p)" and decls: "set (ts_declared sys) \<subseteq> set (ic_symtab p)"
    using lab unfolding labels_ok_def by blast+
  have o: "own_labels ?q = own_labels p" by (simp add: own_labels_def)
  have g: "set (global_labels ?q) = insert (Sym n BOOL) (set (global_labels p))" by (auto simp: global_labels_def)
  have old: "label_sym (ic_symtab p) l" if "l \<in> set (global_labels p) \<union> own_labels p" for l
    using lab that unfolding labels_ok_def by blast
  then have new: "Sym n BOOL \<notin> set (global_labels p) \<union> own_labels p" using n by (auto simp: label_sym_def)
  have decl: "n \<notin> set (ts_declared sys)" using lab n unfolding labels_ok_def by blast
  have "label_sym (ic_symtab ?q) l" if "l \<in> set (global_labels ?q) \<union> own_labels ?q" for l
  proof (cases "l = Sym n BOOL")
    case False
    with that have "label_sym (ic_symtab p) l" using old unfolding g o by blast
    then show ?thesis by (auto simp: label_sym_def)
  qed (use decl in \<open>simp add: label_sym_def\<close>)
  moreover have "distinct (global_labels p)" using lab unfolding labels_ok_def by blast
  then have "distinct (global_labels ?q)" using new by (auto simp: global_labels_def)
  moreover have "set (global_labels ?q) \<inter> own_labels ?q = {}" using lab new unfolding labels_ok_def g o by blast
  moreover have "length (ic_frame_labels ?q) = length (ic_frames ?q)" "set (ts_declared sys) \<subseteq> set (ic_symtab ?q)"
    using len decls by auto
  moreover have m: "ic_labels ?q = ic_labels p" by simp
  have "\<forall>t l. map_of (ic_labels ?q) t = Some l \<longrightarrow> syms_in (ts_vars sys) t"
    "\<forall>t t' l. map_of (ic_labels ?q) t = Some l \<and> map_of (ic_labels ?q) t' = Some l \<and> l \<noteq> t \<and> l \<noteq> t' \<longrightarrow> t = t'"
    using lab unfolding labels_ok_def m by blast+
  ultimately show ?thesis unfolding labels_ok_def by blast
qed

lemma push_frame_ok:
  assumes run: "push_frame N p = Inr q" and e: "engine_ok p" and f: "frames_ok m p"
  shows "engine_ok q" and "frames_ok m q" and "frontier_idx q = Suc (frontier_idx p)" and "ic_request q = ic_request p"
    and "pr_reached_k q = pr_reached_k p" and "ic_frames q = ic_frames p @ [[]]"
proof -
  let ?L = "ic_frame_labels p" and ?n = "length (ic_frames p)"
  have lab: "labels_ok p" using e by (simp add: engine_ok_def)
  then have len: "length ?L = ?n" unfolding labels_ok_def by blast
  have n2: "2 \<le> ?n" by (rule frames_okD(1) [OF f])
  then have n0: "0 < ?n" by linarith
  let ?name = "''__frame_label_'' @ nat_str ?n"
  let ?l = "Sym ?name BOOL" and ?t = "ic3_implies N (Sym ?name BOOL) (smart_not B bad)"
  let ?p1 = "p\<lparr>ic_symtab := ?name # ic_symtab p, ic_frame_labels := ?L @ [?l], ic_frames := ic_frames p @ [[]]\<rparr>"
  have fresh: "?name \<notin> set (ic_symtab p)" and q: "q = ic3_assert N [?t] ?p1"
  proof -
    from run obtain l tab where ms: "make_symbol ?name BOOL (ic_symtab p) = Inr (l, tab)"
      and r: "(let p1 = p\<lparr>ic_symtab := tab, ic_frame_labels := ?L @ [l], ic_frames := ic_frames p @ [[]]\<rparr>
       in Inr (if length (ic_frames p1) > 1 then ic3_assert N [ic3_implies N l (smart_not B bad)] p1 else p1)) = (Inr q :: _ result)"
      unfolding push_frame_def by (rule bindE_pairE)
    from ms have m: "?name \<notin> set (ic_symtab p)" "l = ?l" "tab = ?name # ic_symtab p"
      by (simp_all add: make_symbol_def guardE_def split: if_splits)
    have "ic_frames p \<noteq> []" using n2 by auto
    with m r show "?name \<notin> set (ic_symtab p)" "q = ic3_assert N [?t] ?p1" by (simp_all add: Let_def)
  qed
  have fld: "ic_frames q = ic_frames p @ [[]]" "ic_frame_labels q = ?L @ [?l]" "ic_trans_label q = ic_trans_label p"
    "ic_bad_label q = ic_bad_label p" "ic_approx q = ic_approx p" "ic_data q = ic_data p" "ic_request q = ic_request p"
    "pr_reached_k q = pr_reached_k p" "asserted (pr_solver q) = insert ?t (asserted (pr_solver p))"
    "ic_labels q = ic_labels p" "ic_symtab q = ?name # ic_symtab p"
    by (simp_all add: q ic3_assert_def on_solver_def)
  show "ic_frames q = ic_frames p @ [[]]" "ic_request q = ic_request p" "pr_reached_k q = pr_reached_k p" by (fact fld)+
  show "frontier_idx q = Suc (frontier_idx p)" using n2 by (simp add: frontier_idx_def fld)
  have cl: "clauses k q = clauses k p" for k using clauses_push [of k p] by (simp add: clauses_def fld)
  then have fr: "frame q = frame p" by (simp add: frame_def fun_eq_iff)
  have "labels_ok (ic3_assert N [?t] ?p1) = labels_ok ?p1" by (rule labels_ok_cong) simp_all
  then have lq: "labels_ok q" using labels_push [OF lab fresh] unfolding q by blast
  have nth: "i < ?n \<Longrightarrow> ic_frames q ! i = ic_frames p ! i \<and> ic_frame_labels q ! i = ?L ! i" for i
    by (simp add: fld nth_append len)
  have nthn: "ic_frames q ! ?n = []" "ic_frame_labels q ! ?n = ?l" by (simp_all add: fld nth_append len)
  show "frames_ok m q"
  proof -
    have "holds F t (fterm c)" if c: "1 \<le> j" "j < length (ic_frames q)" "c \<in> set (ic_frames q ! j)" "stepof s t" "frame q (j - 1) s"
      for j c s t
    proof -
      have j: "j < ?n" using c(2,3) nthn(1) by (cases "j = ?n") (simp_all add: fld)
      then have "c \<in> set (ic_frames p ! j)" "frame p (j - 1) s" using c(3,5) nth fr by auto
      with f c(1,4) j show ?thesis unfolding frames_ok_def by blast
    qed
    moreover have "2 \<le> length (ic_frames q)" "ic_frames q ! 0 = []" using n2 nth [OF n0] frames_okD(2) [OF f] by (simp_all add: fld(1))
    ultimately show ?thesis using f unfolding frames_ok_def cl fr by blast
  qed
  have up: "holds F \<sigma> u" if s: "wsorted \<sigma>" "obeys q \<sigma>" and u: "u \<in> asserted (pr_solver q)" for \<sigma> u
  proof (cases "u = ?t")
    case True
    have "holds F \<sigma> ?l \<longrightarrow> frame q ?n \<sigma>" using s(2) nthn(2) unfolding obeys_def by (metis fld(1) length_append_singleton lessI)
    moreover have "?n \<noteq> 0" using n0 by simp
    ultimately show ?thesis using True by (auto simp: ic3_implies_def frame_def)
  next
    case False
    have "frame p i \<sigma>" if "i < ?n" "holds F \<sigma> (?L ! i)" for i
      using s(2) that nth [of i] unfolding obeys_def fr [symmetric] by (simp add: fld)
    then have "obeys p \<sigma>" using s(2) by (auto simp: obeys_def fld)
    with e s(1) False u fld(9) show ?thesis by (simp add: engine_ok_def solver_ok_def)
  qed
  have lo: "activates q \<sigma>" if h: "\<forall>u \<in> asserted (pr_solver q). holds F \<sigma> u" for \<sigma>
  proof -
    have act: "activates p \<sigma>" using e h fld(9) by (simp add: engine_ok_def solver_ok_def)
    have "\<not> holds F \<sigma> bad \<and> (\<forall>c \<in> set (ic_frames q ! i). holds F \<sigma> (fterm c))"
      if i: "1 \<le> i" "i < length (ic_frames q)" "holds F \<sigma> (ic_frame_labels q ! i)" for i
    proof (cases "i = ?n")
      case True
      have "holds F \<sigma> ?t" using h fld(9) by blast
      with True i(3) nthn show ?thesis by (simp add: ic3_implies_def)
    next
      case False
      with i(2) have "i < ?n" by (simp add: fld)
      with act i nth [of i] show ?thesis unfolding activates_def by metis
    qed
    moreover have "ic_frame_labels q ! 0 = ?L ! 0" using nth [OF n0] by blast
    ultimately show ?thesis using act fld(3) unfolding activates_def by metis
  qed
  have "frames (pr_solver q) \<noteq> []"
    using e tl_asserts(2) [of "pr_solver p" "[?t]"] by (simp add: engine_ok_def q ic3_assert_def on_solver_def)
  with lq up lo e fld(5,6) show "engine_ok q" unfolding engine_ok_def solver_ok_def by simp
qed

subsection \<open>Propagation\<close>

text \<open>A clause that moves on is implied by one in the next frame.\<close>

definition covered_by :: "ic3_formula list \<Rightarrow> ic3_formula \<Rightarrow> bool" where
  "covered_by Fs c \<longleftrightarrow> (\<exists>d \<in> set Fs. \<forall>s. holds F s (fterm d) \<longrightarrow> holds F s (fterm c))"

lemma covered_byI: "c \<in> set Fs \<Longrightarrow> covered_by Fs c"
  by (auto simp: covered_by_def)

lemma propagate_one:
  assumes e: "engine_ok p" and f: "frames_ok m p" and i: "1 \<le> i" and il: "i < length (ic_frames p)" and c: "c \<in> set (ic_frames p ! i)"
    and n: "ic3formula_negate B c = Inr u" and ri: "rel_ind_check N (i + 1) u g0 False p = Inr (True, g, p1)"
    and n': "ic3formula_negate B g = Inr d" and cf: "constrain_frame N (i + 1) d False p1 = Inr p2"
  shows "tightens m p p2" and "ic_frames p2 ! i = ic_frames p ! i" and "ic_frames p2 ! (i + 1) = ic_frames p ! (i + 1) @ [d]"
    and "covered_by (ic_frames p2 ! (i + 1)) c"
proof -
  have cm: "c \<in> clauses 0 p" using c il unfolding clauses_level by blast
  have cl: "clause F c" "over SV c" using frames_okD(3) [OF f cm] by simp_all
  note ng = negate_clause [OF n cl(1)]
  have dis: "\<not> holds F s (fterm u)" if "ts_initial F sys s" for s using frames_okD(5) [OF f that cm] ng(2) by simp
  have i1: "1 \<le> i + 1" "i + 1 \<le> length (ic_frames p)" using il by simp_all
  have rb: "cube F g" "over SV g" "blockable p1 (i + 1) (fterm u) (set (if_children g))" "keeps p p1"
    using rel_ind_blockable [OF ri e f ng(1) ng(3) [OF cl(2)] i1 dis, of "fterm u"] by blast+
  have t1: "tightens m p p1" by (rule keeps_tightens [OF rb(4) e f])
  have e1: "engine_ok p1" "frames_ok m p1" using t1 by (simp_all add: tightens_def)
  note cd = negate_candidate [OF n' rb(1-3)]
  show "tightens m p p2" by (rule tightens_trans [OF t1 constrain_tightens [OF cf e1 cd(1) i1(1)]])
  have il2: "i + 1 < length (ic_frames p1)" using cf by (auto simp: constrain_frame_def)
  have k: "ic_frames p1 = ic_frames p" by (rule keeps_ok(4) [OF rb(4)])
  show "ic_frames p2 ! i = ic_frames p ! i" "ic_frames p2 ! (i + 1) = ic_frames p ! (i + 1) @ [d]"
    using constrain_frame_ok(10) [OF cf e1 cd(1) i1(1)] il2 k by simp_all
  then show "covered_by (ic_frames p2 ! (i + 1)) c" using cd(2) ng(2) by (auto simp: covered_by_def)
qed

lemma propagate_loop_ok:
  "propagate_loop N i cs kept g0 p = Inr (kept', q) \<Longrightarrow> engine_ok p \<Longrightarrow> frames_ok m p \<Longrightarrow> 1 \<le> i \<Longrightarrow> i < length (ic_frames p) \<Longrightarrow>
    set cs \<subseteq> set (ic_frames p ! i) \<Longrightarrow> set kept \<subseteq> set (ic_frames p ! i) \<Longrightarrow>
    tightens m p q \<and> ic_frames q ! i = ic_frames p ! i \<and> set kept \<subseteq> set kept' \<and> set kept' \<subseteq> set (ic_frames p ! i)
      \<and> (\<forall>c \<in> set cs. c \<in> set kept' \<or> covered_by (ic_frames q ! (i + 1)) c)
      \<and> set (ic_frames p ! (i + 1)) \<subseteq> set (ic_frames q ! (i + 1))"
proof (induction cs arbitrary: kept g0 p)
  case (Cons c cs)
  note e = Cons.prems(2) and f = Cons.prems(3) and i = Cons.prems(4,5) and sub = Cons.prems(6,7)
  from Cons.prems(1) obtain u ok g p1 where n: "ic3formula_negate B c = Inr u"
    and ri: "rel_ind_check N (i + 1) u g0 False p = Inr (ok, g, p1)"
    and go: "(if ok then bindE (ic3formula_negate B g) (\<lambda>d.
         bindE (constrain_frame N (i + 1) d False p1) (propagate_loop N i cs kept g))
       else propagate_loop N i cs (kept @ [c]) g p1) = Inr (kept', q)"
    by simp (elim bindE_InrE bindE_tripleE, simp)
  show ?case
  proof (cases ok)
    case True
    with go obtain d p2 where n': "ic3formula_negate B g = Inr d" and cf: "constrain_frame N (i + 1) d False p1 = Inr p2"
      and r: "propagate_loop N i cs kept g p2 = Inr (kept', q)"
      by (auto elim!: bindE_InrE)
    have ri': "rel_ind_check N (i + 1) u g0 False p = Inr (True, g, p1)" using ri True by simp
    have c: "c \<in> set (ic_frames p ! i)" using sub(1) by simp
    note one = propagate_one [OF e f i c n ri' n' cf]
    have e2: "engine_ok p2" "frames_ok m p2" and l2: "length (ic_frames p2) = length (ic_frames p)"
      using one(1) by (simp_all add: tightens_def)
    have "i < length (ic_frames p2)" "set cs \<subseteq> set (ic_frames p2 ! i)" "set kept \<subseteq> set (ic_frames p2 ! i)"
      using i(2) l2 sub one(2) by auto
    note ih = Cons.IH [OF r e2 i(1) this]
    have "covered_by (ic_frames q ! (i + 1)) c" using one(4) ih unfolding covered_by_def by blast
    with ih tightens_trans [OF one(1)] one(2,3) show ?thesis by auto
  next
    case False
    have cm: "c \<in> clauses 0 p" using sub(1) i(2) unfolding clauses_level by auto
    have cl: "clause F c" "over SV c" using frames_okD(3) [OF f cm] by simp_all
    note ng = negate_clause [OF n cl(1)]
    have k: "keeps p p1" by (rule rel_ind(1) [OF ri e f ng(1) ng(3) [OF cl(2)]]) (use i(2) in simp_all)
    have t: "tightens m p p1" by (rule keeps_tightens [OF k e f])
    have kf: "ic_frames p1 = ic_frames p" by (rule keeps_ok(4) [OF k])
    have e1: "engine_ok p1" "frames_ok m p1" using t by (simp_all add: tightens_def)
    have "propagate_loop N i cs (kept @ [c]) g p1 = Inr (kept', q)" using go False by simp
    from Cons.IH [OF this e1 i(1)] i(2) sub tightens_trans [OF t] show ?thesis unfolding kf by auto
  qed
qed (auto simp: tightens_refl)

lemma propagate_ok:
  assumes run: "propagate N i p = Inr (all, q)" and e: "engine_ok p" and f: "frames_ok m p"
    and i: "1 \<le> i" "Suc i < length (ic_frames p)"
  shows "tightens m p q" and "all \<Longrightarrow> ic_frames q ! i = []"
proof -
  from run obtain kept p1 where l: "propagate_loop N i (ic_frames p ! i) [] null_formula p = Inr (kept, p1)"
    and q: "all = (kept = [])" "q = p1\<lparr>ic_frames := (ic_frames p1)[i := kept]\<rparr>"
    by (auto simp: propagate_def bindE_Inr_iff)
  have il: "i < length (ic_frames p)" using i(2) by simp
  from propagate_loop_ok [OF l e f i(1) il]
  have r: "tightens m p p1" "ic_frames p1 ! i = ic_frames p ! i" "set kept \<subseteq> set (ic_frames p ! i)"
    "\<forall>c \<in> set (ic_frames p ! i). c \<in> set kept \<or> covered_by (ic_frames p1 ! (i + 1)) c" by simp_all
  have e1: "engine_ok p1" "frames_ok m p1" and len: "length (ic_frames p1) = length (ic_frames p)" using r(1) by (simp_all add: tightens_def)
  have fq: "ic_frames q ! j = (if j = i then kept else ic_frames p1 ! j)" if "j < length (ic_frames p1)" for j
    using that il len by (simp add: q(2) nth_list_update)
  have lq: "length (ic_frames q) = length (ic_frames p1)" by (simp add: q(2))
  show "all \<Longrightarrow> ic_frames q ! i = []" using fq [of i] il len q(1) by simp
  have sub: "d \<in> set (ic_frames p1 ! j)" if "j < length (ic_frames p1)" "d \<in> set (ic_frames q ! j)" for j d
    using that fq r(2,3) by (auto split: if_splits)
  have sol: "pr_solver q = pr_solver p1" by (simp add: q(2))
  have imp: "frame p1 k s" if h: "frame q k s" for k s
  proof (cases "k = 0")
    case False
    have "holds F s (fterm d)" if d: "d \<in> clauses k p1" for d
    proof -
      from d obtain j where j: "k \<le> j" "j < length (ic_frames p1)" "d \<in> set (ic_frames p1 ! j)" unfolding clauses_level by blast
      have "\<exists>j' d'. k \<le> j' \<and> j' < length (ic_frames q) \<and> d' \<in> set (ic_frames q ! j') \<and> (holds F s (fterm d') \<longrightarrow> holds F s (fterm d))"
      proof (cases "j = i \<and> d \<notin> set kept")
        case True
        with r(2,4) j(3) obtain d' where "d' \<in> set (ic_frames p1 ! Suc i)" "holds F s (fterm d') \<longrightarrow> holds F s (fterm d)"
          by (auto simp: covered_by_def)
        moreover have "ic_frames q ! Suc i = ic_frames p1 ! Suc i" using fq [of "Suc i"] i(2) len by simp
        ultimately show ?thesis using True j(1) i(2) len lq by (intro exI [of _ "Suc i"]) auto
      next
        case False
        with j fq [OF j(2)] lq show ?thesis by (intro exI [of _ j] exI [of _ d]) auto
      qed
      then obtain j' d' where d': "k \<le> j'" "j' < length (ic_frames q)" "d' \<in> set (ic_frames q ! j')"
        "holds F s (fterm d') \<longrightarrow> holds F s (fterm d)" by blast
      then have "d' \<in> clauses k q" unfolding clauses_level by blast
      with h False d'(4) show ?thesis by (simp add: frame_def)
    qed
    with h False show ?thesis by (simp add: frame_def)
  qed (use h in \<open>simp add: frame_def\<close>)
  have "0 < length (ic_frames p1)" using il len by linarith
  then have z: "ic_frames q ! 0 = []" using fq [of 0] frames_okD(2) [OF e1(2)] i(1) by simp
  have st: "strengthens p1 q" unfolding strengthens_def sol using lq z sub imp by blast
  have cx: "same_context p1 q" using e1(1) by (simp add: same_context_def same_members_def q(2) engine_ok_def)
  have "tightens m p1 q"
    using strengthens_engine [OF e1 st cx] strengthens_frames [OF e1(2) st] lq imp by (simp add: tightens_def q(2))
  with r(1) show "tightens m p q" by (rule tightens_trans)
qed

lemma propagate_frames_ok:
  "propagate_frames N js p = Inr (res, q) \<Longrightarrow> engine_ok p \<Longrightarrow> frames_ok m p \<Longrightarrow>
    (\<And>j. j \<in> set js \<Longrightarrow> 1 \<le> j \<and> Suc j < length (ic_frames p)) \<Longrightarrow>
    tightens m p q \<and> (\<forall>j. res = Some j \<longrightarrow> j \<in> set js \<and> ic_frames q ! j = [])"
proof (induction js arbitrary: p)
  case (Cons j js)
  from Cons.prems(1) obtain all p1 where pr: "propagate N j p = Inr (all, p1)"
    and go: "(if all then Inr (Some j, p1) else propagate_frames N js p1) = Inr (res, q)"
    by simp (elim bindE_pairE, simp)
  have j: "1 \<le> j" "Suc j < length (ic_frames p)" using Cons.prems(4) by simp_all
  note ok = propagate_ok [OF pr Cons.prems(2,3) j]
  show ?case
  proof (cases all)
    case True
    with go ok show ?thesis by auto
  next
    case False
    have e1: "engine_ok p1" "frames_ok m p1" "length (ic_frames p1) = length (ic_frames p)"
      using ok(1) by (simp_all add: tightens_def)
    have "propagate_frames N js p1 = Inr (res, q)" using go False by simp
    from Cons.IH [OF this e1(1,2)] Cons.prems(4) e1(3) tightens_trans [OF ok(1)] show ?thesis by auto
  qed
qed (auto simp: tightens_refl)

end

end
