(* ===== verification/Ic3_Correct.thy ===== *)
theory Ic3_Correct
  imports Ic3_Run
begin

section \<open>The answers of IC3\<close>

text \<open>
  \<open>run_ok\<close> is what holds between two steps of the engine: up to the bound it has reached there
  is no counterexample, and from bound 1 on the frames are fit for a search.  \<open>check_ok\<close> says
  what the answer of a run means.
\<close>

context ic3_engine
begin

subsection \<open>Resetting the solver\<close>

lemma reset_solver_ok:
  assumes e: "engine_ok p" and z: "ic_frames p \<noteq> []" "ic_frames p ! 0 = []"
  shows "engine_ok (reset_solver N p)" and "ic_frames (reset_solver N p) = ic_frames p"
    and "ic_request (reset_solver N p) = ic_request p" and "pr_reached_k (reset_solver N p) = pr_reached_k p"
proof -
  let ?q = "reset_solver N p"
  let ?base = "[ic3_implies N (ic_frame_labels p ! 0) (ts_init sys), ic3_implies N (ic_trans_label p) (ts_trans sys),
    ic3_implies N (ic_bad_label p) bad]"
  let ?X = "?base @ concat (map (frame_formulas N p) [0..<length (ic_frames p)])"
  have fld: "ic_frames ?q = ic_frames p" "ic_frame_labels ?q = ic_frame_labels p" "ic_trans_label ?q = ic_trans_label p"
    "ic_bad_label ?q = ic_bad_label p" "ic_approx ?q = ic_approx p" "ic_data ?q = ic_data p" "ic_request ?q = ic_request p"
    "pr_reached_k ?q = pr_reached_k p" "ic_labels ?q = ic_labels p" "ic_symtab ?q = ic_symtab p"
    by (simp_all add: reset_solver_def ic3_assert_def on_solver_def)
  show "ic_frames ?q = ic_frames p" "ic_request ?q = ic_request p" "pr_reached_k ?q = pr_reached_k p" by (fact fld)+
  have fr: "frame ?q = frame p" by (rule frame_cong [OF fld(1)])
  have lab: "labels_ok p" using e by (simp add: engine_ok_def)
  have lq: "labels_ok ?q" using lab unfolding labels_ok_def own_labels_def global_labels_def fld by blast
  have o: "obeys ?q \<sigma> = obeys p \<sigma>" "activates ?q \<sigma> = activates p \<sigma>" for \<sigma>
    unfolding obeys_def activates_def fld fr by (rule refl)+
  show "engine_ok ?q"
  proof (cases "ic_reset_failed p \<or> \<not> ie_resets N")
    case True
    then have "pr_solver ?q = pr_solver p" by (auto simp: reset_solver_def)
    then have "solver_ok ?q = solver_ok p" unfolding solver_ok_def o by simp
    with e lq fld \<open>pr_solver ?q = pr_solver p\<close> show ?thesis by (simp add: engine_ok_def)
  next
    case False
    then have s: "pr_solver ?q = asserts S ?X (s_reset_assertions S (pr_solver p))"
      by (simp add: reset_solver_def ic3_assert_def on_solver_def)
    have "asserted (s_reset_assertions S (pr_solver p)) = {}" by (simp add: asserted_def frames_reset)
    then have a: "asserted (pr_solver ?q) = set ?X" by (simp add: s del: set_append)
    have up: "holds F \<sigma> t" if b: "obeys p \<sigma>" and t: "t \<in> set ?X" for \<sigma> t
    proof -
      have cl: "c \<in> clauses i p" if "i < length (ic_frames p)" "c \<in> set (ic_frames p ! i)" for c i
        using that unfolding clauses_level by blast
      have "holds F \<sigma> t" if i: "i < length (ic_frames p)" "t \<in> set (frame_formulas N p i)" for i
      proof (cases "holds F \<sigma> (ic_frame_labels p ! i)")
        case True
        with b i(1) have fi: "frame p i \<sigma>" unfolding obeys_def by blast
        show ?thesis
        proof (cases "i = 0")
          case False
          with i fi cl [OF i(1)] show ?thesis by (auto simp: frame_formulas_def ic3_implies_def frame_def)
        qed (use i z in \<open>simp add: frame_formulas_def\<close>)
      qed (use i in \<open>auto simp: frame_formulas_def ic3_implies_def\<close>)
      moreover have "holds F \<sigma> t" if "t \<in> set ?base"
        using that b z(1) by (auto simp: obeys_def ic3_implies_def frame_def)
      ultimately show ?thesis using t by auto
    qed
    have lo: "activates p \<sigma>" if h: "\<forall>t \<in> set ?X. holds F \<sigma> t" for \<sigma>
    proof -
      have "holds F \<sigma> t" if "i < length (ic_frames p)" "t \<in> set (frame_formulas N p i)" for i t using h that by auto
      note ff = this
      have "\<not> holds F \<sigma> bad \<and> (\<forall>c \<in> set (ic_frames p ! i). holds F \<sigma> (fterm c))"
        if i: "1 \<le> i" "i < length (ic_frames p)" "holds F \<sigma> (ic_frame_labels p ! i)" for i
      proof -
        have "holds F \<sigma> (ic3_implies N (ic_frame_labels p ! i) (smart_not B bad))"
          by (rule ff [OF i(2)]) (use i(1) in \<open>simp add: frame_formulas_def\<close>)
        moreover have "holds F \<sigma> (ic3_implies N (ic_frame_labels p ! i) (fterm c))" if "c \<in> set (ic_frames p ! i)" for c
          by (rule ff [OF i(2)]) (use that in \<open>simp add: frame_formulas_def\<close>)
        ultimately show ?thesis using i(3) by (simp add: ic3_implies_def)
      qed
      moreover have "\<forall>t \<in> set ?base. holds F \<sigma> t" using h by simp
      then have "(holds F \<sigma> (ic_frame_labels p ! 0) \<longrightarrow> holds F \<sigma> (ts_init sys))
        \<and> (holds F \<sigma> (ic_trans_label p) \<longrightarrow> holds F \<sigma> (ts_trans sys))" by (simp add: ic3_implies_def)
      ultimately show ?thesis unfolding activates_def by blast
    qed
    have "frames (pr_solver ?q) \<noteq> []" using s tl_asserts(2) [of "s_reset_assertions S (pr_solver p)"] by (simp add: frames_reset)
    moreover have "solver_ok ?q" unfolding solver_ok_def a o using up lo by blast
    ultimately show ?thesis using e lq fld by (simp add: engine_ok_def)
  qed
qed

subsection \<open>Initialisation\<close>

lemma push_frame_run:
  assumes "push_frame N p = Inr q"
  obtains n where "n \<notin> set (ic_symtab p)" and "q = (let p1 = p\<lparr>ic_symtab := n # ic_symtab p,
      ic_frame_labels := ic_frame_labels p @ [Sym n BOOL], ic_frames := ic_frames p @ [[]]\<rparr>
    in if ic_frames p \<noteq> [] then ic3_assert N [ic3_implies N (Sym n BOOL) (smart_not B bad)] p1 else p1)"
proof -
  let ?n = "''__frame_label_'' @ nat_str (length (ic_frames p))"
  from assms obtain l tab where "make_symbol ?n BOOL (ic_symtab p) = Inr (l, tab)"
    and "(let p1 = p\<lparr>ic_symtab := tab, ic_frame_labels := ic_frame_labels p @ [l], ic_frames := ic_frames p @ [[]]\<rparr>
       in Inr (if length (ic_frames p1) > 1 then ic3_assert N [ic3_implies N l (smart_not B bad)] p1 else p1)) = (Inr q :: _ result)"
    unfolding push_frame_def by (rule bindE_pairE)
  then show thesis
    by (intro that [of ?n]) (auto simp: make_symbol_def guardE_def Let_def split: if_splits)
qed

text \<open>A new engine: two empty frames, all labels distinct, the solver asserts what they activate.\<close>

definition pristine :: "('s, 'd) ic3 \<Rightarrow> bool" where
  "pristine p \<longleftrightarrow> asserted (pr_solver p) = {} \<and> frames (pr_solver p) \<noteq> [] \<and> \<not> ic_approx p \<and> ic_labels p = []
     \<and> set (ts_declared sys) \<subseteq> set (ic_symtab p)"

lemma base_initialize_run:
  assumes "base_initialize N p = Inr q" and "\<not> pr_initialized p"
  obtains n0 n1 n2 n3 where "distinct [n0, n1, n2, n3]" and "set [n0, n1, n2, n3] \<inter> set (ic_symtab p) = {}"
    and "ic_symtab q = n3 # n2 # n1 # n0 # ic_symtab p" and "ic_frames q = [[], []]"
    and "ic_frame_labels q = [Sym n0 BOOL, Sym n1 BOOL]" and "ic_trans_label q = Sym n2 BOOL" and "ic_bad_label q = Sym n3 BOOL"
    and "asserted (pr_solver q) = {ic3_implies N (Sym n0 BOOL) (ts_init sys), ic3_implies N (Sym n1 BOOL) (smart_not B bad),
      ic3_implies N (Sym n2 BOOL) (ts_trans sys), ic3_implies N (Sym n3 BOOL) bad} \<union> asserted (pr_solver p)"
    and "frames (pr_solver p) \<noteq> [] \<longrightarrow> frames (pr_solver q) \<noteq> []" and "ic_labels q = ic_labels p" and "ic_approx q = ic_approx p"
    and "ic_request q = ic_request p" and "pr_reached_k q = -1"
proof -
  define p1 where "p1 = p\<lparr>pr_initialized := True, pr_reached_k := -1, ic_frames := [], ic_frame_labels := []\<rparr>"
  from assms have "bindE (push_frame N p1) (\<lambda>p2.
     bindE (push_frame N (ic3_assert N [ic3_implies N (ic_frame_labels p2 ! 0) (ts_init sys)] p2)) (\<lambda>p3.
     bindE (make_symbol ''__trans_label'' BOOL (ic_symtab p3)) (\<lambda>(tl, tab1).
     bindE (make_symbol ''__bad_label'' BOOL tab1) (\<lambda>(bl, tab2).
       Inr (ic3_assert N [ic3_implies N tl (ts_trans sys), ic3_implies N bl bad]
         (p3\<lparr>ic_symtab := tab2, ic_trans_label := tl, ic_bad_label := bl\<rparr>)))))) = Inr q"
    by (auto simp: base_initialize_def prover_initialize_def guardE_def p1_def split: if_splits option.splits)
  then obtain p2 p3 tl tab1 bl tab2 where 2: "push_frame N p1 = Inr p2"
    and 3: "push_frame N (ic3_assert N [ic3_implies N (ic_frame_labels p2 ! 0) (ts_init sys)] p2) = Inr p3"
    and m: "make_symbol ''__trans_label'' BOOL (ic_symtab p3) = Inr (tl, tab1)" "make_symbol ''__bad_label'' BOOL tab1 = Inr (bl, tab2)"
    and q: "q = ic3_assert N [ic3_implies N tl (ts_trans sys), ic3_implies N bl bad]
         (p3\<lparr>ic_symtab := tab2, ic_trans_label := tl, ic_bad_label := bl\<rparr>)"
    by (elim bindE_InrE bindE_pairE) (auto elim!: bindE_InrE bindE_pairE)
  from 2 obtain n0 where n0: "n0 \<notin> set (ic_symtab p1)" "p2 = p1\<lparr>ic_symtab := n0 # ic_symtab p1,
      ic_frame_labels := [Sym n0 BOOL], ic_frames := [[]]\<rparr>"
    by (rule push_frame_run) (simp add: p1_def)
  from 3 obtain n1 where n1: "n1 \<notin> set (n0 # ic_symtab p1)" "p3 = ic3_assert N [ic3_implies N (Sym n1 BOOL) (smart_not B bad)]
      (ic3_assert N [ic3_implies N (Sym n0 BOOL) (ts_init sys)]
        (p1\<lparr>ic_symtab := n1 # n0 # ic_symtab p1, ic_frame_labels := [Sym n0 BOOL, Sym n1 BOOL], ic_frames := [[], []]\<rparr>))"
    by (rule push_frame_run) (simp add: n0(2) ic3_assert_def on_solver_def Let_def)
  define n2 n3 :: string where "n2 = ''__trans_label''" and "n3 = ''__bad_label''"
  with m have n23: "n2 \<notin> set (ic_symtab p3)" "n3 \<notin> set (n2 # ic_symtab p3)" "tl = Sym n2 BOOL" "bl = Sym n3 BOOL"
    "tab2 = n3 # n2 # ic_symtab p3"
    by (auto simp: make_symbol_def guardE_def split: if_splits)
  have tab: "ic_symtab p3 = n1 # n0 # ic_symtab p" "ic_symtab p1 = ic_symtab p" by (simp_all add: n1(2) p1_def)
  have sol: "pr_solver q = asserts S [ic3_implies N (Sym n2 BOOL) (ts_trans sys), ic3_implies N (Sym n3 BOOL) bad]
      (asserts S [ic3_implies N (Sym n1 BOOL) (smart_not B bad)]
        (asserts S [ic3_implies N (Sym n0 BOOL) (ts_init sys)] (pr_solver p)))"
    by (simp add: q n1(2) n23(3,4) p1_def)
  show thesis
  proof (rule that)
    show "distinct [n0, n1, n2, n3]" "set [n0, n1, n2, n3] \<inter> set (ic_symtab p) = {}"
      using n0(1) n1(1) n23(1,2) unfolding tab by auto
    show "asserted (pr_solver q) = {ic3_implies N (Sym n0 BOOL) (ts_init sys), ic3_implies N (Sym n1 BOOL) (smart_not B bad),
      ic3_implies N (Sym n2 BOOL) (ts_trans sys), ic3_implies N (Sym n3 BOOL) bad} \<union> asserted (pr_solver p)"
      unfolding sol by auto
    show "frames (pr_solver p) \<noteq> [] \<longrightarrow> frames (pr_solver q) \<noteq> []" unfolding sol by (intro impI tl_asserts(2))
  qed (simp_all add: q n1(2) n23 p1_def ic3_assert_def on_solver_def)
qed

lemma base_initialize_ok:
  assumes run: "base_initialize N p = Inr q" and i: "\<not> pr_initialized p" and p: "pristine p" and Q: "Q d"
  shows "engine_ok (q\<lparr>ic_data := d\<rparr>)" and "ic_frames q = [[], []]" and "ic_request q = ic_request p" and "pr_reached_k q = -1"
proof -
  let ?q = "q\<lparr>ic_data := d\<rparr>"
  obtain n0 n1 n2 n3 where n: "distinct [n0, n1, n2, n3]" "set [n0, n1, n2, n3] \<inter> set (ic_symtab p) = {}"
    and f0: "ic_symtab q = n3 # n2 # n1 # n0 # ic_symtab p" "ic_frames q = [[], []]"
      "ic_frame_labels q = [Sym n0 BOOL, Sym n1 BOOL]" "ic_trans_label q = Sym n2 BOOL" "ic_bad_label q = Sym n3 BOOL"
      "asserted (pr_solver q) = {ic3_implies N (Sym n0 BOOL) (ts_init sys), ic3_implies N (Sym n1 BOOL) (smart_not B bad),
        ic3_implies N (Sym n2 BOOL) (ts_trans sys), ic3_implies N (Sym n3 BOOL) bad} \<union> asserted (pr_solver p)"
    and r0: "frames (pr_solver p) \<noteq> [] \<longrightarrow> frames (pr_solver q) \<noteq> []" "ic_labels q = ic_labels p" "ic_approx q = ic_approx p"
      "ic_request q = ic_request p" "pr_reached_k q = -1"
    by (rule base_initialize_run [OF run i])
  have fld: "ic_symtab ?q = n3 # n2 # n1 # n0 # ic_symtab p" "ic_frames ?q = [[], []]"
      "ic_frame_labels ?q = [Sym n0 BOOL, Sym n1 BOOL]" "ic_trans_label ?q = Sym n2 BOOL" "ic_bad_label ?q = Sym n3 BOOL"
    and a: "asserted (pr_solver ?q) = {ic3_implies N (Sym n0 BOOL) (ts_init sys), ic3_implies N (Sym n1 BOOL) (smart_not B bad),
      ic3_implies N (Sym n2 BOOL) (ts_trans sys), ic3_implies N (Sym n3 BOOL) bad} \<union> asserted (pr_solver p)"
    and r: "frames (pr_solver p) \<noteq> [] \<longrightarrow> frames (pr_solver ?q) \<noteq> []" "ic_labels ?q = ic_labels p" "ic_approx ?q = ic_approx p"
      "ic_request q = ic_request p" "pr_reached_k q = -1" using f0 r0 by simp_all
  show "ic_frames q = [[], []]" "ic_request q = ic_request p" "pr_reached_k q = -1" using fld(2) r(4,5) by simp_all
  note p = p [unfolded pristine_def]
  have own: "own_labels ?q = {}" using p r(2) by (simp add: own_labels_def)
  have g: "global_labels ?q = [Sym n2 BOOL, Sym n3 BOOL, Sym n0 BOOL, Sym n1 BOOL]" by (simp add: global_labels_def fld)
  have "label_sym (ic_symtab ?q) l" if "l \<in> set (global_labels ?q) \<union> own_labels ?q" for l
    using that n(2) p unfolding g own fld(1) label_sym_def by auto
  moreover have "distinct (global_labels ?q)" unfolding g using n(1) by auto
  moreover have "length (ic_frame_labels ?q) = length (ic_frames ?q)" unfolding fld by simp
  moreover have "set (ts_declared sys) \<subseteq> set (ic_symtab ?q)" unfolding fld using p by auto
  moreover have "map_of (ic_labels ?q) t = None" for t using p r(2) by simp
  ultimately have lab: "labels_ok ?q" unfolding labels_ok_def own by simp
  have cl: "clauses k ?q = {}" for k using clauses_mono [of 0 k ?q] by (simp add: clauses_def fld)
  have up: "holds F \<sigma> t" if o: "obeys ?q \<sigma>" and t: "t \<in> asserted (pr_solver ?q)" for \<sigma> t
  proof -
    have "holds F \<sigma> (Sym n0 BOOL) \<longrightarrow> holds F \<sigma> (ts_init sys)" "holds F \<sigma> (Sym n1 BOOL) \<longrightarrow> \<not> holds F \<sigma> bad"
      using o unfolding obeys_def fld frame_def by (auto simp: nth_Cons' split: if_splits)
    moreover have "holds F \<sigma> (Sym n2 BOOL) \<longrightarrow> holds F \<sigma> (ts_trans sys)" "holds F \<sigma> (Sym n3 BOOL) \<longrightarrow> holds F \<sigma> bad"
      using o unfolding obeys_def fld by blast+
    ultimately show ?thesis using t p unfolding a by (auto simp: ic3_implies_def)
  qed
  have lo: "activates ?q \<sigma>" if h: "\<forall>t \<in> asserted (pr_solver ?q). holds F \<sigma> t" for \<sigma>
  proof -
    have "holds F \<sigma> (ic3_implies N (Sym n0 BOOL) (ts_init sys))" "holds F \<sigma> (ic3_implies N (Sym n1 BOOL) (smart_not B bad))"
      "holds F \<sigma> (ic3_implies N (Sym n2 BOOL) (ts_trans sys))" using h unfolding a by blast+
    then show ?thesis unfolding activates_def fld by (auto simp: ic3_implies_def nth_Cons' split: if_splits)
  qed
  have "solver_ok ?q" unfolding solver_ok_def using up lo by blast
  moreover have "\<not> ic_approx ?q" "frames (pr_solver ?q) \<noteq> []" "Q (ic_data ?q)" using p r Q by simp_all
  ultimately show "engine_ok ?q" using lab unfolding engine_ok_def by blast
qed

subsection \<open>The first two bounds\<close>

definition starting :: "('s, 'd) ic3 \<Rightarrow> bool" where
  "starting p \<longleftrightarrow> engine_ok p \<and> ic_frames p = [[], []]"

lemma starting_keeps: "starting p \<Longrightarrow> keeps p q \<Longrightarrow> starting q"
  using keeps_ok(1,4) [of p q] by (simp add: starting_def keeps_def same_members_def)

lemma starting_frames:
  assumes "starting p" and "\<And>s. ts_initial F sys s \<Longrightarrow> \<not> holds F s bad"
  shows "frames_ok 0 p"
proof -
  have cl: "clauses 0 p = {}" using assms(1) by (simp add: starting_def clauses_def)
  have lev: "set (ic_frames p ! j) = {}" if "1 \<le> j" "j < length (ic_frames p)" for j
    using that assms(1) by (auto simp: starting_def nth_Cons')
  have two: "2 \<le> length (ic_frames p)" "ic_frames p ! 0 = []" using assms(1) by (simp_all add: starting_def)
  have "\<forall>j c s t. 1 \<le> j \<and> j < length (ic_frames p) \<and> c \<in> set (ic_frames p ! j) \<and> stepof s t \<and> frame p (j - 1) s
    \<longrightarrow> holds F t (fterm c)" using lev by (metis empty_iff)
  with two assms(2) show ?thesis unfolding frames_ok_def cl by simp
qed

lemma engine_ok_reached: "engine_ok (p\<lparr>pr_reached_k := k\<rparr>) = engine_ok p"
proof -
  let ?q = "p\<lparr>pr_reached_k := k\<rparr>"
  have fld: "ic_frames ?q = ic_frames p" "ic_frame_labels ?q = ic_frame_labels p" "ic_trans_label ?q = ic_trans_label p"
    "ic_bad_label ?q = ic_bad_label p" "ic_approx ?q = ic_approx p" "ic_data ?q = ic_data p" "ic_labels ?q = ic_labels p"
    "ic_symtab ?q = ic_symtab p" "pr_solver ?q = pr_solver p" by simp_all
  show ?thesis
    unfolding engine_ok_def labels_ok_def own_labels_def global_labels_def solver_ok_def obeys_def activates_def
      frame_cong [OF fld(1)] fld by (rule refl)
qed

lemma frames_ok_reached: "frames_ok m (p\<lparr>pr_reached_k := k\<rparr>) = frames_ok m p"
  by (rule frames_ok_cong) simp

lemma starting_reached: "starting (p\<lparr>pr_reached_k := k\<rparr>) = starting p"
  by (simp add: starting_def engine_ok_reached)

lemma step_0_ok:
  assumes run: "step_0 N p = Inr (ok, q)" and s: "starting p"
  shows "ok \<Longrightarrow> starting q \<and> pr_reached_k q = 0 \<and> frames_ok 0 q" and "\<not> ok \<Longrightarrow> cex F sys bad (ic3_witness_length q)"
proof -
  have e: "engine_ok p" "ic_frames p \<noteq> []" using s by (simp_all add: starting_def)
  obtain r p1 where ck: "ic3_check N (ic3_assert N [ic_frame_labels p ! 0, bad] (push_solver_context N p)) = (r, p1)"
    by (rule prod.exhaust)
  note qs = query_spec [OF ck]
  have ci: "check_intersects_initial N bad p = (r = SAT, pop_solver_context N p1)"
    using ck by (simp add: check_intersects_initial_def check_intersects_def)
  note i = intersects_initial [OF ci e]
  have st: "starting (pop_solver_context N p1)" by (rule starting_keeps [OF s qs(1)])
  show "\<not> ok \<Longrightarrow> cex F sys bad (ic3_witness_length q)"
  proof -
    assume "\<not> ok"
    with run ck have "r = SAT" "ic_cex q = [bad]" by (auto simp: step_0_def dassert_def Let_def split: if_splits)
    with i(1) have "\<exists>s. ts_initial F sys s \<and> holds F s bad" "ic3_witness_length q = 0" by (simp_all add: ic3_witness_length_def)
    then show ?thesis by (auto simp: cex_reach intro: reach_init)
  qed
  show "starting q \<and> pr_reached_k q = 0 \<and> frames_ok 0 q" if ok
  proof -
    from run ck that have q: "r \<noteq> SAT" "q = (pop_solver_context N p1)\<lparr>pr_reached_k := 0\<rparr>"
      by (auto simp: step_0_def dassert_def Let_def split: if_splits)
    have sq: "starting q" using st by (simp add: q(2) starting_reached)
    moreover have "frames_ok 0 q" by (rule starting_frames [OF sq]) (use i(2) [OF bad_syms] q(1) in blast)
    ultimately show ?thesis by (simp add: q(2))
  qed
qed

lemma step_1_ok:
  assumes run: "step_1 N p = Inr (res, q)" and s: "starting p" and f: "frames_ok 0 p"
  shows "res = PR_FALSE \<and> cex F sys bad (ic3_witness_length q) \<or> res = PR_UNKNOWN \<and> searching 1 q \<and> pr_reached_k q = 1"
proof -
  have e: "engine_ok p" and fr: "ic_frames p = [[], []]" using s by (simp_all add: starting_def)
  let ?X = "[ic_frame_labels p ! 0, ic_trans_label p, nextof bad]"
  obtain r p1 where ck: "ic3_check N (ic3_assert N ?X (push_solver_context N p)) = (r, p1)" by (rule prod.exhaust)
  note qs = query_spec [OF ck]
  have st: "starting (pop_solver_context N p1)" by (rule starting_keeps [OF s qs(1)])
  show ?thesis
  proof (cases "r = SAT")
    case True
    with run ck obtain c p2 where c: "fl_model N p1 = Inr c"
      and t: "reconstruct_trace N (ProofGoal c 0 None) (pop_solver_context N p1) = Inr q" and res: "res = PR_FALSE"
      by (auto simp: step_1_def Let_def bindE_Inr_iff)
    from qs(4) [OF True] obtain \<sigma> where m: "model_of (pr_solver p1) \<sigma>" "\<forall>t \<in> asserted (pr_solver p). holds F \<sigma> t" "all_hold F \<sigma> ?X"
      by auto
    have w: "wsorted \<sigma>" and v: "\<And>t. s_get_value S (pr_solver p1) t = Val (eval F \<sigma> t) (get_sort t)"
      using m(1) by (simp_all add: model_of_def)
    have Q1: "Q (ic_data p1)" using qs(2) e by (simp add: same_members_def engine_ok_def)
    note full = model_cube [OF w v Q1 c]
    have "activates p \<sigma>" using e m(2) by (simp add: engine_ok_def solver_ok_def)
    then have tr: "holds F \<sigma> (ts_trans sys)" "holds F \<sigma> (ts_init sys)" using m(3) by (simp_all add: activates_def)
    have "exact c bad" by (rule determined_exact [OF _ w tr(1) _ bad_syms]) (use full m(3) in simp_all)
    then have ch: "chain_ok (ProofGoal c 0 None)" using full by simp
    have "ts_initial F sys \<sigma>" using w tr(2) by (simp add: ts_initial_def)
    from reconstruct_cex [OF t ch this] full res show ?thesis by simp
  next
    case False
    with run ck have q: "res = PR_UNKNOWN" "q = (pop_solver_context N p1)\<lparr>pr_reached_k := 1\<rparr>"
      by (auto simp: step_1_def dassert_def Let_def split: if_splits)
    have r: "r = UNSAT" using False qs(3) by (cases r) simp_all
    have "\<not> holds F t bad" if stp: "stepof x t" "frame p 0 x" for x t
    proof
      assume h: "holds F t bad"
      let ?\<tau> = "pair_env sys x t"
      have w: "wsorted ?\<tau>" by (rule wsorted_pair_env [OF sys_wf ts_stepD(1,2) [OF stp(1)]])
      have fx: "frame p 0 ?\<tau>" using frame_same [OF f same_state_pair] stp(2) by simp
      obtain \<sigma> where sg: "wsorted \<sigma>" "\<And>t. syms_in (ts_vars sys) t \<Longrightarrow> eval F \<sigma> t = eval F ?\<tau> t"
        "\<And>t. t \<in> asserted (pr_solver p) \<Longrightarrow> holds F \<sigma> t" "all_hold F \<sigma> (frame_label_formulas N 0 p)"
        "holds F \<sigma> (ic_trans_label p)"
        by (rule query_model [OF e f w fx ts_stepD(4) [OF stp(1)]]) blast
      have "length (ic_frame_labels p) = 2" using e fr unfolding engine_ok_def labels_ok_def by auto
      then have "ic_frame_labels p ! 0 \<in> set (frame_label_formulas N 0 p)"
        by (cases "ic_frame_labels p") (simp_all add: frame_label_formulas_def)
      moreover have "holds F \<sigma> (nextof bad)" using sg(2) [OF nextof_syms [OF bad_syms]] eval_nextof [OF ts_stepD(3) [OF stp(1)] bad_syms] h by simp
      ultimately show False using qs(5) [OF r sg(1)] sg(3-5) by auto
    qed
    then have "frames_ok (Suc 0) p" by (rule frames_ok_Suc [OF f])
    then have "frames_ok 1 q" using keeps_ok(2) [OF qs(1)] by (simp add: q(2) frames_ok_reached)
    moreover have "engine_ok q" "ic_frames q = [[], []]"
      using st by (simp_all add: q(2) starting_def engine_ok_reached)
    ultimately show ?thesis using q by (simp add: searching_def frontier_idx_def)
  qed
qed

subsection \<open>The steps\<close>

definition run_ok :: "('s, 'd) ic3 \<Rightarrow> bool" where
  "run_ok p \<longleftrightarrow> (if pr_reached_k p < 0 then pr_reached_k p = -1 \<and> starting p
     else if pr_reached_k p = 0 then starting p \<and> frames_ok 0 p else searching (nat (pr_reached_k p)) p)"

lemma run_ok_no_cex: "run_ok p \<Longrightarrow> int n \<le> pr_reached_k p \<Longrightarrow> \<not> cex F sys bad n"
proof -
  assume p: "run_ok p" and n: "int n \<le> pr_reached_k p"
  then have "0 \<le> pr_reached_k p" by linarith
  with p have "frames_ok (nat (pr_reached_k p)) p" by (auto simp: run_ok_def searching_def split: if_splits)
  with frames_no_cex n show "\<not> cex F sys bad n" by (metis nat_int nat_mono)
qed

definition invariant_of :: "('s, 'd) ic3 \<Rightarrow> bool" where
  "invariant_of q \<longleftrightarrow> (\<exists>t. pr_invar q = Some t \<and> (\<forall>s. ts_initial F sys s \<longrightarrow> holds F s t)
     \<and> (\<forall>s u. stepof s u \<and> holds F s t \<longrightarrow> holds F u t) \<and> (\<forall>s. holds F s t \<longrightarrow> \<not> holds F s bad))"

lemma invariant_safe: "invariant_of q \<Longrightarrow> safe F sys bad"
proof -
  assume "invariant_of q"
  then obtain t where t: "\<And>s. ts_initial F sys s \<Longrightarrow> holds F s t" "\<And>s u. stepof s u \<Longrightarrow> holds F s t \<Longrightarrow> holds F u t"
    "\<And>s. holds F s t \<Longrightarrow> \<not> holds F s bad" unfolding invariant_of_def by blast
  have "holds F s t" if "reach F sys n s" for n s using that by (induction rule: reach.induct) (use t in blast)+
  with t(3) show ?thesis by (auto simp: safe_def cex_reach)
qed

text \<open>After a request to terminate only \<open>FALSE\<close> says anything.\<close>

definition answer_ok :: "prover_result \<Rightarrow> ('s, 'd) ic3 \<Rightarrow> bool" where
  "answer_ok res q \<longleftrightarrow> (case res of PR_TRUE \<Rightarrow> ic_request q = Some 0 \<or> invariant_of q | PR_FALSE \<Rightarrow> cex F sys bad (ic3_witness_length q)
     | PR_UNKNOWN \<Rightarrow> ic_request q = Some 0 \<or> run_ok q | PR_ERROR \<Rightarrow> False)"

lemma step_01_ok:
  assumes run: "step_01 N p = Inr (res, q)" and p: "run_ok p" "pr_reached_k p < 1"
  shows "answer_ok res q" and "res = PR_UNKNOWN \<Longrightarrow> pr_reached_k q = 1"
proof -
  from run obtain ok p1 where 0: "(if pr_reached_k p < 0 then step_0 N p else Inr (True, p)) = Inr (ok, p1)"
    and go: "(if \<not> ok then Inr (PR_FALSE, p1) else step_1 N p1) = Inr (res, q)"
    unfolding step_01_def by (rule bindE_pairE)
  have "if ok then starting p1 \<and> frames_ok 0 p1 else cex F sys bad (ic3_witness_length p1)"
  proof (cases "pr_reached_k p < 0")
    case True
    with 0 p have "step_0 N p = Inr (ok, p1)" "starting p" by (simp_all add: run_ok_def)
    from step_0_ok [OF this] show ?thesis by simp
  next
    case False
    with 0 p show ?thesis by (simp add: run_ok_def)
  qed
  note ok = this
  have "answer_ok res q \<and> (res = PR_UNKNOWN \<longrightarrow> pr_reached_k q = 1)"
  proof (cases ok)
    case False
    with go ok show ?thesis by (simp add: answer_ok_def)
  next
    case True
    with go ok have "step_1 N p1 = Inr (res, q)" "starting p1" "frames_ok 0 p1" by simp_all
    from step_1_ok [OF this] show ?thesis by (auto simp: answer_ok_def run_ok_def)
  qed
  then show "answer_ok res q" "res = PR_UNKNOWN \<Longrightarrow> pr_reached_k q = 1" by simp_all
qed

lemma searching_reached: "searching m (p\<lparr>pr_reached_k := k\<rparr>) = searching m p"
  by (simp add: searching_def engine_ok_reached frames_ok_reached frontier_idx_def)

text \<open>What follows a blocking phase, also one that a request to terminate has cut short.\<close>

lemma propagation_ok:
  assumes s: "searching m p" and rk: "pr_reached_k p = int m"
    and t1: "tightens m p p1" and stop: "frames_ok (Suc m) p1 \<or> ic_request p1 = Some 0"
    and pf: "push_frame N p1 = Inr p2" and pr: "propagate_frames N [1..<frontier_idx p2] p2 = Inr (fp, p3)"
    and fin: "(case fp of
        Some j \<Rightarrow> Inr (PR_TRUE, p3\<lparr>pr_invar := Some (get_frame_term (ie_prover N) (j + 1) p3)\<rparr>)
      | None \<Rightarrow> Inr (PR_UNKNOWN, (reset_solver N p3)\<lparr>pr_reached_k := pr_reached_k p3 + 1\<rparr>)) = (Inr (res, q) :: _ result)"
  shows "answer_ok res q \<and> (res = PR_UNKNOWN \<longrightarrow> ic_request q = Some 0 \<or> run_ok q \<and> pr_reached_k q = int m + 1)"
proof -
  have m: "1 \<le> m" "frontier_idx p = m" using s by (simp_all add: searching_def)
  have e1: "engine_ok p1" "frames_ok m p1" using t1 by (simp_all add: tightens_def)
  define m' where "m' = (if ic_request p1 = Some 0 then m else Suc m)"
  have f1: "frames_ok m' p1" using stop e1(2) by (auto simp: m'_def)
  note p2 = push_frame_ok [OF pf e1(1) f1]
  have fr2: "frontier_idx p2 = Suc m" using p2(3) tightens_frontier [OF t1] m(2) by simp
  have len2: "length (ic_frames p2) = Suc (Suc m)" using fr2 frames_okD(1) [OF p2(2)] by (simp add: frontier_idx_def)
  have "1 \<le> j \<and> Suc j < length (ic_frames p2)" if "j \<in> set [1..<frontier_idx p2]" for j using that fr2 len2 by auto
  from propagate_frames_ok [OF pr p2(1,2) this]
  have t3: "tightens m' p2 p3" and fp: "\<And>j. fp = Some j \<Longrightarrow> j \<in> set [1..<Suc m] \<and> ic_frames p3 ! j = []" using fr2 by simp_all
  have e3: "engine_ok p3" "frames_ok m' p3" "length (ic_frames p3) = Suc (Suc m)" using t3 len2 by (simp_all add: tightens_def)
  have z: "ic_frames p3 \<noteq> []" "ic_frames p3 ! 0 = []" using e3 frames_okD(2) [OF e3(2)] by auto
  note rs = reset_solver_ok [OF e3(1) z]
  consider "ic_request p1 = Some 0" | j where "m' = Suc m" "fp = Some j" | "m' = Suc m" "fp = None"
    by (cases fp; cases "ic_request p1 = Some 0") (simp_all add: m'_def)
  then show ?thesis
  proof cases
    case 1
    then have "ic_request p3 = Some 0" using p2(4) t3 by (simp add: tightens_def)
    with fin rs(3) show ?thesis by (cases fp) (auto simp: answer_ok_def)
  next
    case (2 j)
    have j: "1 \<le> j" "j < Suc m" "ic_frames p3 ! j = []" "j < length (ic_frames p3)" using fp [OF 2(2)] e3(3) by auto
    note fx = fixed_point [OF e3(2) [unfolded 2(1)] j]
    have "pr_invar q = Some (get_frame_term (ie_prover N) (Suc j) p3)" "res = PR_TRUE" using fin 2(2) by auto
    moreover have "invariant_of q" unfolding invariant_of_def calculation(1) using fx by (auto simp: frame_term)
    ultimately show ?thesis by (simp add: answer_ok_def)
  next
    case 3
    have q: "res = PR_UNKNOWN" "q = (reset_solver N p3)\<lparr>pr_reached_k := pr_reached_k p3 + 1\<rparr>" using fin 3(2) by auto
    have rk3: "pr_reached_k p3 = int m" using t3 p2(5) t1 rk by (simp add: tightens_def)
    have "frames_ok (Suc m) (reset_solver N p3)" using frames_ok_cong [OF rs(2)] e3(2) 3(1) by simp
    then have "searching (Suc m) (reset_solver N p3)" using rs e3(3) by (simp add: searching_def frontier_idx_def)
    then have "searching (Suc m) q" by (simp add: q(2) searching_reached)
    moreover have "nat (pr_reached_k q) = Suc m" "1 \<le> pr_reached_k q" using rk3 by (simp_all add: q(2) nat_add_distrib)
    ultimately have "run_ok q" by (simp add: run_ok_def)
    with q(1) rk3 show ?thesis by (simp add: answer_ok_def q(2))
  qed
qed

lemma ic3_step_ok:
  assumes run: "ic3_step N f i p = Inr (res, q)" and p: "run_ok p" and i: "i \<le> pr_reached_k p + 1"
  shows "answer_ok res q" and "res = PR_UNKNOWN \<Longrightarrow> ic_request q = Some 0 \<or> run_ok q \<and> i \<le> pr_reached_k q"
proof -
  consider "i \<le> pr_reached_k p" | "\<not> i \<le> pr_reached_k p" "pr_reached_k p < 1" | "\<not> i \<le> pr_reached_k p" "1 \<le> pr_reached_k p" by linarith
  then have "answer_ok res q \<and> (res = PR_UNKNOWN \<longrightarrow> ic_request q = Some 0 \<or> run_ok q \<and> i \<le> pr_reached_k q)"
  proof cases
    case 1
    with run p show ?thesis by (auto simp: ic3_step_def answer_ok_def)
  next
    case 2
    with run have "step_01 N p = Inr (res, q)" by (simp add: ic3_step_def)
    from step_01_ok [OF this p 2(2)] i 2 show ?thesis by (auto simp: answer_ok_def)
  next
    case 3
    let ?m = "nat (pr_reached_k p)"
    have s: "searching ?m p" using p 3(2) by (simp add: run_ok_def)
    from run 3 obtain blocked p1 where ba: "block_all N f f p = Inr (blocked, p1)"
      and go: "(if \<not> blocked then Inr (PR_FALSE, p1)
          else bindE (push_frame N p1) (\<lambda>p2.
               bindE (propagate_frames N [1..<frontier_idx p2] p2) (\<lambda>(res, p3).
                 case res of
                   Some j \<Rightarrow> Inr (PR_TRUE, p3\<lparr>pr_invar := Some (get_frame_term (ie_prover N) (j + 1) p3)\<rparr>)
                 | None \<Rightarrow> Inr (PR_UNKNOWN, (reset_solver N p3)\<lparr>pr_reached_k := pr_reached_k p3 + 1\<rparr>)))) = Inr (res, q)"
      by (simp add: ic3_step_def dassert_def) (elim conjE bindE_pairE, simp)
    note b = block_all_ok [OF ba s]
    show ?thesis
    proof (cases blocked)
      case False
      with go b show ?thesis by (auto simp: answer_ok_def)
    next
      case True
      with go obtain p2 fp p3 where "push_frame N p1 = Inr p2" "propagate_frames N [1..<frontier_idx p2] p2 = Inr (fp, p3)"
        "(case fp of
            Some j \<Rightarrow> Inr (PR_TRUE, p3\<lparr>pr_invar := Some (get_frame_term (ie_prover N) (j + 1) p3)\<rparr>)
          | None \<Rightarrow> Inr (PR_UNKNOWN, (reset_solver N p3)\<lparr>pr_reached_k := pr_reached_k p3 + 1\<rparr>)) = (Inr (res, q) :: _ result)"
        by simp (elim bindE_InrE bindE_pairE, blast)
      from propagation_ok [OF s _ _ _ this] b True i 3(2) show ?thesis by auto
    qed
  qed
  then show "answer_ok res q" "res = PR_UNKNOWN \<Longrightarrow> ic_request q = Some 0 \<or> run_ok q \<and> i \<le> pr_reached_k q" by simp_all
qed

lemma run_ok_poll:
  assumes "poll_terminate p = (stop, q)" and "run_ok p"
  shows "run_ok q" and "pr_reached_k q = pr_reached_k p" and "stop \<Longrightarrow> ic_request q = Some 0"
proof -
  obtain x where x: "q = p\<lparr>ic_request := x\<rparr>" "ic_request p = Some 0 \<longrightarrow> x = Some 0"
    using poll_terminate_ok(1) [OF assms(1)] by blast
  have "frames_ok m q = frames_ok m p" for m by (rule frames_ok_cong) (simp add: x(1))
  moreover have "engine_ok q = engine_ok p" by (simp only: x(1) engine_ok_request)
  moreover have f: "pr_reached_k q = pr_reached_k p" "ic_frames q = ic_frames p" by (simp_all add: x(1))
  ultimately show "run_ok q" using assms(2) by (auto simp: run_ok_def starting_def searching_def frontier_idx_def split: if_splits)
  show "pr_reached_k q = pr_reached_k p" by (fact f)
  show "stop \<Longrightarrow> ic_request q = Some 0" using x poll_terminate_ok(2) [OF assms(1)] by simp
qed

text \<open>Once a request has arrived, the loop ends before the next step.\<close>

lemma loop_requested:
  assumes "ic3_loop N f n k i p = Inr (res, q)" and "ic_request p = Some 0"
  shows "res = PR_UNKNOWN \<and> ic_request q = Some 0"
  using assms by (cases n) (auto simp: poll_terminate_def split: if_splits)

lemma ic3_loop_ok:
  "ic3_loop N f n k i p = Inr (res, q) \<Longrightarrow> run_ok p \<Longrightarrow> i \<le> pr_reached_k p + 1 \<Longrightarrow>
    answer_ok res q \<and> (res = PR_UNKNOWN \<longrightarrow> ic_request q = Some 0 \<or> run_ok q \<and> k \<le> pr_reached_k q)"
proof (induction n arbitrary: i p)
  case (Suc n)
  note p = Suc.prems(2,3)
  show ?case
  proof (cases "i \<le> k")
    case False
    with Suc.prems(1) p show ?thesis by (auto simp: answer_ok_def)
  next
    case True
    obtain stop p0 where poll: "poll_terminate p = (stop, p0)" by (rule prod.exhaust)
    note p0 = run_ok_poll [OF poll p(1)]
    show ?thesis
    proof (cases stop)
      case True
      with Suc.prems(1) \<open>i \<le> k\<close> poll p0(3) show ?thesis by (auto simp: answer_ok_def)
    next
      case False
      with Suc.prems(1) True poll obtain r p1 where st: "ic3_step N f i p0 = Inr (r, p1)"
        and go: "(if r = PR_FALSE then
            (case fl_refine N p1 of
               (REFINE_SUCCESS, p2) \<Rightarrow> ic3_loop N f n k i p2
             | (REFINE_NONE, p2) \<Rightarrow> Inr (PR_FALSE, p2)
             | (REFINE_FAIL, p2) \<Rightarrow> Inr (PR_UNKNOWN, p2))
          else guardE (i + 1 < 2 ^ 31) (UndefinedBehaviour ''signed overflow'')
            (if r \<noteq> PR_UNKNOWN then Inr (r, p1) else ic3_loop N f n k (i + 1) p1)) = Inr (res, q)"
        by (simp add: Let_def) (elim bindE_pairE, simp)
      have "i \<le> pr_reached_k p0 + 1" using p(2) p0(2) by simp
      note ok = ic3_step_ok [OF st p0(1) this]
      consider "r = PR_FALSE" | "r \<noteq> PR_FALSE" "r \<noteq> PR_UNKNOWN" | "r = PR_UNKNOWN" by blast
      then show ?thesis
      proof cases
        case 1
        with go ok(1) no_refinement [of p1] show ?thesis by simp
      next
        case 2
        with go ok(1) show ?thesis by (auto simp: guardE_def split: if_splits)
      next
        case 3
        then have l: "ic3_loop N f n k (i + 1) p1 = Inr (res, q)" using go by (auto simp: guardE_def split: if_splits)
        from ok(2) [OF 3] show ?thesis
        proof
          assume "ic_request p1 = Some 0"
          from loop_requested [OF l this] show ?thesis by (simp add: answer_ok_def)
        next
          assume "run_ok p1 \<and> i \<le> pr_reached_k p1"
          with Suc.IH [OF l] show ?thesis by simp
        qed
      qed
    qed
  qed
qed simp

lemma ic3_check_until_ok:
  assumes run: "ic3_check_until N f n k p = Inr (res, q)" and i: "\<not> pr_initialized p" and p: "pristine p"
  shows "answer_ok res q" and "res = PR_UNKNOWN \<Longrightarrow> ic_request q = Some 0 \<or> run_ok q \<and> k \<le> pr_reached_k q"
proof -
  from run i obtain p1 p0 where b: "base_initialize N p = Inr p0" and p1: "p1 = fl_setup N p0"
    and l: "ic3_loop N f n k (pr_reached_k p1 + 1) p1 = Inr (res, q)"
    by (auto simp: ic3_check_until_def ic3_initialize_def bindE_Inr_iff)
  from data_setup obtain d where d: "Q d" "fl_setup N p0 = p0\<lparr>ic_data := d\<rparr>" by blast
  note bi = base_initialize_ok [OF b i p d(1)]
  have "run_ok p1" using bi by (simp add: run_ok_def starting_def p1 d(2))
  from ic3_loop_ok [OF l this] show "answer_ok res q"
    "res = PR_UNKNOWN \<Longrightarrow> ic_request q = Some 0 \<or> run_ok q \<and> k \<le> pr_reached_k q" by simp_all
qed

end

end
