(* ===== verification/Ic3_Flavours.thy ===== *)
theory Ic3_Flavours
  imports Ic3_Correct
begin

section \<open>The flavours of IC3 on bits (engines/ic3 and engines/ic3bits)\<close>

text \<open>
  \<open>IC3\<close> works on Boolean state variables and \<open>IC3Bits\<close> on the bits of the state variables;
  the second derives from the first and overrides what makes a cube from a model.  The builders
  \<open>make_ic3\<close> and \<open>make_ic3bits\<close> fill the virtual functions of the base class in.
\<close>

subsection \<open>The virtual functions\<close>

text \<open>The atom or its negation, by the value of the atom in the solver's model.\<close>

definition value_literal :: "'s smt_solver \<Rightarrow> 's \<Rightarrow> tm \<Rightarrow> tm" where
  "value_literal S s b = (if s_get_value S s b = tm_true then b else mk_term (builder S) (op0 NotOp) [b])"

definition ic3_get_model :: "'s prover_env \<Rightarrow> bool \<Rightarrow> ('s, 'd) ic3 \<Rightarrow> ic3_formula result" where
  "ic3_get_model E dbg p =
     guardE (dbg \<longrightarrow> ic_context p \<noteq> 0) (UndefinedBehaviour ''assertion'')
       (ic3formula_conjunction (builder (en_solver E))
         (map (value_literal (en_solver E) (pr_solver p)) (ts_statevars (en_ts E))))"

definition ic3_check_valid :: "(tm \<Rightarrow> bool) \<Rightarrow> ic3_formula \<Rightarrow> bool" where
  "ic3_check_valid lit u = list_all lit (if_children u)"

definition non_bool :: "tm list \<Rightarrow> tm option" where
  "non_bool vs = find (\<lambda>v. get_sort v \<noteq> BOOL) vs"

definition ic3_check_ts :: "smt_builder \<Rightarrow> ts \<Rightarrow> exn option" where
  "ic3_check_ts B ts =
     (case non_bool (ts_statevars ts) of
        Some v \<Rightarrow> Some (PonoException (''Got non-boolean state variable in bit-level IC3: '' @ term_str B v))
      | None \<Rightarrow>
         (case non_bool (ts_inputvars ts) of
            Some v \<Rightarrow> Some (PonoException (''Got non-boolean input variable in bit-level IC3: '' @ term_str B v))
          | None \<Rightarrow> None))"

text \<open>What the conjuncts of the predecessor are reduced against.\<close>

definition pregen_formula :: "'s prover_env \<Rightarrow> nat \<Rightarrow> tm \<Rightarrow> ('s, 'd) ic3 \<Rightarrow> tm" where
  "pregen_formula E i c p =
     (let B = builder (en_solver E); ts = en_ts E;
          nt = (\<lambda>t. mk_term B (op0 NotOp) [t]); cj = (\<lambda>a b. mk_term B (op0 And) [a, b]);
          formula = make_and B (get_input_values E p)
      in if ts_deterministic ts
         then cj (cj formula (ts_trans ts)) (nt (next_tm B ts c))
         else cj (cj formula (make_and B (get_next_state_values E p)))
                (nt (cj (cj (cj (get_frame_term E (i - 1) p) (ts_trans ts)) (nt c)) (next_tm B ts c))))"

text \<open>The result of the reducer is not looked at: after a failure there are no conjuncts.\<close>

definition predecessor_generalization :: "'s prover_env \<Rightarrow> bool \<Rightarrow> (tm \<Rightarrow> tm list \<Rightarrow> nat \<Rightarrow> nat \<Rightarrow> tm list option)
    \<Rightarrow> nat \<Rightarrow> tm \<Rightarrow> ic3_formula \<Rightarrow> ('s, 'd) ic3 \<Rightarrow> ic3_formula result" where
  "predecessor_generalization E dbg reduce i c pred p =
     guardE (dbg \<longrightarrow> 0 < i \<and> \<not> if_disjunction pred) (UndefinedBehaviour ''assertion'')
       (if i = 1 then Inr pred
        else let red = (case reduce (pregen_formula E i c p) (if_children pred) 0 0 of Some r \<Rightarrow> r | None \<Rightarrow> [])
             in guardE (dbg \<longrightarrow> red \<noteq> []) (UndefinedBehaviour ''assertion'')
                  (ic3formula_conjunction (builder (en_solver E)) red))"

definition make_ic3 :: "'s smt_solver \<Rightarrow> ts \<Rightarrow> tm \<Rightarrow> ic3_opts \<Rightarrow> (tm \<Rightarrow> tm list \<Rightarrow> nat \<Rightarrow> nat \<Rightarrow> tm list option)
    \<Rightarrow> (proof_goal list \<Rightarrow> nat) \<Rightarrow> (tm \<Rightarrow> bool) \<Rightarrow> bool \<Rightarrow> bool \<Rightarrow> ('s, unit) ic3_env" where
  "make_ic3 S ts prop opts reduce pick lit resets dbg =
     (let E = make_env S ts prop
      in \<lparr>ie_prover = E, ie_opts = opts, ie_reduce = reduce, ie_top = pick, ie_lit = lit, ie_resets = resets, ie_debug = dbg,
          fl_check_ts = ic3_check_ts (builder S) ts, fl_setup = (\<lambda>p. p), fl_model = ic3_get_model E dbg,
          fl_valid = ic3_check_valid lit, fl_pregen = predecessor_generalization E dbg reduce,
          fl_refine = (\<lambda>p. (REFINE_NONE, p))\<rparr>)"

subsection \<open>Splitting state variables into bits\<close>

definition bv1 :: tm where
  "bv1 = Val (BVVal 1 1) (BV 1)"

definition var_bits :: "smt_builder \<Rightarrow> tm \<Rightarrow> tm list" where
  "var_bits B sv = (case get_sort sv of
     BOOL \<Rightarrow> [sv]
   | BV w \<Rightarrow> map (\<lambda>i. mk_term B (op0 Equal) [mk_term B (Op Extract [i, i]) [sv], bv1]) [0..<w]
   | _ \<Rightarrow> [])"

definition state_bits :: "smt_builder \<Rightarrow> ts \<Rightarrow> tm list" where
  "state_bits B ts = concat (map (var_bits B) (ts_statevars ts))"

definition bits_get_model :: "'s prover_env \<Rightarrow> bool \<Rightarrow> ('s, tm list) ic3 \<Rightarrow> ic3_formula result" where
  "bits_get_model E dbg p =
     guardE (dbg \<longrightarrow> ic_context p \<noteq> 0) (UndefinedBehaviour ''assertion'')
       (ic3formula_conjunction (builder (en_solver E)) (map (value_literal (en_solver E) (pr_solver p)) (ic_data p)))"

definition bits_check_valid :: "smt_builder \<Rightarrow> ic3_formula \<Rightarrow> bool" where
  "bits_check_valid B u = list_all (\<lambda>c. get_sort c = BOOL \<and> length (free_consts B c) \<le> 1) (if_children u)"

definition bit_sort :: "smt_sort \<Rightarrow> bool" where
  "bit_sort s = (case s of BOOL \<Rightarrow> True | BV w \<Rightarrow> True | _ \<Rightarrow> False)"

text \<open>The text of the sort kind, which smt-switch prints, is left out of the message.\<close>

definition bits_check_ts :: "ts \<Rightarrow> exn option" where
  "bits_check_ts ts =
     (if list_all (\<lambda>v. bit_sort (get_sort v)) (ts_statevars ts @ ts_inputvars ts) then None
      else Some (PonoException ''IC3Bits only supports bit-vectors''))"

definition make_ic3bits :: "'s smt_solver \<Rightarrow> ts \<Rightarrow> tm \<Rightarrow> ic3_opts \<Rightarrow> (tm \<Rightarrow> tm list \<Rightarrow> nat \<Rightarrow> nat \<Rightarrow> tm list option)
    \<Rightarrow> (proof_goal list \<Rightarrow> nat) \<Rightarrow> (tm \<Rightarrow> bool) \<Rightarrow> bool \<Rightarrow> bool \<Rightarrow> ('s, tm list) ic3_env" where
  "make_ic3bits S ts prop opts reduce pick lit resets dbg =
     (let E = make_env S ts prop
      in \<lparr>ie_prover = E, ie_opts = opts, ie_reduce = reduce, ie_top = pick, ie_lit = lit, ie_resets = resets, ie_debug = dbg,
          fl_check_ts = bits_check_ts ts, fl_setup = (\<lambda>p. p\<lparr>ic_data := state_bits (builder S) ts\<rparr>),
          fl_model = bits_get_model E dbg,
          fl_valid = bits_check_valid (builder S), fl_pregen = predecessor_generalization E dbg reduce,
          fl_refine = (\<lambda>p. (REFINE_NONE, p))\<rparr>)"

subsection \<open>The cube of a model and its generalisation\<close>

locale ic3_pregen = smt_engine S F frames + ic3_system "builder S" F sys bad
  for S :: "'s smt_solver" and F :: theory_ops and frames :: "'s \<Rightarrow> tm list list" and sys :: ts and bad :: tm +
  fixes reduce :: "tm \<Rightarrow> tm list \<Rightarrow> nat \<Rightarrow> nat \<Rightarrow> tm list option"
  assumes core: "reduce h ts k r = Some red \<Longrightarrow> set red \<subseteq> set ts \<and> \<not> satisfiable F (h # red)"
    and total: "ts_deterministic sys \<Longrightarrow> wsorted s \<Longrightarrow> \<exists>t. ts_step F sys s t"
begin

abbreviation "model s \<sigma> \<equiv> \<forall>t. s_get_value S s t = Val (eval F \<sigma> t) (get_sort t)"

lemma value_literal_holds:
  assumes "model s \<sigma>" and "get_sort b = BOOL" and "eval F \<sigma> b \<in> carrier BOOL"
  shows "holds F \<tau> (value_literal S s b) \<Longrightarrow> holds F \<tau> b \<longleftrightarrow> holds F \<sigma> b" and "holds F \<sigma> (value_literal S s b)"
  using assms by (auto simp: value_literal_def split: if_splits)

lemma value_literal_syms: "syms_in V b \<Longrightarrow> syms_in V (value_literal S s b)"
  by (simp add: value_literal_def syms_in_mk1)

lemma literal_cube:
  assumes m: "model s \<sigma>" and f: "ic3formula_conjunction (builder S) (map (value_literal S s) bs) = Inr f"
    and b: "\<And>b. b \<in> set bs \<Longrightarrow> get_sort b = BOOL \<and> eval F \<sigma> b \<in> carrier BOOL \<and> syms_in SV b"
  shows "cube F f" and "over SV f" and "holds F \<sigma> (fterm f)"
    and "holds F \<tau> (fterm f) \<Longrightarrow> b \<in> set bs \<Longrightarrow> holds F \<tau> b \<longleftrightarrow> holds F \<sigma> b"
proof -
  note c = conjunction_cube [OF f]
  show "cube F f" by (rule c(1))
  show "over SV f" by (rule c(4)) (use b value_literal_syms in auto)
  show "holds F \<sigma> (fterm f)" using c(1,2) value_literal_holds(2) [OF m] b by (auto simp: cube_def)
  show "holds F \<tau> b \<longleftrightarrow> holds F \<sigma> b" if "holds F \<tau> (fterm f)" "b \<in> set bs"
  proof -
    have "holds F \<tau> (value_literal S s b)" using c(1,2) that by (auto simp: cube_def)
    with value_literal_holds(1) [OF m] b [OF that(2)] show ?thesis by blast
  qed
qed

lemma input_values:
  assumes "model (pr_solver p) \<sigma>"
  shows "all_hold F \<tau> (get_input_values (make_env S sys prop) p) \<longleftrightarrow> (\<forall>v \<in> IV. eval F \<tau> v = eval F \<sigma> v)"
  using assms by (auto simp: get_input_values_def make_env_def)

lemma next_values:
  assumes "model (pr_solver p) \<sigma>"
  shows "all_hold F \<tau> (get_next_state_values (make_env S sys prop) p)
    \<longleftrightarrow> (\<forall>v \<in> SV. eval F \<tau> (nextof v) = eval F \<sigma> (nextof v))"
  using assms by (auto simp: get_next_state_values_def make_env_def Let_def)

lemma graft_kept:
  assumes "v \<in> IV \<union> set (ts_next_statevars sys)"
  shows "eval F (graft \<tau> \<sigma>) v = eval F \<sigma> v"
proof -
  have "v \<in> ts_vars sys" using assms by (auto simp: ts_vars_def)
  then obtain n st where v: "v = Sym n st" using wf_symbolic [OF sys_wf] is_symbolic_constE by blast
  with graft_other [OF assms, of \<tau> \<sigma>] show ?thesis by simp
qed

lemma state_next_var:
  assumes "v \<in> SV"
  shows "nextof v \<in> set (ts_next_statevars sys)"
proof -
  obtain nv where "map_of (ts_next_map sys) v = Some nv" using next_map_total [OF sys_wf assms] by blast
  with next_symbol [OF sys_wf] show ?thesis by (auto simp: next_tm_def)
qed

text \<open>
  The reduced cube is exact: with the inputs of the model, and its next state when the system is not
  deterministic, every state of the cube has a step into \<open>c\<close>.
\<close>

lemma reduced_exact:
  assumes m: "model (pr_solver p) \<sigma>" "wsorted \<sigma>" and c: "syms_in SV c"
    and red: "\<not> satisfiable F (pregen_formula (make_env S sys prop) i c p # red)"
    and g: "ic3formula_conjunction (builder S) red = Inr g" and ov: "over SV g"
  shows "exact g c"
  unfolding exact_def
proof (intro allI impI)
  fix \<tau> assume t: "wsorted \<tau> \<and> holds F \<tau> (fterm g)"
  let ?u = "graft \<tau> \<sigma>"
  let ?E = "make_env S sys prop"
  have E: "builder (en_solver ?E) = builder S" "en_ts ?E = sys" by (simp_all add: make_env_def)
  have wu: "wsorted ?u" using graft_wsorted t m(2) by simp
  have iu: "all_hold F ?u (get_input_values ?E p)" unfolding input_values [OF m(1)] using graft_kept by blast
  have all: "all_hold F \<rho> red" if "same_state \<tau> \<rho>" for \<rho>
  proof -
    have "holds F \<rho> (fterm g)" using same_state_eval [OF that] ov t by (simp add: over_def)
    with conjunction_cube(1,2) [OF g] show ?thesis by (auto simp: cube_def)
  qed
  show "\<exists>u t. same_state \<tau> u \<and> stepof u t \<and> holds F t c"
  proof (cases "ts_deterministic sys")
    case True
    obtain y where y: "stepof ?u y" using total [OF True wu] by blast
    let ?\<rho> = "pair_env sys ?u y"
    have w: "wsorted ?\<rho>" by (rule wsorted_pair_env [OF sys_wf ts_stepD(1,2) [OF y]])
    have cov: "covered v (SV \<union> IV)" if "v \<in> IV" for v
    proof -
      have "v \<in> ts_vars sys" using that by (auto simp: ts_vars_def)
      then obtain n st where "v = Sym n st" using wf_symbolic [OF sys_wf] is_symbolic_constE by blast
      with that show ?thesis by (simp add: covered_def)
    qed
    have "all_hold F ?\<rho> (get_input_values ?E p)"
      using iu eval_pair_current [OF sys_wf cov] unfolding input_values [OF m(1)] by simp
    moreover have "all_hold F ?\<rho> red"
    proof (rule all)
      have "same_state ?u ?\<rho>" by (rule same_state_pair)
      with graft_same [of \<tau> \<sigma>] show "same_state \<tau> ?\<rho>" by (auto simp: same_state_def agree_funs_def)
    qed
    moreover have "holds F ?\<rho> (ts_trans sys)" by (rule ts_stepD(4) [OF y])
    ultimately have "holds F ?\<rho> (nextof c)"
      using red w True unfolding satisfiable_def pregen_formula_def E Let_def by (auto simp: make_and_holds)
    then have "holds F y c" using eval_nextof [OF ts_stepD(3) [OF y] c] by simp
    with y graft_same show ?thesis by blast
  next
    case False
    have "all_hold F ?u (get_next_state_values ?E p)"
      unfolding next_values [OF m(1)] using graft_kept state_next_var by blast
    with iu all [OF graft_same] red wu False have "holds F ?u (ts_trans sys) \<and> holds F ?u (nextof c)"
      unfolding satisfiable_def pregen_formula_def E Let_def by (auto simp: make_and_holds)
    with graft_step [OF _ m(2) _ _ c] t show ?thesis by blast
  qed
qed

lemma pregen_ok:
  assumes m: "model (pr_solver p) \<sigma>" "wsorted \<sigma>" and f: "cube F f" "over SV f" "holds F \<sigma> (fterm f)" "determines \<sigma> f"
    and c: "syms_in SV c" "holds F \<sigma> (ts_trans sys)" "holds F \<sigma> (nextof c)"
    and g: "predecessor_generalization (make_env S sys prop) dbg reduce i c f p = Inr g"
  shows "cube F g \<and> over SV g \<and> holds F \<sigma> (fterm g) \<and> exact g c"
proof (cases "i = 1")
  case True
  with g have "g = f" by (auto simp: predecessor_generalization_def guardE_def split: if_splits)
  with f determined_exact [OF f(4) m(2) c(2,3,1)] show ?thesis by simp
next
  case False
  let ?h = "pregen_formula (make_env S sys prop) i c p"
  have B: "builder (en_solver (make_env S sys prop)) = builder S" by (simp add: make_env_def)
  obtain red where r: "red = (case reduce ?h (if_children f) 0 0 of Some r \<Rightarrow> r | None \<Rightarrow> [])"
    and cj: "ic3formula_conjunction (builder S) red = Inr g"
    using g False by (auto simp: predecessor_generalization_def guardE_def Let_def B split: if_splits)
  have "red \<noteq> []" using conjunction_cube(1,2) [OF cj] by (auto simp: cube_def)
  with r have "reduce ?h (if_children f) 0 0 = Some red" by (cases "reduce ?h (if_children f) 0 0") simp_all
  from core [OF this] have red: "set red \<subseteq> set (if_children f)" "\<not> satisfiable F (?h # red)" by blast+
  note cg = conjunction_cube [OF cj]
  have ov: "over SV g" by (rule cg(4)) (use red(1) f(2) in \<open>auto simp: over_def\<close>)
  have "holds F \<sigma> (fterm g)" using cg(1,2) red(1) f(1,3) by (auto simp: cube_def)
  with cg(1) ov reduced_exact [OF m c(1) red(2) cj ov] show ?thesis by blast
qed

end

context ic3_pregen
begin

text \<open>\<open>IC3\<close>: the literals of all state variables; \<open>IC3Bits\<close>: all bits of them.\<close>

lemma bool_model_cube:
  assumes m: "model (pr_solver p) \<sigma>" "wsorted \<sigma>" and b: "\<And>v. v \<in> SV \<Longrightarrow> get_sort v = BOOL"
    and run: "ic3_get_model (make_env S sys prop) dbg p = Inr f"
  shows "cube F f \<and> over SV f \<and> holds F \<sigma> (fterm f) \<and> determines \<sigma> f"
proof -
  have f: "ic3formula_conjunction (builder S) (map (value_literal S (pr_solver p)) (ts_statevars sys)) = Inr f"
    using run by (auto simp: ic3_get_model_def guardE_def make_env_def split: if_splits)
  have sym: "\<exists>n. v = Sym n BOOL" if "v \<in> SV" for v
    using wf_symbolic [OF sys_wf, of v] b [OF that] that by (cases v) (auto simp: ts_vars_def)
  have val: "\<rho> (n, BOOL) \<in> carrier BOOL" if "wsorted \<rho>" for \<rho> n using that unfolding wsorted_def by blast
  have var: "get_sort v = BOOL \<and> eval F \<rho> v \<in> carrier BOOL \<and> syms_in SV v" if "v \<in> SV" "wsorted \<rho>" for v \<rho>
    using sym [OF that(1)] val [OF that(2)] that(1) by auto
  note c = literal_cube [OF m(1) f var [OF _ m(2)]]
  have "\<tau> (sym_of v) = \<sigma> (sym_of v)" if t: "wsorted \<tau>" "holds F \<tau> (fterm f)" and v: "v \<in> SV" for \<tau> v
  proof -
    have "holds F \<tau> v \<longleftrightarrow> holds F \<sigma> v" using c(4) t(2) v by blast
    moreover obtain n where n: "v = Sym n BOOL" using sym [OF v] by blast
    moreover obtain b b' where "\<tau> (n, BOOL) = BoolVal b" "\<sigma> (n, BOOL) = BoolVal b'"
      using wsorted_Bool [OF t(1)] wsorted_Bool [OF m(2)] by metis
    ultimately show ?thesis by simp
  qed
  with c(1-3) show ?thesis by (auto simp: determines_def)
qed

end

text \<open>What the code relies on for the operator \<open>Extract\<close> on one bit.\<close>

definition extract_ok :: "theory_ops \<Rightarrow> bool" where
  "extract_ok F \<longleftrightarrow> (\<forall>w a i. i < w \<and> a < 2 ^ w \<longrightarrow> F (Op Extract [i, i]) [BVVal w a] = BVVal 1 (a div 2 ^ i mod 2))"

lemma bits_equal:
  assumes "(a :: nat) < 2 ^ w" and "b < 2 ^ w" and "\<And>i. i < w \<Longrightarrow> a div 2 ^ i mod 2 = b div 2 ^ i mod 2"
  shows "a = b"
proof (rule bit_eqI)
  fix i
  show "bit a i = bit b i"
  proof (cases "i < w")
    case True
    with assms(3) show ?thesis by (simp add: bit_iff_odd odd_iff_mod_2_eq_one)
  next
    case False
    then have "(2 :: nat) ^ w \<le> 2 ^ i" by simp
    with assms(1,2) have "a < 2 ^ i" "b < 2 ^ i" by linarith+
    then show ?thesis by (simp add: bit_iff_odd)
  qed
qed

context ic3_pregen
begin

lemma var_bits_eval:
  assumes "extract_ok F" and "\<tau> (n, BV w) = BVVal w a" and "a < 2 ^ w" and "i < w"
  shows "holds F \<tau> (mk_term (builder S) (op0 Equal) [mk_term (builder S) (Op Extract [i, i]) [Sym n (BV w)], bv1])
    \<longleftrightarrow> a div 2 ^ i mod 2 = 1"
proof -
  have "F (Op Extract [i, i]) [BVVal w a] = BVVal 1 (a div 2 ^ i mod 2)" using assms(1,3,4) unfolding extract_ok_def by blast
  with assms(2) show ?thesis by (simp add: eval_mk sem_op_def bv1_def)
qed

lemma bits_model_cube:
  assumes x: "extract_ok F" and m: "model (pr_solver p) \<sigma>" "wsorted \<sigma>" and b: "\<And>v. v \<in> SV \<Longrightarrow> bit_sort (get_sort v)"
    and d: "ic_data p = state_bits (builder S) sys" and run: "bits_get_model (make_env S sys prop) dbg p = Inr f"
  shows "cube F f \<and> over SV f \<and> holds F \<sigma> (fterm f) \<and> determines \<sigma> f"
proof -
  let ?bs = "state_bits (builder S) sys"
  let ?bit = "\<lambda>n w i. mk_term (builder S) (op0 Equal) [mk_term (builder S) (Op Extract [i, i]) [Sym n (BV w)], bv1]"
  have f: "ic3formula_conjunction (builder S) (map (value_literal S (pr_solver p)) ?bs) = Inr f"
    using run d by (auto simp: bits_get_model_def guardE_def make_env_def split: if_splits)
  have sym: "(\<exists>n. v = Sym n BOOL) \<or> (\<exists>n w. v = Sym n (BV w))" if "v \<in> SV" for v
    using wf_symbolic [OF sys_wf, of v] b [OF that] that by (cases v) (auto simp: ts_vars_def bit_sort_def split: smt_sort.splits)
  have val: "\<rho> (n, BOOL) \<in> carrier BOOL" if "wsorted \<rho>" for \<rho> n using that unfolding wsorted_def by blast
  have eqs: "get_sort (mk_term (builder S) (op0 Equal) [s, t]) = BOOL \<and> eval F \<sigma> (mk_term (builder S) (op0 Equal) [s, t]) \<in> carrier BOOL" for s t
    by (simp add: sort_mk_bool bool_ops_def eval_mk sem_op_def)
  have var: "get_sort c = BOOL \<and> eval F \<sigma> c \<in> carrier BOOL \<and> syms_in SV c" if "c \<in> set ?bs" for c
  proof -
    from that obtain v where v: "v \<in> SV" "c \<in> set (var_bits (builder S) v)" by (auto simp: state_bits_def)
    from sym [OF v(1)] show ?thesis
    proof
      assume "\<exists>n. v = Sym n BOOL"
      with v val [OF m(2)] show ?thesis by (auto simp: var_bits_def)
    next
      assume "\<exists>n w. v = Sym n (BV w)"
      then obtain n w where n: "v = Sym n (BV w)" by blast
      with v(2) obtain i where c: "c = ?bit n w i" by (auto simp: var_bits_def)
      have "syms_in SV c" unfolding c by (intro syms_in_mk2 syms_in_mk1) (use v(1) n in \<open>simp_all add: bv1_def\<close>)
      with eqs c show ?thesis by blast
    qed
  qed
  note c = literal_cube [OF m(1) f var]
  have "\<tau> (sym_of v) = \<sigma> (sym_of v)" if t: "wsorted \<tau>" "holds F \<tau> (fterm f)" and v: "v \<in> SV" for \<tau> v
  proof -
    have bit: "holds F \<tau> e \<longleftrightarrow> holds F \<sigma> e" if "e \<in> set (var_bits (builder S) v)" for e
      using c(4) t(2) v that by (auto simp: state_bits_def)
    from sym [OF v] show ?thesis
    proof
      assume "\<exists>n. v = Sym n BOOL"
      then obtain n where n: "v = Sym n BOOL" by blast
      moreover obtain b b' where "\<tau> (n, BOOL) = BoolVal b" "\<sigma> (n, BOOL) = BoolVal b'"
        using wsorted_Bool [OF t(1)] wsorted_Bool [OF m(2)] by metis
      ultimately show ?thesis using bit [of v] by (simp add: var_bits_def)
    next
      assume "\<exists>n w. v = Sym n (BV w)"
      then obtain n w where n: "v = Sym n (BV w)" by blast
      have "\<tau> (n, BV w) \<in> carrier (BV w)" "\<sigma> (n, BV w) \<in> carrier (BV w)" using t(1) m(2) unfolding wsorted_def by blast+
      then obtain a a' where a: "\<tau> (n, BV w) = BVVal w a" "a < 2 ^ w" and a': "\<sigma> (n, BV w) = BVVal w a'" "a' < 2 ^ w" by auto
      have "a div 2 ^ i mod 2 = a' div 2 ^ i mod 2" if i: "i < w" for i
      proof -
        have "?bit n w i \<in> set (var_bits (builder S) v)" using i by (auto simp: var_bits_def n)
        from bit [OF this] have "a div 2 ^ i mod 2 = 1 \<longleftrightarrow> a' div 2 ^ i mod 2 = 1"
          unfolding var_bits_eval [of \<tau>, OF x a i] var_bits_eval [of \<sigma>, OF x a' i] .
        then show ?thesis by (metis mod2_eq_if)
      qed
      with bits_equal [OF a(2) a'(2)] a(1) a'(1) n show ?thesis by simp
    qed
  qed
  with c(1-3) show ?thesis by (auto simp: determines_def)
qed

end

subsection \<open>The engines that the program builds\<close>

definition reducer_ok :: "theory_ops \<Rightarrow> (tm \<Rightarrow> tm list \<Rightarrow> nat \<Rightarrow> nat \<Rightarrow> tm list option) \<Rightarrow> bool" where
  "reducer_ok F reduce \<longleftrightarrow> (\<forall>h ts k r. case reduce h ts k r of
     Some red \<Rightarrow> set red \<subseteq> set ts \<and> \<not> satisfiable F (h # red) | None \<Rightarrow> satisfiable F (h # ts))"

definition always_answers :: "'s smt_solver \<Rightarrow> bool" where
  "always_answers S \<longleftrightarrow> (\<forall>as s. fst (s_check_assuming S as s) \<noteq> UNKNOWN)"

definition picks_goal :: "(proof_goal list \<Rightarrow> nat) \<Rightarrow> bool" where
  "picks_goal pick \<longleftrightarrow> (\<forall>q. q \<noteq> [] \<longrightarrow> pick q < length q)"

text \<open>A well-formed system without function symbols that has a successor where it says it has.\<close>

definition ic3_ready :: "theory_ops \<Rightarrow> ts \<Rightarrow> tm \<Rightarrow> bool" where
  "ic3_ready F sys prop \<longleftrightarrow> ts_wf sys \<and> syms_in (set (ts_statevars sys)) prop
     \<and> syms_in (set (ts_statevars sys)) (ts_init sys) \<and> syms_in (ts_vars sys) (ts_trans sys)
     \<and> (ts_deterministic sys \<longrightarrow> (\<forall>s. wsorted s \<longrightarrow> (\<exists>t. ts_step F sys s t)))"

lemma reducer_okD:
  assumes "reducer_ok F reduce"
  shows "reduce h ts k r = Some red \<Longrightarrow> set red \<subseteq> set ts \<and> \<not> satisfiable F (h # red)"
    and "reduce h ts k r = None \<Longrightarrow> satisfiable F (h # ts)"
proof -
  have "case reduce h ts k r of Some red \<Rightarrow> set red \<subseteq> set ts \<and> \<not> satisfiable F (h # red) | None \<Rightarrow> satisfiable F (h # ts)"
    using assms unfolding reducer_ok_def by blast
  then show "reduce h ts k r = Some red \<Longrightarrow> set red \<subseteq> set ts \<and> \<not> satisfiable F (h # red)"
    "reduce h ts k r = None \<Longrightarrow> satisfiable F (h # ts)" by simp_all
qed

lemma make_system:
  assumes "smt_engine S F frames" and "ic3_ready F sys prop"
  shows "ic3_system (builder S) F sys (en_bad (make_env S sys prop))"
proof -
  have t: "smt_terms (builder S) F" using assms(1) by (simp add: smt_engine_def)
  have "syms_in (set (ts_statevars sys)) (en_bad (make_env S sys prop))"
    using smt_terms.syms_in_mk1 [OF t] assms(2) by (simp add: make_env_def ic3_ready_def)
  with t assms(2) show ?thesis by (simp add: ic3_system_def ic3_system_axioms_def ic3_ready_def)
qed

lemma make_pregen:
  assumes "smt_engine S F frames" and "ic3_ready F sys prop" and "reducer_ok F reduce"
  shows "ic3_pregen S F frames sys (en_bad (make_env S sys prop)) reduce"
proof -
  note reducer_okD(1) [OF assms(3)]
  moreover have "ts_deterministic sys \<Longrightarrow> wsorted s \<Longrightarrow> \<exists>t. ts_step F sys s t" for s
    using assms(2) by (simp add: ic3_ready_def)
  ultimately show ?thesis
    using make_system [OF assms(1,2)] assms(1) unfolding ic3_pregen_def ic3_pregen_axioms_def by blast
qed

lemma answers: "always_answers S \<Longrightarrow> s_check_assuming S as s \<noteq> (UNKNOWN, s')"
  unfolding always_answers_def by (metis fst_conv)

text \<open>Both flavours inherit the generalisation of \<open>IC3\<close>; they differ in the cube of a model.\<close>

lemma flavour_engine:
  fixes N :: "('s, 'd) ic3_env"
  assumes e: "smt_engine S F frames" "ic3_ready F sys prop" "reducer_ok F (ie_reduce N)" "always_answers S" "picks_goal (ie_top N)"
    and fld: "ie_prover N = make_env S sys prop" "fl_refine N = (\<lambda>p. (REFINE_NONE, p))"
      "fl_pregen N = predecessor_generalization (make_env S sys prop) dbg (ie_reduce N)"
    and data: "\<And>p. \<exists>d. Q d \<and> fl_setup N p = p\<lparr>ic_data := d\<rparr>"
    and cube: "\<And>\<sigma> p f. \<forall>t. s_get_value S (pr_solver p) t = Val (eval F \<sigma> t) (get_sort t) \<Longrightarrow> wsorted \<sigma> \<Longrightarrow> Q (ic_data p) \<Longrightarrow>
      fl_model N p = Inr f \<Longrightarrow> cube F f \<and> over (set (ts_statevars sys)) f \<and> holds F \<sigma> (fterm f) \<and> ic3_system.determines F sys \<sigma> f"
  shows "ic3_engine N F frames Q"
proof -
  have sel: "en_solver (make_env S sys prop) = S" "en_ts (make_env S sys prop) = sys" by (simp_all add: make_env_def)
  note pg = make_pregen [OF e(1-3)]
  show ?thesis
    unfolding ic3_engine_def ic3_engine_axioms_def fld sel
  proof (intro conjI allI impI)
    show "smt_engine S F frames" by (rule e(1))
    show "ic3_system (builder S) F sys (en_bad (make_env S sys prop))" by (rule make_system [OF e(1,2)])
  next
    fix as s s' show "s_check_assuming S as s \<noteq> (UNKNOWN, s')" by (rule answers [OF e(4)])
  next
    fix h ts k r red assume "ie_reduce N h ts k r = Some red"
    then show "set red \<subseteq> set ts" "\<not> satisfiable F (h # red)" using reducer_okD(1) [OF e(3)] by blast+
  next
    fix h ts k r assume "ie_reduce N h ts k r = None"
    then show "satisfiable F (h # ts)" by (rule reducer_okD(2) [OF e(3)])
  next
    fix q :: "proof_goal list" assume "q \<noteq> []"
    then show "ie_top N q < length q" using e(5) by (simp add: picks_goal_def)
  next
    fix p show "\<exists>d. Q d \<and> fl_setup N p = p\<lparr>ic_data := d\<rparr>" by (rule data)
  next
    fix \<sigma> f and p :: "('s, 'd) ic3"
    assume w: "wsorted \<sigma>" and m: "\<forall>t. s_get_value S (pr_solver p) t = Val (eval F \<sigma> t) (get_sort t)"
      and r: "Q (ic_data p)" "fl_model N p = Inr f"
    from cube [OF m w r]
    show "cube F f" "over (set (ts_statevars sys)) f" "holds F \<sigma> (fterm f)" "ic3_system.determines F sys \<sigma> f" by blast+
  next
    fix \<sigma> f c i g and p :: "('s, 'd) ic3"
    assume w: "wsorted \<sigma>" and m: "\<forall>t. s_get_value S (pr_solver p) t = Val (eval F \<sigma> t) (get_sort t)"
      and f: "cube F f \<and> over (set (ts_statevars sys)) f \<and> holds F \<sigma> (fterm f) \<and> ic3_system.determines F sys \<sigma> f"
      and c: "syms_in (set (ts_statevars sys)) c" "holds F \<sigma> (ts_trans sys)" "holds F \<sigma> (next_tm (builder S) sys c)"
      and g: "predecessor_generalization (make_env S sys prop) dbg (ie_reduce N) i c f p = Inr g"
    from f have f: "cube F f" "over (set (ts_statevars sys)) f" "holds F \<sigma> (fterm f)" "ic3_system.determines F sys \<sigma> f" by blast+
    from ic3_pregen.pregen_ok [OF pg m w f c g]
    show "cube F g" "over (set (ts_statevars sys)) g" "holds F \<sigma> (fterm g)" "ic3_system.exact F sys g c" by blast+
  qed simp_all
qed

lemma make_ic3_fields [simp]:
  "ie_prover (make_ic3 S sys prop opts reduce pick lit resets dbg) = make_env S sys prop"
  "ie_reduce (make_ic3 S sys prop opts reduce pick lit resets dbg) = reduce"
  "ie_top (make_ic3 S sys prop opts reduce pick lit resets dbg) = pick"
  "fl_check_ts (make_ic3 S sys prop opts reduce pick lit resets dbg) = ic3_check_ts (builder S) sys"
  "ie_prover (make_ic3bits S sys prop opts reduce pick lit resets dbg) = make_env S sys prop"
  "ie_reduce (make_ic3bits S sys prop opts reduce pick lit resets dbg) = reduce"
  "ie_top (make_ic3bits S sys prop opts reduce pick lit resets dbg) = pick"
  "fl_check_ts (make_ic3bits S sys prop opts reduce pick lit resets dbg) = bits_check_ts sys"
  by (simp_all add: make_ic3_def make_ic3bits_def Let_def)

lemma make_ic3_engine:
  assumes e: "smt_engine S F frames" "ic3_ready F sys prop" "reducer_ok F reduce" "always_answers S" "picks_goal pick"
    and b: "ic3_check_ts (builder S) sys = None"
  shows "ic3_engine (make_ic3 S sys prop opts reduce pick lit resets dbg) F frames (\<lambda>_. True)"
proof -
  have "\<And>v. v \<in> set (ts_statevars sys) \<Longrightarrow> get_sort v = BOOL"
    using b by (auto simp: ic3_check_ts_def non_bool_def find_None_iff split: option.splits)
  note cube = ic3_pregen.bool_model_cube [OF make_pregen [OF e(1-3)] _ _ this]
  have d: "\<exists>d. True \<and> p = p\<lparr>ic_data := d\<rparr>" for p :: "('a, unit) ic3" by (intro exI [of _ "ic_data p"]) simp
  show ?thesis
    by (rule flavour_engine [OF e(1,2) _ e(4), where dbg = dbg])
      (use e d cube in \<open>simp_all add: make_ic3_def Let_def\<close>)
qed

lemma make_ic3bits_engine:
  assumes e: "smt_engine S F frames" "ic3_ready F sys prop" "reducer_ok F reduce" "always_answers S" "picks_goal pick"
    and x: "extract_ok F" and b: "bits_check_ts sys = None"
  shows "ic3_engine (make_ic3bits S sys prop opts reduce pick lit resets dbg) F frames (\<lambda>d. d = state_bits (builder S) sys)"
proof -
  have "\<And>v. v \<in> set (ts_statevars sys) \<Longrightarrow> bit_sort (get_sort v)"
    using b by (auto simp: bits_check_ts_def list_all_iff split: if_splits)
  note cube = ic3_pregen.bits_model_cube [OF make_pregen [OF e(1-3)] x _ _ this]
  show ?thesis
    by (rule flavour_engine [OF e(1,2) _ e(4), where dbg = dbg])
      (use e cube in \<open>simp_all add: make_ic3bits_def Let_def\<close>)
qed

end
