(* ===== verification/Ic3_Results.thy ===== *)
theory Ic3_Results
  imports Ic3_Flavours
begin

section \<open>What the IC3 engines answer\<close>

text \<open>An executable reducer that answers with the solver, and the first of the lowest goals.\<close>

definition enum_reduce :: "theory_ops \<Rightarrow> decider \<Rightarrow> tm \<Rightarrow> tm list \<Rightarrow> nat \<Rightarrow> nat \<Rightarrow> tm list option" where
  "enum_reduce F D h ts k r =
     (case s_check_assuming (enum_solver F D) ts (enum_init\<lparr>e_frames := [[h]]\<rparr>) of
        (UNSAT, s) \<Rightarrow> Some (s_unsat_core (enum_solver F D) s) | _ \<Rightarrow> None)"

definition lowest_goal :: "proof_goal list \<Rightarrow> nat" where
  "lowest_goal q = length (takeWhile (\<lambda>g. list_ex (\<lambda>h. pg_idx h < pg_idx g) q) q)"

lemma lowest_goal_picks: "picks_goal lowest_goal"
  unfolding picks_goal_def
proof (intro allI impI)
  fix q :: "proof_goal list" assume "q \<noteq> []"
  then have "Min (pg_idx ` set q) \<in> pg_idx ` set q" by (intro Min_in) simp_all
  then obtain g where m: "Min (pg_idx ` set q) = pg_idx g" "g \<in> set q" by (rule imageE)
  have low: "pg_idx g \<le> pg_idx h" if "h \<in> set q" for h
    using Min_le [of "pg_idx ` set q" "pg_idx h"] that unfolding m(1) by blast
  have tw: "length (takeWhile P q) < length q" if "\<exists>g \<in> set q. \<not> P g" for P :: "proof_goal \<Rightarrow> bool"
    using that by (induction q) auto
  have "\<not> list_ex (\<lambda>h. pg_idx h < pg_idx g) q" unfolding list_ex_iff using low by fastforce
  then show "lowest_goal q < length q"
    unfolding lowest_goal_def by (intro tw [of "\<lambda>g. list_ex (\<lambda>h. pg_idx h < pg_idx g) q"] bexI [OF _ m(2)])
qed

lemma full_answers: "always_answers (enum_solver F (full_decider F))"
  using enum_full_decides [of F] by (simp add: always_answers_def) (metis prod.collapse)

lemma enum_reducer_ok: "reducer_ok F (enum_reduce F (full_decider F))"
  unfolding reducer_ok_def
proof (intro allI)
  fix h ts k r
  let ?S = "enum_solver F (full_decider F)" and ?s = "enum_init\<lparr>e_frames := [[h]]\<rparr>"
  obtain a s where c: "s_check_assuming ?S ts ?s = (a, s)" by (rule prod.exhaust)
  have e: "enum_reduce F (full_decider F) h ts k r = (if a = UNSAT then Some (s_unsat_core ?S s) else None)"
    using c by (cases a) (simp_all add: enum_reduce_def)
  show "case enum_reduce F (full_decider F) h ts k r of Some red \<Rightarrow> set red \<subseteq> set ts \<and> \<not> satisfiable F (h # red)
      | None \<Rightarrow> satisfiable F (h # ts)"
  proof (cases a)
    case UNSAT
    with full.core_UNSAT [where F = F and as = ts and s = ?s] c e show ?thesis by auto
  next
    case SAT
    with full.check_SAT [where F = F and as = ts and s = ?s] c e show ?thesis by (auto simp: satisfiable_def)
  next
    case UNKNOWN
    with c enum_full_decides show ?thesis by blast
  qed
qed

subsection \<open>The laws hold for the engines built on the example system\<close>

lemma demo_ready:
  assumes "syms_in {vx} prop"
  shows "ic3_ready F demo_ts prop"
proof -
  have "list_all (\<lambda>x. tm_of x \<in> set (ts_statevars demo_ts)) (sym_list (ts_init demo_ts))"
    "list_all (\<lambda>x. tm_of x \<in> ts_vars demo_ts) (sym_list (ts_trans demo_ts))" by code_simp+
  then show ?thesis using assms demo_wf demo_total
    by (simp add: ic3_ready_def syms_in_def demo_fields list_all_iff set_sym_list)
qed

interpretation demo_ic3: ic3_engine "make_ic3 (enum_solver F (full_decider F)) demo_ts vx opts
    (enum_reduce F (full_decider F)) lowest_goal lit resets dbg" F e_frames "\<lambda>_. True" for F opts lit resets dbg
  by (rule make_ic3_engine [OF full.smt_engine_axioms demo_ready enum_reducer_ok full_answers lowest_goal_picks])
    (simp_all add: ic3_check_ts_def non_bool_def demo_fields)

interpretation demo_pregen: ic3_pregen "enum_solver F (full_decider F)" F e_frames demo_ts
    "en_bad (make_env (enum_solver F (full_decider F)) demo_ts vx)" "enum_reduce F (full_decider F)" for F
  by (rule make_pregen [OF full.smt_engine_axioms demo_ready enum_reducer_ok]) simp

subsection \<open>Runs from a new engine\<close>

lemma initialize_check:
  assumes "ic3_check_until N f n k p = Inr r" and "\<not> pr_initialized p"
  shows "fl_check_ts N = None"
  using assms by (cases "fl_check_ts N") (auto simp: ic3_check_until_def ic3_initialize_def base_initialize_def bindE_Inr_iff)

text \<open>What the answer of a run says.  When a request to terminate has arrived, the engine has given up,
  and only \<open>FALSE\<close> says anything.\<close>

definition ic3_answer :: "theory_ops \<Rightarrow> ts \<Rightarrow> tm \<Rightarrow> int \<Rightarrow> prover_result \<Rightarrow> ('s, 'd) ic3 \<Rightarrow> bool" where
  "ic3_answer F sys bad k res q \<longleftrightarrow>
     (res = PR_TRUE \<and> (ic_request q = Some 0 \<or> (\<exists>iv. pr_invar q = Some iv \<and> (\<forall>s. ts_initial F sys s \<longrightarrow> holds F s iv)
        \<and> (\<forall>s t. ts_step F sys s t \<and> holds F s iv \<longrightarrow> holds F t iv) \<and> (\<forall>s. holds F s iv \<longrightarrow> \<not> holds F s bad))))
   \<or> (res = PR_FALSE \<and> cex F sys bad (ic3_witness_length q))
   \<or> (res = PR_UNKNOWN \<and> (ic_request q = Some 0 \<or> (\<forall>j. int j \<le> k \<longrightarrow> \<not> cex F sys bad j)))"

lemma engine_answer:
  assumes e: "ic3_engine N F frames Q" and s: "concat (frames s) = []" "frames s \<noteq> []" and t: "set (ts_declared (ie_ts N)) \<subseteq> set tab"
    and run: "ic3_check_until N f n k (new_ic3 tab rq d s) = Inr (res, q)"
  shows "ic3_answer F (ie_ts N) (ie_bad N) k res q"
proof -
  have eng: "smt_engine (ie_solver N) F frames" using e by (simp add: ic3_engine_def)
  let ?p = "new_ic3 tab rq d s"
  have "ic3_engine.pristine N frames ?p"
    using s t by (simp add: ic3_engine.pristine_def [OF e] new_ic3_def smt_engine.asserted_def [OF eng])
  moreover have "\<not> pr_initialized ?p" by (simp add: new_ic3_def)
  ultimately have a: "ic3_engine.answer_ok N F frames Q res q"
    "res = PR_UNKNOWN \<Longrightarrow> ic_request q = Some 0 \<or> ic3_engine.run_ok N F frames Q q \<and> k \<le> pr_reached_k q"
    using ic3_engine.ic3_check_until_ok [OF e run] by blast+
  show ?thesis
  proof (cases res)
    case PR_TRUE
    with a(1) show ?thesis
      by (simp add: ic3_engine.answer_ok_def [OF e] ic3_engine.invariant_of_def [OF e] ic3_answer_def)
  next
    case PR_FALSE
    with a(1) show ?thesis by (simp add: ic3_engine.answer_ok_def [OF e] ic3_answer_def)
  next
    case PR_UNKNOWN
    with a(2) ic3_engine.run_ok_no_cex [OF e] show ?thesis by (force simp: ic3_answer_def)
  next
    case PR_ERROR
    with a(1) show ?thesis by (simp add: ic3_engine.answer_ok_def [OF e])
  qed
qed

subsection \<open>The answers\<close>

text \<open>C3: A \<open>TRUE\<close> answer of bit-level IC3 is right unless a request to terminate has arrived during
  the run, for every choice of the options, with or without assertions compiled in, provided that the
  solver never answers that it does not know: the property holds in every reachable state, and the
  invariant that the engine records holds initially, is kept by every step and implies the
  property.\<close>

theorem ic3_true_has_invariant:
  assumes "smt_engine S F frames" and "ic3_ready F sys prop" and "reducer_ok F reduce" and "always_answers S" and "picks_goal pick"
    and "concat (frames s) = []" and "frames s \<noteq> []" and "set (ts_declared sys) \<subseteq> set tab"
    and "ic3_check_until (make_ic3 S sys prop opts reduce pick lit resets dbg) f n k (new_ic3 tab rq () s) = Inr (PR_TRUE, p')"
    and "ic_request p' \<noteq> Some 0"
  shows "safe F sys (en_bad (make_env S sys prop)) \<and> (\<exists>iv. pr_invar p' = Some iv
    \<and> (\<forall>s. ts_initial F sys s \<longrightarrow> holds F s iv) \<and> (\<forall>s t. ts_step F sys s t \<and> holds F s iv \<longrightarrow> holds F t iv)
    \<and> (\<forall>s. holds F s iv \<longrightarrow> holds F s prop))"
proof -
  let ?N = "make_ic3 S sys prop opts reduce pick lit resets dbg"
  have "ic3_check_ts (builder S) sys = None" using initialize_check [OF assms(9)] by (simp add: new_ic3_def)
  note e = make_ic3_engine [OF assms(1-5) this]
  from engine_answer [OF e assms(6,7) _ assms(9)] assms(8)
  have "ic3_answer F sys (en_bad (make_env S sys prop)) k PR_TRUE p'" by simp
  with assms(10) obtain iv where iv: "pr_invar p' = Some iv" "\<forall>s. ts_initial F sys s \<longrightarrow> holds F s iv"
    "\<forall>s t. ts_step F sys s t \<and> holds F s iv \<longrightarrow> holds F t iv" "\<forall>s. holds F s iv \<longrightarrow> \<not> holds F s (en_bad (make_env S sys prop))"
    by (auto simp: ic3_answer_def)
  have "holds F s iv" if "reach F sys m s" for m s using that by (induction rule: reach.induct) (use iv(2,3) in blast)+
  with iv(4) have "safe F sys (en_bad (make_env S sys prop))" by (auto simp: safe_def cex_reach)
  with iv env_bad(1) [OF assms(1)] show ?thesis by blast
qed

text \<open>C5: With a solver that never answers that it does not know, a \<open>FALSE\<close> answer of bit-level IC3
  means a counterexample of the length that the engine reports, whether or not a request to terminate
  has arrived; \<open>UNKNOWN\<close> means that there is none up to the bound or that a request has
  arrived.\<close>

theorem ic3_other_answers:
  assumes "smt_engine S F frames" and "ic3_ready F sys prop" and "reducer_ok F reduce" and "always_answers S" and "picks_goal pick"
    and "concat (frames s) = []" and "frames s \<noteq> []" and "set (ts_declared sys) \<subseteq> set tab"
    and "ic3_check_until (make_ic3 S sys prop opts reduce pick lit resets dbg) f n k (new_ic3 tab rq () s) = Inr (res, p')"
  shows "(res = PR_FALSE \<longrightarrow> cex F sys (en_bad (make_env S sys prop)) (ic3_witness_length p'))
    \<and> (res = PR_UNKNOWN \<longrightarrow> ic_request p' = Some 0 \<or> (\<forall>j. int j \<le> k \<longrightarrow> \<not> cex F sys (en_bad (make_env S sys prop)) j))
    \<and> res \<noteq> PR_ERROR"
proof -
  have "ic3_check_ts (builder S) sys = None" using initialize_check [OF assms(9)] by (simp add: new_ic3_def)
  note e = make_ic3_engine [OF assms(1-5) this]
  from engine_answer [OF e assms(6,7) _ assms(9)] assms(8) show ?thesis by (auto simp: ic3_answer_def)
qed

text \<open>C6: IC3 on the bits of bit-vector variables answers correctly as well, with a solver that never
  answers that it does not know: \<open>FALSE\<close> with the length of a counterexample; and, unless a request
  to terminate has arrived, \<open>TRUE\<close> with an inductive invariant that excludes the bad states, and
  \<open>UNKNOWN\<close> when there is no counterexample up to the bound.\<close>

theorem ic3bits_answers_right:
  assumes "smt_engine S F frames" and "ic3_ready F sys prop" and "reducer_ok F reduce" and "always_answers S" and "picks_goal pick"
    and "extract_ok F" and "concat (frames s) = []" and "frames s \<noteq> []" and "set (ts_declared sys) \<subseteq> set tab"
    and "ic3_check_until (make_ic3bits S sys prop opts reduce pick lit resets dbg) f n k (new_ic3 tab rq [] s) = Inr (res, p')"
  shows "ic3_answer F sys (en_bad (make_env S sys prop)) k res p'"
proof -
  have "bits_check_ts sys = None" using initialize_check [OF assms(10)] by (simp add: new_ic3_def)
  note e = make_ic3bits_engine [OF assms(1-6) this]
  from engine_answer [OF e assms(7,8) _ assms(10)] assms(9) show ?thesis by simp
qed

subsection \<open>The witness\<close>

context safety_engine
begin

text \<open>The formula whose models are the counterexamples of length \<open>n\<close>.\<close>

definition trace_formula :: "nat \<Rightarrow> tm list" where
  "trace_formula n = init_at 0 # map trans_at [0..<n] @ [at bad n]"

lemma trace_formula_exact: "cex F sys bad n \<longleftrightarrow> satisfiable F (trace_formula n)"
  unfolding trace_formula_def by (rule cex_satisfiable [OF bad_cur])

lemma trace_model:
  assumes m: "has_model s \<sigma>" and f: "all_hold F \<sigma> (trace_formula n)"
  shows "\<exists>\<pi>. ts_path F sys \<pi> n \<and> holds F (\<pi> n) bad \<and> (\<forall>i \<le> n. \<forall>v \<in> set (ts_statevars sys) \<union> set (ts_inputvars sys).
    map_of (map (witness_map E s) [0..<Suc n] ! i) v = Some (Val (\<pi> i (sym_of v)) (get_sort v)))"
proof -
  from f have "holds F \<sigma> (init_at 0)" "\<And>i. i < n \<Longrightarrow> holds F \<sigma> (trans_at i)" "holds F \<sigma> (at bad n)"
    by (auto simp: trace_formula_def)
  note f = this
  from model_path [OF m f(1,2)] obtain \<pi> where p: "all_states \<pi>" "unrolls_to F sys at \<sigma> \<pi>" "ts_path F sys \<pi> n" by blast
  have "map (witness_map E s) [0..<Suc n] ! i = witness_map E s i" if "i \<le> n" for i
    using that nth_map_upt [of i "Suc n" 0 "witness_map E s"] by simp
  then show ?thesis
    using p f(3) unrolls_current [OF p(2) bad_cur] witness_map_value [OF m p(1,2)] by (intro exI [of _ \<pi>]) simp
qed

lemma ic3_witness_search:
  assumes N: "ie_prover N = E" and dec: "\<And>as s s'. s_check_assuming S as s \<noteq> (UNKNOWN, s')" and r: "\<not> ic_reset_failed p"
    and run: "ic3_compute_witness N p = (ok, q)"
  shows "ok \<longleftrightarrow> cex F sys bad (ic3_witness_length p)"
    and "ok \<Longrightarrow> \<exists>s \<sigma>. has_model s \<sigma> \<and> all_hold F \<sigma> (trace_formula (ic3_witness_length p))
      \<and> pr_witness q = pr_witness p @ map (witness_map E s) [0..<Suc (ic3_witness_length p)]"
proof -
  let ?n = "ic3_witness_length p"
  let ?X = "trace_formula ?n" and ?s = "asserts S (trace_formula ?n) (s_reset_assertions S (pr_solver p))"
  obtain r1 s1 where c1: "s_check_assuming S (map (\<lambda>t. at (ic_cex p ! t) t) [0..<?n]) ?s = (r1, s1)" by (rule prod.exhaust)
  obtain r2 s2 where c2: "(if r1 = SAT then (r1, s1) else s_check S s1) = (r2, s2)" by (rule prod.exhaust)
  have X: "[init_at 0] @ map trans_at [0..<?n] @ [at bad ?n] = ?X" by (simp add: trace_formula_def)
  from run have res: "ok = (r2 = SAT)" "r2 = SAT \<Longrightarrow> pr_witness q = pr_witness p @ map (witness_map E s2) [0..<Suc ?n]"
    using r c1 c2 unfolding ic3_compute_witness_def Let_def N X by (auto split: if_splits)
  have "asserted (s_reset_assertions S (pr_solver p)) = {}" by (simp add: asserted_def frames_reset)
  then have as: "asserted ?s = set ?X" by simp
  have fr: "frames s1 = frames ?s" by (rule frames_check [OF c1])
  then have as1: "asserted s1 = set ?X" using as by (simp add: asserted_def)
  have model: "\<exists>\<sigma>. has_model s2 \<sigma> \<and> all_hold F \<sigma> ?X" if sat: "r2 = SAT"
  proof -
    obtain as t where t: "s_check_assuming S as t = (SAT, s2)" "asserted t = set ?X"
    proof (cases "r1 = SAT")
      case True
      with c1 c2 sat as that show ?thesis by auto
    next
      case False
      with c2 sat as1 that show ?thesis by auto
    qed
    show ?thesis
    proof (rule check_SAT_model [OF t(1)])
      fix \<sigma> assume "wsorted \<sigma>" "\<And>u. u \<in> asserted t \<Longrightarrow> holds F \<sigma> u" "\<And>u. s_get_value S s2 u = Val (eval F \<sigma> u) (get_sort u)"
      with t(2) show ?thesis unfolding has_model_def by blast
    qed
  qed
  have "cex F sys bad ?n \<longleftrightarrow> r2 = SAT"
  proof (cases "r2 = SAT")
    case True
    with model show ?thesis unfolding trace_formula_exact satisfiable_def has_model_def by blast
  next
    case False
    then have ck: "s_check S s1 = (r2, s2)" using c2 by (auto split: if_splits)
    with False dec have "r2 = UNSAT" by (cases r2) auto
    with ck check_UNSAT have "\<not> satisfiable F (concat (frames s1) @ [])" by blast
    then have "\<not> satisfiable F ?X" using as1 unfolding satisfiable_def asserted_def by auto
    with False show ?thesis by (simp add: trace_formula_exact)
  qed
  with res(1) show "ok \<longleftrightarrow> cex F sys bad ?n" by simp
  show "ok \<Longrightarrow> \<exists>s \<sigma>. has_model s \<sigma> \<and> all_hold F \<sigma> ?X \<and> pr_witness q = pr_witness p @ map (witness_map E s) [0..<Suc ?n]"
    using res model by blast
qed

end

text \<open>C18: The search for a witness along the stored trace succeeds exactly when there is a
  counterexample of the trace's length, and then appends the values of all variables along one.\<close>

theorem ic3_witness_exact:
  assumes "smt_engine S F frames" and "ts_wf sys" and "covered prop (set (ts_statevars sys))" and "always_answers S"
    and "ie_prover N = make_env S sys prop" and "\<not> ic_reset_failed p" and "ic3_compute_witness N p = (ok, q)"
  shows "(ok \<longleftrightarrow> cex F sys (en_bad (make_env S sys prop)) (ic3_witness_length p))
    \<and> (ok \<longrightarrow> (\<exists>ws. pr_witness q = pr_witness p @ ws \<and> witnessed F sys prop (ic3_witness_length p) ws))"
proof -
  let ?E = "make_env S sys prop" and ?n = "ic3_witness_length p"
  have e: "safety_engine ?E F frames" by (rule make_env_engine [OF assms(1-3)])
  have dec: "s_check_assuming (en_solver ?E) as s \<noteq> (UNKNOWN, s')" for as s s' using answers [OF assms(4)] by simp
  note ws = safety_engine.ic3_witness_search [OF e assms(5) dec assms(6,7)]
  have "\<exists>ws. pr_witness q = pr_witness p @ ws \<and> witnessed F sys prop ?n ws" if ok
  proof -
    from ws(2) [OF that] obtain s \<sigma> where m: "safety_engine.has_model ?E F s \<sigma>"
      "all_hold F \<sigma> (safety_engine.trace_formula ?E ?n)"
      and q: "pr_witness q = pr_witness p @ map (witness_map ?E s) [0..<Suc ?n]" by blast
    from safety_engine.trace_model [OF e m] have "witnessed F sys prop ?n (map (witness_map ?E s) [0..<Suc ?n])"
      using env_bad(1) [OF assms(1)] unfolding witnessed_def by auto
    with q show ?thesis by blast
  qed
  with ws(1) show ?thesis by simp
qed

subsection \<open>An interrupted run\<close>

text \<open>Two state variables: \<open>y\<close> is \<open>x\<close> delayed, \<open>x\<close> is free, both are false initially.\<close>

abbreviation vy :: tm where "vy \<equiv> Sym ''y'' BOOL"

definition delay_ts :: ts where
  "delay_ts = (case run_calls plain_builder
      [MakeStatevar ''x'' BOOL, MakeStatevar ''y'' BOOL, SetInit (Node (op0 NotOp) BOOL [Node (op0 Or) BOOL [vx, vy]]),
       AssignNext vy vx] (empty_fts []) of
     Inl e \<Rightarrow> empty_fts [] | Inr ts \<Rightarrow> ts)"

definition delay_run :: "nat option \<Rightarrow> (prover_result \<times> (enum_state, unit) ic3) result" where
  "delay_run rq = ic3_check_until (make_ic3 (enum_solver (\<lambda>_ _. BoolVal False) no_decider) delay_ts
      (Node (op0 NotOp) BOOL [vy]) (default_ic3_opts\<lparr>io_pregen := False\<rparr>)
      (enum_reduce (\<lambda>_ _. BoolVal False) no_decider) lowest_goal (\<lambda>_. True) True False)
    9 9 4 (new_ic3 (ts_declared delay_ts) rq () enum_init)"

lemma delay_fields:
  "ts_init delay_ts = Node (op0 NotOp) BOOL [Node (op0 Or) BOOL [vx, vy]]"
  "ts_trans delay_ts = Node (op0 And) BOOL [tm_true, Node (op0 Equal) BOOL [Sym ''y.pono_generated__next'' BOOL, vx]]"
  "map_of (ts_curr_map delay_ts) (Sym ''y.pono_generated__next'' BOOL) = Some vy"
  "map_of (ts_curr_map delay_ts) vx = None"
  by code_simp+

lemma delay_cex: "cex F delay_ts vy 2"
proof -
  let ?\<pi> = "\<lambda>k :: nat. \<lambda>x. if x = (''x'', BOOL) then BoolVal (k = 1) else if x = (''y'', BOOL) then BoolVal (k = 2) else default_val (snd x)"
  have w: "wsorted (?\<pi> k)" for k by (simp add: wsorted_def default_val_carrier)
  have ag: "agree_funs (?\<pi> j) (?\<pi> k)" for j k by (auto simp: agree_funs_def)
  have "ts_initial F delay_ts (?\<pi> 0)" using w [of 0] by (simp add: ts_initial_def delay_fields sem_op_def)
  moreover have "ts_step F delay_ts (?\<pi> k) (?\<pi> (Suc k))" if "k < 2" for k
    using w ag that by (simp add: ts_step_def delay_fields pair_env_def sem_op_def)
  ultimately have "ts_path F delay_ts ?\<pi> 2" using w by (simp add: ts_path_def segment_def)
  moreover have "holds F (?\<pi> 2) vy" by simp
  ultimately show ?thesis unfolding cex_def by blast
qed

text \<open>C19: A request to terminate that arrives while goals are being blocked makes the engine answer
  \<open>TRUE\<close> with an alleged invariant, although the property fails after two steps.\<close>

theorem ic3_interrupted_claims_safety:
  "(case delay_run (Some 3) of Inl e \<Rightarrow> False | Inr (res, p) \<Rightarrow> res = PR_TRUE \<and> pr_invar p \<noteq> None)
    \<and> cex (\<lambda>_ _. BoolVal False) delay_ts vy 2"
proof
  show "case delay_run (Some 3) of Inl e \<Rightarrow> False | Inr (res, p) \<Rightarrow> res = PR_TRUE \<and> pr_invar p \<noteq> None"
    by code_simp
  show "cex (\<lambda>_ _. BoolVal False) delay_ts vy 2" by (rule delay_cex)
qed

subsection \<open>Concrete runs\<close>

abbreviation demo_goal :: tm where "demo_goal \<equiv> Node (op0 Or) BOOL [vx, Node (op0 NotOp) BOOL [vx]]"

text \<open>Every query of these runs is about Boolean symbols, so the solver never asks the decider \<open>D\<close>.\<close>

lemma demo_run_true:
  "case ic3_check_until (make_ic3 (enum_solver (\<lambda>_ _. BoolVal False) D) demo_ts demo_goal default_ic3_opts
      (enum_reduce (\<lambda>_ _. BoolVal False) D) lowest_goal (\<lambda>_. False) True True) 9 9 2
      (new_ic3 (ts_declared demo_ts) (Some 99) () enum_init) of
     Inl e \<Rightarrow> False | Inr (r, p) \<Rightarrow> r = PR_TRUE \<and> ic_request p \<noteq> Some 0"
  by code_simp

lemma demo_run_false:
  "case ic3_check_until (make_ic3 (enum_solver (\<lambda>_ _. BoolVal False) D) demo_ts (Node (op0 NotOp) BOOL [vx]) default_ic3_opts
      (enum_reduce (\<lambda>_ _. BoolVal False) D) lowest_goal (\<lambda>_. False) True True) 9 9 2
      (new_ic3 (ts_declared demo_ts) None () enum_init) of
     Inl e \<Rightarrow> False | Inr (r, p) \<Rightarrow> r = PR_FALSE"
  by code_simp

definition extract_sem :: theory_ops where
  "extract_sem p vs = (case (p, vs) of
     (Op Extract [i, j], [BVVal w a]) \<Rightarrow> BVVal 1 (a div 2 ^ i mod 2) | _ \<Rightarrow> BoolVal False)"

lemma extract_sem_ok: "extract_ok extract_sem"
  by (simp add: extract_ok_def extract_sem_def)

lemma demo_run_bits:
  "case ic3_check_until (make_ic3bits (enum_solver extract_sem D) demo_ts demo_goal default_ic3_opts
      (enum_reduce extract_sem D) lowest_goal (\<lambda>_. False) True True) 9 9 2
      (new_ic3 (ts_declared demo_ts) None [] enum_init) of
     Inl e \<Rightarrow> False | Inr (r, p) \<Rightarrow> r = PR_TRUE"
  by code_simp

lemma demo_goal_ready: "ic3_ready F demo_ts demo_goal" "ic3_ready F demo_ts (Node (op0 NotOp) BOOL [vx])"
  by (rule demo_ready, simp add: syms_in_def)+

theorem ic3_true_has_invariant_witness:
  "\<exists>p' N. N = make_ic3 (enum_solver (\<lambda>_ _. BoolVal False) (full_decider (\<lambda>_ _. BoolVal False))) demo_ts demo_goal
      default_ic3_opts (enum_reduce (\<lambda>_ _. BoolVal False) (full_decider (\<lambda>_ _. BoolVal False))) lowest_goal (\<lambda>_. False) True True
    \<and> ic3_check_until N 9 9 2 (new_ic3 (ts_declared demo_ts) (Some 99) () enum_init) = Inr (PR_TRUE, p')
    \<and> safe (\<lambda>_ _. BoolVal False) demo_ts (ie_bad N)"
proof -
  let ?F = "\<lambda>_ _. BoolVal False"
  let ?N = "make_ic3 (enum_solver ?F (full_decider ?F)) demo_ts demo_goal default_ic3_opts
      (enum_reduce ?F (full_decider ?F)) lowest_goal (\<lambda>_. False) True True"
  from demo_run_true [of "full_decider ?F"] obtain p' where
    p: "ic3_check_until ?N 9 9 2 (new_ic3 (ts_declared demo_ts) (Some 99) () enum_init) = Inr (PR_TRUE, p')"
    and rq: "ic_request p' \<noteq> Some 0"
    by (auto split: sum.splits)
  from ic3_true_has_invariant [OF full.smt_engine_axioms demo_goal_ready(1) enum_reducer_ok full_answers lowest_goal_picks _ _ _ p rq]
  have "safe ?F demo_ts (ie_bad ?N)" by (simp add: enum_init_def)
  with p show ?thesis by blast
qed

theorem ic3_other_answers_witness:
  "\<exists>p' N. N = make_ic3 (enum_solver (\<lambda>_ _. BoolVal False) (full_decider (\<lambda>_ _. BoolVal False))) demo_ts
      (Node (op0 NotOp) BOOL [vx]) default_ic3_opts
      (enum_reduce (\<lambda>_ _. BoolVal False) (full_decider (\<lambda>_ _. BoolVal False))) lowest_goal (\<lambda>_. False) True True
    \<and> ic3_check_until N 9 9 2 (new_ic3 (ts_declared demo_ts) None () enum_init) = Inr (PR_FALSE, p')
    \<and> cex (\<lambda>_ _. BoolVal False) demo_ts (ie_bad N) (ic3_witness_length p')"
proof -
  let ?F = "\<lambda>_ _. BoolVal False"
  let ?N = "make_ic3 (enum_solver ?F (full_decider ?F)) demo_ts (Node (op0 NotOp) BOOL [vx]) default_ic3_opts
      (enum_reduce ?F (full_decider ?F)) lowest_goal (\<lambda>_. False) True True"
  from demo_run_false [of "full_decider ?F"] obtain p' where
    p: "ic3_check_until ?N 9 9 2 (new_ic3 (ts_declared demo_ts) None () enum_init) = Inr (PR_FALSE, p')"
    by (auto split: sum.splits)
  from ic3_other_answers [OF full.smt_engine_axioms demo_goal_ready(2) enum_reducer_ok full_answers lowest_goal_picks _ _ _ p]
  have "cex ?F demo_ts (ie_bad ?N) (ic3_witness_length p')" by (simp add: enum_init_def)
  with p show ?thesis by blast
qed

theorem ic3bits_answers_right_witness:
  "\<exists>p'. ic3_answer extract_sem demo_ts (en_bad (make_env (enum_solver extract_sem (full_decider extract_sem)) demo_ts demo_goal))
      2 PR_TRUE p' \<and> ic3_check_until (make_ic3bits (enum_solver extract_sem (full_decider extract_sem)) demo_ts demo_goal default_ic3_opts
        (enum_reduce extract_sem (full_decider extract_sem)) lowest_goal (\<lambda>_. False) True True) 9 9 2
        (new_ic3 (ts_declared demo_ts) None [] enum_init) = Inr (PR_TRUE, p')"
proof -
  from demo_run_bits [of "full_decider extract_sem"] obtain p' where
    p: "ic3_check_until (make_ic3bits (enum_solver extract_sem (full_decider extract_sem)) demo_ts demo_goal default_ic3_opts
        (enum_reduce extract_sem (full_decider extract_sem)) lowest_goal (\<lambda>_. False) True True) 9 9 2
        (new_ic3 (ts_declared demo_ts) None [] enum_init) = Inr (PR_TRUE, p')"
    by (auto split: sum.splits)
  from ic3bits_answers_right [OF full.smt_engine_axioms demo_goal_ready(1) enum_reducer_ok full_answers lowest_goal_picks
      extract_sem_ok _ _ _ p] p show ?thesis by (auto simp: enum_init_def)
qed

definition demo_trace :: "(enum_state, unit) ic3" where
  "demo_trace = (new_ic3 [] None () enum_init)\<lparr>ic_cex := [vx, vx]\<rparr>"

theorem ic3_witness_exact_witness:
  "\<exists>N q ws. ic3_compute_witness N demo_trace = (True, q) \<and> pr_witness q = ws
    \<and> witnessed (\<lambda>_ _. BoolVal False) demo_ts (Node (op0 NotOp) BOOL [vx]) 1 ws"
proof -
  let ?F = "\<lambda>_ _. BoolVal False"
  let ?N = "\<lambda>D. make_ic3 (enum_solver ?F D) demo_ts (Node (op0 NotOp) BOOL [vx]) default_ic3_opts
      (enum_reduce ?F D) lowest_goal (\<lambda>_. False) True True"
  have "fst (ic3_compute_witness (?N D) demo_trace) = True" for D by code_simp
  from this [of "full_decider ?F"] obtain q where q: "ic3_compute_witness (?N (full_decider ?F)) demo_trace = (True, q)"
    by (metis prod.collapse)
  have "covered (Node (op0 NotOp) BOOL [vx]) (set (ts_statevars demo_ts))" by (simp add: covered_def demo_fields)
  moreover have "ie_prover (?N (full_decider ?F)) = make_env (enum_solver ?F (full_decider ?F)) demo_ts (Node (op0 NotOp) BOOL [vx])"
    "\<not> ic_reset_failed demo_trace" "ic3_witness_length demo_trace = 1" "pr_witness demo_trace = []"
    by (simp_all add: demo_trace_def new_ic3_def ic3_witness_length_def)
  ultimately show ?thesis
    using ic3_witness_exact [OF full.smt_engine_axioms demo_wf _ full_answers _ _ q] q by auto
qed

end
