(* ===== verification/Ic3_Subsumption.thy ===== *)
theory Ic3_Subsumption
  imports Ic3_Formula "HOL-Library.Multiset"
begin

section \<open>Subsumption of clauses\<close>

text \<open>
  The conjuncts of a formula are kept sorted, so the linear walk of \<open>std::includes\<close> decides
  inclusion of multisets; for clauses that is the order in which a clause makes another redundant.
\<close>

definition tm_le :: "smt_builder \<Rightarrow> tm \<Rightarrow> tm \<Rightarrow> bool" where
  "tm_le B x y \<longleftrightarrow> x = y \<or> term_less B x y"

context smt_terms
begin

lemma tm_le_trans: "tm_le B x y \<Longrightarrow> tm_le B y z \<Longrightarrow> tm_le B x z"
  using term_less_trans unfolding tm_le_def by blast

lemma sorted_insort: "sorted_wrt (tm_le B) us \<Longrightarrow> sorted_wrt (tm_le B) (insort_tm B t us)"
proof (induction us)
  case (Cons u us)
  show ?case
  proof (cases "term_less B u t")
    case True
    with Cons show ?thesis by (auto simp: tm_le_def)
  next
    case False
    then have "tm_le B t u" using term_less_total [of t u] by (auto simp: tm_le_def)
    with False Cons.prems tm_le_trans show ?thesis by auto
  qed
qed simp

lemma sorted_sort_tms: "sorted_wrt (tm_le B) (sort_tms B ts)"
  by (induction ts) (simp_all add: sort_tms_def sorted_insort)

lemma mset_insort: "mset (insort_tm B t us) = add_mset t (mset us)"
  by (induction us) simp_all

lemma mset_sort_tms: "mset (sort_tms B ts) = mset ts"
  by (induction ts) (simp_all add: sort_tms_def mset_insort)

lemma less_head:
  assumes "sorted_wrt (tm_le B) (b # bs)" and "term_less B a b"
  shows "a \<notin> set (b # bs)"
proof
  assume "a \<in> set (b # bs)"
  with assms(1) have "tm_le B b a" by (auto simp: tm_le_def)
  with assms(2) term_less_irrefl term_less_trans show False unfolding tm_le_def by blast
qed

lemma subset_add_other:
  assumes "x \<notin># M"
  shows "M \<subseteq># add_mset x N \<longleftrightarrow> M \<subseteq># N"
proof
  assume h: "M \<subseteq># add_mset x N"
  show "M \<subseteq># N"
  proof (rule mset_subset_eqI)
    fix y
    have "count M y \<le> count (add_mset x N) y" using h by (rule mset_subset_eq_count)
    then show "count M y \<le> count N y" using assms by (cases "y = x") (simp_all add: not_in_iff)
  qed
qed (simp add: subset_mset.order_trans)

lemma incl_sorted_exact:
  "sorted_wrt (tm_le B) bs \<Longrightarrow> sorted_wrt (tm_le B) as \<Longrightarrow> incl_sorted B bs as \<longleftrightarrow> mset as \<subseteq># mset bs"
proof (induction bs arbitrary: as)
  case Nil
  then show ?case by (cases as) simp_all
next
  case (Cons b bs)
  show ?case
  proof (cases as)
    case as: (Cons a as')
    consider "term_less B a b" | "\<not> term_less B a b" "term_less B b a" | "a = b" using term_less_total by blast
    then show ?thesis
    proof cases
      case 1
      with less_head [OF Cons.prems(1) 1] show ?thesis unfolding as by (auto dest!: mset_subset_eqD [of _ _ a])
    next
      case 2
      have "b \<notin># mset as" using less_head [of a as' b] Cons.prems(2) 2(2) by (simp add: as)
      from subset_add_other [OF this] Cons.IH [of as] Cons.prems 2 show ?thesis by (simp add: as)
    next
      case 3
      with Cons.IH [of as'] Cons.prems term_less_irrefl show ?thesis by (simp add: as)
    qed
  qed simp
qed

end

text \<open>C21: The subsumption test of two clauses succeeds exactly when every literal of the first occurs
  in the second, as often or more often, and then the first clause implies the second.\<close>

theorem clause_subsumption_exact:
  assumes "smt_terms B F" and "ic3formula_disjunction B cs = Inr a" and "ic3formula_disjunction B ds = Inr b"
  shows "(subsumes B a b \<longleftrightarrow> mset cs \<subseteq># mset ds) \<and> (subsumes B a b \<longrightarrow> (\<forall>\<sigma>. holds F \<sigma> (fterm a) \<longrightarrow> holds F \<sigma> (fterm b)))"
proof -
  obtain t u where t: "connect B Or cs = Inr t" "a = mk_formula B (Some t) cs True"
    and u: "connect B Or ds = Inr u" "b = mk_formula B (Some u) ds True"
    using assms(2,3) by (auto simp: ic3formula_disjunction_def bindE_Inr_iff)
  have "incl_sorted B (sort_tms B ds) (sort_tms B cs) \<longleftrightarrow> mset cs \<subseteq># mset ds"
    using smt_terms.incl_sorted_exact [OF assms(1)] smt_terms.sorted_sort_tms [OF assms(1)] smt_terms.mset_sort_tms [OF assms(1)]
    by simp
  moreover have "mset cs \<subseteq># mset ds \<Longrightarrow> length cs \<le> length ds" using size_mset_mono by fastforce
  ultimately have iff: "subsumes B a b \<longleftrightarrow> mset cs \<subseteq># mset ds" by (auto simp: subsumes_def t(2) u(2))
  have "holds F \<sigma> (fterm b)" if "subsumes B a b" "holds F \<sigma> (fterm a)" for \<sigma>
  proof -
    have "set cs \<subseteq> set ds" using that(1) iff set_mset_mono by fastforce
    with that(2) smt_terms.connect_Or [OF assms(1) t(1)] smt_terms.connect_Or [OF assms(1) u(1)] show ?thesis
      by (auto simp: t(2) u(2))
  qed
  with iff show ?thesis by blast
qed

theorem clause_subsumption_exact_witness:
  "\<exists>a b. ic3formula_disjunction plain_builder [Sym ''x'' BOOL] = Inr a
    \<and> ic3formula_disjunction plain_builder [Sym ''y'' BOOL, Sym ''x'' BOOL] = Inr b
    \<and> subsumes plain_builder a b \<and> \<not> subsumes plain_builder b a"
proof -
  let ?x = "[Sym ''x'' BOOL]" and ?y = "[Sym ''y'' BOOL, Sym ''x'' BOOL]"
  obtain a b where a: "ic3formula_disjunction plain_builder ?x = Inr a" and b: "ic3formula_disjunction plain_builder ?y = Inr b"
    by (simp add: ic3formula_disjunction_def connect_def)
  from clause_subsumption_exact [OF plain.smt_terms_axioms a b] clause_subsumption_exact [OF plain.smt_terms_axioms b a] a b
  show ?thesis by auto
qed

end
