(* ===== verification/Ic3_Dump.thy ===== *)
theory Ic3_Dump
  imports Ic3_Base
begin

section \<open>The dump of the frames of IC3 (dump_frames_to_json)\<close>

text \<open>
  The dump is modelled as the text that is written; opening, flushing and closing the file are
  not.  The statistics of the atoms are a list sorted by the text of the atom, as the
  \<open>std::map\<close> of the code; their counters are natural numbers.
\<close>

subsection \<open>Literals and statistics\<close>

definition esc_char :: "char \<Rightarrow> string" where
  "esc_char c = (if c = CHR 0x22 then [CHR 0x5C, CHR 0x22] else if c = CHR 0x5C then [CHR 0x5C, CHR 0x5C]
     else if c = CHR 0x0A then [CHR 0x5C, CHR ''n''] else if c = CHR 0x09 then [CHR 0x5C, CHR ''t''] else [c])"

definition json_escape :: "string \<Rightarrow> string" where
  "json_escape s = concat (map esc_char s)"

text \<open>A negation is counted for its argument; the argument of a nullary node does not exist.\<close>

definition literal_atom :: "smt_builder \<Rightarrow> tm \<Rightarrow> bool \<times> string" where
  "literal_atom B lit =
     (if get_op lit \<in> {Some (op0 NotOp), Some (op0 BVNot)} \<and> children lit \<noteq> [] then (True, term_str B (children lit ! 0))
      else (False, term_str B lit))"

record atom_stats =
  as_count :: nat
  as_pos :: nat
  as_neg :: nat
  as_min :: nat
  as_max :: nat

definition no_stats :: atom_stats where
  "no_stats = \<lparr>as_count = 0, as_pos = 0, as_neg = 0, as_min = 2 ^ 64 - 1, as_max = 0\<rparr>"

definition count_literal :: "nat \<Rightarrow> bool \<Rightarrow> atom_stats \<Rightarrow> atom_stats" where
  "count_literal i negated st =
     st\<lparr>as_count := as_count st + 1, as_neg := (if negated then as_neg st + 1 else as_neg st),
        as_pos := (if negated then as_pos st else as_pos st + 1), as_min := min i (as_min st), as_max := max i (as_max st)\<rparr>"

text \<open>The order of \<open>std::string\<close>.\<close>

fun str_less :: "string \<Rightarrow> string \<Rightarrow> bool" where
  "str_less [] [] = False"
| "str_less [] (y # ys) = True"
| "str_less (x # xs) [] = False"
| "str_less (x # xs) (y # ys) = (if x = y then str_less xs ys else (of_char x :: nat) < of_char y)"

fun update_stats :: "string \<Rightarrow> (atom_stats \<Rightarrow> atom_stats) \<Rightarrow> (string \<times> atom_stats) list \<Rightarrow> (string \<times> atom_stats) list" where
  "update_stats a f [] = [(a, f no_stats)]"
| "update_stats a f ((b, st) # m) =
     (if a = b then (b, f st) # m else if str_less a b then (a, f no_stats) # (b, st) # m
      else (b, st) # update_stats a f m)"

text \<open>The literals of the frames from the first one on, each with the number of its frame.\<close>

definition frame_literals :: "ic3_formula list list \<Rightarrow> (nat \<times> tm) list" where
  "frame_literals fs = concat (map (\<lambda>(i, Fi). concat (map (\<lambda>c. map (Pair i) (if_children c)) Fi)) (enumerate 1 (tl fs)))"

definition count_lit :: "smt_builder \<Rightarrow> nat \<times> tm \<Rightarrow> (string \<times> atom_stats) list \<Rightarrow> (string \<times> atom_stats) list" where
  "count_lit B = (\<lambda>(i, lit) m. let (negated, a) = literal_atom B lit in update_stats a (count_literal i negated) m)"

definition collect_stats :: "smt_builder \<Rightarrow> ic3_formula list list \<Rightarrow> (string \<times> atom_stats) list" where
  "collect_stats B fs = fold (count_lit B) (frame_literals fs) []"

subsection \<open>The text\<close>

abbreviation nl :: string where "nl \<equiv> [CHR 0x0A]"
abbreviation qt :: string where "qt \<equiv> [CHR 0x22]"

fun sep_by :: "string \<Rightarrow> string list \<Rightarrow> string" where
  "sep_by sep [] = []"
| "sep_by sep [x] = x"
| "sep_by sep (x # y # xs) = x @ sep @ sep_by sep (y # xs)"

definition json_key :: "string \<Rightarrow> string" where
  "json_key k = qt @ k @ qt @ '': ''"

definition json_text :: "string \<Rightarrow> string" where
  "json_text s = qt @ json_escape s @ qt"

definition dump_literal :: "smt_builder \<Rightarrow> tm \<Rightarrow> string" where
  "dump_literal B lit =
     (let (negated, a) = literal_atom B lit
      in ''            {'' @ json_key ''str'' @ json_text (term_str B lit) @ '', '' @ json_key ''negated''
         @ (if negated then ''true'' else ''false'') @ '', '' @ json_key ''atom'' @ json_text a @ ''}'')"

definition dump_clause :: "smt_builder \<Rightarrow> ic3_formula \<Rightarrow> string" where
  "dump_clause B c =
     ''        {'' @ nl @ ''          '' @ json_key ''clause_str'' @ json_text (term_str B (fterm c)) @ '','' @ nl
     @ ''          '' @ json_key ''num_literals'' @ nat_str (length (if_children c)) @ '','' @ nl
     @ ''          '' @ json_key ''literals'' @ ''['' @ nl @ sep_by ('','' @ nl) (map (dump_literal B) (if_children c))
     @ nl @ ''          ]'' @ nl @ ''        }''"

definition dump_frame :: "smt_builder \<Rightarrow> nat \<times> ic3_formula list \<Rightarrow> string" where
  "dump_frame B = (\<lambda>(i, Fi).
     ''    {'' @ nl @ ''      '' @ json_key ''level'' @ nat_str i @ '','' @ nl
     @ ''      '' @ json_key ''num_clauses'' @ nat_str (length Fi) @ '','' @ nl
     @ ''      '' @ json_key ''clauses'' @ ''['' @ nl @ sep_by ('','' @ nl) (map (dump_clause B) Fi)
     @ nl @ ''      ]'' @ nl @ ''    }'')"

definition dump_stats :: "string \<times> atom_stats \<Rightarrow> string" where
  "dump_stats = (\<lambda>(a, st). ''    '' @ json_text a @ '': {'' @ json_key ''count'' @ nat_str (as_count st)
     @ '', '' @ json_key ''pos_count'' @ nat_str (as_pos st) @ '', '' @ json_key ''neg_count'' @ nat_str (as_neg st)
     @ '', '' @ json_key ''min_frame'' @ nat_str (as_min st) @ '', '' @ json_key ''max_frame'' @ nat_str (as_max st) @ ''}'')"

definition dump_frames_to_json :: "smt_builder \<Rightarrow> string \<Rightarrow> ('s, 'd) ic3 \<Rightarrow> string" where
  "dump_frames_to_json B engine_name p =
     (let stats = collect_stats B (ic_frames p)
      in ''{'' @ nl @ ''  '' @ json_key ''engine'' @ json_text engine_name @ '','' @ nl
      @ ''  '' @ json_key ''num_frames'' @ nat_str (length (ic_frames p)) @ '','' @ nl
      @ ''  '' @ json_key ''frames'' @ ''['' @ nl @ sep_by ('','' @ nl) (map (dump_frame B) (enumerate 1 (tl (ic_frames p))))
      @ nl @ ''  ],'' @ nl
      @ ''  '' @ json_key ''all_atoms'' @ ''['' @ nl @ sep_by ('','' @ nl) (map (\<lambda>(a, st). ''    '' @ json_text a) stats)
      @ nl @ ''  ],'' @ nl
      @ ''  '' @ json_key ''atom_stats'' @ ''{'' @ nl @ sep_by ('','' @ nl) (map dump_stats stats)
      @ nl @ ''  }'' @ nl @ ''}'' @ nl)"

subsection \<open>Escaped strings are read back\<close>

text \<open>A reader of the rest of a JSON string, up to its closing quote (RFC 8259, section 7, without
  the escapes by code points, which are never written).\<close>

definition json_unescape :: "char \<Rightarrow> char option" where
  "json_unescape c = (if c \<in> {CHR 0x22, CHR 0x5C, CHR ''/''} then Some c else if c = CHR ''n'' then Some (CHR 0x0A)
     else if c = CHR ''t'' then Some (CHR 0x09) else if c = CHR ''b'' then Some (CHR 0x08)
     else if c = CHR ''f'' then Some (CHR 0x0C) else if c = CHR ''r'' then Some (CHR 0x0D) else None)"

fun json_read :: "string \<Rightarrow> (string \<times> string) option" where
  "json_read [] = None"
| "json_read (c # cs) =
     (if c = CHR 0x22 then Some ([], cs)
      else if c = CHR 0x5C then
        (case cs of [] \<Rightarrow> None
         | e # es \<Rightarrow> (case json_unescape e of None \<Rightarrow> None | Some d \<Rightarrow> map_option (\<lambda>(s, r). (d # s, r)) (json_read es)))
      else if (of_char c :: nat) < 32 then None
      else map_option (\<lambda>(s, r). (c # s, r)) (json_read cs))"

definition unescaped_control :: "char \<Rightarrow> bool" where
  "unescaped_control c \<longleftrightarrow> (of_char c :: nat) < 32 \<and> c \<noteq> CHR 0x0A \<and> c \<noteq> CHR 0x09"

lemma json_read_esc: "json_read (esc_char c @ s)
  = (if unescaped_control c then None else map_option (\<lambda>(t, r). (c # t, r)) (json_read s))"
  by (auto simp: esc_char_def unescaped_control_def json_unescape_def)

text \<open>C38: Reading back an escaped string gives the string, except that a control character other than
  newline and tab is written as it is, which makes the output invalid.\<close>

theorem json_escape_roundtrip:
  "json_read (json_escape s @ qt @ rest) = (if list_ex unescaped_control s then None else Some (s, rest))"
proof (induction s)
  case (Cons c s)
  have "json_escape (c # s) @ qt @ rest = esc_char c @ (json_escape s @ qt @ rest)" by (simp add: json_escape_def)
  with Cons show ?case by (simp add: json_read_esc)
qed (simp add: json_escape_def)

subsection \<open>The statistics\<close>

lemma str_less_irrefl [simp]: "\<not> str_less a a"
  by (induction a) simp_all

lemma str_less_trans: "str_less a b \<Longrightarrow> str_less b c \<Longrightarrow> str_less a c"
proof (induction a b arbitrary: c rule: str_less.induct)
  case (4 x xs y ys)
  then show ?case by (cases c) (auto split: if_splits)
qed (auto elim: str_less.elims)

lemma str_less_total: "a = b \<or> str_less a b \<or> str_less b a"
  by (induction a b rule: str_less.induct) (auto simp: not_less_iff_gr_or_eq)

lemma map_of_update_stats:
  assumes "sorted_wrt str_less (map fst m)"
  shows "map_of (update_stats a f m) = (map_of m)(a \<mapsto> f (case map_of m a of Some st \<Rightarrow> st | None \<Rightarrow> no_stats))"
  using assms
proof (induction m)
  case (Cons e m)
  obtain b st where e: "e = (b, st)" by (cases e)
  have "map_of m a = None" if "str_less a b"
  proof -
    have "str_less a c" if "c \<in> set (map fst m)" for c
      using Cons.prems that str_less_trans [OF \<open>str_less a b\<close>] by (auto simp: e)
    then have "a \<notin> set (map fst m)" using str_less_irrefl by blast
    then show ?thesis by (simp add: map_of_None_iff)
  qed
  with Cons show ?case by (auto simp: e fun_eq_iff)
qed simp

lemma set_update_stats: "set (map fst (update_stats a f m)) = insert a (set (map fst m))"
  by (induction a f m rule: update_stats.induct) auto

lemma sorted_update_stats: "sorted_wrt str_less (map fst m) \<Longrightarrow> sorted_wrt str_less (map fst (update_stats a f m))"
proof (induction m)
  case (Cons e m)
  obtain b st where e: "e = (b, st)" by (cases e)
  consider "a = b" | "a \<noteq> b" "str_less a b" | "a \<noteq> b" "\<not> str_less a b" "str_less b a"
    using str_less_total [of a b] by blast
  then show ?case
  proof cases
    case 2
    have "str_less a c" if "c \<in> set (map fst m)" for c
      using Cons.prems that str_less_trans [OF 2(2)] by (auto simp: e)
    with Cons.prems 2 show ?thesis by (simp add: e)
  next
    case 3
    have "\<forall>c \<in> set (map fst (update_stats a f m)). str_less b c"
      unfolding set_update_stats using Cons.prems 3(3) by (simp add: e)
    with Cons 3 show ?thesis by (simp add: e)
  qed (use Cons.prems in \<open>simp add: e\<close>)
qed simp

text \<open>The statistics of an atom, from the list of its occurrences.\<close>

definition occurrences :: "smt_builder \<Rightarrow> string \<Rightarrow> (nat \<times> tm) list \<Rightarrow> (nat \<times> bool) list" where
  "occurrences B a ls = map (\<lambda>(i, lit). (i, fst (literal_atom B lit))) (filter (\<lambda>(i, lit). snd (literal_atom B lit) = a) ls)"

definition stats_of :: "(nat \<times> bool) list \<Rightarrow> atom_stats" where
  "stats_of os = \<lparr>as_count = length os, as_pos = length (filter (Not \<circ> snd) os), as_neg = length (filter snd os),
     as_min = Min (insert (2 ^ 64 - 1) (fst ` set os)), as_max = Max (insert 0 (fst ` set os))\<rparr>"

lemma stats_of_snoc: "stats_of (os @ [(i, b)]) = count_literal i b (stats_of os)"
  by (simp add: stats_of_def count_literal_def insert_commute [of _ i])

lemma collect_step:
  assumes "sorted_wrt str_less (map fst m) \<and> (\<forall>a. map_of m a = (if occurrences B a ls = [] then None else Some (stats_of (occurrences B a ls))))"
  shows "sorted_wrt str_less (map fst (count_lit B l m)) \<and> (\<forall>a. map_of (count_lit B l m) a
    = (if occurrences B a (ls @ [l]) = [] then None else Some (stats_of (occurrences B a (ls @ [l])))))"
proof -
  obtain i lit where l: "l = (i, lit)" by (cases l)
  obtain n b where n: "literal_atom B lit = (n, b)" by (cases "literal_atom B lit")
  have c: "count_lit B l m = update_stats b (count_literal i n) m" by (simp add: count_lit_def l n)
  have "stats_of [] = no_stats" by (simp add: stats_of_def no_stats_def)
  moreover have "occurrences B a (ls @ [l]) = (if a = b then occurrences B a ls @ [(i, n)] else occurrences B a ls)" for a
    by (simp add: occurrences_def l n)
  moreover have "stats_of [(i, n)] = count_literal i n (stats_of [])" using stats_of_snoc [of "[]" i n] by simp
  ultimately show ?thesis
    using assms sorted_update_stats stats_of_snoc by (auto simp: c map_of_update_stats)
qed

text \<open>C36: The statistics list every atom of the frames once, in the order of their texts, with the
  number of its positive, negative and all occurrences and the first and the last frame it occurs in.\<close>

theorem atom_statistics_exact:
  "sorted_wrt str_less (map fst (collect_stats B fs))
    \<and> (\<forall>a. map_of (collect_stats B fs) a
        = (if occurrences B a (frame_literals fs) = [] then None else Some (stats_of (occurrences B a (frame_literals fs)))))"
proof -
  have "sorted_wrt str_less (map fst (fold (count_lit B) ls []))
    \<and> (\<forall>a. map_of (fold (count_lit B) ls []) a = (if occurrences B a ls = [] then None else Some (stats_of (occurrences B a ls))))" for ls
  proof (induction ls rule: rev_induct)
    case (snoc l ls)
    from collect_step [OF snoc] show ?case by simp
  qed (simp add: occurrences_def)
  then show ?thesis unfolding collect_stats_def by blast
qed

end
