(* ===== verification/Spec2Isabelle.thy ===== *)
theory Spec2Isabelle
  imports History_Correct Liveness_Correct Control_Correct Interpolation_Results Partial_Model
    Ts_Operations Ic3_Results Ic3_Subsumption Ic3_Dump
begin

text \<open>
  A verification development for the model checker Pono.

  \<^bold>\<open>The program.\<close>  Pono reads a symbolic transition system (initial states, transition
  relation, named terms over state, input and next-state variables), rewrites it with modifiers,
  and runs an engine that answers whether a property holds in every reachable state.  All terms
  live in smt-switch, a library that is not part of the repository; every engine talks to a solver
  through its assertion stack.  The parts depend on each other in the order of the table:

  \<^item> \<open>Pono_Prelude\<close>: exceptions as values of \<open>exn\<close>, results \<open>exn + 'a\<close>, association
    lists for hash maps and lists for hash sets.
  \<^item> \<open>Smt_Switch\<close>: the interface to smt-switch.  Sorts, operators and terms are the datatypes
    whose constructors the code inspects; building terms and solving are two records that every
    definition takes as an argument.  What the code relies on is stated in the locales
    \<open>smt_terms\<close> and \<open>smt_engine\<close>, which are interpreted on an executable builder and
    on an executable solver for Boolean symbols (with a decision procedure as a parameter for the
    rest), so that the witnesses run.
  \<^item> \<open>Ts\<close> models \<open>core/ts.cpp\<close>, \<open>core/rts.cpp\<close>, \<open>core/fts.cpp\<close>: the record
    \<open>ts\<close> has one field per data member, and there is one definition per member function.
    \<open>Ts_Invariant\<close> proves that the operations keep a system well formed and that the symbol
    checks decide what they should, \<open>Ts_Operations\<close> extends this to the operations that take
    variables from the solver, replace the behaviour or drop updates; \<open>Ts_Semantics\<close> gives paths, counterexamples and what an
    operation does to them; \<open>Ts_Updates\<close> shows that variables without update are free.
  \<^item> \<open>Unroller\<close> models \<open>core/unroller.cpp\<close> with its caches, and proves them equal to the
    cache-free \<open>unroll\<close> that the engines are then given; the unrolled formula is satisfiable
    exactly when there is a path.
  \<^item> \<open>Prover\<close> models \<open>engines/prover.cpp\<close>: what engines share, the witness.  The locale
    \<open>safety_engine\<close> collects what the proofs about engines need; it is interpreted for every
    environment that \<open>make_env\<close> builds.
  \<^item> \<open>Bmc\<close> and \<open>Kinduction\<close> model \<open>engines/bmc.cpp\<close>, \<open>engines/kinduction.cpp\<close>
    and \<open>engines/bmc_simplepath.cpp\<close> with all their options, and prove the answers right.
  \<^item> \<open>Interpolation\<close> models \<open>engines/interpolantmc.cpp\<close> and
    \<open>engines/interp_seq_mc.cpp\<close>.  The interpolating solver is the record
    \<open>interpolator\<close> with the locale \<open>interpolating\<close>; \<open>Bool_Interpolator\<close> is an
    instance.  \<open>Interpolation_Correct\<close>, \<open>Interp_Seq_Correct\<close> and
    \<open>Interpolation_Results\<close> hold the proofs and the answers.
  \<^item> \<open>Ic3_Formula\<close> (cubes, clauses and their subsumption) and \<open>Ic3_Base\<close> model
    \<open>engines/ic3base.cpp\<close>: the record \<open>ic3\<close> has the data members, the record
    \<open>ic3_env\<close> the options, the virtual functions and what comes from outside.
    \<open>Ic3_Flavours\<close> fills the virtual functions in from \<open>engines/ic3.cpp\<close> and
    \<open>engines/ic3bits.cpp\<close>, \<open>Ic3_Dump\<close> is the text of the dumped frames.  What a
    flavour must provide is the locale \<open>ic3_engine\<close>, in which the engine is proved right: the
    meaning of frames and traces (\<open>Ic3_Frames\<close>), the invariant of the engine and its solver
    (\<open>Ic3_Invariant\<close>), its queries (\<open>Ic3_Queries\<close>), relative induction and
    generalisation (\<open>Ic3_Blocking\<close>), proof goals (\<open>Ic3_Goals\<close>), propagation
    (\<open>Ic3_Run\<close>) and the main loop (\<open>Ic3_Correct\<close>).  A request to terminate, which a signal handler makes, is part of the
    state: the theorems say which answers it spoils.  \<open>Ic3_Results\<close> states the
    answers of both flavours and \<open>Ic3_Subsumption\<close> that the subsumption test is exact.
  \<^item> \<open>Modifiers\<close> models the functions that add variables to a system (history, prophecy,
    monitor, clock, reset, liveness to safety, input promotion, invariant checking) from
    \<open>modifiers/\<close> and \<open>utils/\<close>.  \<open>Ts_Extension\<close> says what such an extension is;
    \<open>Modifiers_Correct\<close>, \<open>History_Correct\<close>, \<open>Control_Correct\<close> and
    \<open>Liveness_Correct\<close> prove what the behaviours of the new system are.
  \<^item> \<open>Str_Util\<close>, \<open>Solver_Values\<close> and \<open>Partial_Model\<close> model \<open>utils/str_util.cpp\<close>,
    the reading of solver values in \<open>utils/syntax_analysis_common.cpp\<close>, and
    \<open>utils/partial_model.cpp\<close>.

  \<^bold>\<open>Fuel.\<close>  A loop the code does not bound takes a number of rounds and returns
  \<open>OutOfFuel\<close> when they are used up.  For the bounded engines the answer is proved for every
  fuel above the number of bounds; for the lazy simple-path loop of k-induction a sufficient fuel
  is part of the theorem; the theorems about interpolation and IC3 speak of runs that return,
  and their witnesses are such runs.

  \<^bold>\<open>Not modelled.\<close>  The state of an object after it has thrown, most assertions of the program (those
  of the IC3 engines are part of the model), logging, timing, output
  streams and the command line; the other engines (with the flavours of IC3 that abstract and refine) and
  the front ends, see the manifest.
\<close>

end
